(* ===== verification/Hiom_Prelude.thy ===== *)
theory Hiom_Prelude
  imports Main "HOL-Library.Word" "HOL-Library.Multiset"
begin

text \<open>
  Shared vocabulary of the development: the fixed-width integer types of the C++ sources as
  words, the collections of simplification rules the components extend, and the generic facts
  about words, lists and first-match scans that the component theories rest on.
\<close>

unbundle bit_operations_syntax

type_synonym u8 = "8 word"
type_synonym u16 = "16 word"
type_synonym u32 = "32 word"
type_synonym u64 = "64 word"

text \<open>
  \<open>layout\<close> collects the unfoldings of packed-word accessors, \<open>op_defs\<close> the definitions of
  operations, \<open>frame\<close> the facts that say which part of a state an operation leaves alone and
  \<open>preserve\<close> the invariant-preservation lemmas.
\<close>

named_theorems layout
named_theorems op_defs
named_theorems frame
named_theorems preserve

section \<open>First-match scans\<close>

text \<open>
  Most probe loops of the sources have the shape \<open>for i in [0, n): if P(i) return i\<close>.
  \<open>first_idx n P\<close> is that loop: the least index below \<open>n\<close> that satisfies \<open>P\<close>, if any.
\<close>

fun scan_from :: "nat \<Rightarrow> nat \<Rightarrow> (nat \<Rightarrow> bool) \<Rightarrow> nat option" where
  "scan_from i 0 P = None"
| "scan_from i (Suc n) P = (if P i then Some i else scan_from (Suc i) n P)"

definition first_idx :: "nat \<Rightarrow> (nat \<Rightarrow> bool) \<Rightarrow> nat option" where
  "first_idx n P = scan_from 0 n P"

lemma scan_from_SomeD:
  "scan_from i n P = Some k \<Longrightarrow> i \<le> k \<and> k < i + n \<and> P k \<and> (\<forall>j. i \<le> j \<and> j < k \<longrightarrow> \<not> P j)"
proof (induction n arbitrary: i)
  case (Suc n)
  show ?case
  proof (cases "P i")
    case False
    with Suc.prems have "scan_from (Suc i) n P = Some k" by simp
    from Suc.IH [OF this] False show ?thesis
      by (metis Suc_leD Suc_le_eq add_Suc_right add_Suc_shift le_neq_implies_less)
  qed (use Suc.prems in auto)
qed simp

lemma scan_from_NoneD: "scan_from i n P = None \<Longrightarrow> i \<le> j \<Longrightarrow> j < i + n \<Longrightarrow> \<not> P j"
proof (induction n arbitrary: i)
  case (Suc n)
  then have "\<not> P i" and "scan_from (Suc i) n P = None" by (auto split: if_splits)
  with Suc.IH [of "Suc i"] Suc.prems show ?case by (cases "i = j") auto
qed simp

lemma scan_from_cong:
  "i = i' \<Longrightarrow> n = n' \<Longrightarrow> (\<And>k. i \<le> k \<Longrightarrow> k < i + n \<Longrightarrow> P k = Q k) \<Longrightarrow>
   scan_from i n P = scan_from i' n' Q"
  by (induction i n P arbitrary: i' n' rule: scan_from.induct) auto

lemma first_idx_SomeD:
  "first_idx n P = Some k \<Longrightarrow> k < n \<and> P k \<and> (\<forall>j < k. \<not> P j)"
  by (drule scan_from_SomeD [of 0 n P k, unfolded first_idx_def [symmetric]]) auto

lemma first_idx_NoneD: "first_idx n P = None \<Longrightarrow> j < n \<Longrightarrow> \<not> P j"
  by (auto dest: scan_from_NoneD simp: first_idx_def)

lemma first_idx_None_iff: "first_idx n P = None \<longleftrightarrow> (\<forall>j < n. \<not> P j)"
  by (metis first_idx_NoneD first_idx_SomeD not_None_eq)

lemma first_idx_Some_iff: "first_idx n P = Some k \<longleftrightarrow> k < n \<and> P k \<and> (\<forall>j < k. \<not> P j)"
  by (metis first_idx_NoneD first_idx_SomeD linorder_neqE_nat not_None_eq option.inject)

lemma first_idx_cong:
  "(\<And>k. k < n \<Longrightarrow> P k = Q k) \<Longrightarrow> first_idx n P = first_idx n Q"
  unfolding first_idx_def by (rule scan_from_cong) auto

lemma first_idx_unique:
  "k < n \<Longrightarrow> P k \<Longrightarrow> (\<And>j. j < n \<Longrightarrow> P j \<Longrightarrow> j = k) \<Longrightarrow> first_idx n P = Some k"
  by (metis first_idx_NoneD first_idx_SomeD not_None_eq)

section \<open>Words\<close>

lemma le_mask_take_bit:
  fixes w :: "'a::len word"
  assumes "w \<le> mask n"
  shows "take_bit n w = w"
proof (cases "n < LENGTH('a)")
  case True
  from assms have "uint w \<le> uint (mask n :: 'a word)" by (simp add: word_le_def)
  also have "\<dots> = mask n" using True by transfer simp
  also have "\<dots> < 2 ^ n" by (simp add: mask_eq_exp_minus_1)
  finally have "take_bit n (uint w) = uint w" by (simp add: take_bit_int_eq_self)
  then show ?thesis by (intro word_uint_eqI) (simp add: unsigned_take_bit_eq)
next
  case False
  then show ?thesis by (intro bit_word_eqI) (simp add: bit_simps)
qed

lemma bit_take_bit_selfD:
  fixes w :: "'a::len word"
  assumes "take_bit n w = w" and "bit w i"
  shows "i < n"
  using assms by (metis bit_take_bit_iff)

lemma take_bit_selfI:
  fixes w :: "'a::len word"
  assumes "\<And>i. bit w i \<Longrightarrow> i < n"
  shows "take_bit n w = w"
  using assms by (intro bit_word_eqI) (auto simp: bit_take_bit_iff)

lemma ucast_le_mask_take_bit:
  fixes w :: "'a::len word"
  assumes "(ucast w :: 'b::len word) \<le> mask n" and "LENGTH('a) \<le> LENGTH('b)"
  shows "take_bit n w = w"
proof (rule take_bit_selfI)
  fix i assume i: "bit w i"
  then have "i < LENGTH('a)" by (rule bit_imp_le_length)
  with i assms(2) have "bit (ucast w :: 'b word) i" by (simp add: bit_simps)
  with le_mask_take_bit [OF assms(1)] show "i < n" by (rule bit_take_bit_selfD)
qed

lemma unat_ucast_up:
  fixes w :: "'a::len word"
  assumes "LENGTH('a) \<le> LENGTH('b::len)"
  shows "unat (ucast w :: 'b word) = unat w"
proof -
  have "unat w < 2 ^ LENGTH('a)" by (rule unsigned_less)
  also have "\<dots> \<le> 2 ^ LENGTH('b)" using assms by simp
  finally show ?thesis by (simp add: unsigned_ucast_eq take_bit_nat_eq_self)
qed

lemma unat_take_bit_less: "unat (take_bit n w) < 2 ^ n" for w :: "'a::len word"
  by (simp add: unsigned_take_bit_eq)

lemma word_xor_cancel_right [simp]: "a XOR c = b XOR c \<longleftrightarrow> a = b" for a b c :: "'a::len word"
proof
  assume "a XOR c = b XOR c"
  then have "(a XOR c) XOR c = (b XOR c) XOR c" by simp
  then show "a = b" by (simp only: xor.assoc xor_self_eq xor.right_neutral)
qed simp

lemma word_xor_cancel_left [simp]: "c XOR a = c XOR b \<longleftrightarrow> a = b" for a b c :: "'a::len word"
  by (simp add: xor.commute [of c])

lemma word_bit_out_of_range:
  fixes w :: "'a::len word"
  assumes "LENGTH('a) \<le> i"
  shows "\<not> bit w i"
  using assms by (simp add: impossible_bit)

end
