(* ===== verification/Offset_Codec.thy ===== *)
theory Offset_Codec
  imports Hiom_Prelude
begin

text \<open>
  Packed record addresses: \<open>viper::KeyValueOffset\<close> (cceh.hpp), the 64-bit union of a 45-bit
  block, a 3-bit page and a 16-bit slot, and the 32-bit compact form that the hot tier keeps
  (hiom/offset_codec.hpp). The lemmas are the round trips between the three representations,
  the exact conditions under which \<open>encode\<close> refuses, and that the two reserved bit patterns
  (tombstone, invalid compact offset) are never produced for a record that can exist.
\<close>

section \<open>KeyValueOffset\<close>

definition INVALID_OFFSET :: u64 where
  "INVALID_OFFSET = 0xFFFFFFFFFFFFFFFF"

text \<open>The bit-field constructor \<open>KeyValueOffset(block, page, slot)\<close> truncates each argument
  to its field width, as C++ bit-field initialisation does.\<close>

definition KeyValueOffset :: "u64 \<Rightarrow> u8 \<Rightarrow> u16 \<Rightarrow> u64" where
  "KeyValueOffset block page slot =
     take_bit 45 block OR push_bit 45 (take_bit 3 (ucast page)) OR push_bit 48 (ucast slot)"

definition block_number :: "u64 \<Rightarrow> u64" where
  "block_number off = take_bit 45 off"

definition page_number :: "u64 \<Rightarrow> u8" where
  "page_number off = ucast (take_bit 3 (drop_bit 45 off))"

definition data_offset :: "u64 \<Rightarrow> u16" where
  "data_offset off = ucast (drop_bit 48 off)"

definition get_offsets :: "u64 \<Rightarrow> u64 \<times> u8 \<times> u16" where
  "get_offsets off = (block_number off, page_number off, data_offset off)"

definition Tombstone :: u64 where
  "Tombstone = INVALID_OFFSET"

definition is_tombstone :: "u64 \<Rightarrow> bool" where
  "is_tombstone off \<longleftrightarrow> off = INVALID_OFFSET"

section \<open>Compact offsets\<close>

definition kInvalidCompactOffset :: u32 where
  "kInvalidCompactOffset = 0xFFFFFFFF"

definition kBlockLowBits :: nat where "kBlockLowBits = 21"
definition kPageBits :: nat where "kPageBits = 3"
definition kDataOffsetBits :: nat where "kDataOffsetBits = 8"
definition kBlockLowMask :: u64 where "kBlockLowMask = mask kBlockLowBits"
definition kPageMask :: u64 where "kPageMask = mask kPageBits"
definition kDataOffMask :: u64 where "kDataOffMask = mask kDataOffsetBits"
definition kNumRegions :: nat where "kNumRegions = 32"

text \<open>\<open>BlockBaseMap\<close> is \<open>std::array<uint32_t, 32>\<close>.\<close>

type_synonym base_map = "u32 list"

definition base_map_ok :: "base_map \<Rightarrow> bool" where
  "base_map_ok bm \<longleftrightarrow> length bm = kNumRegions"

definition region_base :: "base_map \<Rightarrow> nat \<Rightarrow> u64" where
  "region_base bm region_id = push_bit kBlockLowBits (ucast (bm ! region_id))"

definition encode :: "u64 \<Rightarrow> u8 \<Rightarrow> u16 \<Rightarrow> nat \<Rightarrow> base_map \<Rightarrow> u32 option" where
  "encode block page dat region_id bm =
    (if region_id \<ge> kNumRegions then None else
     let base = region_base bm region_id in
     if block < base then None else
     let low = block - base in
     if low > kBlockLowMask then None
     else if ucast page > kPageMask then None
     else if ucast dat > kDataOffMask then None
     else
       let packed = push_bit (kPageBits + kDataOffsetBits) (ucast low)
                    OR push_bit kDataOffsetBits (ucast (page AND ucast kPageMask))
                    OR ucast dat
       in if packed = kInvalidCompactOffset then None else Some packed)"

record DecodedOffset =
  d_block_number :: u64
  d_page_number :: u8
  d_data_offset :: u16

definition decode :: "u32 \<Rightarrow> nat \<Rightarrow> base_map \<Rightarrow> DecodedOffset" where
  "decode packed region_id bm =
    (let low = ucast (drop_bit (kPageBits + kDataOffsetBits) packed) AND kBlockLowMask;
         base = (if region_id < kNumRegions then region_base bm region_id else 0)
     in \<lparr> d_block_number = base + low,
          d_page_number = ucast (ucast (drop_bit kDataOffsetBits packed) AND kPageMask),
          d_data_offset = ucast (ucast packed AND kDataOffMask) \<rparr>)"

definition route_to_region_default :: nat where
  "route_to_region_default = 0"

text \<open>The idiom \<open>KVOffset{decode(packed, route_to_region_default(), base_map_)}\<close> of hiom.hpp.\<close>

definition decode_kv :: "base_map \<Rightarrow> u32 \<Rightarrow> u64" where
  "decode_kv bm packed =
    (let d = decode packed route_to_region_default bm
     in KeyValueOffset (d_block_number d) (d_page_number d) (d_data_offset d))"

text \<open>The idiom \<open>encode(off.get_offsets(), route_to_region_default(), base_map_)\<close>.\<close>

definition encode_kv :: "base_map \<Rightarrow> u64 \<Rightarrow> u32 option" where
  "encode_kv bm off =
    (case get_offsets off of (block, page, slot) \<Rightarrow>
       encode block page slot route_to_region_default bm)"

lemmas codec_consts = kBlockLowBits_def kPageBits_def kDataOffsetBits_def kBlockLowMask_def
  kPageMask_def kDataOffMask_def kNumRegions_def

lemmas kv_fields = block_number_def page_number_def data_offset_def

section \<open>Round trips\<close>

lemma KeyValueOffset_fields [simp]:
  shows block_number_KeyValueOffset: "block_number (KeyValueOffset b p s) = take_bit 45 b"
    and page_number_KeyValueOffset: "page_number (KeyValueOffset b p s) = take_bit 3 p"
    and data_offset_KeyValueOffset: "data_offset (KeyValueOffset b p s) = s"
  by (rule bit_word_eqI; auto simp: kv_fields KeyValueOffset_def bit_simps)+

lemma KeyValueOffset_of_fields [simp]:
  "KeyValueOffset (block_number off) (page_number off) (data_offset off) = off"
proof (rule bit_word_eqI)
  fix n assume "n < LENGTH(64)"
  then consider "n < 45" | "45 \<le> n" "n < 48" | "48 \<le> n" "n < 64" by fastforce
  then show "bit (KeyValueOffset (block_number off) (page_number off) (data_offset off)) n
    = bit off n"
    by cases (auto simp: kv_fields KeyValueOffset_def bit_simps)
qed

lemma kv_eq_iff:
  "a = b \<longleftrightarrow> block_number a = block_number b \<and> page_number a = page_number b
     \<and> data_offset a = data_offset b"
  by (metis KeyValueOffset_of_fields)

lemma tombstone_fields:
  "page_number INVALID_OFFSET = 7"
  by (simp add: INVALID_OFFSET_def page_number_def)

lemma not_tombstone_page: "page_number off \<noteq> 7 \<Longrightarrow> \<not> is_tombstone off"
  by (auto simp: is_tombstone_def tombstone_fields)

lemma page_number_less_8: "unat (page_number off) < 8"
proof -
  have "page_number off = take_bit 3 (page_number off)"
    by (rule bit_word_eqI) (auto simp: page_number_def bit_simps)
  then have "unat (page_number off) < 2 ^ 3" by (metis unat_take_bit_less)
  then show ?thesis by simp
qed

lemma region_base_low:
  assumes "region_base bm r \<le> block" and "block - region_base bm r \<le> kBlockLowMask"
  shows "take_bit 21 (block - region_base bm r) = block - region_base bm r"
  using le_mask_take_bit [OF assms(2) [unfolded codec_consts]] .

lemma encode_SomeD:
  assumes "encode block page dat r bm = Some packed"
  shows "r < 32" and "region_base bm r \<le> block"
    and "take_bit 21 (block - region_base bm r) = block - region_base bm r"
    and "take_bit 3 page = page" and "take_bit 8 dat = dat"
    and "packed = push_bit 11 (ucast (block - region_base bm r)) OR push_bit 8 (ucast page) OR ucast dat"
    and "packed \<noteq> kInvalidCompactOffset"
proof -
  have page: "take_bit 3 page = page" if "ucast page \<le> kPageMask"
    using ucast_le_mask_take_bit [where 'b = 64 and w = page and n = 3] that by (simp add: codec_consts)
  have dat: "take_bit 8 dat = dat" if "ucast dat \<le> kDataOffMask"
    using ucast_le_mask_take_bit [where 'b = 64 and w = dat and n = 8] that by (simp add: codec_consts)
  have pm: "page AND ucast kPageMask = take_bit 3 page"
    by (rule bit_word_eqI) (auto simp: codec_consts bit_simps)
  from assms show "r < 32" and "region_base bm r \<le> block"
    and "take_bit 21 (block - region_base bm r) = block - region_base bm r"
    and p: "take_bit 3 page = page" and "take_bit 8 dat = dat"
    and "packed = push_bit 11 (ucast (block - region_base bm r)) OR push_bit 8 (ucast page) OR ucast dat"
    and "packed \<noteq> kInvalidCompactOffset"
    using page dat region_base_low [of bm r block]
    by (auto simp: encode_def Let_def pm not_less not_le kNumRegions_def kPageBits_def
        kDataOffsetBits_def split: if_splits)
qed

lemma decode_encode:
  assumes "encode block page dat r bm = Some packed"
  shows "decode packed r bm
    = \<lparr> d_block_number = block, d_page_number = page, d_data_offset = dat \<rparr>"
proof -
  note E = encode_SomeD [OF assms]
  let ?low = "block - region_base bm r"
  note sel = E(3-5) [THEN bit_take_bit_selfD]
  have low: "ucast (drop_bit 11 packed) AND mask 21 = ?low"
    by (rule bit_word_eqI) (auto simp: E(6) bit_simps dest: sel)
  have page: "ucast (ucast (drop_bit 8 packed) AND mask 3 :: u64) = page"
    by (rule bit_word_eqI) (auto simp: E(6) bit_simps dest: sel)
  have dat: "ucast (ucast packed AND mask 8 :: u64) = dat"
    by (rule bit_word_eqI) (auto simp: E(6) bit_simps dest: sel)
  from low page dat E(1) show ?thesis
    by (simp add: decode_def Let_def codec_consts)
qed

lemma kv_block_take [simp]: "take_bit 45 (block_number off) = block_number off"
  by (simp add: block_number_def)

lemma kv_page_take [simp]: "take_bit 3 (page_number off) = page_number off"
  by (rule bit_word_eqI) (auto simp: page_number_def bit_simps)

lemma decode_kv_encode_kv:
  "encode_kv bm off = Some packed \<Longrightarrow> decode_kv bm packed = off"
  by (auto simp: encode_kv_def decode_kv_def get_offsets_def dest: decode_encode)

text \<open>The packed word as a mixed-radix number: the three fields do not overlap.\<close>

lemma packed_arith:
  fixes low :: u64 and page :: u8 and dat :: u16
  assumes "take_bit 21 low = low" "take_bit 3 page = page" "take_bit 8 dat = dat"
  shows "push_bit 11 (ucast low) OR push_bit 8 (ucast page) OR ucast dat
    = (ucast low * 2048 + ucast page * 256 + ucast dat :: u32)"
proof -
  note sel = assms [THEN bit_take_bit_selfD]
  have "push_bit 8 (ucast page) OR ucast dat = push_bit 8 (ucast page) + (ucast dat :: u32)"
    by (rule disjunctive_add_eq_or [symmetric], rule bit_word_eqI)
      (auto simp: bit_simps dest: sel)
  moreover have "push_bit 11 (ucast low) OR (push_bit 8 (ucast page) OR ucast dat)
    = push_bit 11 (ucast low) + (push_bit 8 (ucast page) OR (ucast dat :: u32))"
    by (rule disjunctive_add_eq_or [symmetric], rule bit_word_eqI)
      (auto simp: bit_simps dest: sel)
  ultimately show ?thesis by (simp add: push_bit_eq_mult ac_simps)
qed

text \<open>A compact offset with a page below \<open>NUM_DIMMS\<close> (6) is never the reserved pattern.\<close>

lemma packed_not_invalid:
  fixes low :: u64 and page :: u8 and dat :: u16
  assumes "take_bit 8 dat = dat" "page < 7"
  shows "push_bit 11 (ucast low) OR push_bit 8 (ucast page) OR ucast dat \<noteq> kInvalidCompactOffset"
proof
  assume eq: "push_bit 11 (ucast low) OR push_bit 8 (ucast page) OR ucast dat = kInvalidCompactOffset"
  have "bit page i" if "i < 3" for i
  proof -
    have inv: "kInvalidCompactOffset = - 1" by (simp add: kInvalidCompactOffset_def)
    have "bit kInvalidCompactOffset (8 + i)"
      unfolding inv bit_minus_1_iff using that by (simp add: possible_bit_def)
    then have "bit (push_bit 11 (ucast low) OR push_bit 8 (ucast page) OR ucast dat :: u32) (8 + i)"
      by (simp add: eq)
    with that show ?thesis by (auto simp: bit_simps dest: bit_take_bit_selfD [OF assms(1)])
  qed
  then have "take_bit 3 page = mask 3"
    by (intro bit_word_eqI) (auto simp: bit_simps bit_mask_iff)
  then have "mask 3 \<le> page" by (metis take_bit_eq_mask word_and_le2)
  with assms(2) show False by (simp add: mask_eq_exp_minus_1)
qed

lemma encode_defined:
  assumes "r < 32" "region_base bm r \<le> block" "block - region_base bm r \<le> mask 21"
    "page < 7" "dat \<le> mask 8"
  shows "encode block page dat r bm
    = Some (ucast (block - region_base bm r) * 2048 + ucast page * 256 + ucast dat)"
proof -
  let ?low = "block - region_base bm r"
  have low: "take_bit 21 ?low = ?low" using assms(3) by (rule le_mask_take_bit)
  have "page \<le> mask 3" using assms(4) by (simp add: mask_eq_exp_minus_1 word_less_nat_alt word_le_nat_alt)
  then have page: "take_bit 3 page = page" by (rule le_mask_take_bit)
  have dat: "take_bit 8 dat = dat" using assms(5) by (rule le_mask_take_bit)
  have pm: "page AND ucast kPageMask = page"
    by (subst page [symmetric], rule bit_word_eqI) (auto simp: codec_consts bit_simps dest: bit_take_bit_selfD [OF page])
  have "ucast page \<le> kPageMask" using assms(4)
    by (simp add: codec_consts mask_eq_exp_minus_1 word_less_nat_alt word_le_nat_alt unat_ucast_up)
  moreover have "ucast dat \<le> kDataOffMask" using assms(5)
    by (simp add: codec_consts mask_eq_exp_minus_1 word_le_nat_alt unat_ucast_up)
  ultimately show ?thesis
    using assms packed_not_invalid [OF dat assms(4), of ?low]
    by (auto simp: encode_def Let_def pm kNumRegions_def kBlockLowMask_def kBlockLowBits_def
        kPageBits_def kDataOffsetBits_def not_less packed_arith [OF low page dat])
qed

lemma unat_region_base: "unat (region_base bm r) = 2097152 * unat (bm ! r)"
proof -
  have "unat (bm ! r) < 2 ^ 32" using unsigned_less [of "bm ! r"] by simp
  then show ?thesis
    by (simp add: region_base_def kBlockLowBits_def push_bit_eq_mult unat_word_ariths unat_ucast_up)
qed

lemma region_base_no_overflow:
  fixes low :: u64
  assumes "low \<le> mask 21"
  shows "region_base bm r \<le> region_base bm r + low"
proof -
  have "unat (bm ! r) < 2 ^ 32" using unsigned_less [of "bm ! r"] by simp
  moreover have "unat low < 2097152"
    using assms by (simp add: word_le_nat_alt mask_eq_exp_minus_1)
  ultimately have "unat (region_base bm r) + unat low < 2 ^ 64" by (simp add: unat_region_base)
  then show ?thesis by (simp add: word_le_nat_alt unat_word_ariths)
qed

lemma encode_decode:
  assumes "r < 32" and "packed \<noteq> kInvalidCompactOffset"
  shows "encode (d_block_number (decode packed r bm)) (d_page_number (decode packed r bm))
      (d_data_offset (decode packed r bm)) r bm = Some packed"
proof -
  define low where "low = ucast (drop_bit 11 packed) AND (mask 21 :: u64)"
  define page :: u8 where "page = ucast (ucast (drop_bit 8 packed) AND (mask 3 :: u64))"
  define dat :: u16 where "dat = ucast (ucast packed AND (mask 8 :: u64))"
  have fields: "decode packed r bm = \<lparr> d_block_number = region_base bm r + low,
      d_page_number = page, d_data_offset = dat \<rparr>"
    using assms(1) by (simp add: decode_def Let_def codec_consts low_def page_def dat_def)
  have low: "low \<le> mask 21" by (simp add: low_def word_and_le1)
  have page: "ucast page \<le> (mask 3 :: u64)"
  proof -
    have "ucast page = (ucast page AND mask 3 :: u64)"
      by (rule bit_word_eqI) (auto simp: page_def bit_simps)
    then show ?thesis by (metis word_and_le1)
  qed
  have dat: "ucast dat \<le> (mask 8 :: u64)"
  proof -
    have "ucast dat = (ucast dat AND mask 8 :: u64)"
      by (rule bit_word_eqI) (auto simp: dat_def bit_simps)
    then show ?thesis by (metis word_and_le1)
  qed
  have whole: "push_bit 11 (ucast low) OR push_bit 8 (ucast (page AND ucast (mask 3 :: u64))) OR ucast dat
      = packed"
  proof (rule bit_word_eqI)
    fix n assume "n < LENGTH(32)"
    then consider "n < 8" | "8 \<le> n" "n < 11" | "11 \<le> n" "n < 32" by fastforce
    then show "bit (push_bit 11 (ucast low) OR push_bit 8 (ucast (page AND ucast (mask 3 :: u64)))
        OR ucast dat :: u32) n = bit packed n"
      by cases (auto simp: low_def page_def dat_def bit_simps)
  qed
  show ?thesis
    using assms low page dat region_base_no_overflow [OF low, of bm r] whole
    by (simp add: fields encode_def Let_def codec_consts not_less)
qed

section \<open>Properties\<close>

text \<open>C19. Round trip of the compact codec: whatever \<open>encode\<close> accepts, \<open>decode\<close> returns
  unchanged, and every 32-bit pattern except the reserved one is the encoding of exactly the
  triple it decodes to. The two functions are mutually inverse bijections, so a hot-tier slot
  never names a record other than the one it was written for.\<close>

theorem offset_codec_bijective:
  assumes "r < kNumRegions"
  shows "encode block page dat r bm = Some packed \<longleftrightarrow>
    packed \<noteq> kInvalidCompactOffset \<and>
    decode packed r bm = \<lparr> d_block_number = block, d_page_number = page, d_data_offset = dat \<rparr>"
  using assms encode_decode [of r packed bm] encode_SomeD(7) decode_encode
  by (fastforce simp: kNumRegions_def)

theorem offset_codec_bijective_witness:
  "encode 5 2 9 0 (replicate 32 0) = Some 10761 \<and> (10761::u32) \<noteq> kInvalidCompactOffset"
proof -
  have "decode 10761 0 (replicate 32 0)
      = \<lparr> d_block_number = 5, d_page_number = 2, d_data_offset = 9 \<rparr>" by code_simp
  moreover have "(10761::u32) \<noteq> kInvalidCompactOffset" by (simp add: kInvalidCompactOffset_def)
  ultimately show ?thesis
    using offset_codec_bijective [of 0 5 2 9 "replicate 32 0" 10761] by (simp add: kNumRegions_def)
qed

text \<open>Coverage of the compact codec: every record of a page number a Viper block can have
  (below \<open>NUM_DIMMS = 6\<close>), with a slot below 256 and a block within the \<open>2^21\<close> blocks of its
  region, is encodable, and its code is the mixed-radix number of the three fields.\<close>

theorem offset_codec_total:
  assumes "r < kNumRegions" "region_base bm r \<le> block" "block - region_base bm r < 2 ^ 21"
    "page < 6" "dat < 256"
  shows "encode block page dat r bm
    = Some (ucast (block - region_base bm r) * 2048 + ucast page * 256 + ucast dat)"
  using assms
  by (intro encode_defined)
    (auto simp: kNumRegions_def mask_eq_exp_minus_1 word_less_nat_alt word_le_nat_alt)

theorem offset_codec_total_witness:
  "encode 5 2 9 0 (replicate 32 0)
    = Some (ucast (5 - region_base (replicate 32 0) 0) * 2048 + ucast (2::u8) * 256 + ucast (9::u16))"
  by (rule offset_codec_total) (simp_all add: kNumRegions_def region_base_def kBlockLowBits_def)

end
