(* ===== verification/Checkpoint_AB.thy ===== *)
theory Checkpoint_AB
  imports Hiom_Prelude
begin

text \<open>
  The A/B checkpoint file (hiom/checkpoint.hpp): two 64-byte record slots in persistent memory
  and an 8-byte pointer that selects the valid one. A write fills the inactive slot, persists it,
  and only then flips the pointer. Besides the functional behaviour, the theory models what a
  power failure in the middle of \<open>write\<close> may leave behind (any mixture of old and new words in the
  slot being written, the pointer flipped or not) and shows that a reader sees the record before
  or the record after, never a torn one. The contract is stated as the locale \<open>atomic_cell\<close>,
  whose client lemmas cover whole histories of writes and crashes.
\<close>

section \<open>The record and its hash\<close>

record CheckpointRecord =
  magic :: u64
  seq :: u64
  flushed_count :: u64
  vpage_frontier :: u64
  cold_size :: u64
  reserved0 :: u64
  reserved1 :: u64
  summary_hash :: u64

definition kMagic :: u64 where "kMagic = 0x484f4d5f43485054"
definition kProtoDurableFrontier :: u64 where "kProtoDurableFrontier = 2"

definition proto_version :: "CheckpointRecord \<Rightarrow> u64" where
  "proto_version rec = reserved0 rec"

text \<open>\<open>CheckpointRecord rec{}\<close>: every member default-initialised to zero.\<close>

definition zero_record :: CheckpointRecord where
  "zero_record = \<lparr> magic = 0, seq = 0, flushed_count = 0, vpage_frontier = 0, cold_size = 0,
     reserved0 = 0, reserved1 = 0, summary_hash = 0 \<rparr>"

text \<open>Memory image of a 64-bit member (little endian), and of the members before
  \<open>summary_hash\<close>, i.e. the first \<open>offsetof(CheckpointRecord, summary_hash)\<close> = 56 bytes.\<close>

definition u64_bytes :: "u64 \<Rightarrow> u8 list" where
  "u64_bytes w = map (\<lambda>i. ucast (drop_bit (8 * i) w)) [0..<8]"

definition hashed_bytes :: "CheckpointRecord \<Rightarrow> u8 list" where
  "hashed_bytes rec = concat (map u64_bytes
     [magic rec, seq rec, flushed_count rec, vpage_frontier rec, cold_size rec,
      reserved0 rec, reserved1 rec])"

definition fnv_step :: "u64 \<Rightarrow> u8 \<Rightarrow> u64" where
  "fnv_step h b = (h XOR ucast b) * 0x100000001b3"

definition fnv1a :: "u8 list \<Rightarrow> u64" where
  "fnv1a bs = foldl fnv_step 0xcbf29ce484222325 bs"

definition compute_hash :: "CheckpointRecord \<Rightarrow> u64" where
  "compute_hash rec = fnv1a (hashed_bytes rec)"

section \<open>The file and its operations\<close>

record checkpoint_pm =
  valid_pointer :: u64
  slot_A :: CheckpointRecord
  slot_B :: CheckpointRecord

definition kFileSize :: nat where "kFileSize = 4096"
definition kValidNone :: u64 where "kValidNone = 0xFFFFFFFFFFFFFFFF"
definition kSlotA :: u64 where "kSlotA = 0"
definition kSlotB :: u64 where "kSlotB = 1"

definition ckpt_create :: checkpoint_pm where
  "ckpt_create = \<lparr> valid_pointer = kValidNone, slot_A = zero_record, slot_B = zero_record \<rparr>"

datatype ckpt_error = CkptOpenFailed | CkptUnexpectedFileSize

text \<open>\<open>open\<close>: a missing file and a file whose size is not 4096 are refused; otherwise the mapped
  contents are used as they are.\<close>

definition ckpt_open :: "(nat \<times> checkpoint_pm) option \<Rightarrow> ckpt_error + checkpoint_pm" where
  "ckpt_open file = (case file of
      None \<Rightarrow> Inl CkptOpenFailed
    | Some (st_size, contents) \<Rightarrow>
        if st_size \<noteq> kFileSize then Inl CkptUnexpectedFileSize else Inr contents)"

definition slot_at :: "checkpoint_pm \<Rightarrow> u64 \<Rightarrow> CheckpointRecord" where
  "slot_at ck which = (if which = kSlotA then slot_A ck else slot_B ck)"

definition set_slot :: "u64 \<Rightarrow> CheckpointRecord \<Rightarrow> checkpoint_pm \<Rightarrow> checkpoint_pm" where
  "set_slot which rec ck =
     (if which = kSlotA then ck\<lparr>slot_A := rec\<rparr> else ck\<lparr>slot_B := rec\<rparr>)"

definition read_slot :: "checkpoint_pm \<Rightarrow> u64 \<Rightarrow> CheckpointRecord option" where
  "read_slot ck which =
    (let rec = slot_at ck which in
     if magic rec \<noteq> kMagic then None
     else if summary_hash rec \<noteq> compute_hash rec then None
     else Some rec)"

definition target_slot :: "checkpoint_pm \<Rightarrow> u64" where
  "target_slot ck = (if valid_pointer ck = kSlotA then kSlotB else kSlotA)"

text \<open>\<open>write\<close> takes its argument by value and fills in \<open>magic\<close> and \<open>summary_hash\<close>.\<close>

definition sealed :: "CheckpointRecord \<Rightarrow> CheckpointRecord" where
  "sealed rec =
    (let rec' = rec\<lparr>magic := kMagic\<rparr> in rec'\<lparr>summary_hash := compute_hash rec'\<rparr>)"

definition ckpt_write :: "checkpoint_pm \<Rightarrow> CheckpointRecord \<Rightarrow> checkpoint_pm" where
  "ckpt_write ck rec =
    (let rec' = sealed rec;
         target = target_slot ck;
         ck' = set_slot target rec' ck
     in ck'\<lparr>valid_pointer := target\<rparr>)"

definition read_valid :: "checkpoint_pm \<Rightarrow> CheckpointRecord option" where
  "read_valid ck =
    (let vp = valid_pointer ck in
     if vp = kValidNone then None
     else if vp \<noteq> kSlotA \<and> vp \<noteq> kSlotB then None
     else case read_slot ck vp of
       Some rec \<Rightarrow> Some rec
     | None \<Rightarrow> read_slot ck (if vp = kSlotA then kSlotB else kSlotA))"

definition read_both :: "checkpoint_pm \<Rightarrow> CheckpointRecord option \<times> CheckpointRecord option" where
  "read_both ck = (read_slot ck kSlotA, read_slot ck kSlotB)"

section \<open>Power failure in the middle of a write\<close>

text \<open>
  Persistent memory guarantees atomicity of aligned 8-byte stores only. Until the \<open>pmem_persist\<close> of
  the slot returns, any subset of the eight words of the record may have reached the medium;
  afterwards the whole record has, and the pointer store has or has not.
\<close>

definition torn_mix :: "CheckpointRecord \<Rightarrow> CheckpointRecord \<Rightarrow> CheckpointRecord \<Rightarrow> bool" where
  "torn_mix old new t \<longleftrightarrow>
     (magic t = magic old \<or> magic t = magic new) \<and>
     (seq t = seq old \<or> seq t = seq new) \<and>
     (flushed_count t = flushed_count old \<or> flushed_count t = flushed_count new) \<and>
     (vpage_frontier t = vpage_frontier old \<or> vpage_frontier t = vpage_frontier new) \<and>
     (cold_size t = cold_size old \<or> cold_size t = cold_size new) \<and>
     (reserved0 t = reserved0 old \<or> reserved0 t = reserved0 new) \<and>
     (reserved1 t = reserved1 old \<or> reserved1 t = reserved1 new) \<and>
     (summary_hash t = summary_hash old \<or> summary_hash t = summary_hash new)"

inductive write_crash :: "checkpoint_pm \<Rightarrow> CheckpointRecord \<Rightarrow> checkpoint_pm \<Rightarrow> bool" where
  before_persist:
    "torn_mix (slot_at ck (target_slot ck)) (sealed rec) t \<Longrightarrow>
     write_crash ck rec (set_slot (target_slot ck) t ck)"
| before_flip: "write_crash ck rec (set_slot (target_slot ck) (sealed rec) ck)"
| after_flip: "write_crash ck rec (ckpt_write ck rec)"

text \<open>The invariant of a checkpoint file: the pointer is unset, or it selects a slot whose
  record passes its checks.\<close>

definition ck_inv :: "checkpoint_pm \<Rightarrow> bool" where
  "ck_inv ck \<longleftrightarrow> valid_pointer ck = kValidNone \<or>
     (valid_pointer ck = kSlotA \<or> valid_pointer ck = kSlotB) \<and>
     read_slot ck (valid_pointer ck) \<noteq> None"

lemmas ck_consts = kValidNone_def kSlotA_def kSlotB_def

lemma slot_names_distinct [simp]:
  "kSlotA \<noteq> kSlotB" "kSlotB \<noteq> kSlotA" "kSlotA \<noteq> kValidNone" "kSlotB \<noteq> kValidNone"
  by (simp_all add: ck_consts)

lemma target_slot_cases: "target_slot ck = kSlotA \<or> target_slot ck = kSlotB"
  by (simp add: target_slot_def)

lemma target_ne_pointer [simp]:
  "target_slot ck \<noteq> valid_pointer ck" "valid_pointer ck \<noteq> target_slot ck"
  by (auto simp: target_slot_def)

lemma valid_pointer_set_slot [simp]: "valid_pointer (set_slot w rec ck) = valid_pointer ck"
  by (simp add: set_slot_def)

lemma slot_at_set_slot:
  "w \<in> {kSlotA, kSlotB} \<Longrightarrow> w' \<in> {kSlotA, kSlotB} \<Longrightarrow>
   slot_at (set_slot w rec ck) w' = (if w = w' then rec else slot_at ck w')"
  by (auto simp: slot_at_def set_slot_def)

lemma slot_at_pointer_upd [simp]: "slot_at (ck\<lparr>valid_pointer := p\<rparr>) w = slot_at ck w"
  by (simp add: slot_at_def)

lemma read_slot_cong: "slot_at ck w = slot_at ck' w' \<Longrightarrow> read_slot ck w = read_slot ck' w'"
  by (simp add: read_slot_def)

lemma compute_hash_ignores_summary [simp]:
  "compute_hash (rec\<lparr>summary_hash := h\<rparr>) = compute_hash rec"
  by (simp add: compute_hash_def hashed_bytes_def)

lemma sealed_valid:
  "slot_at ck w = sealed rec \<Longrightarrow> read_slot ck w = Some (sealed rec)"
  by (simp add: read_slot_def sealed_def Let_def)

lemma read_slot_write_target:
  "read_slot (ckpt_write ck rec) (target_slot ck) = Some (sealed rec)"
  using target_slot_cases [of ck]
  by (intro sealed_valid) (auto simp: ckpt_write_def Let_def slot_at_set_slot)

lemma valid_pointer_write [simp]: "valid_pointer (ckpt_write ck rec) = target_slot ck"
  by (simp add: ckpt_write_def Let_def)

lemma read_valid_write: "read_valid (ckpt_write ck rec) = Some (sealed rec)"
  using target_slot_cases [of ck] read_slot_write_target [of ck rec]
  by (auto simp: read_valid_def Let_def)

lemma ck_inv_create: "ck_inv ckpt_create"
  by (simp add: ck_inv_def ckpt_create_def)

lemma ck_inv_write: "ck_inv (ckpt_write ck rec)"
  using target_slot_cases [of ck] read_slot_write_target [of ck rec]
  by (auto simp: ck_inv_def)

lemma read_valid_ck_inv:
  "ck_inv ck \<Longrightarrow> valid_pointer ck \<noteq> kValidNone \<Longrightarrow>
   read_valid ck = read_slot ck (valid_pointer ck)"
  by (auto simp: ck_inv_def read_valid_def Let_def)

text \<open>Garbage in the inactive slot is invisible while the pointer has not moved.\<close>

lemma inactive_slot_invisible:
  assumes "ck_inv ck"
  shows "ck_inv (set_slot (target_slot ck) t ck)"
    and "read_valid (set_slot (target_slot ck) t ck) = read_valid ck"
proof -
  let ?ck' = "set_slot (target_slot ck) t ck"
  have same: "read_slot ?ck' (valid_pointer ck) = read_slot ck (valid_pointer ck)"
    if "valid_pointer ck \<noteq> kValidNone"
  proof (rule read_slot_cong)
    from that assms have "valid_pointer ck \<in> {kSlotA, kSlotB}" by (auto simp: ck_inv_def)
    then show "slot_at ?ck' (valid_pointer ck) = slot_at ck (valid_pointer ck)"
      using target_slot_cases [of ck] by (subst slot_at_set_slot) auto
  qed
  show inv: "ck_inv ?ck'" using assms same by (auto simp: ck_inv_def)
  show "read_valid ?ck' = read_valid ck"
  proof (cases "valid_pointer ck = kValidNone")
    case True
    then show ?thesis by (simp add: read_valid_def)
  next
    case False
    with assms inv same show ?thesis by (simp add: read_valid_ck_inv)
  qed
qed

section \<open>The contract: an atomically replaced cell\<close>

text \<open>
  What a client of the checkpoint relies on: reading after a completed write gives that record,
  and a write cut short by a crash leaves either the previous value or the new one. The history
  of a cell is a list of completed and crashed writes.
\<close>

datatype 'r cell_event = Completed 'r | Crashed 'r

fun event_rec :: "'r cell_event \<Rightarrow> 'r" where
  "event_rec (Completed r) = r"
| "event_rec (Crashed r) = r"

locale atomic_cell =
  fixes inv :: "'s \<Rightarrow> bool"
    and wr :: "'s \<Rightarrow> 'r \<Rightarrow> 's"
    and rd :: "'s \<Rightarrow> 'v option"
    and fill :: "'r \<Rightarrow> 'v"
    and crash :: "'s \<Rightarrow> 'r \<Rightarrow> 's \<Rightarrow> bool"
  assumes rd_wr: "inv s \<Longrightarrow> rd (wr s r) = Some (fill r)"
    and inv_wr: "inv s \<Longrightarrow> inv (wr s r)"
    and inv_crash: "inv s \<Longrightarrow> crash s r s' \<Longrightarrow> inv s'"
    and rd_crash: "inv s \<Longrightarrow> crash s r s' \<Longrightarrow> rd s' = rd s \<or> rd s' = Some (fill r)"
begin

fun run :: "'s \<Rightarrow> 'r cell_event list \<Rightarrow> 's \<Rightarrow> bool" where
  "run s [] s' \<longleftrightarrow> s' = s"
| "run s (Completed r # es) s' \<longleftrightarrow> run (wr s r) es s'"
| "run s (Crashed r # es) s' \<longleftrightarrow> (\<exists>s1. crash s r s1 \<and> run s1 es s')"

lemma run_inv: "run s es s' \<Longrightarrow> inv s \<Longrightarrow> inv s'"
  by (induction s es s' rule: run.induct) (auto intro: inv_wr inv_crash)

text \<open>Only records somebody tried to write can be read back.\<close>

lemma run_reads_written:
  "run s es s' \<Longrightarrow> inv s \<Longrightarrow> rd s' = rd s \<or> (\<exists>e \<in> set es. rd s' = Some (fill (event_rec e)))"
proof (induction s es s' rule: run.induct)
  case (2 s r es s')
  then have "rd s' = rd (wr s r) \<or> (\<exists>e \<in> set es. rd s' = Some (fill (event_rec e)))"
    by (auto intro: inv_wr)
  with 2 rd_wr [of s r] show ?case by auto
next
  case (3 s r es s')
  from "3.prems" obtain s1 where s1: "crash s r s1" "run s1 es s'" by auto
  with "3.IH" [of s1] "3.prems" have "rd s' = rd s1 \<or> (\<exists>e \<in> set es. rd s' = Some (fill (event_rec e)))"
    by (auto intro: inv_crash)
  with rd_crash [OF "3.prems"(2) s1(1)] show ?case by auto
qed auto

text \<open>A completed write is never undone: after it, and any number of crashed writes, the
  readable record is that one or one of the later attempts.\<close>

lemma run_after_completed:
  assumes "run s (es @ Completed r # fs) s'" and "inv s"
  shows "\<exists>x \<in> insert r (event_rec ` set fs). rd s' = Some (fill x)"
  using assms
proof (induction s es s' rule: run.induct)
  case (1 s s')
  then have "run (wr s r) fs s'" by simp
  from run_reads_written [OF this inv_wr [OF "1"(2)]] rd_wr [OF "1"(2), of r]
  show ?case by auto
next
  case (2 s r' es s')
  then show ?case by (auto intro: inv_wr)
next
  case (3 s r' es s')
  then show ?case by (auto intro: inv_crash)
qed

end

interpretation ckpt: atomic_cell ck_inv ckpt_write read_valid sealed write_crash
proof unfold_locales
  fix s rec s'
  show "read_valid (ckpt_write s rec) = Some (sealed rec)" by (rule read_valid_write)
  show "ck_inv (ckpt_write s rec)" by (rule ck_inv_write)
  assume inv: "ck_inv s" and crash: "write_crash s rec s'"
  from crash inv show "ck_inv s'"
    by cases (auto intro: inactive_slot_invisible ck_inv_write)
  from crash inv show "read_valid s' = read_valid s \<or> read_valid s' = Some (sealed rec)"
    by cases (auto simp: inactive_slot_invisible read_valid_write)
qed

section \<open>Detection power of the hash\<close>

text \<open>The multiplier is odd, hence invertible modulo \<open>2^64\<close>: every step is injective in the
  accumulator and in the byte.\<close>

lemma fnv_mult_inj:
  assumes "a * 0x100000001b3 = b * (0x100000001b3 :: u64)"
  shows "a = b"
proof -
  have one: "(0x100000001b3 :: u64) * 0xce965057aff6957b = 1" by simp
  from assms have "a * (0x100000001b3 * 0xce965057aff6957b) = b * (0x100000001b3 * 0xce965057aff6957b)"
    by (simp only: mult.assoc [symmetric])
  then show ?thesis by (simp only: one mult_1_right)
qed

lemma fnv_step_inj_acc: "fnv_step h b = fnv_step h' b \<Longrightarrow> h = h'"
  unfolding fnv_step_def by (drule fnv_mult_inj) simp

lemma fnv_step_inj_byte: "fnv_step h b = fnv_step h b' \<Longrightarrow> b = b'"
proof -
  assume "fnv_step h b = fnv_step h b'"
  then have "h XOR ucast b = h XOR ucast b'" unfolding fnv_step_def by (rule fnv_mult_inj)
  then have "unat (ucast b :: u64) = unat (ucast b' :: u64)" by simp
  then show "b = b'" by (simp add: unat_ucast_up word_unat_eq_iff)
qed

lemma fnv_fold_inj: "foldl fnv_step h bs = foldl fnv_step h' bs \<Longrightarrow> h = h'"
  by (induction bs arbitrary: h h') (auto dest: fnv_step_inj_acc)

lemma fnv1a_single_byte:
  "b \<noteq> b' \<Longrightarrow> fnv1a (xs @ b # ys) \<noteq> fnv1a (xs @ b' # ys)"
  unfolding fnv1a_def by (auto dest!: fnv_fold_inj fnv_step_inj_byte)

lemma single_byte_corruption_rejected:
  assumes "slot_at ck w = sealed rec" and "slot_at ck' w' = bad"
    and "hashed_bytes (sealed rec) = xs @ b # ys" and "hashed_bytes bad = xs @ b' # ys" and "b \<noteq> b'"
    and "summary_hash bad = summary_hash (sealed rec)"
  shows "read_slot ck' w' = None"
proof -
  have "summary_hash (sealed rec) = compute_hash (sealed rec)" by (simp add: sealed_def Let_def)
  then have "summary_hash bad \<noteq> compute_hash bad"
    using assms fnv1a_single_byte [of b b' xs ys] by (simp add: compute_hash_def)
  with assms(2) show ?thesis by (simp add: read_slot_def)
qed

section \<open>Properties\<close>

text \<open>C7. Crash atomicity of the A/B protocol: whatever a power failure in the middle of
  \<open>write\<close> leaves in the file (any mixture of old and new words in the inactive slot, the
  pointer flipped or not), the file is still well-formed and a reader obtains exactly the
  record before the write or exactly the new one.\<close>

theorem checkpoint_crash_atomic:
  assumes "ck_inv ck" and "write_crash ck rec ck'"
  shows "ck_inv ck' \<and> (read_valid ck' = read_valid ck \<or> read_valid ck' = Some (sealed rec))"
  using ckpt.inv_crash [OF assms] ckpt.rd_crash [OF assms] by blast

theorem checkpoint_crash_atomic_witness:
  "write_crash ckpt_create zero_record (set_slot (target_slot ckpt_create) (sealed zero_record) ckpt_create)
   \<and> (read_valid (set_slot (target_slot ckpt_create) (sealed zero_record) ckpt_create) = read_valid ckpt_create
      \<or> read_valid (set_slot (target_slot ckpt_create) (sealed zero_record) ckpt_create) = Some (sealed zero_record))"
  using checkpoint_crash_atomic [OF ck_inv_create write_crash.before_flip [of ckpt_create zero_record]]
    write_crash.before_flip [of ckpt_create zero_record] by blast

text \<open>C17. Durability over histories: on a freshly created file, after any sequence of completed
  and crashed writes that contains a completed write of \<open>r\<close>, a reader obtains \<open>r\<close> or one of the
  records attempted after it. A completed checkpoint is never lost and never replaced by an
  older one.\<close>

theorem checkpoint_history:
  assumes "ckpt.run ckpt_create (es @ Completed r # fs) ck"
  shows "\<exists>x \<in> insert r (event_rec ` set fs). read_valid ck = Some (sealed x)"
  using ckpt.run_after_completed [OF assms ck_inv_create] .

theorem checkpoint_history_witness:
  "\<exists>x \<in> insert zero_record (event_rec ` set [Crashed (zero_record\<lparr>seq := 1\<rparr>)]).
     read_valid (ckpt_write (ckpt_write ckpt_create zero_record) (zero_record\<lparr>seq := 1\<rparr>)) = Some (sealed x)"
  by (rule checkpoint_history [where es = "[]"]) (auto intro: write_crash.after_flip)

text \<open>C18. Fallback on corruption: when exactly one byte of the hashed part of the active record
  is damaged after two checkpoints, the summary hash always detects it and \<open>read_valid\<close> returns
  the previous checkpoint from the other slot.\<close>

theorem checkpoint_corruption_fallback:
  assumes "ck = ckpt_write (ckpt_write ck0 r1) r2"
    and "hashed_bytes (sealed r2) = xs @ b # ys" and "hashed_bytes bad = xs @ b' # ys" and "b \<noteq> b'"
    and "summary_hash bad = summary_hash (sealed r2)"
  shows "read_valid (set_slot (valid_pointer ck) bad ck) = Some (sealed r1)"
proof -
  define ck1 where "ck1 = ckpt_write ck0 r1"
  have ck: "ck = ckpt_write ck1 r2" and vp: "valid_pointer ck = target_slot ck1"
    using assms(1) by (simp_all add: ck1_def)
  have vp1: "valid_pointer ck1 \<in> {kSlotA, kSlotB}"
    using target_slot_cases [of ck0] by (auto simp: ck1_def)
  let ?bad = "set_slot (valid_pointer ck) bad ck"
  have tgt: "target_slot ck1 \<in> {kSlotA, kSlotB}" using target_slot_cases by blast
  have "slot_at ck (target_slot ck1) = sealed r2"
    using tgt by (simp add: ck ckpt_write_def Let_def slot_at_set_slot)
  moreover have "slot_at ?bad (target_slot ck1) = bad"
    using tgt by (simp add: vp slot_at_set_slot)
  ultimately have none: "read_slot ?bad (target_slot ck1) = None"
    using assms(2-5) by (rule single_byte_corruption_rejected)
  have "slot_at ?bad (valid_pointer ck1) = slot_at ck1 (valid_pointer ck1)"
    using tgt vp1 by (simp add: vp ck ckpt_write_def Let_def slot_at_set_slot)
  then have prev: "read_slot ?bad (valid_pointer ck1) = Some (sealed r1)"
    using read_slot_write_target [of ck0 r1] read_slot_cong [of ?bad _ ck1] by (simp add: ck1_def)
  have "(if valid_pointer ck = kSlotA then kSlotB else kSlotA) = valid_pointer ck1"
    using vp1 by (auto simp: vp target_slot_def)
  then show ?thesis
    using tgt none prev by (auto simp: read_valid_def Let_def vp)
qed

theorem checkpoint_corruption_fallback_witness:
  "read_valid (set_slot (valid_pointer (ckpt_write (ckpt_write ckpt_create zero_record) (zero_record\<lparr>seq := 1\<rparr>)))
      ((sealed (zero_record\<lparr>seq := 1\<rparr>))\<lparr>seq := 2\<rparr>)
      (ckpt_write (ckpt_write ckpt_create zero_record) (zero_record\<lparr>seq := 1\<rparr>)))
   = Some (sealed zero_record)"
  by (rule checkpoint_corruption_fallback
      [where xs = "u64_bytes kMagic" and b = 1 and b' = 2 and ys = "map (\<lambda>_. 0) [0..<47]"
         and ?ck0.0 = ckpt_create and ?r2.0 = "zero_record\<lparr>seq := 1\<rparr>"])
    (simp_all add: hashed_bytes_def sealed_def Let_def u64_bytes_def zero_record_def upt_rec)

end
