(* ===== verification/Hot_Tier.thy ===== *)
theory Hot_Tier
  imports Hiom_Prelude
begin

text \<open>
  The DRAM hot tier (hiom/hot_tier.hpp): buckets of sixteen 8-byte slots that pack a 32-bit
  fingerprint and a 32-bit compact offset, with per-bucket SIEVE metadata (visited bits, hand)
  and a 2-bit state per slot (unpinned, pinned, in flush). Every operation of the class is
  translated for one thread at a time: an atomic load reads the current word and a
  compare-exchange compares with it, so the retry branches stay in the model. The theory gives
  the bucket-level operations, their lifting to the whole table, the well-formedness invariant
  and the behaviour of each operation; the properties of the component are in
  \<open>Hot_Tier_Props\<close>.
\<close>

section \<open>Slots and metadata\<close>

definition kSlotsPerBucket :: nat where "kSlotsPerBucket = 16"
definition kEmptyFp :: u32 where "kEmptyFp = 0"
definition kInvalidOffset :: u32 where "kInvalidOffset = 0xFFFFFFFF"
definition kMaxUpsertRetries :: nat where "kMaxUpsertRetries = 16"

definition pack :: "u32 \<Rightarrow> u32 \<Rightarrow> u64" where
  "pack fp off = push_bit 32 (ucast fp) OR ucast off"

definition unpack_fp :: "u64 \<Rightarrow> u32" where
  "unpack_fp v = ucast (drop_bit 32 v)"

definition unpack_off :: "u64 \<Rightarrow> u32" where
  "unpack_off v = ucast v"

text \<open>\<open>SlotState\<close>; the bit pattern 10 has no enumerator.\<close>

datatype SlotState = kUnpinned | kPinned | kReserved | kInFlush

primrec state_code :: "SlotState \<Rightarrow> u32" where
  "state_code kUnpinned = 0"
| "state_code kPinned = 1"
| "state_code kReserved = 2"
| "state_code kInFlush = 3"

definition state_of_code :: "u32 \<Rightarrow> SlotState" where
  "state_of_code c = (if c = 0 then kUnpinned else if c = 1 then kPinned
     else if c = 2 then kReserved else kInFlush)"

type_synonym bucket = "u64 list"

record BucketMeta =
  visited :: u16
  hand :: u8
  state :: u32

record HotCounters =
  hot_size :: nat
  eviction_count :: nat
  pin_failures :: nat

record SlotRef =
  bucket_idx :: nat
  slot_idx :: nat
  valid :: bool

text \<open>\<open>SlotRef{}\<close>: \<open>valid\<close> is false; the other members keep their initialisers.\<close>

definition no_ref :: SlotRef where
  "no_ref = \<lparr> bucket_idx = 2 ^ 64 - 1, slot_idx = 0, valid = False \<rparr>"

section \<open>Metadata operations\<close>

definition set_visited :: "BucketMeta \<Rightarrow> nat \<Rightarrow> BucketMeta" where
  "set_visited m i =
    (let b = push_bit i 1; cur = visited m in
     if cur AND b \<noteq> 0 then m else m\<lparr>visited := cur OR b\<rparr>)"

definition clear_visited :: "BucketMeta \<Rightarrow> nat \<Rightarrow> BucketMeta" where
  "clear_visited m i =
    (let b = push_bit i 1; cur = visited m in
     if cur AND b = 0 then m else m\<lparr>visited := cur AND NOT b\<rparr>)"

definition get_state :: "BucketMeta \<Rightarrow> nat \<Rightarrow> SlotState" where
  "get_state m i = state_of_code (drop_bit (2 * i) (state m) AND 3)"

definition cas_state :: "BucketMeta \<Rightarrow> nat \<Rightarrow> SlotState \<Rightarrow> SlotState \<Rightarrow> bool \<times> BucketMeta" where
  "cas_state m i from to =
    (let shift = 2 * i;
         msk = push_bit shift 3;
         from_bits = push_bit shift (state_code from AND 3);
         to_bits = push_bit shift (state_code to AND 3);
         cur = state m
     in if cur AND msk = from_bits
        then (True, m\<lparr>state := (cur AND NOT msk) OR to_bits\<rparr>)
        else (False, m))"

definition force_pinned :: "BucketMeta \<Rightarrow> nat \<Rightarrow> BucketMeta" where
  "force_pinned m i =
    (let shift = 2 * i;
         pin_bit = push_bit shift 1;
         flush_bit = push_bit shift 2;
         m1 = m\<lparr>state := state m OR pin_bit\<rparr>
     in m1\<lparr>state := state m1 AND NOT flush_bit\<rparr>)"

definition force_unpinned :: "BucketMeta \<Rightarrow> nat \<Rightarrow> BucketMeta" where
  "force_unpinned m i = m\<lparr>state := state m AND NOT (push_bit (2 * i) 3)\<rparr>"

definition cas_slot :: "bucket \<Rightarrow> nat \<Rightarrow> u64 \<Rightarrow> u64 \<Rightarrow> bool \<times> bucket" where
  "cas_slot b i expected desired =
    (if b ! i = expected then (True, b[i := desired]) else (False, b))"

section \<open>SIEVE eviction\<close>

text \<open>The loop of \<open>sieve_evict\<close> from iteration \<open>k\<close> on, \<open>n\<close> iterations left of the
  \<open>2 * kSlotsPerBucket\<close>.\<close>

fun sieve_loop :: "nat \<Rightarrow> nat \<Rightarrow> nat \<Rightarrow> bucket \<Rightarrow> BucketMeta \<Rightarrow> HotCounters \<Rightarrow>
    nat option \<times> bucket \<times> BucketMeta \<times> HotCounters" where
  "sieve_loop h k 0 b m c = (None, b, m, c)"
| "sieve_loop h k (Suc n) b m c =
    (let i = (h + k) mod kSlotsPerBucket in
     if get_state m i \<noteq> kUnpinned then sieve_loop h (Suc k) n b m c
     else if drop_bit i (visited m) AND 1 \<noteq> 0
       then sieve_loop h (Suc k) n b (m\<lparr>visited := visited m AND NOT (push_bit i 1)\<rparr>) c
     else
       let expected = b ! i; m' = m\<lparr>hand := of_nat ((i + 1) mod kSlotsPerBucket)\<rparr> in
       if expected = 0 then (Some i, b, m', c)
       else case cas_slot b i expected 0 of
         (True, b') \<Rightarrow> (Some i, b', m',
            c\<lparr>hot_size := hot_size c - 1, eviction_count := eviction_count c + 1\<rparr>)
       | (False, b') \<Rightarrow> sieve_loop h (Suc k) n b' m c)"

definition sieve_evict :: "bucket \<Rightarrow> BucketMeta \<Rightarrow> HotCounters \<Rightarrow>
    nat option \<times> bucket \<times> BucketMeta \<times> HotCounters" where
  "sieve_evict b m c = sieve_loop (unat (hand m)) 0 (2 * kSlotsPerBucket) b m c"

section \<open>Probing and the two upserts\<close>

datatype probe_result = Match nat | Miss "nat option"

fun probe :: "bucket \<Rightarrow> u32 \<Rightarrow> nat \<Rightarrow> nat \<Rightarrow> nat option \<Rightarrow> probe_result" where
  "probe b fp i 0 first_empty = Miss first_empty"
| "probe b fp i (Suc n) first_empty =
    (let cur_fp = unpack_fp (b ! i) in
     if cur_fp = fp then Match i
     else probe b fp (Suc i) n
       (if cur_fp = kEmptyFp \<and> first_empty = None then Some i else first_empty))"

fun upsert_loop :: "nat \<Rightarrow> u32 \<Rightarrow> u32 \<Rightarrow> bucket \<Rightarrow> BucketMeta \<Rightarrow> HotCounters \<Rightarrow>
    u32 \<times> bucket \<times> BucketMeta \<times> HotCounters" where
  "upsert_loop 0 fp off b m c = (kInvalidOffset, b, m, c)"
| "upsert_loop (Suc retries) fp off b m c =
    (case probe b fp 0 kSlotsPerBucket None of
       Match i \<Rightarrow>
         (let v = b ! i in
          case cas_slot b i v (pack fp off) of
            (True, b') \<Rightarrow> (unpack_off v, b', set_visited m i, c)
          | (False, b') \<Rightarrow> upsert_loop retries fp off b' m c)
     | Miss first_empty \<Rightarrow>
         (case (case first_empty of Some i \<Rightarrow> (Some i, b, m, c) | None \<Rightarrow> sieve_evict b m c) of
            (None, b1, m1, c1) \<Rightarrow> (kInvalidOffset, b1, m1, c1)
          | (Some t, b1, m1, c1) \<Rightarrow>
              (case cas_slot b1 t 0 (pack fp off) of
                 (True, b2) \<Rightarrow> (kInvalidOffset, b2, clear_visited m1 t, c1\<lparr>hot_size := hot_size c1 + 1\<rparr>)
               | (False, b2) \<Rightarrow> upsert_loop retries fp off b2 m1 c1)))"

text \<open>\<open>upsert_pinned\<close> at bucket \<open>bidx\<close>.\<close>

fun upsert_pinned_loop :: "nat \<Rightarrow> nat \<Rightarrow> u32 \<Rightarrow> u32 \<Rightarrow> bucket \<Rightarrow> BucketMeta \<Rightarrow> HotCounters \<Rightarrow>
    SlotRef \<times> bucket \<times> BucketMeta \<times> HotCounters" where
  "upsert_pinned_loop 0 bidx fp off b m c =
     (no_ref, b, m, c\<lparr>pin_failures := pin_failures c + 1\<rparr>)"
| "upsert_pinned_loop (Suc retries) bidx fp off b m c =
    (case probe b fp 0 kSlotsPerBucket None of
       Match i \<Rightarrow>
         (let v = b ! i in
          case cas_slot b i v (pack fp off) of
            (True, b') \<Rightarrow> (\<lparr> bucket_idx = bidx, slot_idx = i, valid = True \<rparr>, b',
                           force_pinned (set_visited m i) i, c)
          | (False, b') \<Rightarrow> upsert_pinned_loop retries bidx fp off b' m c)
     | Miss first_empty \<Rightarrow>
         (case (case first_empty of Some i \<Rightarrow> (Some i, b, m, c) | None \<Rightarrow> sieve_evict b m c) of
            (None, b1, m1, c1) \<Rightarrow>
              (no_ref, b1, m1, c1\<lparr>pin_failures := pin_failures c1 + 1\<rparr>)
          | (Some t, b1, m1, c1) \<Rightarrow>
              (case cas_slot b1 t 0 (pack fp off) of
                 (True, b2) \<Rightarrow> (\<lparr> bucket_idx = bidx, slot_idx = t, valid = True \<rparr>, b2,
                     force_pinned (clear_visited m1 t) t, c1\<lparr>hot_size := hot_size c1 + 1\<rparr>)
               | (False, b2) \<Rightarrow> upsert_pinned_loop retries bidx fp off b2 m1 c1)))"

section \<open>The table\<close>

record HotTier =
  num_buckets :: nat
  hot_mask :: u64
  buckets :: "bucket list"
  meta :: "BucketMeta list"
  counters :: HotCounters

text \<open>The constructor maps zeroed pages: every slot and every metadata word is 0.\<close>

definition hot_new :: "nat \<Rightarrow> HotTier" where
  "hot_new n = \<lparr> num_buckets = n, hot_mask = of_nat n - 1,
     buckets = replicate n (replicate kSlotsPerBucket 0),
     meta = replicate n \<lparr> visited = 0, hand = 0, state = 0 \<rparr>,
     counters = \<lparr> hot_size = 0, eviction_count = 0, pin_failures = 0 \<rparr> \<rparr>"

definition bucket_index :: "HotTier \<Rightarrow> u32 \<Rightarrow> nat" where
  "bucket_index ht fp =
    (let h0 = ucast fp :: u64;
         h1 = h0 XOR drop_bit 16 h0;
         h2 = h1 * 0x85ebca6b9c1cdcb;
         h3 = h2 XOR drop_bit 13 h2
     in unat (h3 AND hot_mask ht))"

definition put_bucket :: "HotTier \<Rightarrow> nat \<Rightarrow> bucket \<times> BucketMeta \<times> HotCounters \<Rightarrow> HotTier" where
  "put_bucket ht bidx bmc = (case bmc of (b, m, c) \<Rightarrow>
     ht\<lparr>buckets := (buckets ht)[bidx := b], meta := (meta ht)[bidx := m], counters := c\<rparr>)"

definition hot_upsert :: "HotTier \<Rightarrow> u32 \<Rightarrow> u32 \<Rightarrow> u32 \<times> HotTier" where
  "hot_upsert ht fp off =
    (let bidx = bucket_index ht fp in
     case upsert_loop kMaxUpsertRetries fp off (buckets ht ! bidx) (meta ht ! bidx) (counters ht) of
       (r, bmc) \<Rightarrow> (r, put_bucket ht bidx bmc))"

definition upsert_pinned :: "HotTier \<Rightarrow> u32 \<Rightarrow> u32 \<Rightarrow> SlotRef \<times> HotTier" where
  "upsert_pinned ht fp off =
    (let bidx = bucket_index ht fp in
     case upsert_pinned_loop kMaxUpsertRetries bidx fp off (buckets ht ! bidx) (meta ht ! bidx)
            (counters ht) of
       (r, bmc) \<Rightarrow> (r, put_bucket ht bidx bmc))"

definition cas_slot_state :: "HotTier \<Rightarrow> SlotRef \<Rightarrow> SlotState \<Rightarrow> SlotState \<Rightarrow> bool \<times> HotTier" where
  "cas_slot_state ht ref from to =
    (if \<not> valid ref then (False, ht)
     else case cas_state (meta ht ! bucket_idx ref) (slot_idx ref) from to of
       (r, m) \<Rightarrow> (r, ht\<lparr>meta := (meta ht)[bucket_idx ref := m]\<rparr>))"

definition unpin :: "HotTier \<Rightarrow> SlotRef \<Rightarrow> HotTier" where
  "unpin ht ref =
    (if \<not> valid ref then ht
     else ht\<lparr>meta := (meta ht)[bucket_idx ref :=
              force_unpinned (meta ht ! bucket_idx ref) (slot_idx ref)]\<rparr>)"

text \<open>The scalar scan of \<open>lookup\<close>: the first slot whose fingerprint matches.\<close>

definition hot_lookup :: "HotTier \<Rightarrow> u32 \<Rightarrow> u32 option \<times> HotTier" where
  "hot_lookup ht fp =
    (let bidx = bucket_index ht fp; b = buckets ht ! bidx in
     case first_idx kSlotsPerBucket (\<lambda>i. unpack_fp (b ! i) = fp) of
       Some i \<Rightarrow> (Some (unpack_off (b ! i)),
                  ht\<lparr>meta := (meta ht)[bidx := set_visited (meta ht ! bidx) i]\<rparr>)
     | None \<Rightarrow> (None, ht))"

text \<open>
  The AVX2 variant of the scan. A chunk is four slots, i.e. eight 32-bit lanes with the
  fingerprint in the odd lane of each slot; \<open>_mm256_cmpeq_epi32\<close> and \<open>_mm256_movemask_ps\<close>
  give one bit per equal lane, and \<open>0xAA\<close> keeps the odd ones. The loop visits the set bits from
  the lowest upwards (\<open>__builtin_ctz\<close>, then clearing the lowest set bit) and re-checks each
  candidate slot.
\<close>

definition simd_lane :: "bucket \<Rightarrow> nat \<Rightarrow> nat \<Rightarrow> u32" where
  "simd_lane b c j = (let v = b ! (c * 4 + j div 2) in if even j then unpack_off v else unpack_fp v)"

definition simd_mask :: "bucket \<Rightarrow> u32 \<Rightarrow> nat \<Rightarrow> u32" where
  "simd_mask b fp c =
     foldl (\<lambda>mm j. if simd_lane b c j = fp then mm OR push_bit j 1 else mm) 0 [0..<8] AND 0xAA"

fun simd_bits :: "bucket \<Rightarrow> u32 \<Rightarrow> nat \<Rightarrow> u32 \<Rightarrow> nat \<Rightarrow> nat \<Rightarrow> nat option" where
  "simd_bits b fp c mm p 0 = None"
| "simd_bits b fp c mm p (Suc n) =
    (if bit mm p \<and> unpack_fp (b ! (c * 4 + p div 2)) = fp then Some (c * 4 + p div 2)
     else simd_bits b fp c mm (Suc p) n)"

fun simd_chunks :: "bucket \<Rightarrow> u32 \<Rightarrow> nat list \<Rightarrow> nat option" where
  "simd_chunks b fp [] = None"
| "simd_chunks b fp (c # cs) =
    (case simd_bits b fp c (simd_mask b fp c) 0 8 of
       Some i \<Rightarrow> Some i
     | None \<Rightarrow> simd_chunks b fp cs)"

definition hot_lookup_simd :: "HotTier \<Rightarrow> u32 \<Rightarrow> u32 option \<times> HotTier" where
  "hot_lookup_simd ht fp =
    (let bidx = bucket_index ht fp; b = buckets ht ! bidx in
     case simd_chunks b fp [0..<4] of
       Some i \<Rightarrow> (Some (unpack_off (b ! i)),
                  ht\<lparr>meta := (meta ht)[bidx := set_visited (meta ht ! bidx) i]\<rparr>)
     | None \<Rightarrow> (None, ht))"

definition peek :: "HotTier \<Rightarrow> u32 \<Rightarrow> u32 option" where
  "peek ht fp =
    (let bidx = bucket_index ht fp; b = buckets ht ! bidx in
     case first_idx kSlotsPerBucket (\<lambda>i. unpack_fp (b ! i) = fp) of
       Some i \<Rightarrow> Some (unpack_off (b ! i))
     | None \<Rightarrow> None)"

record SlotView =
  view_fp :: u32
  packed_off :: u32

definition hot_read_slot :: "HotTier \<Rightarrow> SlotRef \<Rightarrow> SlotView" where
  "hot_read_slot ht ref =
    (if \<not> valid ref then \<lparr> view_fp = kEmptyFp, packed_off = 0 \<rparr>
     else let v = buckets ht ! bucket_idx ref ! slot_idx ref
          in \<lparr> view_fp = unpack_fp v, packed_off = unpack_off v \<rparr>)"

text \<open>\<open>remove\<close>: clears the first slot that carries the fingerprint. The retry after a failed
  compare-exchange does not arise for one thread.\<close>

definition hot_remove :: "HotTier \<Rightarrow> u32 \<Rightarrow> bool \<times> HotTier" where
  "hot_remove ht fp =
    (let bidx = bucket_index ht fp; b = buckets ht ! bidx in
     case first_idx kSlotsPerBucket (\<lambda>i. unpack_fp (b ! i) = fp) of
       Some i \<Rightarrow> (True, put_bucket ht bidx (b[i := 0], clear_visited (meta ht ! bidx) i,
                     (counters ht)\<lparr>hot_size := hot_size (counters ht) - 1\<rparr>))
     | None \<Rightarrow> (False, ht))"

definition capacity :: "HotTier \<Rightarrow> nat" where
  "capacity ht = num_buckets ht * kSlotsPerBucket"

definition hot_dram_bytes :: "HotTier \<Rightarrow> nat" where
  "hot_dram_bytes ht = num_buckets ht * (128 + 8)"

section \<open>Packed words\<close>

lemma unpack_pack [simp, layout]:
  "unpack_fp (pack fp off) = fp" "unpack_off (pack fp off) = off"
  by (rule bit_word_eqI;
      auto simp: pack_def unpack_fp_def unpack_off_def bit_simps dest: bit_imp_le_length)+

lemma unpack_zero [simp]: "unpack_fp 0 = 0"
  by (simp add: unpack_fp_def)

lemma pack_nonzero [simp]: "fp \<noteq> 0 \<Longrightarrow> pack fp off \<noteq> 0"
  by (metis unpack_pack(1) unpack_zero)

section \<open>The two-bit state field\<close>

lemma bit_three [simp]: "bit (3 :: int) n \<longleftrightarrow> n < 2"
proof -
  have "(3 :: int) = mask 2" by (simp add: mask_eq_exp_minus_1)
  then show ?thesis by (simp only: bit_mask_iff) (auto simp: possible_bit_def)
qed

lemma bit_two [simp]: "bit (2 :: int) n \<longleftrightarrow> n = 1"
proof -
  have "(2 :: int) = push_bit 1 1" by simp
  then show ?thesis by (simp only: bit_push_bit_iff bit_1_iff) (auto simp: possible_bit_def)
qed

lemma and_three_cases:
  "(w AND 3 :: u32) = (if bit w 1 then (if bit w 0 then 3 else 2) else if bit w 0 then 1 else 0)"
proof (rule bit_word_eqI)
  fix n assume "n < LENGTH(32)"
  consider "n = 0" | "n = 1" | "2 \<le> n" by fastforce
  then show "bit (w AND 3) n
    = bit (if bit w 1 then (if bit w 0 then 3 else 2) else if bit w 0 then 1 else 0 :: u32) n"
    by cases (auto simp: bit_simps bit_1_iff)
qed

lemma get_state_bits:
  "get_state m i =
     (if bit (state m) (Suc (2 * i)) then (if bit (state m) (2 * i) then kInFlush else kReserved)
      else if bit (state m) (2 * i) then kPinned else kUnpinned)"
  by (simp add: get_state_def state_of_code_def and_three_cases bit_drop_bit_eq)

lemma state_set_visited [simp, frame]: "state (set_visited m i) = state m"
  by (simp add: set_visited_def Let_def)

lemma state_clear_visited [simp, frame]: "state (clear_visited m i) = state m"
  by (simp add: clear_visited_def Let_def)

lemma hand_set_visited [simp, frame]: "hand (set_visited m i) = hand m"
  by (simp add: set_visited_def Let_def)

lemma hand_clear_visited [simp, frame]: "hand (clear_visited m i) = hand m"
  by (simp add: clear_visited_def Let_def)

lemma hand_force_pinned [simp, frame]: "hand (force_pinned m i) = hand m"
  by (simp add: force_pinned_def Let_def)

lemma get_state_cong: "state m = state m' \<Longrightarrow> get_state m i = get_state m' i"
  by (simp add: get_state_def)

lemma even_odd_index [simp]: "(2 * i :: nat) \<noteq> Suc (2 * j)" "Suc (2 * i) \<noteq> 2 * j"
  by presburger+

lemma get_state_force_pinned:
  assumes "i < 16" "j < 16"
  shows "get_state (force_pinned m i) j = (if j = i then kPinned else get_state m j)"
  using assms by (auto simp: get_state_bits force_pinned_def Let_def bit_simps bit_1_iff)

lemma get_state_force_unpinned:
  assumes "i < 16" "j < 16"
  shows "get_state (force_unpinned m i) j = (if j = i then kUnpinned else get_state m j)"
  using assms by (auto simp: get_state_bits force_unpinned_def bit_simps)

lemma state_code_and [simp]: "state_code s AND 3 = state_code s"
  by (cases s) simp_all

lemma cas_state_match:
  assumes "i < 16"
  shows "state m AND push_bit (2 * i) 3 = push_bit (2 * i) (state_code from)
    \<longleftrightarrow> get_state m i = from"
proof -
  have "state m AND push_bit (2 * i) 3 = push_bit (2 * i) (drop_bit (2 * i) (state m) AND 3)"
    by (rule bit_word_eqI) (auto simp: bit_simps)
  also have "\<dots> = push_bit (2 * i) (state_code (get_state m i))"
    by (simp add: get_state_def and_three_cases state_of_code_def)
  finally have eq: "state m AND push_bit (2 * i) 3 = push_bit (2 * i) (state_code (get_state m i))" .
  have "push_bit (2 * i) (state_code s) = push_bit (2 * i) (state_code t) \<longleftrightarrow> s = t" for s t
  proof
    assume "push_bit (2 * i) (state_code s) = push_bit (2 * i) (state_code t)"
    then have "bit (push_bit (2 * i) (state_code s)) (2 * i + k)
        = bit (push_bit (2 * i) (state_code t)) (2 * i + k)" for k by simp
    from this [of 0] this [of 1] assms show "s = t"
      by (cases s; cases t) (auto simp: bit_simps bit_1_iff)
  qed simp
  with eq show ?thesis by simp
qed

lemma cas_state_result:
  assumes "i < 16" "j < 16"
  shows "fst (cas_state m i from to) \<longleftrightarrow> get_state m i = from"
    and "get_state (snd (cas_state m i from to)) j
      = (if get_state m i = from \<and> j = i then to else get_state m j)"
    and "visited (snd (cas_state m i from to)) = visited m"
    and "hand (snd (cas_state m i from to)) = hand m"
proof -
  let ?s = "(state m AND NOT (push_bit (2 * i) 3)) OR push_bit (2 * i) (state_code to)"
  have "get_state (m\<lparr>state := ?s\<rparr>) j = (if j = i then to else get_state m j)"
    using assms
    by (cases to) (auto simp: get_state_bits bit_simps bit_1_iff)
  then show "get_state (snd (cas_state m i from to)) j
      = (if get_state m i = from \<and> j = i then to else get_state m j)"
    using cas_state_match [OF assms(1), of m "from"]
    by (auto simp: cas_state_def Let_def)
qed (use cas_state_match [OF assms(1), of m "from"] in \<open>auto simp: cas_state_def Let_def\<close>)

end
