(* ===== verification/Map_Interfaces.thy ===== *)
theory Map_Interfaces
  imports Hiom_Prelude
begin

text \<open>
  The contracts the two index tiers offer to the HiOM front end. A \<open>cache_map\<close> may forget an
  entry at any write but never returns anything other than the last value written for a key; a
  \<open>durable_map\<close> also keeps every accepted write. The hot tier provides the first, the cold tier
  the second. Both contracts are interpreted in the theories of their providers.
\<close>

datatype ('k, 'v) map_op = MPut 'k 'v | MDel 'k

primrec op_key :: "('k, 'v) map_op \<Rightarrow> 'k" where
  "op_key (MPut k v) = k"
| "op_key (MDel k) = k"

primrec op_val :: "('v \<Rightarrow> bool) \<Rightarrow> ('k, 'v) map_op \<Rightarrow> bool" where
  "op_val P (MPut k v) = P v"
| "op_val P (MDel k) = True"

primrec ghost_step :: "('k, 'v) map_op \<Rightarrow> ('k \<rightharpoonup> 'v) \<Rightarrow> ('k \<rightharpoonup> 'v)" where
  "ghost_step (MPut k v) g = g(k \<mapsto> v)"
| "ghost_step (MDel k) g = g(k := None)"

text \<open>\<open>last_write ops g\<close>: the map that remembers, per key, the last write of the sequence.\<close>

definition last_write :: "('k, 'v) map_op list \<Rightarrow> ('k \<rightharpoonup> 'v) \<Rightarrow> ('k \<rightharpoonup> 'v)" where
  "last_write ops g = fold ghost_step ops g"

lemma last_write_simps [simp]:
  "last_write [] g = g"
  "last_write (x # xs) g = last_write xs (ghost_step x g)"
  by (simp_all add: last_write_def)

locale cache_map =
  fixes inv :: "'s \<Rightarrow> bool"
    and key :: "'k \<Rightarrow> bool"
    and get :: "'s \<Rightarrow> 'k \<Rightarrow> 'v option"
    and put :: "'s \<Rightarrow> 'k \<Rightarrow> 'v \<Rightarrow> 's"
    and del :: "'s \<Rightarrow> 'k \<Rightarrow> 's"
  assumes inv_put: "inv s \<Longrightarrow> key k \<Longrightarrow> inv (put s k v)"
    and inv_del: "inv s \<Longrightarrow> key k \<Longrightarrow> inv (del s k)"
    and get_put_same: "inv s \<Longrightarrow> key k \<Longrightarrow> get (put s k v) k \<in> {None, Some v}"
    and get_put_other:
      "inv s \<Longrightarrow> key k \<Longrightarrow> key k' \<Longrightarrow> k \<noteq> k' \<Longrightarrow> get (put s k v) k' \<in> {None, get s k'}"
    and get_del_same: "inv s \<Longrightarrow> key k \<Longrightarrow> get (del s k) k = None"
    and get_del_other:
      "inv s \<Longrightarrow> key k \<Longrightarrow> key k' \<Longrightarrow> k \<noteq> k' \<Longrightarrow> get (del s k) k' \<in> {None, get s k'}"
begin

primrec step :: "('k, 'v) map_op \<Rightarrow> 's \<Rightarrow> 's" where
  "step (MPut k v) s = put s k v"
| "step (MDel k) s = del s k"

definition run :: "('k, 'v) map_op list \<Rightarrow> 's \<Rightarrow> 's" where
  "run ops s = fold step ops s"

lemma run_simps [simp]: "run [] s = s" "run (x # xs) s = run xs (step x s)"
  by (simp_all add: run_def)

lemma inv_step: "inv s \<Longrightarrow> key (op_key x) \<Longrightarrow> inv (step x s)"
  by (cases x) (auto intro: inv_put inv_del)

lemma inv_run: "inv s \<Longrightarrow> \<forall>x \<in> set ops. key (op_key x) \<Longrightarrow> inv (run ops s)"
  by (induction ops arbitrary: s) (auto intro: inv_step)

lemma step_coherent:
  assumes "inv s" "key (op_key x)" "key k" "get s k \<in> {None, g k}"
  shows "get (step x s) k \<in> {None, ghost_step x g k}"
proof (cases x)
  case (MPut k' v)
  with assms get_put_same [of s k' v] get_put_other [of s k' k v] show ?thesis
    by (cases "k' = k") auto
next
  case (MDel k')
  with assms get_del_same [of s k'] get_del_other [of s k' k] show ?thesis
    by (cases "k' = k") auto
qed

theorem run_coherent:
  assumes "inv s" "\<forall>x \<in> set ops. key (op_key x)" "key k" "get s k \<in> {None, g k}"
  shows "get (run ops s) k \<in> {None, last_write ops g k}"
  using assms
proof (induction ops arbitrary: s g)
  case (Cons x xs)
  have "get (step x s) k \<in> {None, ghost_step x g k}"
    using Cons.prems by (intro step_coherent) auto
  with Cons.IH [of "step x s" "ghost_step x g"] Cons.prems show ?case
    by (simp add: inv_step)
qed simp

end

text \<open>
  The durable contract: a write is accepted or refused as a whole; \<open>put\<close> returns the state and
  whether it accepted.
\<close>

locale durable_map =
  fixes inv :: "'s \<Rightarrow> bool"
    and key :: "'k \<Rightarrow> bool"
    and val :: "'v \<Rightarrow> bool"
    and get :: "'s \<Rightarrow> 'k \<Rightarrow> 'v option"
    and put :: "'s \<Rightarrow> 'k \<Rightarrow> 'v \<Rightarrow> bool \<times> 's"
    and del :: "'s \<Rightarrow> 'k \<Rightarrow> 's"
  assumes dinv_put: "inv s \<Longrightarrow> key k \<Longrightarrow> val v \<Longrightarrow> inv (snd (put s k v))"
    and dinv_del: "inv s \<Longrightarrow> key k \<Longrightarrow> inv (del s k)"
    and dget_put: "inv s \<Longrightarrow> key k \<Longrightarrow> key k' \<Longrightarrow> val v \<Longrightarrow> fst (put s k v) \<Longrightarrow>
        get (snd (put s k v)) k' = (if k' = k then Some v else get s k')"
    and dget_put_refused: "inv s \<Longrightarrow> key k \<Longrightarrow> key k' \<Longrightarrow> val v \<Longrightarrow> \<not> fst (put s k v) \<Longrightarrow>
        get (snd (put s k v)) k' = get s k'"
    and dget_del: "inv s \<Longrightarrow> key k \<Longrightarrow> key k' \<Longrightarrow>
        get (del s k) k' = (if k' = k then None else get s k')"
begin

text \<open>The run records which writes were accepted; refused ones leave the ghost map alone.\<close>

fun drun :: "('k, 'v) map_op list \<Rightarrow> 's \<Rightarrow> ('k \<rightharpoonup> 'v) \<Rightarrow> 's \<times> ('k \<rightharpoonup> 'v)" where
  "drun [] s g = (s, g)"
| "drun (MPut k v # xs) s g =
    (case put s k v of (ok, s') \<Rightarrow> drun xs s' (if ok then g(k \<mapsto> v) else g))"
| "drun (MDel k # xs) s g = drun xs (del s k) (g(k := None))"

theorem drun_exact:
  assumes "inv s" "\<forall>x \<in> set ops. key (op_key x) \<and> op_val val x" "\<And>k. key k \<Longrightarrow> get s k = g k"
  shows "inv (fst (drun ops s g)) \<and>
    (\<forall>k. key k \<longrightarrow> get (fst (drun ops s g)) k = snd (drun ops s g) k)"
  using assms
proof (induction ops s g rule: drun.induct)
  case (2 k v xs s g)
  obtain ok s' where put: "put s k v = (ok, s')" by (cases "put s k v") auto
  have key: "key k" and val: "val v" using "2.prems"(2) by simp_all
  from dinv_put [OF "2.prems"(1) key val] have "inv s'" by (simp add: put)
  moreover have "get s' k' = (if ok then g(k \<mapsto> v) else g) k'" if "key k'" for k'
    using dget_put [OF "2.prems"(1) key that val] dget_put_refused [OF "2.prems"(1) key that val]
      "2.prems"(3) [OF that] by (simp add: put)
  ultimately show ?case using "2.IH" [OF put [symmetric]] "2.prems"(2) by (simp add: put)
next
  case (3 k xs s g)
  have key: "key k" using "3.prems"(2) by simp
  have "get (del s k) k' = (g(k := None)) k'" if "key k'" for k'
    using dget_del [OF "3.prems"(1) key that] "3.prems"(3) [OF that] by simp
  from "3.IH" [OF dinv_del [OF "3.prems"(1) key] _ this] "3.prems"(2) show ?case
    by (simp add: fun_upd_def)
qed simp

end

end
