(* ===== verification/Hot_Tier_Props.thy ===== *)
theory Hot_Tier_Props
  imports Hot_Tier Map_Interfaces
begin

text \<open>
  Correctness of the hot tier: the bucket invariant, the completeness of SIEVE, the outcome of
  the two upserts on every branch, the table invariant and its preservation, and the
  \<open>cache_map\<close> contract interpreted on the model's own operations.
\<close>

section \<open>Buckets as sets of packed pairs\<close>

definition bucket_inv :: "bucket \<Rightarrow> bool" where
  "bucket_inv b \<longleftrightarrow> length b = 16
     \<and> (\<forall>i < 16. unpack_fp (b ! i) = 0 \<longrightarrow> b ! i = 0)
     \<and> (\<forall>i < 16. \<forall>j < 16. unpack_fp (b ! i) = unpack_fp (b ! j) \<and> unpack_fp (b ! i) \<noteq> 0 \<longrightarrow> i = j)"

definition slot_of :: "bucket \<Rightarrow> u32 \<Rightarrow> nat option" where
  "slot_of b fp = first_idx kSlotsPerBucket (\<lambda>i. unpack_fp (b ! i) = fp)"

definition bget :: "bucket \<Rightarrow> u32 \<Rightarrow> u32 option" where
  "bget b fp = map_option (\<lambda>i. unpack_off (b ! i)) (slot_of b fp)"

definition occupied :: "bucket \<Rightarrow> nat" where
  "occupied b = length (filter (\<lambda>v. v \<noteq> 0) b)"

lemma pack_unpack [simp]: "pack (unpack_fp v) (unpack_off v) = v"
proof (rule bit_word_eqI)
  fix n assume "n < LENGTH(64)"
  then show "bit (pack (unpack_fp v) (unpack_off v)) n = bit v n"
    by (cases "n < 32") (auto simp: pack_def unpack_fp_def unpack_off_def bit_simps)
qed

lemma slot_of_SomeD: "slot_of b fp = Some i \<Longrightarrow> i < 16 \<and> unpack_fp (b ! i) = fp"
  unfolding slot_of_def kSlotsPerBucket_def by (drule first_idx_SomeD) simp

lemma slot_of_None_iff: "slot_of b fp = None \<longleftrightarrow> (\<forall>i < 16. unpack_fp (b ! i) \<noteq> fp)"
  by (simp add: slot_of_def kSlotsPerBucket_def first_idx_None_iff)

lemma slot_of_iff:
  assumes "bucket_inv b" "fp \<noteq> 0"
  shows "slot_of b fp = Some i \<longleftrightarrow> i < 16 \<and> unpack_fp (b ! i) = fp"
proof
  assume "i < 16 \<and> unpack_fp (b ! i) = fp"
  then show "slot_of b fp = Some i"
    using assms unfolding slot_of_def kSlotsPerBucket_def bucket_inv_def
    by (intro first_idx_unique) auto
qed (rule slot_of_SomeD)

lemma bget_iff:
  assumes "bucket_inv b" "fp \<noteq> 0"
  shows "bget b fp = Some off \<longleftrightarrow> (\<exists>i < 16. b ! i = pack fp off)"
proof
  assume "bget b fp = Some off"
  then obtain i where "slot_of b fp = Some i" "off = unpack_off (b ! i)"
    by (auto simp: bget_def)
  then show "\<exists>i < 16. b ! i = pack fp off" by (auto dest!: slot_of_SomeD)
next
  assume "\<exists>i < 16. b ! i = pack fp off"
  then show "bget b fp = Some off" using slot_of_iff [OF assms] by (auto simp: bget_def)
qed

lemma bget_None_iff: "bget b fp = None \<longleftrightarrow> (\<forall>i < 16. unpack_fp (b ! i) \<noteq> fp)"
  by (simp add: bget_def slot_of_None_iff)

lemma bucket_inv_replicate [simp]: "bucket_inv (replicate kSlotsPerBucket 0)"
  by (simp add: bucket_inv_def kSlotsPerBucket_def)

lemma bucket_invI:
  assumes "length b = 16" "\<And>i. i < 16 \<Longrightarrow> unpack_fp (b ! i) = 0 \<Longrightarrow> b ! i = 0"
    and "\<And>i j. i < 16 \<Longrightarrow> j < 16 \<Longrightarrow> unpack_fp (b ! i) = unpack_fp (b ! j) \<Longrightarrow>
      unpack_fp (b ! i) \<noteq> 0 \<Longrightarrow> i = j"
  shows "bucket_inv b"
  using assms unfolding bucket_inv_def by blast

lemma bucket_invD:
  assumes "bucket_inv b"
  shows "length b = 16" and "i < 16 \<Longrightarrow> unpack_fp (b ! i) = 0 \<Longrightarrow> b ! i = 0"
    and "i < 16 \<Longrightarrow> j < 16 \<Longrightarrow> unpack_fp (b ! i) = unpack_fp (b ! j) \<Longrightarrow>
      unpack_fp (b ! i) \<noteq> 0 \<Longrightarrow> i = j"
  using assms unfolding bucket_inv_def by blast+

lemma bucket_inv_update:
  assumes "bucket_inv b" "t < 16" "fp \<noteq> 0"
    and only: "\<And>i. i < 16 \<Longrightarrow> unpack_fp (b ! i) = fp \<Longrightarrow> i = t"
  shows "bucket_inv (b[t := pack fp off])"
proof (rule bucket_invI)
  show "length (b[t := pack fp off]) = 16" using bucket_invD(1) [OF assms(1)] by simp
next
  fix i assume "i < 16" "unpack_fp (b[t := pack fp off] ! i) = 0"
  then show "b[t := pack fp off] ! i = 0"
    using assms(3) bucket_invD(1,2) [OF assms(1)] by (cases "i = t") auto
next
  fix i j assume ij: "i < 16" "j < 16" and nz: "unpack_fp (b[t := pack fp off] ! i) \<noteq> 0"
    and eq: "unpack_fp (b[t := pack fp off] ! i) = unpack_fp (b[t := pack fp off] ! j)"
  note len = bucket_invD(1) [OF assms(1)]
  show "i = j"
  proof (cases "i = t \<or> j = t")
    case True
    with eq only [OF ij(1)] only [OF ij(2)] len assms(2) show ?thesis
      by (metis nth_list_update_eq nth_list_update_neq unpack_pack(1))
  next
    case False
    with nz eq bucket_invD(3) [OF assms(1) ij] show ?thesis by simp
  qed
qed

lemma bucket_inv_clear:
  assumes "bucket_inv b" "t < 16"
  shows "bucket_inv (b[t := 0])"
proof (rule bucket_invI)
  show "length (b[t := 0]) = 16" using bucket_invD(1) [OF assms(1)] by simp
next
  fix i assume "i < 16" "unpack_fp (b[t := 0] ! i) = 0"
  then show "b[t := 0] ! i = 0" using bucket_invD(1,2) [OF assms(1)] by (cases "i = t") auto
next
  fix i j assume "i < 16" "j < 16" "unpack_fp (b[t := 0] ! i) \<noteq> 0"
    and "unpack_fp (b[t := 0] ! i) = unpack_fp (b[t := 0] ! j)"
  then show "i = j"
    using assms(2) bucket_invD(1) [OF assms(1)] bucket_invD(3) [OF assms(1), of i j]
    by (cases "i = t"; cases "j = t") simp_all
qed

lemma occupied_update:
  "t < length b \<Longrightarrow>
   occupied (b[t := v]) + (if b ! t = 0 then 0 else 1) = occupied b + (if v = 0 then 0 else 1)"
proof (induction b arbitrary: t)
  case (Cons x xs)
  show ?case
  proof (cases t)
    case (Suc n)
    with Cons.IH [of n] Cons.prems show ?thesis by (auto simp: occupied_def split: if_splits)
  qed (simp add: occupied_def)
qed simp

lemma occupied_le: "occupied b \<le> length b"
  by (simp add: occupied_def)

section \<open>Probing\<close>

lemma probe_scan:
  "probe b fp i n fe = (case scan_from i n (\<lambda>k. unpack_fp (b ! k) = fp) of
     Some k \<Rightarrow> Match k
   | None \<Rightarrow> Miss (case fe of Some e \<Rightarrow> Some e
                    | None \<Rightarrow> scan_from i n (\<lambda>k. unpack_fp (b ! k) = kEmptyFp)))"
  by (induction b fp i n fe rule: probe.induct) (auto simp: Let_def split: option.splits)

lemma probe_slots:
  "probe b fp 0 kSlotsPerBucket None = (case slot_of b fp of
     Some k \<Rightarrow> Match k | None \<Rightarrow> Miss (slot_of b kEmptyFp))"
  by (simp add: probe_scan slot_of_def first_idx_def split: option.splits)

lemma cas_slot_same [simp]: "cas_slot b i (b ! i) v = (True, b[i := v])"
  by (simp add: cas_slot_def)

section \<open>SIEVE\<close>

lemma get_state_updates [simp]:
  "get_state (m\<lparr>visited := w\<rparr>) j = get_state m j" "get_state (m\<lparr>hand := h\<rparr>) j = get_state m j"
  by (simp_all add: get_state_def)

lemma and_one_bit: "drop_bit i (w :: u16) AND 1 \<noteq> 0 \<longleftrightarrow> bit w i"
  by (simp add: bit_iff_odd_drop_bit and_one_eq odd_iff_mod_2_eq_one)

lemma bit_clear_one: "i < 16 \<Longrightarrow> bit ((w :: u16) AND NOT (push_bit i 1)) j \<longleftrightarrow> bit w j \<and> j \<noteq> i"
  by (auto simp: bit_simps bit_1_iff dest: bit_imp_le_length)

definition evicted :: "bucket \<Rightarrow> nat \<Rightarrow> HotCounters \<Rightarrow> HotCounters" where
  "evicted b i c = (if b ! i = 0 then c
     else c\<lparr>hot_size := hot_size c - 1, eviction_count := eviction_count c + 1\<rparr>)"

text \<open>A sweep touches no slot state, and only ever clears an unpinned slot.\<close>

lemma sieve_loop_outcome:
  "sieve_loop h k n b m c = (r, b', m', c') \<Longrightarrow>
     state m' = state m \<and>
     (case r of None \<Rightarrow> b' = b \<and> c' = c
      | Some i \<Rightarrow> i < 16 \<and> get_state m i = kUnpinned \<and> b' = b[i := 0] \<and> c' = evicted b i c)"
proof (induction h k n b m c rule: sieve_loop.induct)
  case (2 h k n b m c)
  let ?i = "(h + k) mod kSlotsPerBucket"
  let ?m = "m\<lparr>visited := visited m AND NOT (push_bit ?i 1)\<rparr>"
  consider "get_state m ?i \<noteq> kUnpinned"
    | "get_state m ?i = kUnpinned" "drop_bit ?i (visited m) AND 1 \<noteq> 0"
    | "get_state m ?i = kUnpinned" "drop_bit ?i (visited m) AND 1 = 0" by blast
  then show ?case
  proof cases
    case 1
    with "2.IH"(1) [OF refl 1] "2.prems" show ?thesis by (simp add: Let_def)
  next
    case 2
    with "2.IH"(2) [OF refl] "2.prems" show ?thesis by (auto simp: Let_def split: option.splits)
  next
    case 3
    moreover have "b[?i := 0] = b" if "b ! ?i = 0" using that by (metis list_update_id)
    ultimately show ?thesis using "2.prems"
      by (auto simp: Let_def kSlotsPerBucket_def evicted_def split: if_splits)
  qed
qed simp

text \<open>A sweep that finds no victim saw every unpinned slot visited, and has cleared its bit.\<close>

lemma sieve_loop_None:
  "sieve_loop h k n b m c = (None, b', m', c') \<Longrightarrow>
     (\<forall>j. bit (visited m') j \<longrightarrow> bit (visited m) j) \<and>
     (\<forall>j. k \<le> j \<and> j < k + n \<and> get_state m ((h + j) mod 16) = kUnpinned \<longrightarrow>
        bit (visited m) ((h + j) mod 16) \<and> \<not> bit (visited m') ((h + j) mod 16))"
proof (induction h k n b m c rule: sieve_loop.induct)
  case (2 h k n b m c)
  let ?i = "(h + k) mod kSlotsPerBucket"
  let ?m = "m\<lparr>visited := visited m AND NOT (push_bit ?i 1)\<rparr>"
  have i: "?i < 16" by (simp add: kSlotsPerBucket_def)
  have "drop_bit ?i (visited m) AND 1 \<noteq> 0" if "get_state m ?i = kUnpinned"
    using "2.prems" that by (auto simp: Let_def split: if_splits)
  then consider "get_state m ?i \<noteq> kUnpinned"
    | "get_state m ?i = kUnpinned" "drop_bit ?i (visited m) AND 1 \<noteq> 0" by blast
  then show ?case
  proof cases
    case 1
    with "2.IH"(1) [OF refl 1] "2.prems" show ?thesis
      by (simp add: Let_def kSlotsPerBucket_def) (metis Suc_leI le_neq_implies_less)
  next
    case 2
    then have "sieve_loop h (Suc k) n b ?m c = (None, b', m', c')"
      using "2.prems" by (simp add: Let_def)
    with "2.IH"(2) [OF refl _ _ this] 2
    have IH: "\<forall>j. bit (visited m') j \<longrightarrow> bit (visited ?m) j"
      "\<forall>j. Suc k \<le> j \<and> j < Suc k + n \<and> get_state m ((h + j) mod 16) = kUnpinned \<longrightarrow>
        bit (visited ?m) ((h + j) mod 16) \<and> \<not> bit (visited m') ((h + j) mod 16)"
      by auto
    have bit_m: "bit (visited ?m) j \<longleftrightarrow> bit (visited m) j \<and> j \<noteq> ?i" for j
      using bit_clear_one [OF i] by simp
    have "bit (visited m) ?i" using 2(2) by (simp add: and_one_bit)
    moreover have "\<not> bit (visited m') ?i" using IH(1) bit_m by blast
    moreover have "j = k \<or> Suc k \<le> j" if "k \<le> j" for j using that by linarith
    ultimately show ?thesis using IH bit_m unfolding kSlotsPerBucket_def by fastforce
  qed
qed simp

lemma sieve_loop_split:
  assumes "sieve_loop h k (n1 + n2) b m c = (None, b', m', c')"
  shows "\<exists>m1. sieve_loop h k n1 b m c = (None, b, m1, c)
     \<and> sieve_loop h (k + n1) n2 b m1 c = (None, b', m', c')"
  using assms
proof (induction n1 arbitrary: k m)
  case (Suc n1)
  let ?m = "m\<lparr>visited := visited m AND NOT (push_bit ((h + k) mod kSlotsPerBucket) 1)\<rparr>"
  from Suc.prems Suc.IH [of "Suc k" m] Suc.IH [of "Suc k" ?m] show ?case
    by (auto simp: Let_def split: if_splits)
qed simp

lemma sieve_evict_outcome:
  assumes "sieve_evict b m c = (r, b', m', c')"
  shows "state m' = state m" and "r = None \<Longrightarrow> b' = b \<and> c' = c"
    and "r = Some i \<Longrightarrow> i < 16 \<and> get_state m i = kUnpinned \<and> b' = b[i := 0] \<and> c' = evicted b i c"
  using sieve_loop_outcome [OF assms [unfolded sieve_evict_def]] by auto

lemma reach_slot: "i < 16 \<Longrightarrow> \<exists>j < 16. (h + j) mod 16 = i \<and> (h + (16 + j)) mod 16 = i" for h i :: nat
proof (intro exI conjI)
  assume i: "i < 16"
  have "(h + (i + 15 * h) mod 16) mod 16 = (16 * h + i) mod 16" by (simp add: mod_simps)
  also have "\<dots> = i" using i by (simp add: mod_mult_self2 [of i 16 h] add.commute)
  finally show first: "(h + (i + 15 * h) mod 16) mod 16 = i" .
  have "(h + (16 + (i + 15 * h) mod 16)) mod 16 = ((h + (i + 15 * h) mod 16) + 16) mod 16"
    by (simp only: ac_simps)
  also have "\<dots> = i" using first by simp
  finally show "(h + (16 + (i + 15 * h) mod 16)) mod 16 = i" .
qed simp

text \<open>Two sweeps find a victim whenever one slot is unpinned.\<close>

lemma sieve_evict_complete:
  assumes "i < 16" "get_state m i = kUnpinned"
  shows "fst (sieve_evict b m c) \<noteq> None"
proof
  assume "fst (sieve_evict b m c) = None"
  then obtain b' m' c' where "sieve_loop (unat (hand m)) 0 (16 + 16) b m c = (None, b', m', c')"
    by (cases "sieve_evict b m c") (auto simp: sieve_evict_def kSlotsPerBucket_def)
  from sieve_loop_split [OF this] obtain m1 where
    one: "sieve_loop (unat (hand m)) 0 16 b m c = (None, b, m1, c)" and
    two: "sieve_loop (unat (hand m)) 16 16 b m1 c = (None, b', m', c')" by auto
  from reach_slot [OF assms(1), of "unat (hand m)"] obtain j where
    j: "j < 16" "(unat (hand m) + j) mod 16 = i" "(unat (hand m) + (16 + j)) mod 16 = i" by blast
  have "\<not> bit (visited m1) i"
    using sieve_loop_None [OF one] j(1,2) assms(2) by (metis add_0 le0)
  moreover have "get_state m1 i = kUnpinned"
    using sieve_loop_outcome [OF one] assms(2) get_state_cong by metis
  ultimately show False
    using sieve_loop_None [OF two] j(1,3) by (metis add_less_cancel_left le_add1)
qed

lemma sieve_evict_None_iff:
  "fst (sieve_evict b m c) = None \<longleftrightarrow> (\<forall>i < 16. get_state m i \<noteq> kUnpinned)"
proof
  assume all: "\<forall>i < 16. get_state m i \<noteq> kUnpinned"
  obtain r b' m' c' where s: "sieve_evict b m c = (r, b', m', c')"
    by (cases "sieve_evict b m c")
  have "r \<noteq> Some i" for i using sieve_evict_outcome(3) [OF s, of i] all by auto
  then show "fst (sieve_evict b m c) = None" by (cases r) (auto simp: s)
qed (use sieve_evict_complete in blast)

section \<open>The outcome of an upsert\<close>

text \<open>
  \<open>target b m fp t\<close>: slot \<open>t\<close> is where a write of \<open>fp\<close> may go: the slot that already carries
  \<open>fp\<close>, else an empty slot, else an unpinned slot of a full bucket.
\<close>

definition target :: "bucket \<Rightarrow> BucketMeta \<Rightarrow> u32 \<Rightarrow> nat \<Rightarrow> bool" where
  "target b m fp t \<longleftrightarrow> t < 16 \<and>
     (if slot_of b fp \<noteq> None then slot_of b fp = Some t
      else if slot_of b kEmptyFp \<noteq> None then slot_of b kEmptyFp = Some t
      else get_state m t = kUnpinned)"

definition refuses :: "bucket \<Rightarrow> BucketMeta \<Rightarrow> u32 \<Rightarrow> bool" where
  "refuses b m fp \<longleftrightarrow> slot_of b fp = None \<and> slot_of b kEmptyFp = None
     \<and> (\<forall>i < 16. get_state m i \<noteq> kUnpinned)"

lemma refuses_no_target: "refuses b m fp \<Longrightarrow> \<not> target b m fp t"
  by (auto simp: refuses_def target_def)

text \<open>What a write does to the counters when it lands in slot \<open>t\<close>.\<close>

definition written :: "bucket \<Rightarrow> u32 \<Rightarrow> nat \<Rightarrow> HotCounters \<Rightarrow> HotCounters" where
  "written b fp t c = (if slot_of b fp \<noteq> None then c
     else let c1 = evicted b t c in c1\<lparr>hot_size := hot_size c1 + 1\<rparr>)"

lemma empty_slot_zero:
  assumes "bucket_inv b" "slot_of b kEmptyFp = Some t"
  shows "b ! t = 0"
  using slot_of_SomeD [OF assms(2)] bucket_invD(2) [OF assms(1)] by (simp add: kEmptyFp_def)

lemma upsert_loop_cases:
  assumes "bucket_inv b" "fp \<noteq> 0" "upsert_loop (Suc r) fp off b m c = (res, b', m', c')"
  shows "(refuses b m fp \<and> res = kInvalidOffset \<and> b' = b \<and> c' = c \<and> state m' = state m) \<or>
    (\<exists>t. target b m fp t \<and> b' = b[t := pack fp off] \<and> c' = written b fp t c \<and> state m' = state m
       \<and> res = (case bget b fp of Some v \<Rightarrow> v | None \<Rightarrow> kInvalidOffset))"
proof (cases "slot_of b fp")
  case (Some t)
  with assms(3) slot_of_SomeD [OF Some] show ?thesis
    by (intro disjI2 exI [of _ t]) (auto simp: probe_slots target_def written_def bget_def Let_def)
next
  case no_fp: None
  show ?thesis
  proof (cases "slot_of b kEmptyFp")
    case (Some t)
    with no_fp assms(3) slot_of_SomeD [OF Some] empty_slot_zero [OF assms(1) Some] show ?thesis
      by (intro disjI2 exI [of _ t])
        (auto simp: probe_slots target_def written_def bget_def evicted_def cas_slot_def Let_def)
  next
    case None
    obtain v b1 m1 c1 where s: "sieve_evict b m c = (v, b1, m1, c1)" by (cases "sieve_evict b m c")
    show ?thesis
    proof (cases v)
      case v: None
      with sieve_evict_None_iff [of b m c] sieve_evict_outcome [OF s] no_fp None s assms(3)
      show ?thesis by (auto simp: probe_slots refuses_def)
    next
      case (Some t)
      with sieve_evict_outcome [OF s] no_fp None s assms(3) bucket_invD(1) [OF assms(1)]
      show ?thesis
        by (intro disjI2 exI [of _ t])
          (auto simp: probe_slots target_def written_def bget_def cas_slot_def Let_def)
    qed
  qed
qed

lemma upsert_pinned_loop_cases:
  assumes "bucket_inv b" "fp \<noteq> 0" "upsert_pinned_loop (Suc r) bi fp off b m c = (res, b', m', c')"
  shows "(refuses b m fp \<and> res = no_ref \<and> b' = b \<and> c' = c\<lparr>pin_failures := pin_failures c + 1\<rparr>
       \<and> state m' = state m) \<or>
    (\<exists>t. target b m fp t \<and> b' = b[t := pack fp off] \<and> c' = written b fp t c
       \<and> (\<forall>j < 16. get_state m' j = (if j = t then kPinned else get_state m j))
       \<and> res = \<lparr> bucket_idx = bi, slot_idx = t, valid = True \<rparr>)"
proof (cases "slot_of b fp")
  case (Some t)
  with assms(3) slot_of_SomeD [OF Some] get_state_force_pinned [of t _ "set_visited m t"]
    get_state_cong [of "set_visited m t" m] show ?thesis
    by (intro disjI2 exI [of _ t]) (auto simp: probe_slots target_def written_def Let_def)
next
  case no_fp: None
  show ?thesis
  proof (cases "slot_of b kEmptyFp")
    case (Some t)
    with no_fp assms(3) slot_of_SomeD [OF Some] empty_slot_zero [OF assms(1) Some]
      get_state_force_pinned [of t _ "clear_visited m t"] get_state_cong [of "clear_visited m t" m]
    show ?thesis
      by (intro disjI2 exI [of _ t])
        (auto simp: probe_slots target_def written_def evicted_def cas_slot_def Let_def)
  next
    case None
    obtain v b1 m1 c1 where s: "sieve_evict b m c = (v, b1, m1, c1)" by (cases "sieve_evict b m c")
    show ?thesis
    proof (cases v)
      case v: None
      with sieve_evict_None_iff [of b m c] sieve_evict_outcome [OF s] no_fp None s assms(3)
      show ?thesis by (auto simp: probe_slots refuses_def)
    next
      case (Some t)
      with sieve_evict_outcome [OF s] no_fp None s assms(3) bucket_invD(1) [OF assms(1)]
        get_state_force_pinned [of t _ "clear_visited m1 t"]
        get_state_cong [of "clear_visited m1 t" m]
      show ?thesis
        by (intro disjI2 exI [of _ t])
          (auto simp: probe_slots target_def written_def cas_slot_def Let_def)
    qed
  qed
qed

section \<open>What a write does to the bucket's contents\<close>

lemma target_only:
  assumes "bucket_inv b" "fp \<noteq> 0" "target b m fp t" "i < 16" "unpack_fp (b ! i) = fp"
  shows "i = t"
proof -
  have "slot_of b fp = Some i" using slot_of_iff [OF assms(1,2)] assms(4,5) by simp
  with assms(3) show ?thesis by (simp add: target_def)
qed

lemma target_inv:
  assumes "bucket_inv b" "fp \<noteq> 0" "target b m fp t"
  shows "bucket_inv (b[t := pack fp off])"
  using assms target_only [OF assms] by (intro bucket_inv_update) (auto simp: target_def)

lemma target_get_same:
  assumes "bucket_inv b" "fp \<noteq> 0" "target b m fp t"
  shows "bget (b[t := pack fp off]) fp = Some off"
proof -
  have "t < 16" "length b = 16" using assms(3) bucket_invD(1) [OF assms(1)] by (auto simp: target_def)
  then show ?thesis using bget_iff [OF target_inv [OF assms] assms(2)] by (auto intro!: exI [of _ t])
qed

lemma target_get_other:
  assumes "bucket_inv b" "fp \<noteq> 0" "target b m fp t" "fp' \<noteq> 0" "fp' \<noteq> fp"
  shows "slot_of (b[t := pack fp off]) fp' = (if slot_of b fp' = Some t then None else slot_of b fp')"
proof -
  have len: "t < 16" "length b = 16" using assms(3) bucket_invD(1) [OF assms(1)] by (auto simp: target_def)
  have "slot_of (b[t := pack fp off]) fp' = Some i \<longleftrightarrow> slot_of b fp' = Some i \<and> i \<noteq> t" for i
    using slot_of_iff [OF target_inv [OF assms(1-3)] assms(4)] slot_of_iff [OF assms(1,4)] assms(5) len
    by (cases "i = t") auto
  then show ?thesis by (metis not_None_eq)
qed

text \<open>Only an unpinned slot loses its entry.\<close>

lemma target_evicts_unpinned:
  assumes "bucket_inv b" "target b m fp t" "slot_of b fp' = Some t" "fp' \<noteq> fp" "fp' \<noteq> 0"
  shows "get_state m t = kUnpinned"
proof -
  have "unpack_fp (b ! t) = fp'" using slot_of_SomeD [OF assms(3)] by simp
  then have "slot_of b fp \<noteq> Some t" "slot_of b kEmptyFp \<noteq> Some t"
    using assms(4,5) slot_of_SomeD [of b fp t] slot_of_SomeD [of b kEmptyFp t]
    by (auto simp: kEmptyFp_def)
  with assms(2) show ?thesis by (auto simp: target_def split: if_splits)
qed

lemma target_occupied:
  assumes "bucket_inv b" "fp \<noteq> 0" "target b m fp t" "occupied b \<le> hot_size c"
  shows "hot_size (written b fp t c) + occupied b = hot_size c + occupied (b[t := pack fp off])"
proof -
  have len: "t < length b" using assms(3) bucket_invD(1) [OF assms(1)] by (simp add: target_def)
  have nz: "b ! t \<noteq> 0" if "slot_of b fp \<noteq> None"
    using that assms(2,3) slot_of_SomeD [of b fp t] by (auto simp: target_def)
  have pos: "1 \<le> hot_size c" if "b ! t \<noteq> 0"
    using occupied_update [OF len, of 0] that assms(4) by simp
  show ?thesis
    using occupied_update [OF len, of "pack fp off"] assms(2) nz pos
    by (cases "slot_of b fp") (auto simp: written_def evicted_def Let_def split: if_splits)
qed

section \<open>The table\<close>

definition ht_inv :: "HotTier \<Rightarrow> bool" where
  "ht_inv ht \<longleftrightarrow> (\<exists>k \<le> 63. num_buckets ht = 2 ^ k \<and> hot_mask ht = mask k)
     \<and> length (buckets ht) = num_buckets ht \<and> length (meta ht) = num_buckets ht
     \<and> (\<forall>b \<in> set (buckets ht). bucket_inv b)
     \<and> hot_size (counters ht) = sum_list (map occupied (buckets ht))"

text \<open>The slot that holds a fingerprint, and that slot's state.\<close>

definition entry_at :: "HotTier \<Rightarrow> u32 \<Rightarrow> (nat \<times> nat) option" where
  "entry_at ht fp = map_option (Pair (bucket_index ht fp)) (slot_of (buckets ht ! bucket_index ht fp) fp)"

definition state_at :: "HotTier \<Rightarrow> nat \<times> nat \<Rightarrow> SlotState" where
  "state_at ht p = get_state (meta ht ! fst p) (snd p)"

lemma peek_bget: "peek ht fp = bget (buckets ht ! bucket_index ht fp) fp"
  by (simp add: peek_def bget_def slot_of_def Let_def split: option.splits)

lemma bucket_index_less: "ht_inv ht \<Longrightarrow> bucket_index ht fp < num_buckets ht"
  using unat_take_bit_less
  by (auto simp only: ht_inv_def bucket_index_def Let_def take_bit_eq_mask [symmetric])

lemma ht_invD:
  assumes "ht_inv ht"
  shows "length (buckets ht) = num_buckets ht" "length (meta ht) = num_buckets ht"
    and "i < num_buckets ht \<Longrightarrow> bucket_inv (buckets ht ! i)"
    and "i < num_buckets ht \<Longrightarrow> occupied (buckets ht ! i) \<le> hot_size (counters ht)"
  using assms by (auto simp: ht_inv_def intro!: member_le_sum_list)

lemma bucket_index_put [simp, frame]: "bucket_index (put_bucket ht i bmc) fp = bucket_index ht fp"
  by (cases bmc) (simp add: put_bucket_def bucket_index_def)

lemma bucket_index_meta [simp, frame]: "bucket_index (ht\<lparr>meta := x\<rparr>) fp = bucket_index ht fp"
  by (simp add: bucket_index_def)

lemma put_bucket_sel [simp]:
  "buckets (put_bucket ht i (b, m, c)) = (buckets ht)[i := b]"
  "meta (put_bucket ht i (b, m, c)) = (meta ht)[i := m]"
  "counters (put_bucket ht i (b, m, c)) = c"
  "num_buckets (put_bucket ht i (b, m, c)) = num_buckets ht"
  "hot_mask (put_bucket ht i (b, m, c)) = hot_mask ht"
  by (simp_all add: put_bucket_def)

lemma ht_inv_put_bucket:
  assumes "ht_inv ht" "i < num_buckets ht" "bucket_inv b"
    and "hot_size c + occupied (buckets ht ! i) = hot_size (counters ht) + occupied b"
  shows "ht_inv (put_bucket ht i (b, m, c))"
proof -
  let ?os = "map occupied (buckets ht)"
  have i: "i < length ?os" using assms(1,2) by (simp add: ht_inv_def)
  have "occupied (buckets ht ! i) \<le> sum_list ?os"
    using i by (simp add: member_le_sum_list)
  then have "hot_size c = sum_list (?os[i := occupied b])"
    using sum_list_update [OF i, of "occupied b"] assms(1,4) i by (simp add: ht_inv_def)
  then show ?thesis
    using assms(1-3) by (auto simp: ht_inv_def map_update dest!: set_update_subset_insert [THEN subsetD])
qed

lemma ht_inv_meta:
  assumes "ht_inv ht"
  shows "ht_inv (ht\<lparr>meta := (meta ht)[i := m]\<rparr>)"
  using assms by (simp add: ht_inv_def)

lemma ht_inv_new: "k \<le> 63 \<Longrightarrow> ht_inv (hot_new (2 ^ k))"
  by (auto simp: ht_inv_def hot_new_def mask_eq_exp_minus_1 occupied_def sum_list_replicate
      kSlotsPerBucket_def [symmetric] intro!: exI [of _ k])

section \<open>Writes at the level of the table\<close>

lemma hot_write_frame:
  assumes "ht_inv ht" "fp \<noteq> 0" "target (buckets ht ! bucket_index ht fp) (meta ht ! bucket_index ht fp) fp t"
    and ht'_def: "ht' = put_bucket ht (bucket_index ht fp)
      ((buckets ht ! bucket_index ht fp)[t := pack fp off], m',
       written (buckets ht ! bucket_index ht fp) fp t (counters ht))"
  shows "ht_inv ht'" "peek ht' fp = Some off" "entry_at ht' fp = Some (bucket_index ht fp, t)"
    and "fp' \<noteq> 0 \<Longrightarrow> fp' \<noteq> fp \<Longrightarrow>
      entry_at ht' fp' = (if entry_at ht fp' = Some (bucket_index ht fp, t) then None else entry_at ht fp')"
    and "fp' \<noteq> 0 \<Longrightarrow> fp' \<noteq> fp \<Longrightarrow>
      peek ht' fp' = (if entry_at ht fp' = Some (bucket_index ht fp, t) then None else peek ht fp')"
proof -
  let ?i = "bucket_index ht fp" and ?b = "buckets ht ! bucket_index ht fp"
  let ?b' = "?b[t := pack fp off]"
  note i = bucket_index_less [OF assms(1), of fp]
  note b = ht_invD(3) [OF assms(1) i]
  have len: "?i < length (buckets ht)" using i ht_invD(1) [OF assms(1)] by simp
  note b' = target_inv [OF b assms(2,3), of off]
  show "ht_inv ht'" unfolding ht'_def
    using target_occupied [OF b assms(2,3) ht_invD(4) [OF assms(1) i], of off] i b'
    by (intro ht_inv_put_bucket [OF assms(1)]) simp_all
  show peek: "peek ht' fp = Some off"
    using target_get_same [OF b assms(2,3), of off] len by (simp add: ht'_def peek_bget)
  have t: "t < 16" "t < length ?b" using assms(3) bucket_invD(1) [OF b] by (simp_all add: target_def)
  have "slot_of ?b' fp = Some t" using slot_of_iff [OF b' assms(2), of t] t by simp
  then show "entry_at ht' fp = Some (?i, t)" using len by (simp add: ht'_def entry_at_def)
  assume ne: "fp' \<noteq> 0" "fp' \<noteq> fp"
  note other = target_get_other [OF b assms(2,3) ne, of off]
  show "entry_at ht' fp' = (if entry_at ht fp' = Some (?i, t) then None else entry_at ht fp')"
    using other len by (cases "bucket_index ht fp' = ?i") (auto simp: ht'_def entry_at_def)
  show "peek ht' fp' = (if entry_at ht fp' = Some (?i, t) then None else peek ht fp')"
    using other len slot_of_SomeD [of ?b fp']
    by (cases "bucket_index ht fp' = ?i"; cases "slot_of ?b fp'")
      (auto simp: ht'_def entry_at_def peek_bget bget_def)
qed

section \<open>The operations\<close>

lemma kMaxUpsertRetries_Suc: "kMaxUpsertRetries = Suc 15"
  by (simp add: kMaxUpsertRetries_def)

text \<open>The common shape of the two upserts: refused as a whole, or written into a target slot.\<close>

lemma hot_upsert_cases:
  assumes "ht_inv ht" "fp \<noteq> 0"
  defines "i \<equiv> bucket_index ht fp"
  obtains (refused) m' where "refuses (buckets ht ! i) (meta ht ! i) fp"
      "hot_upsert ht fp off = (kInvalidOffset, put_bucket ht i (buckets ht ! i, m', counters ht))"
      "state m' = state (meta ht ! i)"
  | (stored) t m' where "target (buckets ht ! i) (meta ht ! i) fp t"
      "hot_upsert ht fp off = (case peek ht fp of Some v \<Rightarrow> v | None \<Rightarrow> kInvalidOffset,
         put_bucket ht i ((buckets ht ! i)[t := pack fp off], m',
           written (buckets ht ! i) fp t (counters ht)))"
      "state m' = state (meta ht ! i)"
proof -
  obtain r b' m' c' where u: "upsert_loop kMaxUpsertRetries fp off (buckets ht ! i) (meta ht ! i)
      (counters ht) = (r, b', m', c')" by (metis prod_cases4)
  have "bucket_inv (buckets ht ! i)"
    unfolding i_def by (rule ht_invD(3) [OF assms(1) bucket_index_less [OF assms(1)]])
  from upsert_loop_cases [OF this assms(2) u [unfolded kMaxUpsertRetries_Suc]] show thesis
  proof (elim disjE exE conjE)
    fix t assume "target (buckets ht ! i) (meta ht ! i) fp t" "state m' = state (meta ht ! i)"
      "b' = (buckets ht ! i)[t := pack fp off]" "c' = written (buckets ht ! i) fp t (counters ht)"
      "r = (case bget (buckets ht ! i) fp of Some v \<Rightarrow> v | None \<Rightarrow> kInvalidOffset)"
    with u show thesis
      by (intro stored [of t m']) (simp_all add: hot_upsert_def i_def peek_bget Let_def)
  qed (use u in \<open>intro refused [of m'], simp_all add: hot_upsert_def i_def Let_def\<close>)
qed

lemma upsert_pinned_cases:
  assumes "ht_inv ht" "fp \<noteq> 0"
  defines "i \<equiv> bucket_index ht fp"
  obtains (refused) m' where "refuses (buckets ht ! i) (meta ht ! i) fp"
      "upsert_pinned ht fp off = (no_ref, put_bucket ht i (buckets ht ! i, m',
         (counters ht)\<lparr>pin_failures := pin_failures (counters ht) + 1\<rparr>))"
      "state m' = state (meta ht ! i)"
  | (stored) t m' where "target (buckets ht ! i) (meta ht ! i) fp t"
      "upsert_pinned ht fp off = (\<lparr> bucket_idx = i, slot_idx = t, valid = True \<rparr>,
         put_bucket ht i ((buckets ht ! i)[t := pack fp off], m',
           written (buckets ht ! i) fp t (counters ht)))"
      "\<forall>j < 16. get_state m' j = (if j = t then kPinned else get_state (meta ht ! i) j)"
proof -
  obtain r b' m' c' where u: "upsert_pinned_loop kMaxUpsertRetries i fp off (buckets ht ! i)
      (meta ht ! i) (counters ht) = (r, b', m', c')" by (metis prod_cases4)
  have "bucket_inv (buckets ht ! i)"
    unfolding i_def by (rule ht_invD(3) [OF assms(1) bucket_index_less [OF assms(1)]])
  from upsert_pinned_loop_cases [OF this assms(2) u [unfolded kMaxUpsertRetries_Suc]] show thesis
  proof (elim disjE exE conjE)
    fix t assume "target (buckets ht ! i) (meta ht ! i) fp t"
      "\<forall>j < 16. get_state m' j = (if j = t then kPinned else get_state (meta ht ! i) j)"
      "b' = (buckets ht ! i)[t := pack fp off]" "c' = written (buckets ht ! i) fp t (counters ht)"
      "r = \<lparr> bucket_idx = i, slot_idx = t, valid = True \<rparr>"
    with u show thesis
      by (intro stored [of t m']) (simp_all add: upsert_pinned_def i_def Let_def)
  qed (use u in \<open>intro refused [of m'], simp_all add: upsert_pinned_def i_def Let_def\<close>)
qed

lemma put_bucket_same_bucket:
  assumes "ht_inv ht"
  shows "peek (put_bucket ht i (buckets ht ! i, m', c)) fp = peek ht fp"
    and "entry_at (put_bucket ht i (buckets ht ! i, m', c)) fp = entry_at ht fp"
  by (simp_all add: peek_bget entry_at_def)

lemma ht_inv_same_bucket:
  assumes "ht_inv ht" "i < num_buckets ht" "hot_size c = hot_size (counters ht)"
  shows "ht_inv (put_bucket ht i (buckets ht ! i, m', c))"
  using assms by (intro ht_inv_put_bucket ht_invD(3)) simp_all

lemma refuses_peek: "refuses (buckets ht ! bucket_index ht fp) m fp \<Longrightarrow> peek ht fp = None"
  by (simp add: refuses_def peek_bget bget_def)

text \<open>Clearing the slot \<open>t\<close> that holds \<open>fp\<close>.\<close>

lemma clear_slot:
  assumes "bucket_inv b" "fp \<noteq> 0" "slot_of b fp = Some t"
  shows "bucket_inv (b[t := 0])" "bget (b[t := 0]) fp = None"
    and "occupied (b[t := 0]) + 1 = occupied b"
    and "fp' \<noteq> 0 \<Longrightarrow> fp' \<noteq> fp \<Longrightarrow> slot_of (b[t := 0]) fp' = slot_of b fp'"
    and "fp' \<noteq> 0 \<Longrightarrow> fp' \<noteq> fp \<Longrightarrow> bget (b[t := 0]) fp' = bget b fp'"
proof -
  have t: "t < 16" "unpack_fp (b ! t) = fp" using slot_of_SomeD [OF assms(3)] by auto
  have len: "length b = 16" by (rule bucket_invD(1) [OF assms(1)])
  show b': "bucket_inv (b[t := 0])" by (rule bucket_inv_clear [OF assms(1) t(1)])
  have "b ! t \<noteq> 0" using t(2) assms(2) by auto
  then show "occupied (b[t := 0]) + 1 = occupied b"
    using occupied_update [of t b 0] t(1) len by simp
  have "unpack_fp (b[t := 0] ! i) \<noteq> fp" if "i < 16" for i
    using slot_of_iff [OF assms(1,2), of i] assms(2,3) that len by (cases "i = t") auto
  then show "bget (b[t := 0]) fp = None" by (simp add: bget_None_iff)
  assume ne: "fp' \<noteq> 0" "fp' \<noteq> fp"
  have iff: "slot_of (b[t := 0]) fp' = Some j \<longleftrightarrow> slot_of b fp' = Some j" for j
    using slot_of_iff [OF b' ne(1), of j] slot_of_iff [OF assms(1) ne(1), of j] ne t len
    by (cases "j = t") auto
  then show eq: "slot_of (b[t := 0]) fp' = slot_of b fp'" by (metis not_None_eq)
  have "b[t := 0] ! j = b ! j" if "slot_of b fp' = Some j" for j
    using slot_of_SomeD [OF that] t(2) ne(2) by (cases "j = t") auto
  then show "bget (b[t := 0]) fp' = bget b fp'"
    using eq by (cases "slot_of b fp'") (simp_all add: bget_def)
qed

lemma hot_remove_cases:
  assumes "ht_inv ht" "fp \<noteq> 0"
  defines "i \<equiv> bucket_index ht fp"
  obtains (absent) "peek ht fp = None" "hot_remove ht fp = (False, ht)"
  | (present) t where "slot_of (buckets ht ! i) fp = Some t" "peek ht fp \<noteq> None"
      "hot_remove ht fp = (True, put_bucket ht i ((buckets ht ! i)[t := 0],
         clear_visited (meta ht ! i) t, (counters ht)\<lparr>hot_size := hot_size (counters ht) - 1\<rparr>))"
proof (cases "slot_of (buckets ht ! i) fp")
  case None
  then show thesis
    by (intro absent) (simp_all add: hot_remove_def peek_bget bget_def i_def slot_of_def Let_def)
next
  case (Some t)
  then show thesis
    by (intro present [of t]) (simp_all add: hot_remove_def peek_bget bget_def i_def slot_of_def Let_def)
qed

lemma get_state_meta_update:
  assumes "i < length ms" "state m = state (ms ! i)"
  shows "get_state (ms[i := m] ! j) n = get_state (ms ! j) n"
  using assms get_state_cong [OF assms(2)] by (cases "j = i") simp_all

lemma hot_remove_effect:
  assumes "ht_inv ht" "fp \<noteq> 0"
  shows "ht_inv (snd (hot_remove ht fp)) \<and> peek (snd (hot_remove ht fp)) fp = None
    \<and> (fp' \<noteq> 0 \<longrightarrow> fp' \<noteq> fp \<longrightarrow> entry_at (snd (hot_remove ht fp)) fp' = entry_at ht fp'
         \<and> peek (snd (hot_remove ht fp)) fp' = peek ht fp')
    \<and> state_at (snd (hot_remove ht fp)) p = state_at ht p
    \<and> (fst (hot_remove ht fp) \<longleftrightarrow> peek ht fp \<noteq> None)
    \<and> num_buckets (snd (hot_remove ht fp)) = num_buckets ht"
proof (cases rule: hot_remove_cases [OF assms, case_names absent present])
  case absent
  with assms show ?thesis by simp
next
  case (present t)
  note i = bucket_index_less [OF assms(1), of fp]
  note b = ht_invD(3) [OF assms(1) i]
  note len = i [folded ht_invD(1) [OF assms(1)]] i [folded ht_invD(2) [OF assms(1)]]
  note cl = clear_slot [OF b assms(2) present(1)]
  have "ht_inv (snd (hot_remove ht fp))"
    using cl(3) ht_invD(4) [OF assms(1) i] i cl(1) present(3)
    by (simp add: ht_inv_put_bucket [OF assms(1)])
  moreover have "state_at (snd (hot_remove ht fp)) p = state_at ht p"
    using len(2) present(3) by (simp add: state_at_def get_state_meta_update)
  ultimately show ?thesis using cl(2,4,5) len(1) present
    by (auto simp: peek_bget entry_at_def nth_list_update)
qed

text \<open>The write effect the two upserts share.\<close>

lemma hot_upsert_effect:
  assumes "ht_inv ht" "fp \<noteq> 0"
  shows "ht_inv (snd (hot_upsert ht fp off)) \<and> num_buckets (snd (hot_upsert ht fp off)) = num_buckets ht
    \<and> state_at (snd (hot_upsert ht fp off)) p = state_at ht p
    \<and> peek (snd (hot_upsert ht fp off)) fp
       = (if refuses (buckets ht ! bucket_index ht fp) (meta ht ! bucket_index ht fp) fp then None
          else Some off)"
proof (cases rule: hot_upsert_cases [OF assms, of off, case_names refused stored])
  note i = bucket_index_less [OF assms(1), of fp]
  note len = i [folded ht_invD(2) [OF assms(1)]]
  {
    case (refused m')
    with assms(1) i len put_bucket_same_bucket [OF assms(1)] show ?thesis
      by (simp add: ht_inv_same_bucket refuses_peek state_at_def get_state_meta_update)
  next
    case (stored t m')
    with hot_write_frame(1,2) [OF assms stored(1) refl] len refuses_no_target show ?thesis
      by (auto simp: state_at_def get_state_meta_update)
  }
qed

lemma upsert_pinned_effect:
  fixes ht :: HotTier and fp off :: u32
  assumes "ht_inv ht" "fp \<noteq> 0"
  defines "ref \<equiv> fst (upsert_pinned ht fp off)" and "ht' \<equiv> snd (upsert_pinned ht fp off)"
  shows "ht_inv ht' \<and> num_buckets ht' = num_buckets ht
    \<and> (valid ref \<longleftrightarrow> \<not> refuses (buckets ht ! bucket_index ht fp) (meta ht ! bucket_index ht fp) fp)
    \<and> (if valid ref then peek ht' fp = Some off \<and> entry_at ht' fp = Some (bucket_idx ref, slot_idx ref)
          \<and> bucket_idx ref < num_buckets ht \<and> slot_idx ref < 16
          \<and> (\<forall>p. snd p < 16 \<longrightarrow>
               state_at ht' p = (if p = (bucket_idx ref, slot_idx ref) then kPinned else state_at ht p))
       else peek ht' fp = None \<and> (\<forall>p. state_at ht' p = state_at ht p))"
proof (cases rule: upsert_pinned_cases [OF assms(1,2), of off, case_names refused stored])
  note i = bucket_index_less [OF assms(1), of fp]
  note len = i [folded ht_invD(2) [OF assms(1)]]
  {
    case (refused m')
    with assms(1) i len put_bucket_same_bucket [OF assms(1)] show ?thesis
      by (simp add: ref_def ht'_def ht_inv_same_bucket refuses_peek state_at_def
          get_state_meta_update no_ref_def)
  next
    case (stored t m')
    have "t < 16" using stored(1) by (simp add: target_def)
    moreover have "state_at ht' p = (if p = (bucket_index ht fp, t) then kPinned else state_at ht p)"
      if "snd p < 16" for p
      using stored(2,3) len that by (cases p) (auto simp: ht'_def state_at_def nth_list_update)
    ultimately show ?thesis
      using hot_write_frame(1-3) [OF assms(1,2) stored(1) refl] i stored(1,2)
        refuses_no_target by (auto simp: ref_def ht'_def)
  }
qed

lemma upsert_pinned_same_slot:
  assumes "ht_inv ht" "fp \<noteq> 0" "entry_at ht fp = Some (i, t)"
  shows "fst (upsert_pinned ht fp off) = \<lparr> bucket_idx = i, slot_idx = t, valid = True \<rparr>"
  using assms(3)
  by (cases rule: upsert_pinned_cases [OF assms(1,2), of off])
    (auto simp: entry_at_def refuses_def target_def)

text \<open>Neither upsert moves or changes another fingerprint's entry, unless it evicts it, and only
  an unpinned entry is evicted.\<close>

definition kept_or_evicted :: "HotTier \<Rightarrow> HotTier \<Rightarrow> u32 \<Rightarrow> bool" where
  "kept_or_evicted ht ht' fp' \<longleftrightarrow>
     (entry_at ht' fp' = entry_at ht fp' \<and> peek ht' fp' = peek ht fp') \<or>
     (entry_at ht' fp' = None \<and> peek ht' fp' = None
       \<and> (\<exists>p. entry_at ht fp' = Some p \<and> state_at ht p = kUnpinned))"

lemma target_kept_or_evicted:
  assumes "ht_inv ht" "fp \<noteq> 0" "fp' \<noteq> 0" "fp' \<noteq> fp"
    and "target (buckets ht ! bucket_index ht fp) (meta ht ! bucket_index ht fp) fp t"
    and "ht' = put_bucket ht (bucket_index ht fp)
      ((buckets ht ! bucket_index ht fp)[t := pack fp off], m',
       written (buckets ht ! bucket_index ht fp) fp t (counters ht))"
  shows "kept_or_evicted ht ht' fp'"
proof -
  note b = ht_invD(3) [OF assms(1) bucket_index_less [OF assms(1)]]
  have "state_at ht (bucket_index ht fp, t) = kUnpinned"
    if "entry_at ht fp' = Some (bucket_index ht fp, t)"
    using target_evicts_unpinned [OF b assms(5), of fp'] that assms(3,4)
    by (auto simp: entry_at_def state_at_def)
  with hot_write_frame(4,5) [OF assms(1,2,5,6) assms(3,4)] show ?thesis
    by (auto simp: kept_or_evicted_def)
qed

lemma hot_upsert_others:
  assumes "ht_inv ht" "fp \<noteq> 0" "fp' \<noteq> 0" "fp' \<noteq> fp"
  shows "kept_or_evicted ht (snd (hot_upsert ht fp off)) fp'"
proof (cases rule: hot_upsert_cases [OF assms(1,2), of off, case_names refused stored])
  case (refused m')
  with put_bucket_same_bucket [OF assms(1)] show ?thesis by (simp add: kept_or_evicted_def)
next
  case (stored t m')
  with target_kept_or_evicted [OF assms stored(1) refl] show ?thesis by simp
qed

lemma upsert_pinned_others:
  assumes "ht_inv ht" "fp \<noteq> 0" "fp' \<noteq> 0" "fp' \<noteq> fp"
  shows "kept_or_evicted ht (snd (upsert_pinned ht fp off)) fp'"
proof (cases rule: upsert_pinned_cases [OF assms(1,2), of off, case_names refused stored])
  case (refused m')
  with put_bucket_same_bucket [OF assms(1)] show ?thesis by (simp add: kept_or_evicted_def)
next
  case (stored t m')
  with target_kept_or_evicted [OF assms stored(1) refl] show ?thesis by simp
qed

section \<open>The cache contract, for both ways of writing\<close>

interpretation hot: cache_map ht_inv "\<lambda>fp. fp \<noteq> 0" peek "\<lambda>s k v. snd (hot_upsert s k v)"
  "\<lambda>s k. snd (hot_remove s k)"
proof
  fix s k k' v assume "ht_inv s" "k \<noteq> (0 :: u32)"
  then show "ht_inv (snd (hot_upsert s k v))" "ht_inv (snd (hot_remove s k))"
    "peek (snd (hot_remove s k)) k = None" "peek (snd (hot_upsert s k v)) k \<in> {None, Some v}"
    using hot_upsert_effect [of s k v] hot_remove_effect [of s k] by auto
  assume "k' \<noteq> 0" "k \<noteq> k'"
  with \<open>ht_inv s\<close> \<open>k \<noteq> 0\<close> show "peek (snd (hot_upsert s k v)) k' \<in> {None, peek s k'}"
    "peek (snd (hot_remove s k)) k' \<in> {None, peek s k'}"
    using hot_upsert_others [of s k k' v] hot_remove_effect [of s k k']
    by (auto simp: kept_or_evicted_def)
qed

interpretation hot_pin: cache_map ht_inv "\<lambda>fp. fp \<noteq> 0" peek "\<lambda>s k v. snd (upsert_pinned s k v)"
  "\<lambda>s k. snd (hot_remove s k)"
proof
  fix s k k' v assume "ht_inv s" "k \<noteq> (0 :: u32)"
  then show "ht_inv (snd (upsert_pinned s k v))" "ht_inv (snd (hot_remove s k))"
    "peek (snd (hot_remove s k)) k = None" "peek (snd (upsert_pinned s k v)) k \<in> {None, Some v}"
    using upsert_pinned_effect [of s k v] hot_remove_effect [of s k] by (auto split: if_splits)
  assume "k' \<noteq> 0" "k \<noteq> k'"
  with \<open>ht_inv s\<close> \<open>k \<noteq> 0\<close> show "peek (snd (upsert_pinned s k v)) k' \<in> {None, peek s k'}"
    "peek (snd (hot_remove s k)) k' \<in> {None, peek s k'}"
    using upsert_pinned_others [of s k k' v] hot_remove_effect [of s k k']
    by (auto simp: kept_or_evicted_def)
qed

section \<open>Sequences of operations\<close>

datatype hot_op = HUpsert u32 u32 | HUpsertPinned u32 u32 | HLookup u32 | HRemove u32
  | HCas SlotRef SlotState SlotState | HUnpin SlotRef

primrec hot_step :: "hot_op \<Rightarrow> HotTier \<Rightarrow> HotTier" where
  "hot_step (HUpsert fp off) ht = snd (hot_upsert ht fp off)"
| "hot_step (HUpsertPinned fp off) ht = snd (upsert_pinned ht fp off)"
| "hot_step (HLookup fp) ht = snd (hot_lookup ht fp)"
| "hot_step (HRemove fp) ht = snd (hot_remove ht fp)"
| "hot_step (HCas ref from to) ht = snd (cas_slot_state ht ref from to)"
| "hot_step (HUnpin ref) ht = unpin ht ref"

definition hot_run :: "hot_op list \<Rightarrow> HotTier \<Rightarrow> HotTier" where
  "hot_run ops ht = fold hot_step ops ht"

text \<open>The asserted preconditions: no reserved fingerprint, references inside the table.\<close>

definition ref_ok :: "nat \<Rightarrow> SlotRef \<Rightarrow> bool" where
  "ref_ok n ref \<longleftrightarrow> valid ref \<longrightarrow> bucket_idx ref < n \<and> slot_idx ref < 16"

primrec hot_op_ok :: "nat \<Rightarrow> hot_op \<Rightarrow> bool" where
  "hot_op_ok n (HUpsert fp off) \<longleftrightarrow> fp \<noteq> 0"
| "hot_op_ok n (HUpsertPinned fp off) \<longleftrightarrow> fp \<noteq> 0"
| "hot_op_ok n (HLookup fp) \<longleftrightarrow> fp \<noteq> 0"
| "hot_op_ok n (HRemove fp) \<longleftrightarrow> fp \<noteq> 0"
| "hot_op_ok n (HCas ref from to) \<longleftrightarrow> ref_ok n ref"
| "hot_op_ok n (HUnpin ref) \<longleftrightarrow> ref_ok n ref"

text \<open>The last offset written for each fingerprint, forgotten when it is removed.\<close>

primrec hot_ghost :: "hot_op \<Rightarrow> (u32 \<rightharpoonup> u32) \<Rightarrow> (u32 \<rightharpoonup> u32)" where
  "hot_ghost (HUpsert fp off) g = g(fp \<mapsto> off)"
| "hot_ghost (HUpsertPinned fp off) g = g(fp \<mapsto> off)"
| "hot_ghost (HLookup fp) g = g"
| "hot_ghost (HRemove fp) g = g(fp := None)"
| "hot_ghost (HCas ref from to) g = g"
| "hot_ghost (HUnpin ref) g = g"

definition hot_last :: "hot_op list \<Rightarrow> (u32 \<rightharpoonup> u32)" where
  "hot_last ops = fold hot_ghost ops Map.empty"

text \<open>Operations on metadata only: lookups and state changes.\<close>

lemma hot_lookup_effect:
  assumes "ht_inv ht"
  shows "ht_inv (snd (hot_lookup ht fp)) \<and> num_buckets (snd (hot_lookup ht fp)) = num_buckets ht
    \<and> peek (snd (hot_lookup ht fp)) fp' = peek ht fp'
    \<and> entry_at (snd (hot_lookup ht fp)) fp' = entry_at ht fp'
    \<and> state_at (snd (hot_lookup ht fp)) p = state_at ht p
    \<and> fst (hot_lookup ht fp) = peek ht fp"
  using assms bucket_index_less [OF assms, of fp, folded ht_invD(2) [OF assms]]
  by (auto simp: hot_lookup_def peek_def entry_at_def Let_def ht_inv_meta state_at_def
      get_state_meta_update split: option.splits)

lemma meta_step_effect:
  "ht_inv ht \<Longrightarrow> ht_inv (ht\<lparr>meta := (meta ht)[i := m]\<rparr>)"
  "peek (ht\<lparr>meta := ms\<rparr>) fp = peek ht fp"
  "entry_at (ht\<lparr>meta := ms\<rparr>) fp = entry_at ht fp"
  by (simp_all add: ht_inv_meta peek_bget entry_at_def)

lemma cas_slot_state_effect:
  assumes "ht_inv ht" "ref_ok (num_buckets ht) ref"
  shows "ht_inv (snd (cas_slot_state ht ref from to))
    \<and> num_buckets (snd (cas_slot_state ht ref from to)) = num_buckets ht
    \<and> peek (snd (cas_slot_state ht ref from to)) fp = peek ht fp
    \<and> entry_at (snd (cas_slot_state ht ref from to)) fp = entry_at ht fp
    \<and> (fst (cas_slot_state ht ref from to) \<longleftrightarrow>
        valid ref \<and> state_at ht (bucket_idx ref, slot_idx ref) = from)
    \<and> (snd p < 16 \<longrightarrow> state_at (snd (cas_slot_state ht ref from to)) p =
        (if fst (cas_slot_state ht ref from to) \<and> p = (bucket_idx ref, slot_idx ref) then to
         else state_at ht p))"
proof (cases "valid ref")
  case True
  then have r: "bucket_idx ref < length (meta ht)" "slot_idx ref < 16"
    using assms ht_invD(2) by (auto simp: ref_ok_def)
  note cas = cas_state_result [OF r(2), of _ "meta ht ! bucket_idx ref" "from" to]
  obtain i j where p: "p = (i, j)" by (cases p)
  have "fst (cas_slot_state ht ref from to) \<longleftrightarrow> get_state (meta ht ! bucket_idx ref) (slot_idx ref) = from"
    using True cas(1) [OF r(2)] by (auto simp: cas_slot_state_def split: prod.splits)
  with True assms(1) r cas(2) [of j] show ?thesis
    by (cases "bucket_idx ref = i")
      (auto simp: cas_slot_state_def meta_step_effect state_at_def p split: prod.splits)
qed (use assms in \<open>simp add: cas_slot_state_def\<close>)

lemma unpin_effect:
  assumes "ht_inv ht" "ref_ok (num_buckets ht) ref"
  shows "ht_inv (unpin ht ref) \<and> num_buckets (unpin ht ref) = num_buckets ht
    \<and> peek (unpin ht ref) fp = peek ht fp \<and> entry_at (unpin ht ref) fp = entry_at ht fp
    \<and> (snd p < 16 \<longrightarrow> state_at (unpin ht ref) p =
        (if valid ref \<and> p = (bucket_idx ref, slot_idx ref) then kUnpinned else state_at ht p))"
proof -
  obtain i j where p: "p = (i, j)" by (cases p)
  have "bucket_idx ref < length (meta ht) \<and> slot_idx ref < 16" if "valid ref"
    using that assms ht_invD(2) by (auto simp: ref_ok_def)
  then show ?thesis using assms(1)
    by (cases "bucket_idx ref = i")
      (auto simp: unpin_def meta_step_effect state_at_def p get_state_force_unpinned)
qed

lemma hot_step_coherent:
  assumes "ht_inv ht" "hot_op_ok (num_buckets ht) x" "fp \<noteq> 0" "peek ht fp \<in> {None, g fp}"
  shows "ht_inv (hot_step x ht)" "num_buckets (hot_step x ht) = num_buckets ht"
    and "peek (hot_step x ht) fp \<in> {None, hot_ghost x g fp}"
proof -
  have "ht_inv (hot_step x ht) \<and> num_buckets (hot_step x ht) = num_buckets ht \<and>
      peek (hot_step x ht) fp \<in> {None, hot_ghost x g fp}"
  proof (cases x)
    case (HUpsert fp' off)
    with assms hot.step_coherent [OF assms(1), of "MPut fp' off" fp g]
      hot_upsert_effect [of ht fp' off] show ?thesis by simp
  next
    case (HUpsertPinned fp' off)
    with assms hot_pin.step_coherent [OF assms(1), of "MPut fp' off" fp g]
      upsert_pinned_effect [of ht fp' off] show ?thesis by simp
  next
    case (HRemove fp')
    with assms hot.step_coherent [OF assms(1), of "MDel fp'" fp g]
      hot_remove_effect [of ht fp'] show ?thesis by simp
  qed (use assms hot_lookup_effect cas_slot_state_effect unpin_effect in auto)
  then show "ht_inv (hot_step x ht)" "num_buckets (hot_step x ht) = num_buckets ht"
    "peek (hot_step x ht) fp \<in> {None, hot_ghost x g fp}" by auto
qed

lemma hot_run_coherent:
  assumes "ht_inv ht" "\<forall>x \<in> set ops. hot_op_ok (num_buckets ht) x" "fp \<noteq> 0"
    and "peek ht fp \<in> {None, g fp}"
  shows "ht_inv (hot_run ops ht) \<and> num_buckets (hot_run ops ht) = num_buckets ht
    \<and> peek (hot_run ops ht) fp \<in> {None, fold hot_ghost ops g fp}"
  using assms
proof (induction ops arbitrary: ht g)
  case (Cons x xs)
  have "hot_op_ok (num_buckets ht) x" using Cons.prems(2) by simp
  note step = hot_step_coherent [where g = g, OF Cons.prems(1) this Cons.prems(3,4)]
  from Cons.IH [of "hot_step x ht" "hot_ghost x g"] step Cons.prems show ?case
    by (simp add: hot_run_def)
qed (simp add: hot_run_def)

lemma hot_size_capacity: "ht_inv ht \<Longrightarrow> hot_size (counters ht) \<le> capacity ht"
proof -
  assume inv: "ht_inv ht"
  have "sum_list (map occupied (buckets ht)) \<le> sum_list (map (\<lambda>_. 16) (buckets ht))"
    using inv occupied_le by (intro sum_list_mono) (metis bucket_inv_def ht_inv_def)
  with inv show ?thesis
    by (simp add: ht_inv_def capacity_def kSlotsPerBucket_def sum_list_replicate map_replicate_const)
qed

text \<open>A pinned or in-flush entry outlives every operation that is not about it.\<close>

primrec op_ignores :: "u32 \<Rightarrow> nat \<times> nat \<Rightarrow> hot_op \<Rightarrow> bool" where
  "op_ignores fp p (HUpsert fp' off) \<longleftrightarrow> fp' \<noteq> fp"
| "op_ignores fp p (HUpsertPinned fp' off) \<longleftrightarrow> fp' \<noteq> fp"
| "op_ignores fp p (HLookup fp') \<longleftrightarrow> True"
| "op_ignores fp p (HRemove fp') \<longleftrightarrow> fp' \<noteq> fp"
| "op_ignores fp p (HCas ref from to) \<longleftrightarrow> \<not> valid ref \<or> (bucket_idx ref, slot_idx ref) \<noteq> p"
| "op_ignores fp p (HUnpin ref) \<longleftrightarrow> \<not> valid ref \<or> (bucket_idx ref, slot_idx ref) \<noteq> p"

lemma entry_at_range: "entry_at ht fp = Some p \<Longrightarrow> snd p < 16"
  using slot_of_SomeD by (auto simp: entry_at_def)

lemma entry_at_functional:
  assumes "ht_inv ht" "fp \<noteq> 0" "entry_at ht fp = Some p" "entry_at ht fp' = Some p"
  shows "fp' = fp"
  using assms by (auto simp: entry_at_def dest!: slot_of_SomeD)

lemma pinned_step:
  assumes "ht_inv ht" "hot_op_ok (num_buckets ht) x" "fp \<noteq> 0" "entry_at ht fp = Some p"
    and "state_at ht p \<noteq> kUnpinned" "op_ignores fp p x"
  shows "entry_at (hot_step x ht) fp = Some p \<and> peek (hot_step x ht) fp = peek ht fp
    \<and> state_at (hot_step x ht) p = state_at ht p"
proof (cases x)
  case (HUpsert fp' off)
  with assms hot_upsert_others [of ht fp' fp off] hot_upsert_effect [of ht fp' off p]
  show ?thesis by (auto simp: kept_or_evicted_def)
next
  case (HUpsertPinned fp' off)
  let ?r = "fst (upsert_pinned ht fp' off)"
  have kept: "entry_at (hot_step x ht) fp = Some p" "peek (hot_step x ht) fp = peek ht fp"
    using HUpsertPinned assms upsert_pinned_others [of ht fp' fp off]
    by (auto simp: kept_or_evicted_def)
  note eff = upsert_pinned_effect [of ht fp' off]
  have "p \<noteq> (bucket_idx ?r, slot_idx ?r)" if "valid ?r"
    using that eff kept(1) HUpsertPinned assms entry_at_functional [of "hot_step x ht" fp p fp'] by auto
  with eff HUpsertPinned assms entry_at_range [OF assms(4)] have "state_at (hot_step x ht) p = state_at ht p"
    by (cases p) (auto split: if_splits)
  with kept show ?thesis by simp
next
  case (HRemove fp')
  with assms hot_remove_effect [of ht fp' fp p] show ?thesis by auto
qed (use assms hot_lookup_effect cas_slot_state_effect unpin_effect entry_at_range [OF assms(4)] in auto)

lemma pinned_run:
  assumes "ht_inv ht" "\<forall>x \<in> set ops. hot_op_ok (num_buckets ht) x \<and> op_ignores fp p x"
    and "fp \<noteq> 0" "entry_at ht fp = Some p" "state_at ht p \<noteq> kUnpinned"
  shows "entry_at (hot_run ops ht) fp = Some p \<and> peek (hot_run ops ht) fp = peek ht fp
    \<and> state_at (hot_run ops ht) p = state_at ht p"
  using assms
proof (induction ops arbitrary: ht)
  case (Cons x xs)
  have x: "hot_op_ok (num_buckets ht) x" "op_ignores fp p x" using Cons.prems(2) by auto
  note step = pinned_step [OF Cons.prems(1) x(1) Cons.prems(3-5) x(2)]
  note inv = hot_step_coherent(1,2) [where g = "\<lambda>_. peek ht fp" and fp = fp,
      OF Cons.prems(1) x(1) Cons.prems(3)]
  from Cons.IH [of "hot_step x ht"] step inv Cons.prems show ?case by (simp add: hot_run_def)
qed (simp add: hot_run_def)

section \<open>The vector scan\<close>

lemma simd_mask_bit:
  assumes "p < 8"
  shows "bit (simd_mask b fp c) p \<longleftrightarrow> odd p \<and> unpack_fp (b ! (c * 4 + p div 2)) = fp"
proof -
  have aa: "(0xAA :: u32) = push_bit 1 1 OR push_bit 3 1 OR push_bit 5 1 OR push_bit 7 1" by simp
  have p: "p \<in> {0, 1, 2, 3, 4, 5, 6, 7}" using assms by auto
  have upt: "[0..<8] = [0, 1, 2, 3, 4, 5, 6, 7 :: nat]" by (simp add: upt_rec)
  show ?thesis using p unfolding simd_mask_def upt aa
    by (elim insertE emptyE) (simp_all add: bit_simps bit_1_iff simd_lane_def)
qed

lemma scan_from_append:
  "scan_from i (n + m) P = (case scan_from i n P of Some k \<Rightarrow> Some k | None \<Rightarrow> scan_from (i + n) m P)"
  by (induction i n P rule: scan_from.induct) (auto split: option.splits)

lemma simd_bits_scan_from:
  "even p \<Longrightarrow> p + 2 * n \<le> 8 \<Longrightarrow> simd_bits b fp c (simd_mask b fp c) p (2 * n)
     = scan_from (c * 4 + p div 2) n (\<lambda>i. unpack_fp (b ! i) = fp)"
proof (induction n arbitrary: p)
  case (Suc n)
  have "simd_bits b fp c (simd_mask b fp c) (Suc (Suc p)) (2 * n)
      = scan_from (Suc (c * 4 + p div 2)) n (\<lambda>i. unpack_fp (b ! i) = fp)"
    using Suc.IH [of "Suc (Suc p)"] Suc.prems by simp
  then show ?case using Suc.prems by (simp add: simd_mask_bit)
qed simp

lemma simd_bits_scan:
  "simd_bits b fp c (simd_mask b fp c) 0 8 = scan_from (c * 4) 4 (\<lambda>i. unpack_fp (b ! i) = fp)"
  using simd_bits_scan_from [of 0 4 b fp c] by simp

lemma simd_chunks_scan: "simd_chunks b fp [0..<4] = slot_of b fp"
proof -
  let ?P = "\<lambda>i. unpack_fp (b ! i) = fp"
  have "slot_of b fp = scan_from 0 (4 + (4 + (4 + 4))) ?P"
    by (simp add: slot_of_def first_idx_def kSlotsPerBucket_def)
  moreover have "[0..<4] = [0, 1, 2, 3 :: nat]" by (simp add: upt_rec)
  ultimately show ?thesis
    by (simp only: scan_from_append simd_chunks.simps simd_bits_scan) (simp split: option.splits)
qed

section \<open>Properties\<close>

text \<open>
  C10. Coherence and boundedness of the hot tier: after any sequence of upserts, pinned upserts,
  lookups, removals and state changes on a fresh table (with the asserted preconditions), the
  table satisfies its invariant, its size counter is at most its capacity, and a probe for a
  fingerprint returns either nothing or exactly the offset last written for it and not removed
  since.
\<close>

theorem hot_tier_coherent:
  assumes "k \<le> 63" "\<forall>x \<in> set ops. hot_op_ok (2 ^ k) x" "fp \<noteq> 0"
  defines "ht \<equiv> hot_run ops (hot_new (2 ^ k))"
  shows "ht_inv ht \<and> hot_size (counters ht) \<le> capacity ht \<and> peek ht fp \<in> {None, hot_last ops fp}"
proof -
  have "num_buckets (hot_new (2 ^ k)) = 2 ^ k" by (simp add: hot_new_def)
  moreover have "peek (hot_new (2 ^ k)) fp = None"
    using bucket_index_less [OF ht_inv_new [OF assms(1)], of fp] assms(3)
    by (auto simp: peek_bget bget_None_iff hot_new_def kSlotsPerBucket_def)
  ultimately show ?thesis
    using hot_run_coherent [OF ht_inv_new [OF assms(1)], of ops fp Map.empty] assms(2,3) hot_size_capacity
    by (simp add: ht_def hot_last_def)
qed

theorem hot_tier_coherent_witness:
  "let ht = hot_run [HUpsertPinned 5 70, HUpsert 9 80, HUpsert 5 71, HRemove 9] (hot_new (2 ^ 1))
   in ht_inv ht \<and> hot_size (counters ht) \<le> capacity ht \<and> peek ht 5 \<in> {None, Some 71}"
  using hot_tier_coherent [of 1 "[HUpsertPinned 5 70, HUpsert 9 80, HUpsert 5 71, HRemove 9]" 5]
  by (simp add: hot_last_def Let_def)

text \<open>
  C6. A pinned or in-flush entry is never evicted: as long as no operation names its fingerprint
  for writing or removal and none changes its slot's state, it stays in the same slot with the
  same offset and the same state through any sequence of other operations, whatever they evict.
\<close>

theorem pinned_entry_never_evicted:
  assumes "ht_inv ht" "fp \<noteq> 0" "entry_at ht fp = Some p" "state_at ht p \<in> {kPinned, kInFlush}"
    and "\<forall>x \<in> set ops. hot_op_ok (num_buckets ht) x \<and> op_ignores fp p x"
  shows "entry_at (hot_run ops ht) fp = Some p \<and> peek (hot_run ops ht) fp = peek ht fp
    \<and> state_at (hot_run ops ht) p = state_at ht p"
  using pinned_run [OF assms(1,5,2,3)] assms(4) by auto

theorem pinned_entry_never_evicted_witness:
  "let ht = hot_run [HUpsertPinned 5 70] (hot_new (2 ^ 0)); ht' = hot_run [HUpsert 6 1, HRemove 6] ht
   in entry_at ht' 5 = Some (0, 0) \<and> peek ht' 5 = peek ht 5 \<and> state_at ht' (0, 0) = state_at ht (0, 0)"
proof -
  let ?ht = "hot_run [HUpsertPinned 5 70] (hot_new (2 ^ 0))"
  have "ht_inv ?ht \<and> num_buckets ?ht = 1"
    using hot_run_coherent [OF ht_inv_new [of 0], of "[HUpsertPinned 5 70]" 1 "peek (hot_new 1)"]
    by (simp add: hot_new_def)
  moreover have "entry_at ?ht 5 = Some (0, 0)" "state_at ?ht (0, 0) = kPinned" by code_simp+
  ultimately show ?thesis
    using pinned_entry_never_evicted [of ?ht 5 "(0, 0)" "[HUpsert 6 1, HRemove 6]"]
    by (simp add: Let_def)
qed

text \<open>
  C15. Every branch of a pinned upsert: it fails exactly when the bucket is full of other
  fingerprints and none of its sixteen slots is unpinned, and then stores nothing and counts a pin
  failure; otherwise the returned reference names the slot that now holds the pair, pinned, and no
  other slot's state changes.
\<close>

theorem upsert_pinned_outcome:
  fixes ht :: HotTier and fp off :: u32
  assumes "ht_inv ht" "fp \<noteq> 0"
  defines "b \<equiv> buckets ht ! bucket_index ht fp" and "m \<equiv> meta ht ! bucket_index ht fp"
    and "ref \<equiv> fst (upsert_pinned ht fp off)" and "ht' \<equiv> snd (upsert_pinned ht fp off)"
  shows "(\<not> valid ref \<longleftrightarrow> (\<forall>i < 16. unpack_fp (b ! i) \<notin> {fp, 0} \<and> get_state m i \<noteq> kUnpinned))
    \<and> (\<not> valid ref \<longrightarrow> buckets ht' = buckets ht
          \<and> pin_failures (counters ht') = pin_failures (counters ht) + 1)
    \<and> (valid ref \<longrightarrow> hot_read_slot ht' ref = \<lparr> view_fp = fp, packed_off = off \<rparr>
          \<and> state_at ht' (bucket_idx ref, slot_idx ref) = kPinned
          \<and> (\<forall>p. snd p < 16 \<and> p \<noteq> (bucket_idx ref, slot_idx ref) \<longrightarrow> state_at ht' p = state_at ht p))"
proof (intro conjI impI allI)
  note eff = upsert_pinned_effect [OF assms(1,2), of off, folded ref_def ht'_def b_def m_def]
  show "\<not> valid ref \<longleftrightarrow> (\<forall>i < 16. unpack_fp (b ! i) \<notin> {fp, 0} \<and> get_state m i \<noteq> kUnpinned)"
    using eff by (auto simp: refuses_def slot_of_None_iff kEmptyFp_def)
  {
    assume "\<not> valid ref"
    then show "buckets ht' = buckets ht" "pin_failures (counters ht') = pin_failures (counters ht) + 1"
      by (cases rule: upsert_pinned_cases [OF assms(1,2), of off], simp_all add: ref_def ht'_def)+
  next
    assume v: "valid ref"
    show "state_at ht' (bucket_idx ref, slot_idx ref) = kPinned" using v eff by simp
    show "hot_read_slot ht' ref = \<lparr> view_fp = fp, packed_off = off \<rparr>"
      using v eff slot_of_SomeD
      by (auto simp: hot_read_slot_def peek_bget bget_def entry_at_def Let_def)
    fix p assume "snd p < 16 \<and> p \<noteq> (bucket_idx ref, slot_idx ref)"
    with v eff show "state_at ht' p = state_at ht p" by simp
  }
qed

theorem upsert_pinned_outcome_witness:
  "let ht = hot_new (2 ^ 0); ref = fst (upsert_pinned ht 5 70); ht' = snd (upsert_pinned ht 5 70)
   in valid ref \<and> hot_read_slot ht' ref = \<lparr> view_fp = 5, packed_off = 70 \<rparr>
     \<and> state_at ht' (bucket_idx ref, slot_idx ref) = kPinned"
proof -
  have "valid (fst (upsert_pinned (hot_new (2 ^ 0)) 5 70))" by code_simp
  then show ?thesis
    using upsert_pinned_outcome [OF ht_inv_new [of 0], of 5 70] by (simp add: Let_def)
qed

text \<open>
  C16. The vectorised bucket scan is the scalar scan: same result and same metadata effect on every
  table and fingerprint.
\<close>

theorem simd_lookup_equiv: "hot_lookup_simd ht fp = hot_lookup ht fp"
  by (simp add: hot_lookup_simd_def hot_lookup_def simd_chunks_scan slot_of_def)

text \<open>
  The flusher's hand-shake on a slot. After a successful pinned upsert the flusher's
  compare-exchange to in-flush succeeds, and so does its release to unpinned when nobody
  interfered; if the same fingerprint was written again in between, the release fails and the slot
  stays pinned with the newer offset, so the newer write cannot be evicted before its own flush.
\<close>

theorem flush_handshake:
  fixes ht :: HotTier and fp off off2 :: u32
  assumes "ht_inv ht" "fp \<noteq> 0" "valid (fst (upsert_pinned ht fp off))"
  defines "ref \<equiv> fst (upsert_pinned ht fp off)" and "ht1 \<equiv> snd (upsert_pinned ht fp off)"
  defines "ht2 \<equiv> snd (cas_slot_state ht1 ref kPinned kInFlush)"
  defines "ht3 \<equiv> snd (upsert_pinned ht2 fp off2)"
  shows "fst (cas_slot_state ht1 ref kPinned kInFlush)
    \<and> fst (cas_slot_state ht2 ref kInFlush kUnpinned)
    \<and> state_at (snd (cas_slot_state ht2 ref kInFlush kUnpinned)) (bucket_idx ref, slot_idx ref) = kUnpinned
    \<and> peek (snd (cas_slot_state ht2 ref kInFlush kUnpinned)) fp = Some off
    \<and> \<not> fst (cas_slot_state ht3 ref kInFlush kUnpinned)
    \<and> state_at (snd (cas_slot_state ht3 ref kInFlush kUnpinned)) (bucket_idx ref, slot_idx ref) = kPinned
    \<and> peek (snd (cas_slot_state ht3 ref kInFlush kUnpinned)) fp = Some off2"
proof -
  let ?p = "(bucket_idx ref, slot_idx ref)"
  note e1 = upsert_pinned_effect [OF assms(1,2), of off, folded ref_def ht1_def]
  have v: "valid ref" using assms(3) by (simp add: ref_def)
  have r1: "ht_inv ht1" "ref_ok (num_buckets ht1) ref" "peek ht1 fp = Some off"
    "entry_at ht1 fp = Some ?p" "state_at ht1 ?p = kPinned" and p16: "slot_idx ref < 16"
    using e1 v by (auto simp: ref_ok_def)
  note e2 = cas_slot_state_effect [OF r1(1,2), of kPinned kInFlush fp ?p, folded ht2_def]
  have r2: "ht_inv ht2" "ref_ok (num_buckets ht2) ref" "peek ht2 fp = Some off"
    "entry_at ht2 fp = Some ?p" "state_at ht2 ?p = kInFlush"
    using e2 v r1 p16 by auto
  note e2' = cas_slot_state_effect [OF r2(1,2), of kInFlush kUnpinned fp ?p]
  have "slot_of (buckets ht2 ! bucket_index ht2 fp) fp \<noteq> None" using r2(4) by (auto simp: entry_at_def)
  with upsert_pinned_effect [OF r2(1) assms(2), of off2, folded ht3_def]
  have e3: "ht_inv ht3" "num_buckets ht3 = num_buckets ht2" "peek ht3 fp = Some off2"
    and v3: "valid (fst (upsert_pinned ht2 fp off2))"
    and s3: "\<And>q. snd q < 16 \<Longrightarrow> state_at ht3 q = (if q = (bucket_idx (fst (upsert_pinned ht2 fp off2)),
       slot_idx (fst (upsert_pinned ht2 fp off2))) then kPinned else state_at ht2 q)"
    by (auto simp: refuses_def)
  have "fst (upsert_pinned ht2 fp off2) = ref"
    using upsert_pinned_same_slot [OF r2(1) assms(2) r2(4)] v by simp
  then have s3': "state_at ht3 ?p = kPinned" using s3 [of ?p] p16 by simp
  have ok3: "ref_ok (num_buckets ht3) ref" using r2(2) e3(2) by simp
  note e3' = cas_slot_state_effect [OF e3(1) ok3, of kInFlush kUnpinned fp ?p]
  show ?thesis using e2 e2' e3' r1 r2 e3 s3' v p16 by simp
qed

theorem flush_handshake_witness:
  "let ht = hot_new (2 ^ 0); ref = fst (upsert_pinned ht 5 70); ht1 = snd (upsert_pinned ht 5 70);
       ht2 = snd (cas_slot_state ht1 ref kPinned kInFlush); ht3 = snd (upsert_pinned ht2 5 71)
   in fst (cas_slot_state ht1 ref kPinned kInFlush)
     \<and> fst (cas_slot_state ht2 ref kInFlush kUnpinned)
     \<and> \<not> fst (cas_slot_state ht3 ref kInFlush kUnpinned)
     \<and> peek (snd (cas_slot_state ht3 ref kInFlush kUnpinned)) 5 = Some 71"
proof -
  have "valid (fst (upsert_pinned (hot_new (2 ^ 0)) 5 70))" by code_simp
  from flush_handshake [OF ht_inv_new [of 0] _ this] show ?thesis by (simp add: Let_def)
qed

end
