(* ===== verification/Cold_Tier.thy ===== *)
theory Cold_Tier
  imports Offset_Codec Map_Interfaces
begin

text \<open>
  The persistent cold tier (hiom/cold_tier.hpp). A region is an array of 128-byte buckets: the
  main buckets at positions \<open>0 ..< M\<close>, a reserved position \<open>M\<close>, and the overflow pool at
  \<open>M + 1 .. M + O\<close>, so the 1-based overflow index \<open>k\<close> is position \<open>M + k\<close>
  (\<open>overflow_bucket_of\<close>). A bucket header packs seven occupancy bits, the has-overflow flag and
  the index of the next overflow bucket. Writers hold the region mutex, so an operation is one
  transition of its region; the counters \<open>num_entries\<close> and \<open>next_overflow_alloc\<close> are naturals
  (they count buckets of one file). Chain walks carry fuel; \<open>Cold_Tier_Props\<close> shows that the
  fuel is never exhausted on a well-formed region.
\<close>

section \<open>Layout\<close>

definition cold_magic :: u64 where "cold_magic = 0x484f4d5f434f4c44"
definition cold_version :: u32 where "cold_version = 3"
definition kEntriesPerBucket :: nat where "kEntriesPerBucket = 7"
definition kTombstoneOffset :: u64 where "kTombstoneOffset = 0xFFFFFFFFFFFFFFFF"
definition kNoOverflow :: u64 where "kNoOverflow = 0"

record Entry =
  e_key :: u64
  e_off :: u64

record cold_bucket =
  header :: u64
  entries :: "Entry list"

record RegionState =
  num_entries :: nat
  next_overflow_alloc :: nat
  rbuckets :: "cold_bucket list"

record GlobalHeader =
  gh_magic :: u64
  gh_version :: u32
  gh_num_regions :: u64
  gh_main_buckets :: u64
  gh_overflow_slots :: u64
  gh_total_size :: u64

record ColdTier =
  main_buckets_per_region :: nat
  overflow_slots_per_region :: nat
  regions :: "RegionState list"

definition zero_entry :: Entry where "zero_entry = \<lparr> e_key = 0, e_off = 0 \<rparr>"

definition zero_bucket :: cold_bucket where
  "zero_bucket = \<lparr> header = 0, entries = replicate kEntriesPerBucket zero_entry \<rparr>"

text \<open>\<open>64 - __builtin_clzll(x)\<close> is the number of significant bits of \<open>x\<close>.\<close>

fun bit_length :: "nat \<Rightarrow> nat" where
  "bit_length x = (if x = 0 then 0 else Suc (bit_length (x div 2)))"

declare bit_length.simps [simp del]

definition next_pow2 :: "nat \<Rightarrow> nat" where
  "next_pow2 v = (if v \<le> 1 then 1 else 2 ^ bit_length (v - 1))"

definition cold_total_size :: "nat \<Rightarrow> nat \<Rightarrow> nat" where
  "cold_total_size M ov = 4096 + kNumRegions * (16 + (M + ov + 1) * 128)"

definition cold_create :: "nat \<Rightarrow> nat \<Rightarrow> GlobalHeader \<times> ColdTier" where
  "cold_create main_buckets overflow_slots =
    (let M = next_pow2 (max 1 main_buckets); ov = max 1 overflow_slots;
         region = \<lparr> num_entries = 0, next_overflow_alloc = 0,
                    rbuckets = replicate (M + ov + 1) zero_bucket \<rparr>
     in (\<lparr> gh_magic = cold_magic, gh_version = cold_version, gh_num_regions = of_nat kNumRegions,
           gh_main_buckets = of_nat M, gh_overflow_slots = of_nat ov,
           gh_total_size = of_nat (cold_total_size M ov) \<rparr>,
         \<lparr> main_buckets_per_region = M, overflow_slots_per_region = ov,
           regions = replicate kNumRegions region \<rparr>))"

datatype cold_open_error = ColdOpenFailed | ColdBadMagic | ColdVersionMismatch
  | ColdNumRegionsMismatch | ColdSizeMismatch

text \<open>\<open>open\<close>: the file is absent, or has a size, a header and region images.\<close>

definition cold_open :: "(nat \<times> GlobalHeader \<times> RegionState list) option \<Rightarrow> cold_open_error + ColdTier" where
  "cold_open file = (case file of
     None \<Rightarrow> Inl ColdOpenFailed
   | Some (total_size, hdr, rs) \<Rightarrow>
       if gh_magic hdr \<noteq> cold_magic then Inl ColdBadMagic
       else if gh_version hdr \<noteq> cold_version then Inl ColdVersionMismatch
       else if gh_num_regions hdr \<noteq> of_nat kNumRegions then Inl ColdNumRegionsMismatch
       else if gh_total_size hdr \<noteq> of_nat total_size then Inl ColdSizeMismatch
       else Inr \<lparr> main_buckets_per_region = unat (gh_main_buckets hdr),
                  overflow_slots_per_region = unat (gh_overflow_slots hdr), regions = rs \<rparr>)"

definition region_id_of :: "u64 \<Rightarrow> nat" where
  "region_id_of fp = unat (drop_bit 59 fp AND (of_nat kNumRegions - 1))"

definition bucket_id_of :: "nat \<Rightarrow> u64 \<Rightarrow> nat" where
  "bucket_id_of M fp =
    (let h1 = fp XOR drop_bit 17 fp;
         h2 = h1 * 0x9e3779b97f4a7c15;
         h3 = h2 XOR drop_bit 27 h2
     in unat (h3 AND (of_nat M - 1)))"

definition slot_published :: "u64 \<Rightarrow> nat \<Rightarrow> bool" where
  "slot_published hdr i \<longleftrightarrow> drop_bit i hdr AND 1 \<noteq> 0"

definition next_idx :: "u64 \<Rightarrow> nat" where
  "next_idx hdr = unat (drop_bit 8 hdr)"

definition bucket_at :: "RegionState \<Rightarrow> nat \<Rightarrow> cold_bucket" where
  "bucket_at r p = rbuckets r ! p"

definition set_bucket :: "RegionState \<Rightarrow> nat \<Rightarrow> cold_bucket \<Rightarrow> RegionState" where
  "set_bucket r p b = r\<lparr>rbuckets := (rbuckets r)[p := b]\<rparr>"

definition store_key :: "nat \<Rightarrow> nat \<Rightarrow> u64 \<Rightarrow> RegionState \<Rightarrow> RegionState" where
  "store_key p i kid r = (let b = bucket_at r p in
     set_bucket r p (b\<lparr>entries := (entries b)[i := (entries b ! i)\<lparr>e_key := kid\<rparr>]\<rparr>))"

definition store_off :: "nat \<Rightarrow> nat \<Rightarrow> u64 \<Rightarrow> RegionState \<Rightarrow> RegionState" where
  "store_off p i off r = (let b = bucket_at r p in
     set_bucket r p (b\<lparr>entries := (entries b)[i := (entries b ! i)\<lparr>e_off := off\<rparr>]\<rparr>))"

definition store_header :: "nat \<Rightarrow> u64 \<Rightarrow> RegionState \<Rightarrow> RegionState" where
  "store_header p h r = set_bucket r p ((bucket_at r p)\<lparr>header := h\<rparr>)"

definition or_header :: "nat \<Rightarrow> u64 \<Rightarrow> RegionState \<Rightarrow> RegionState" where
  "or_header p bits r = store_header p (header (bucket_at r p) OR bits) r"

definition count_entry :: "RegionState \<Rightarrow> RegionState" where
  "count_entry r = r\<lparr>num_entries := num_entries r + 1\<rparr>"

section \<open>Walking a chain\<close>

text \<open>
  The walk of \<open>upsert\<close> and of \<open>apply_bucket_group\<close>: one pass that stops at a live slot with
  the key and remembers the first slot that is not live. \<open>live p\<close> is the word of live bits of
  bucket \<open>p\<close>: the header itself, or the header with the bits the batch has claimed. The fuel is
  the length of the longest possible chain.
\<close>

datatype walk_result = WMatch nat nat | WMiss "(nat \<times> nat) option" nat | WNoFuel

fun bucket_walk :: "u64 \<Rightarrow> Entry list \<Rightarrow> u64 \<Rightarrow> nat \<Rightarrow> nat \<Rightarrow> nat option \<Rightarrow> nat option \<times> nat option" where
  "bucket_walk live es kid i 0 reusable = (None, reusable)"
| "bucket_walk live es kid i (Suc n) reusable =
    (if slot_published live i then
       if e_key (es ! i) = kid then (Some i, reusable) else bucket_walk live es kid (Suc i) n reusable
     else bucket_walk live es kid (Suc i) n (if reusable = None then Some i else reusable))"

fun chain_walk :: "nat \<Rightarrow> nat \<Rightarrow> RegionState \<Rightarrow> (nat \<Rightarrow> u64) \<Rightarrow> u64 \<Rightarrow> nat \<Rightarrow> (nat \<times> nat) option \<Rightarrow> walk_result" where
  "chain_walk 0 M r claimed kid p reusable = WNoFuel"
| "chain_walk (Suc fuel) M r claimed kid p reusable =
    (let hdr = header (bucket_at r p) in
     case bucket_walk (hdr OR claimed p) (entries (bucket_at r p)) kid 0 kEntriesPerBucket None of
       (Some i, _) \<Rightarrow> WMatch p i
     | (None, free) \<Rightarrow>
         (let reusable' = (case reusable of None \<Rightarrow> map_option (Pair p) free | Some x \<Rightarrow> Some x) in
          if next_idx hdr = 0 then WMiss reusable' p
          else chain_walk fuel M r claimed kid (M + next_idx hdr) reusable'))"

definition chain_fuel :: "RegionState \<Rightarrow> nat" where
  "chain_fuel r = length (rbuckets r)"

section \<open>Upsert, lookup, remove\<close>

definition region_upsert :: "nat \<Rightarrow> nat \<Rightarrow> nat \<Rightarrow> u64 \<Rightarrow> u64 \<Rightarrow> RegionState \<Rightarrow> bool \<times> RegionState" where
  "region_upsert M ov bid kid off r =
    (case chain_walk (chain_fuel r) M r (\<lambda>_. 0) kid bid None of
       WMatch p i \<Rightarrow> (True, store_off p i off r)
     | WMiss (Some (p, i)) _ \<Rightarrow>
         (let r1 = store_key p i kid r;
              r2 = store_off p i off r1;
              r3 = or_header p (push_bit i 1) r2
          in (True, count_entry r3))
     | WMiss None tail \<Rightarrow>
         (let new_idx = next_overflow_alloc r + 1 in
          if new_idx > ov then (False, r)
          else
            let r1 = r\<lparr>next_overflow_alloc := new_idx\<rparr>;
                nb = M + new_idx;
                r2 = store_off nb 0 off (store_key nb 0 kid r1);
                r3 = store_header nb 1 r2;
                cur_hdr = header (bucket_at r3 tail);
                desired = (cur_hdr AND 0x7f) OR push_bit 7 1 OR push_bit 8 (of_nat new_idx);
                r4 = store_header tail desired r3
            in (True, count_entry r4))
     | WNoFuel \<Rightarrow> (False, r))"

definition upd_region :: "ColdTier \<Rightarrow> nat \<Rightarrow> RegionState \<Rightarrow> ColdTier" where
  "upd_region ct rid r = ct\<lparr>regions := (regions ct)[rid := r]\<rparr>"

definition cold_upsert :: "ColdTier \<Rightarrow> u64 \<Rightarrow> u64 \<Rightarrow> u64 \<Rightarrow> bool \<times> ColdTier" where
  "cold_upsert ct fp kid off =
    (let rid = region_id_of fp; M = main_buckets_per_region ct in
     case region_upsert M (overflow_slots_per_region ct) (bucket_id_of M fp) kid off (regions ct ! rid) of
       (ok, r) \<Rightarrow> (ok, upd_region ct rid r))"

text \<open>The read-only walk of \<open>lookup\<close> and \<open>remove\<close>: the first published slot with the key.\<close>

fun find_published :: "nat \<Rightarrow> nat \<Rightarrow> RegionState \<Rightarrow> u64 \<Rightarrow> nat \<Rightarrow> (nat \<times> nat) option" where
  "find_published 0 M r kid p = None"
| "find_published (Suc fuel) M r kid p =
    (let hdr = header (bucket_at r p) in
     case first_idx kEntriesPerBucket
            (\<lambda>i. slot_published hdr i \<and> e_key (entries (bucket_at r p) ! i) = kid) of
       Some i \<Rightarrow> Some (p, i)
     | None \<Rightarrow> if next_idx hdr = 0 then None
               else find_published fuel M r kid (M + next_idx hdr))"

definition region_lookup :: "nat \<Rightarrow> nat \<Rightarrow> u64 \<Rightarrow> RegionState \<Rightarrow> u64 option" where
  "region_lookup M bid kid r =
    (case find_published (chain_fuel r) M r kid bid of
       None \<Rightarrow> None
     | Some (p, i) \<Rightarrow>
         (let off = e_off (entries (bucket_at r p) ! i) in
          if off = kTombstoneOffset then None else Some off))"

definition cold_lookup :: "ColdTier \<Rightarrow> u64 \<Rightarrow> u64 \<Rightarrow> u64 option" where
  "cold_lookup ct fp kid =
    (let M = main_buckets_per_region ct in
     region_lookup M (bucket_id_of M fp) kid (regions ct ! region_id_of fp))"

definition region_remove :: "nat \<Rightarrow> nat \<Rightarrow> u64 \<Rightarrow> RegionState \<Rightarrow> bool \<times> RegionState" where
  "region_remove M bid kid r =
    (case find_published (chain_fuel r) M r kid bid of
       None \<Rightarrow> (False, r)
     | Some (p, i) \<Rightarrow> (True, store_off p i kTombstoneOffset r))"

definition cold_remove :: "ColdTier \<Rightarrow> u64 \<Rightarrow> u64 \<Rightarrow> bool \<times> ColdTier" where
  "cold_remove ct fp kid =
    (let rid = region_id_of fp; M = main_buckets_per_region ct in
     case region_remove M (bucket_id_of M fp) kid (regions ct ! rid) of
       (ok, r) \<Rightarrow> (ok, upd_region ct rid r))"

section \<open>Bulk upsert\<close>

record BulkEntry =
  be_fp :: u64
  be_key :: u64
  be_off :: u64

text \<open>The dirty list of a bucket group: bucket positions and the occupancy bits to add.\<close>

type_synonym dirty = "(nat \<times> u64) list"

definition batch_claimed_bits :: "dirty \<Rightarrow> nat \<Rightarrow> u64" where
  "batch_claimed_bits d p = (case map_of d p of Some w \<Rightarrow> w | None \<Rightarrow> 0)"

text \<open>\<open>find_or_create_dirty(b).add_bits |= w\<close>.\<close>

fun add_dirty :: "dirty \<Rightarrow> nat \<Rightarrow> u64 \<Rightarrow> dirty" where
  "add_dirty [] p w = [(p, w)]"
| "add_dirty ((q, v) # d) p w = (if q = p then (q, v OR w) # d else (q, v) # add_dirty d p w)"

fun group_loop :: "nat \<Rightarrow> nat \<Rightarrow> nat \<Rightarrow> BulkEntry list \<Rightarrow> RegionState \<Rightarrow> dirty \<Rightarrow> nat \<Rightarrow>
    RegionState \<times> dirty \<times> nat" where
  "group_loop M ov bid [] r d written = (r, d, written)"
| "group_loop M ov bid (e # es) r d written =
    (case chain_walk (chain_fuel r) M r (batch_claimed_bits d) (be_key e) bid None of
       WMatch p i \<Rightarrow>
         group_loop M ov bid es (store_off p i (be_off e) r) (add_dirty d p 0) (written + 1)
     | WMiss (Some (p, i)) _ \<Rightarrow>
         group_loop M ov bid es
           (count_entry (store_off p i (be_off e) (store_key p i (be_key e) r)))
           (add_dirty d p (push_bit i 1)) (written + 1)
     | WMiss None tail \<Rightarrow>
         (let alloc_idx = next_overflow_alloc r + 1 in
          if alloc_idx > ov then (r, d, written)
          else
            let r1 = r\<lparr>next_overflow_alloc := alloc_idx\<rparr>;
                nb = M + alloc_idx;
                r2 = store_off nb 0 (be_off e) (store_key nb 0 (be_key e) r1);
                d1 = add_dirty d nb 1;
                attach_bits = push_bit 7 1 OR push_bit 8 (of_nat alloc_idx);
                cur_hdr = header (bucket_at r2 tail);
                r3 = store_header tail ((cur_hdr AND 0x7f) OR attach_bits) r2;
                d2 = add_dirty d1 tail 0
            in group_loop M ov bid es (count_entry r3) d2 (written + 1))
     | WNoFuel \<Rightarrow> (r, d, written))"

text \<open>Phase 2: flip the staged occupancy bits.\<close>

definition flip_bits :: "dirty \<Rightarrow> RegionState \<Rightarrow> RegionState" where
  "flip_bits d r = fold (\<lambda>(p, w) r. if w \<noteq> 0 then or_header p w r else r) d r"

definition apply_bucket_group :: "nat \<Rightarrow> nat \<Rightarrow> nat \<Rightarrow> BulkEntry list \<Rightarrow> RegionState \<Rightarrow> nat \<times> RegionState" where
  "apply_bucket_group M ov bid es r =
    (case group_loop M ov bid es r [] 0 of (r1, d, written) \<Rightarrow> (written, flip_bits d r1))"

definition route_key :: "nat \<Rightarrow> BulkEntry \<Rightarrow> nat \<times> nat" where
  "route_key M e = (region_id_of (be_fp e), bucket_id_of M (be_fp e))"

definition route_le :: "nat \<Rightarrow> BulkEntry \<Rightarrow> BulkEntry \<Rightarrow> bool" where
  "route_le M a b \<longleftrightarrow> (let (ra, ba) = route_key M a; (rb, bb) = route_key M b in
     if ra \<noteq> rb then ra < rb else ba \<le> bb)"

text \<open>The two nested \<open>while\<close> loops visit the maximal runs of equal (region, bucket).\<close>

function bulk_runs :: "nat \<Rightarrow> BulkEntry list \<Rightarrow> ColdTier \<Rightarrow> nat \<Rightarrow> nat \<times> ColdTier" where
  "bulk_runs M [] ct acc = (acc, ct)"
| "bulk_runs M (e # es) ct acc =
    (let same = (\<lambda>x. route_key M x = route_key M e);
         run = e # takeWhile same es;
         (rid, bid) = route_key M e;
         (written, r) = apply_bucket_group M (overflow_slots_per_region ct) bid run (regions ct ! rid)
     in bulk_runs M (dropWhile same es) (upd_region ct rid r) (acc + written))"
  by pat_completeness auto
termination
  by (relation "measure (\<lambda>(M, es, ct, acc). length es)")
    (auto simp: less_Suc_eq_le length_dropWhile_le)

text \<open>
  \<open>std::sort\<close> orders the vector by (region, bucket); it is not stable, so the order inside a run
  is not determined. The sorted vector is an argument of the model, related to the input by
  \<open>sorted_by_route\<close>.
\<close>

definition sorted_by_route :: "nat \<Rightarrow> BulkEntry list \<Rightarrow> BulkEntry list \<Rightarrow> bool" where
  "sorted_by_route M es xs \<longleftrightarrow> mset xs = mset es \<and> sorted_wrt (route_le M) xs"

definition bulk_upsert :: "BulkEntry list \<Rightarrow> ColdTier \<Rightarrow> nat \<times> ColdTier" where
  "bulk_upsert xs ct = bulk_runs (main_buckets_per_region ct) xs ct 0"

section \<open>Scans and counters\<close>

fun scan_chain :: "nat \<Rightarrow> nat \<Rightarrow> RegionState \<Rightarrow> nat \<Rightarrow> (u64 \<times> u64) list" where
  "scan_chain 0 M r p = []"
| "scan_chain (Suc fuel) M r p =
    (let hdr = header (bucket_at r p); es = entries (bucket_at r p);
         here = [(e_key (es ! i), e_off (es ! i)). i \<leftarrow> [0..<kEntriesPerBucket],
                   slot_published hdr i \<and> e_off (es ! i) \<noteq> kTombstoneOffset]
     in if next_idx hdr = 0 then here else here @ scan_chain fuel M r (M + next_idx hdr))"

definition scan_region :: "ColdTier \<Rightarrow> nat \<Rightarrow> (u64 \<times> u64) list" where
  "scan_region ct rid =
    (let r = regions ct ! rid; M = main_buckets_per_region ct in
     concat (map (scan_chain (chain_fuel r) M r) [0..<M]))"

text \<open>\<open>parallel_load\<close>: thread \<open>t\<close> of \<open>n\<close> visits the regions \<open>t, t + n, \<dots>\<close>; the per-thread
  visit sequences are the result.\<close>

definition load_threads :: "nat \<Rightarrow> nat" where
  "load_threads n = (let n1 = (if n = 0 then 1 else n) in if n1 > kNumRegions then kNumRegions else n1)"

definition parallel_load :: "ColdTier \<Rightarrow> nat \<Rightarrow> (u64 \<times> u64) list list" where
  "parallel_load ct n =
    (let nt = load_threads n in
     map (\<lambda>t. concat (map (scan_region ct) (filter (\<lambda>r. r mod nt = t) [0..<kNumRegions]))) [0..<nt])"

definition capacity_main_entries :: "ColdTier \<Rightarrow> nat" where
  "capacity_main_entries ct = kNumRegions * main_buckets_per_region ct * kEntriesPerBucket"

definition approx_size :: "ColdTier \<Rightarrow> nat" where
  "approx_size ct = sum_list (map (\<lambda>r. num_entries (regions ct ! r)) [0..<kNumRegions])"

definition approx_overflow_used :: "ColdTier \<Rightarrow> nat" where
  "approx_overflow_used ct = sum_list (map (\<lambda>r. next_overflow_alloc (regions ct ! r)) [0..<kNumRegions])"

end
