(* ===== verification/Cold_Tier_Props.thy ===== *)
theory Cold_Tier_Props
  imports Cold_Tier
begin

text \<open>
  Correctness of the cold tier: chains are finite, disjoint and well-formed, walks never run out
  of fuel, each key occurs in at most one published slot of its chain, and upsert, lookup and
  remove implement a finite map. The \<open>durable_map\<close> contract is interpreted on the model.
\<close>

section \<open>Header words\<close>

lemma slot_published_bit [simp]: "slot_published h i \<longleftrightarrow> bit h i"
  by (simp add: slot_published_def bit_iff_odd_drop_bit and_one_eq odd_iff_mod_2_eq_one)

lemma bit_7f [simp]: "bit (0x7f :: int) n \<longleftrightarrow> n < 7"
proof -
  have "(0x7f :: int) = mask 7" by (simp add: mask_eq_exp_minus_1)
  then show ?thesis by (simp only: bit_mask_iff) (auto simp: possible_bit_def)
qed

lemma bit_128 [simp]: "bit (128 :: int) n \<longleftrightarrow> n = 7"
proof -
  have "(128 :: int) = push_bit 7 1" by simp
  then show ?thesis by (simp only: bit_push_bit_iff bit_1_iff) (auto simp: possible_bit_def)
qed

lemma next_idx_or:
  assumes "\<And>n. bit w n \<Longrightarrow> n < 8"
  shows "next_idx (h OR w) = next_idx h"
proof -
  have "drop_bit 8 (h OR w) = drop_bit 8 h"
    by (rule bit_word_eqI) (use assms in \<open>auto simp: bit_simps\<close>)
  then show ?thesis by (simp add: next_idx_def)
qed

lemma next_idx_or_bit: "i < 7 \<Longrightarrow> next_idx (h OR push_bit i 1) = next_idx h"
  by (rule next_idx_or) (auto simp: bit_simps bit_1_iff)

definition attached :: "u64 \<Rightarrow> nat \<Rightarrow> u64" where
  "attached h k = (h AND 0x7f) OR push_bit 7 1 OR push_bit 8 (of_nat k)"

lemma attached_bit: "i < 7 \<Longrightarrow> bit (attached h k) i \<longleftrightarrow> bit h i"
  by (auto simp: attached_def bit_simps bit_1_iff dest: bit_imp_le_length)

lemma attached_next: "k < 2 ^ 56 \<Longrightarrow> next_idx (attached h k) = k"
proof -
  assume k: "k < 2 ^ 56"
  have "drop_bit 8 (attached h k) = take_bit 56 (of_nat k)"
    by (rule bit_word_eqI) (auto simp: attached_def bit_simps bit_1_iff)
  then have "next_idx (attached h k) = take_bit 56 (unat (of_nat k :: u64))"
    by (simp add: next_idx_def unsigned_take_bit_eq)
  with k show ?thesis by (simp add: unsigned_of_nat take_bit_nat_eq_self)
qed

section \<open>Accessors\<close>

definition hdr_at :: "RegionState \<Rightarrow> nat \<Rightarrow> u64" where "hdr_at r p = header (bucket_at r p)"
definition key_at :: "RegionState \<Rightarrow> nat \<Rightarrow> nat \<Rightarrow> u64" where "key_at r p i = e_key (entries (bucket_at r p) ! i)"
definition off_at :: "RegionState \<Rightarrow> nat \<Rightarrow> nat \<Rightarrow> u64" where "off_at r p i = e_off (entries (bucket_at r p) ! i)"

lemmas acc_defs = hdr_at_def key_at_def off_at_def bucket_at_def set_bucket_def Let_def

definition region_shape :: "nat \<Rightarrow> nat \<Rightarrow> RegionState \<Rightarrow> bool" where
  "region_shape M ov r \<longleftrightarrow> length (rbuckets r) = M + ov + 1
     \<and> (\<forall>b \<in> set (rbuckets r). length (entries b) = 7) \<and> next_overflow_alloc r \<le> ov"

lemma region_shape_entries:
  "region_shape M ov r \<Longrightarrow> p \<le> M + ov \<Longrightarrow> length (entries (rbuckets r ! p)) = 7"
  by (simp add: region_shape_def)

lemma bucket_at_set:
  "bucket_at (set_bucket r p b) q = (if p = q \<and> p < length (rbuckets r) then b else bucket_at r q)"
  by (cases "p = q") (auto simp: bucket_at_def set_bucket_def list_update_beyond not_less)

lemma entry_update_other [simp]:
  "e_key ((es[i := (es ! i)\<lparr>e_off := v\<rparr>]) ! j) = e_key (es ! j)"
  "e_off ((es[i := (es ! i)\<lparr>e_key := k\<rparr>]) ! j) = e_off (es ! j)"
  by (cases "i = j"; cases "i < length es"; simp add: list_update_beyond)+

lemma bucket_at_other [simp]:
  "bucket_at (count_entry r) q = bucket_at r q"
  "bucket_at (r\<lparr>next_overflow_alloc := n\<rparr>) q = bucket_at r q"
  by (simp_all add: bucket_at_def count_entry_def)

lemmas store_defs = store_key_def store_off_def store_header_def or_header_def hdr_at_def key_at_def
  off_at_def bucket_at_set Let_def

lemma hdr_at_simps [simp]:
  "hdr_at (store_key p i k r) q = hdr_at r q" "hdr_at (store_off p i v r) q = hdr_at r q"
  "hdr_at (count_entry r) q = hdr_at r q" "hdr_at (r\<lparr>next_overflow_alloc := n\<rparr>) q = hdr_at r q"
  by (simp_all add: store_defs)

lemma key_at_simps [simp]:
  "key_at (store_off p i v r) q j = key_at r q j" "key_at (store_header p h r) q j = key_at r q j"
  "key_at (or_header p h r) q j = key_at r q j" "key_at (count_entry r) q j = key_at r q j"
  "key_at (r\<lparr>next_overflow_alloc := n\<rparr>) q j = key_at r q j"
  by (simp_all add: store_defs)

lemma off_at_simps [simp]:
  "off_at (store_key p i k r) q j = off_at r q j" "off_at (store_header p h r) q j = off_at r q j"
  "off_at (or_header p h r) q j = off_at r q j" "off_at (count_entry r) q j = off_at r q j"
  "off_at (r\<lparr>next_overflow_alloc := n\<rparr>) q j = off_at r q j"
  by (simp_all add: store_defs)

lemma frame_fields [simp]:
  "length (rbuckets (store_key p i k r)) = length (rbuckets r)"
  "length (rbuckets (store_off p i v r)) = length (rbuckets r)"
  "length (rbuckets (store_header p h r)) = length (rbuckets r)"
  "length (rbuckets (or_header p h r)) = length (rbuckets r)"
  "length (rbuckets (count_entry r)) = length (rbuckets r)"
  "next_overflow_alloc (store_key p i k r) = next_overflow_alloc r"
  "next_overflow_alloc (store_off p i v r) = next_overflow_alloc r"
  "next_overflow_alloc (store_header p h r) = next_overflow_alloc r"
  "next_overflow_alloc (or_header p h r) = next_overflow_alloc r"
  "next_overflow_alloc (count_entry r) = next_overflow_alloc r"
  by (simp_all add: store_key_def store_off_def store_header_def or_header_def set_bucket_def
      count_entry_def Let_def)

lemma region_shape_alt:
  "region_shape M ov r \<longleftrightarrow> length (rbuckets r) = M + ov + 1
     \<and> (\<forall>p \<le> M + ov. length (entries (bucket_at r p)) = 7) \<and> next_overflow_alloc r \<le> ov"
  by (auto simp: region_shape_def bucket_at_def all_set_conv_all_nth less_Suc_eq_le)

lemma entries_length [simp]:
  "length (entries (bucket_at (store_key p i k r) q)) = length (entries (bucket_at r q))"
  "length (entries (bucket_at (store_off p i v r) q)) = length (entries (bucket_at r q))"
  "length (entries (bucket_at (store_header p h r) q)) = length (entries (bucket_at r q))"
  "length (entries (bucket_at (or_header p h r) q)) = length (entries (bucket_at r q))"
  by (simp_all add: store_defs)

lemma store_shape [simp]:
  "region_shape M ov (store_key p i k r) \<longleftrightarrow> region_shape M ov r"
  "region_shape M ov (store_off p i v r) \<longleftrightarrow> region_shape M ov r"
  "region_shape M ov (store_header p h r) \<longleftrightarrow> region_shape M ov r"
  "region_shape M ov (or_header p h r) \<longleftrightarrow> region_shape M ov r"
  "region_shape M ov (count_entry r) \<longleftrightarrow> region_shape M ov r"
  by (simp_all add: region_shape_alt)

lemma store_at:
  assumes "region_shape M ov r" "p \<le> M + ov"
  shows "i < 7 \<Longrightarrow> key_at (store_key p i k r) q j = (if q = p \<and> j = i then k else key_at r q j)"
    and "i < 7 \<Longrightarrow> off_at (store_off p i v r) q j = (if q = p \<and> j = i then v else off_at r q j)"
    and "hdr_at (store_header p h r) q = (if q = p then h else hdr_at r q)"
    and "hdr_at (or_header p h r) q = (if q = p then hdr_at r p OR h else hdr_at r q)"
  using assms by (auto simp: store_defs region_shape_alt nth_list_update)

section \<open>Chains\<close>

text \<open>The bucket positions a walk from \<open>p\<close> visits, and whether it reaches the chain's end.\<close>

fun chain :: "nat \<Rightarrow> nat \<Rightarrow> RegionState \<Rightarrow> nat \<Rightarrow> nat list" where
  "chain 0 M r p = []"
| "chain (Suc n) M r p = p # (if next_idx (hdr_at r p) = 0 then [] else chain n M r (M + next_idx (hdr_at r p)))"

fun ends :: "nat \<Rightarrow> nat \<Rightarrow> RegionState \<Rightarrow> nat \<Rightarrow> bool" where
  "ends 0 M r p \<longleftrightarrow> False"
| "ends (Suc n) M r p \<longleftrightarrow> next_idx (hdr_at r p) = 0 \<or> ends n M r (M + next_idx (hdr_at r p))"

definition pos_ok :: "nat \<Rightarrow> RegionState \<Rightarrow> nat \<Rightarrow> bool" where
  "pos_ok M r p \<longleftrightarrow> p < M \<or> (M < p \<and> p \<le> M + next_overflow_alloc r)"

text \<open>
  \<open>own\<close> assigns every bucket to the main bucket whose chain it belongs to. Links go to allocated
  buckets of the same owner at higher positions, and buckets not yet allocated are all zero.
\<close>

definition links :: "nat \<Rightarrow> nat \<Rightarrow> (nat \<Rightarrow> nat) \<Rightarrow> RegionState \<Rightarrow> bool" where
  "links M ov own r \<longleftrightarrow> (\<forall>p < M. own p = p)
     \<and> (\<forall>p. pos_ok M r p \<and> next_idx (hdr_at r p) \<noteq> 0 \<longrightarrow>
          p < M + next_idx (hdr_at r p) \<and> next_idx (hdr_at r p) \<le> next_overflow_alloc r
          \<and> own (M + next_idx (hdr_at r p)) = own p)
     \<and> (\<forall>p. M + next_overflow_alloc r < p \<and> p \<le> M + ov \<longrightarrow> hdr_at r p = 0)"

lemma linksD:
  assumes "links M ov own r"
  shows "p < M \<Longrightarrow> own p = p"
    and "pos_ok M r p \<Longrightarrow> next_idx (hdr_at r p) \<noteq> 0 \<Longrightarrow> p < M + next_idx (hdr_at r p)
      \<and> pos_ok M r (M + next_idx (hdr_at r p)) \<and> own (M + next_idx (hdr_at r p)) = own p"
    and "M + next_overflow_alloc r < p \<Longrightarrow> p \<le> M + ov \<Longrightarrow> hdr_at r p = 0"
  using assms by (auto simp: links_def pos_ok_def)

lemma chain_pos:
  assumes "links M ov own r"
  shows "pos_ok M r p \<Longrightarrow> q \<in> set (chain n M r p) \<Longrightarrow> pos_ok M r q \<and> own q = own p \<and> p \<le> q"
proof (induction n arbitrary: p)
  case (Suc n)
  show ?case
  proof (cases "q = p \<or> next_idx (hdr_at r p) = 0")
    case True
    with Suc.prems show ?thesis by auto
  next
    case False
    with Suc.IH [of "M + next_idx (hdr_at r p)"] Suc.prems linksD(2) [OF assms Suc.prems(1)]
    show ?thesis by auto
  qed
qed simp

lemma chain_sorted:
  assumes "links M ov own r"
  shows "pos_ok M r p \<Longrightarrow> sorted_wrt (<) (chain n M r p)"
proof (induction n arbitrary: p)
  case (Suc n)
  show ?case
  proof (cases "next_idx (hdr_at r p) = 0")
    case False
    note nx = linksD(2) [OF assms Suc.prems False]
    with chain_pos [OF assms, of "M + next_idx (hdr_at r p)" _ n] Suc.IH [of "M + next_idx (hdr_at r p)"]
    show ?thesis by (fastforce simp: False)
  qed simp
qed simp

lemma chain_ends:
  assumes "links M ov own r"
  shows "pos_ok M r p \<Longrightarrow> (if p < M then next_overflow_alloc r else M + next_overflow_alloc r - p) < n
    \<Longrightarrow> ends n M r p"
proof (induction n arbitrary: p)
  case (Suc n)
  show ?case
  proof (cases "next_idx (hdr_at r p) = 0")
    case False
    note nx = linksD(2) [OF assms Suc.prems(1) False]
    then have "M < M + next_idx (hdr_at r p)" "M + next_idx (hdr_at r p) \<le> M + next_overflow_alloc r"
      by (auto simp: pos_ok_def)
    then have "ends n M r (M + next_idx (hdr_at r p))"
      using nx Suc.prems by (intro Suc.IH) (auto split: if_splits)
    then show ?thesis by simp
  qed simp
qed simp

lemma chain_cong:
  "(\<And>q. q \<in> set (chain n M r p) \<Longrightarrow> next_idx (hdr_at r' q) = next_idx (hdr_at r q)) \<Longrightarrow>
   chain n M r' p = chain n M r p"
  by (induction n M r p rule: chain.induct) auto

lemma chain_more_fuel: "ends n M r p \<Longrightarrow> n \<le> m \<Longrightarrow> chain m M r p = chain n M r p"
proof (induction n arbitrary: m p)
  case (Suc n)
  then obtain m' where "m = Suc m'" "n \<le> m'" by (cases m) auto
  with Suc show ?case by auto
qed simp

lemma chain_extend:
  assumes "links M ov own r"
  shows "pos_ok M r p \<Longrightarrow> ends n M r p \<Longrightarrow> t = last (chain n M r p) \<Longrightarrow>
    (\<And>q. q \<noteq> t \<Longrightarrow> q \<in> set (chain n M r p) \<Longrightarrow> next_idx (hdr_at r' q) = next_idx (hdr_at r q)) \<Longrightarrow>
    next_idx (hdr_at r' t) = k \<Longrightarrow> k \<noteq> 0 \<Longrightarrow> next_idx (hdr_at r' (M + k)) = 0 \<Longrightarrow>
    chain (Suc n) M r' p = chain n M r p @ [M + k]"
proof (induction n arbitrary: p)
  case (Suc n)
  show ?case
  proof (cases "next_idx (hdr_at r p) = 0")
    case True
    with Suc.prems show ?thesis by simp
  next
    case False
    let ?p' = "M + next_idx (hdr_at r p)"
    note nx = linksD(2) [OF assms Suc.prems(1) False]
    have e: "ends n M r ?p'" using Suc.prems(2) False by simp
    then have ne: "chain n M r ?p' \<noteq> []" by (cases n) auto
    then have t: "t = last (chain n M r ?p')" using Suc.prems(3) False by simp
    with ne have "t \<in> set (chain n M r ?p')" by simp
    then have "p < t" using chain_pos [OF assms, of ?p' t n] nx by auto
    then have "next_idx (hdr_at r' p) = next_idx (hdr_at r p)" using Suc.prems(4) [of p] by simp
    moreover have "chain (Suc n) M r' ?p' = chain n M r ?p' @ [M + k]"
      using Suc.prems(4-7) nx e t False by (intro Suc.IH) auto
    ultimately show ?thesis using False by simp
  qed
qed simp

section \<open>Walks\<close>

lemma bucket_walk_scan:
  "fst (bucket_walk live es k i n re) = scan_from i n (\<lambda>j. bit live j \<and> e_key (es ! j) = k)"
  "fst (bucket_walk live es k i n re) = None \<Longrightarrow>
   snd (bucket_walk live es k i n re) = (case re of Some x \<Rightarrow> Some x | None \<Rightarrow> scan_from i n (\<lambda>j. \<not> bit live j))"
  by (induction live es k i n re rule: bucket_walk.induct) (auto split: option.splits if_splits)

lemma bucket_walk_cases:
  obtains (Found) i re where "bucket_walk live es k 0 kEntriesPerBucket None = (Some i, re)"
      "i < 7" "bit live i" "e_key (es ! i) = k"
  | (Absent) re where "bucket_walk live es k 0 kEntriesPerBucket None = (None, re)"
      "\<forall>i < 7. \<not> (bit live i \<and> e_key (es ! i) = k)"
      "case re of Some i \<Rightarrow> i < 7 \<and> \<not> bit live i | None \<Rightarrow> \<forall>i < 7. bit live i"
proof -
  obtain f re where w: "bucket_walk live es k 0 kEntriesPerBucket None = (f, re)" by (cases "bucket_walk live es k 0 kEntriesPerBucket None")
  have f: "f = first_idx 7 (\<lambda>j. bit live j \<and> e_key (es ! j) = k)"
    using bucket_walk_scan(1) [of live es k 0 kEntriesPerBucket None] w
    by (simp add: first_idx_def kEntriesPerBucket_def)
  show thesis
  proof (cases f)
    case None
    then have "re = first_idx 7 (\<lambda>j. \<not> bit live j)"
      using bucket_walk_scan(2) [of live es k 0 kEntriesPerBucket None] w
      by (simp add: first_idx_def kEntriesPerBucket_def)
    then show thesis using None w f first_idx_NoneD
      by (intro Absent [of re]) (auto split: option.splits dest: first_idx_SomeD)
  next
    case (Some i)
    with first_idx_SomeD [OF f [symmetric, unfolded Some]] w show thesis by (intro Found [of i re]) auto
  qed
qed

definition has_key :: "RegionState \<Rightarrow> (nat \<Rightarrow> u64) \<Rightarrow> u64 \<Rightarrow> nat \<Rightarrow> nat \<Rightarrow> bool" where
  "has_key r cl k q i \<longleftrightarrow> i < 7 \<and> bit (hdr_at r q OR cl q) i \<and> key_at r q i = k"

text \<open>What a walk may answer about the positions \<open>ps\<close> it visited.\<close>

definition walk_ok :: "RegionState \<Rightarrow> (nat \<Rightarrow> u64) \<Rightarrow> u64 \<Rightarrow> nat list \<Rightarrow> (nat \<times> nat) option \<Rightarrow> walk_result \<Rightarrow> bool" where
  "walk_ok r cl k ps re w = (case w of
     WMatch q i \<Rightarrow> q \<in> set ps \<and> has_key r cl k q i
   | WMiss re' t \<Rightarrow> (\<forall>q \<in> set ps. \<forall>i. \<not> has_key r cl k q i) \<and> ps \<noteq> [] \<and> t = last ps
       \<and> (case re of Some x \<Rightarrow> re' = Some x
          | None \<Rightarrow> (case re' of Some (q, i) \<Rightarrow> q \<in> set ps \<and> i < 7 \<and> \<not> bit (hdr_at r q OR cl q) i
             | None \<Rightarrow> \<forall>q \<in> set ps. \<forall>i < 7. bit (hdr_at r q OR cl q) i))
   | WNoFuel \<Rightarrow> False)"

lemma chain_walk_ok: "ends n M r p \<Longrightarrow> walk_ok r cl k (chain n M r p) re (chain_walk n M r cl k p re)"
proof (induction n M r cl k p re rule: chain_walk.induct)
  case (2 n M r cl k p re)
  show ?case
  proof (cases rule: bucket_walk_cases [of "hdr_at r p OR cl p" "entries (bucket_at r p)" k])
    case (Found i re')
    then show ?thesis by (simp add: walk_ok_def has_key_def hdr_at_def key_at_def)
  next
    case (Absent free)
    let ?re = "case re of None \<Rightarrow> map_option (Pair p) free | Some x \<Rightarrow> Some x"
    have no: "\<not> has_key r cl k p i" for i using Absent(2) by (auto simp: has_key_def key_at_def)
    show ?thesis
    proof (cases "next_idx (hdr_at r p) = 0")
      case True
      with Absent no show ?thesis
        by (auto simp: walk_ok_def hdr_at_def split: option.splits)
    next
      case False
      then have "ends n M r (M + next_idx (hdr_at r p))" using "2.prems" by simp
      then have "walk_ok r cl k (chain n M r (M + next_idx (hdr_at r p))) ?re
          (chain_walk n M r cl k (M + next_idx (hdr_at r p)) ?re)"
        using "2.IH" Absent(1) False by (simp add: hdr_at_def)
      with Absent no False show ?thesis
        by (auto simp: walk_ok_def hdr_at_def split: option.splits walk_result.splits)
    qed
  qed
qed simp

lemma find_published_ok:
  "case find_published n M r k p of
     Some (q, i) \<Rightarrow> q \<in> set (chain n M r p) \<and> has_key r (\<lambda>_. 0) k q i
   | None \<Rightarrow> \<forall>q \<in> set (chain n M r p). \<forall>i. \<not> has_key r (\<lambda>_. 0) k q i"
proof (induction n M r k p rule: find_published.induct)
  case (2 n M r k p)
  let ?P = "\<lambda>i. slot_published (hdr_at r p) i \<and> e_key (entries (bucket_at r p) ! i) = k"
  show ?case
  proof (cases "first_idx kEntriesPerBucket ?P")
    case (Some i)
    with first_idx_SomeD [OF Some] show ?thesis
      by (simp add: hdr_at_def has_key_def key_at_def kEntriesPerBucket_def)
  next
    case None
    have no: "\<not> has_key r (\<lambda>_. 0) k p i" for i
      using first_idx_NoneD [OF None, of i] by (auto simp: has_key_def key_at_def kEntriesPerBucket_def)
    show ?thesis
    proof (cases "next_idx (hdr_at r p) = 0")
      case True
      with None no show ?thesis by (simp add: hdr_at_def)
    next
      case False
      with "2.IH" [OF refl] None no show ?thesis by (auto simp: hdr_at_def split: option.splits)
    qed
  qed
qed simp

section \<open>The contents of a chain\<close>

abbreviation holds_key :: "RegionState \<Rightarrow> u64 \<Rightarrow> nat \<Rightarrow> nat \<Rightarrow> bool" where
  "holds_key r \<equiv> has_key r (\<lambda>_. 0)"

definition chain_of :: "nat \<Rightarrow> RegionState \<Rightarrow> nat \<Rightarrow> nat set" where
  "chain_of M r b = set (chain (chain_fuel r) M r b)"

text \<open>No key is published twice in a chain.\<close>

definition uniq :: "RegionState \<Rightarrow> nat set \<Rightarrow> bool" where
  "uniq r ps \<longleftrightarrow> (\<forall>q \<in> ps. \<forall>q' \<in> ps. \<forall>i i' k. holds_key r k q i \<and> holds_key r k q' i' \<longrightarrow> q = q' \<and> i = i')"

definition binds :: "RegionState \<Rightarrow> nat set \<Rightarrow> u64 \<Rightarrow> u64 \<Rightarrow> bool" where
  "binds r ps k v \<longleftrightarrow> (\<exists>q \<in> ps. \<exists>i. holds_key r k q i \<and> off_at r q i = v)"

definition region_inv :: "nat \<Rightarrow> nat \<Rightarrow> RegionState \<Rightarrow> bool" where
  "region_inv M ov r \<longleftrightarrow> 0 < M \<and> ov < 2 ^ 56 \<and> region_shape M ov r
     \<and> (\<exists>own. links M ov own r) \<and> (\<forall>b < M. uniq r (chain_of M r b))"

text \<open>The stored offset of a key in a chain, tombstones included.\<close>

definition region_raw :: "nat \<Rightarrow> nat \<Rightarrow> u64 \<Rightarrow> RegionState \<Rightarrow> u64 option" where
  "region_raw M b k r = map_option (\<lambda>(p, i). off_at r p i) (find_published (chain_fuel r) M r k b)"

lemma region_lookup_raw:
  "region_lookup M b k r = (case region_raw M b k r of
     Some v \<Rightarrow> if v = kTombstoneOffset then None else Some v | None \<Rightarrow> None)"
  by (simp add: region_lookup_def region_raw_def off_at_def Let_def split: option.splits prod.splits)

lemma region_raw_None: "region_raw M b k r = None \<longleftrightarrow> (\<forall>q \<in> chain_of M r b. \<forall>i. \<not> holds_key r k q i)"
  using find_published_ok [of "chain_fuel r" M r b k]
  by (auto simp: region_raw_def chain_of_def split: option.splits)

lemma uniqI:
  "(\<And>q q' i i' k. q \<in> ps \<Longrightarrow> q' \<in> ps \<Longrightarrow> holds_key r k q i \<Longrightarrow> holds_key r k q' i' \<Longrightarrow> q = q' \<and> i = i') \<Longrightarrow> uniq r ps"
  unfolding uniq_def by blast

lemma uniqD:
  "uniq r ps \<Longrightarrow> q \<in> ps \<Longrightarrow> q' \<in> ps \<Longrightarrow> holds_key r k q i \<Longrightarrow> holds_key r k q' i' \<Longrightarrow> q = q' \<and> i = i'"
  unfolding uniq_def by blast

lemma region_raw_iff:
  assumes "uniq r (chain_of M r b)"
  shows "region_raw M b k r = Some v \<longleftrightarrow> binds r (chain_of M r b) k v"
proof (cases "find_published (chain_fuel r) M r k b")
  case None
  with find_published_ok [of "chain_fuel r" M r b k] show ?thesis
    by (auto simp: region_raw_def binds_def chain_of_def)
next
  case (Some qi)
  obtain q i where qi: "qi = (q, i)" by (cases qi)
  with find_published_ok [of "chain_fuel r" M r b k] Some
  have qi_in: "q \<in> chain_of M r b" "holds_key r k q i" by (auto simp: chain_of_def)
  have "q' = q \<and> i' = i" if "q' \<in> chain_of M r b" "holds_key r k q' i'" for q' i'
    by (rule uniqD [OF assms that(1) qi_in(1) that(2) qi_in(2)])
  then have "binds r (chain_of M r b) k v \<longleftrightarrow> off_at r q i = v"
    unfolding binds_def using qi_in by metis
  then show ?thesis using Some qi by (simp add: region_raw_def)
qed

lemma raw_eqI:
  assumes "uniq r (chain_of M r b)" "uniq r' (chain_of M r' b)"
    and "\<And>v. binds r' (chain_of M r' b) k v \<longleftrightarrow> binds r (chain_of M r b) k v"
  shows "region_raw M b k r' = region_raw M b k r"
  using region_raw_iff [OF assms(1), of k] region_raw_iff [OF assms(2), of k] assms(3)
  by (metis not_None_eq)

text \<open>Publishing a key that was absent in one more slot.\<close>

lemma publish_content:
  assumes "uniq r ps" "\<And>q j. q \<in> ps \<Longrightarrow> \<not> holds_key r k q j" "\<And>k'. \<not> holds_key r k' p i"
    and key: "\<And>k' q j. q \<in> insert p ps \<Longrightarrow>
      holds_key r' k' q j \<longleftrightarrow> (holds_key r k' q j \<and> q \<in> ps) \<or> (q = p \<and> j = i \<and> k' = k)"
    and off: "\<And>q j. q \<in> insert p ps \<Longrightarrow> off_at r' q j = (if q = p \<and> j = i then v else off_at r q j)"
  shows "uniq r' (insert p ps)"
    and "binds r' (insert p ps) k' w \<longleftrightarrow> (if k' = k then w = v else binds r ps k' w)"
proof -
  show "uniq r' (insert p ps)"
  proof (rule uniqI)
    fix q q' j j' k' assume qs: "q \<in> insert p ps" "q' \<in> insert p ps"
      and h: "holds_key r' k' q j" "holds_key r' k' q' j'"
    show "q = q' \<and> j = j'"
    proof (cases "k' = k")
      case True
      with h key [OF qs(1), of k' j] key [OF qs(2), of k' j'] assms(2) [of q j] assms(2) [of q' j']
      show ?thesis by blast
    next
      case False
      with h key [OF qs(1), of k' j] key [OF qs(2), of k' j'] show ?thesis
        using uniqD [OF assms(1), of q q' k' j j'] by blast
    qed
  qed
  show "binds r' (insert p ps) k' w \<longleftrightarrow> (if k' = k then w = v else binds r ps k' w)"
  proof (cases "k' = k")
    case True
    have only: "holds_key r' k q j \<longleftrightarrow> q = p \<and> j = i" if "q \<in> insert p ps" for q j
      using key [OF that, of k j] assms(2) [of q j] by blast
    have "off_at r' p i = v" using off [of p i] by simp
    then show ?thesis unfolding binds_def using only True by (metis insertI1)
  next
    case False
    have hk: "holds_key r' k' q j \<longleftrightarrow> holds_key r k' q j \<and> q \<in> ps" if "q \<in> insert p ps" for q j
      using key [OF that, of k' j] False by blast
    have same: "off_at r' q j = off_at r q j" if "q \<in> ps" "holds_key r k' q j" for q j
      using off [of q j] assms(3) that by auto
    have "binds r' (insert p ps) k' w \<longleftrightarrow> binds r ps k' w"
    proof
      assume "binds r' (insert p ps) k' w"
      then obtain q j where "q \<in> insert p ps" "holds_key r' k' q j" "off_at r' q j = w"
        unfolding binds_def by blast
      with hk [of q j] same [of q j] show "binds r ps k' w" unfolding binds_def by auto
    next
      assume "binds r ps k' w"
      then obtain q j where "q \<in> ps" "holds_key r k' q j" "off_at r q j = w"
        unfolding binds_def by blast
      with hk [of q j] same [of q j] show "binds r' (insert p ps) k' w" unfolding binds_def by auto
    qed
    with False show ?thesis by simp
  qed
qed

text \<open>Overwriting the offset of a key that is present.\<close>

lemma overwrite_content:
  assumes "uniq r ps" "p \<in> ps" "holds_key r k p i"
    and key: "\<And>k' q j. holds_key r' k' q j \<longleftrightarrow> holds_key r k' q j"
    and off: "\<And>q j. off_at r' q j = (if q = p \<and> j = i then v else off_at r q j)"
  shows "uniq r' ps" and "binds r' ps k' w \<longleftrightarrow> (if k' = k then w = v else binds r ps k' w)"
proof -
  show "uniq r' ps" using assms(1) by (simp add: uniq_def key)
  have same: "q = p \<and> j = i" if "q \<in> ps" "holds_key r k q j" for q j
    using uniqD [OF assms(1) that(1) assms(2) that(2) assms(3)] .
  have diff: "k' = k" if "holds_key r k' p i" using that assms(3) by (simp add: has_key_def)
  show "binds r' ps k' w \<longleftrightarrow> (if k' = k then w = v else binds r ps k' w)"
  proof (cases "k' = k")
    case True
    have "off_at r' p i = v" using off by simp
    with True same assms(2,3) show ?thesis unfolding binds_def key by metis
  next
    case False
    have "off_at r' q j = off_at r q j" if "holds_key r k' q j" for q j
      using off [of q j] diff that False by (cases "q = p \<and> j = i") auto
    with False show ?thesis unfolding binds_def key by metis
  qed
qed

section \<open>Effects on a region\<close>

lemma region_invD:
  assumes "region_inv M ov r"
  shows "0 < M" "ov < 2 ^ 56" "region_shape M ov r" "b < M \<Longrightarrow> uniq r (chain_of M r b)"
    and "chain_fuel r = Suc (M + ov)" "next_overflow_alloc r \<le> ov"
  using assms by (simp_all add: region_inv_def region_shape_def chain_fuel_def)

lemma main_ends:
  assumes "links M ov own r" "region_shape M ov r" "b < M" "next_overflow_alloc r < n"
  shows "ends n M r b"
  using assms by (intro chain_ends [OF assms(1)]) (auto simp: pos_ok_def)

lemma chain_of_own:
  assumes "links M ov own r" "b < M" "q \<in> chain_of M r b"
  shows "pos_ok M r q" "own q = b"
  using chain_pos [OF assms(1), of b q] assms(2,3) linksD(1) [OF assms(1,2)]
  by (auto simp: chain_of_def pos_ok_def)

lemma pos_ok_range: "region_shape M ov r \<Longrightarrow> pos_ok M r q \<Longrightarrow> q \<le> M + ov"
  by (auto simp: pos_ok_def region_shape_def)

text \<open>An update that leaves every link alone keeps the chains.\<close>

lemma same_links:
  assumes "links M ov own r" "region_shape M ov r" "region_shape M ov r'"
    and "next_overflow_alloc r' = next_overflow_alloc r"
    and "\<And>q. next_idx (hdr_at r' q) = next_idx (hdr_at r q)"
    and "\<And>q. M + next_overflow_alloc r < q \<Longrightarrow> hdr_at r' q = hdr_at r q"
  shows "links M ov own r'" and "chain_of M r' b = chain_of M r b"
proof -
  show "links M ov own r'"
    using assms(1) unfolding links_def pos_ok_def assms(4,5) by (auto simp: assms(6))
  have "chain_fuel r' = chain_fuel r" using assms(2,3) by (simp add: chain_fuel_def region_shape_def)
  then show "chain_of M r' b = chain_of M r b"
    unfolding chain_of_def using chain_cong [of "chain_fuel r" M r b r'] assms(5) by simp
qed

lemma untouched_chain:
  assumes "uniq r ps" "\<And>k q j. q \<in> ps \<Longrightarrow> holds_key r' k q j \<longleftrightarrow> holds_key r k q j"
    and "\<And>q j. q \<in> ps \<Longrightarrow> off_at r' q j = off_at r q j"
  shows "uniq r' ps" "binds r' ps k v \<longleftrightarrow> binds r ps k v"
  using assms by (auto simp: uniq_def binds_def)

text \<open>The effect of a write: the region stays well-formed and exactly one key of one chain changes.\<close>

definition writes :: "nat \<Rightarrow> nat \<Rightarrow> nat \<Rightarrow> u64 \<Rightarrow> u64 \<Rightarrow> RegionState \<Rightarrow> RegionState \<Rightarrow> bool" where
  "writes M ov b k v r r' \<longleftrightarrow> region_inv M ov r' \<and>
     (\<forall>b' < M. \<forall>k'. region_raw M b' k' r' = (if b' = b \<and> k' = k then Some v else region_raw M b' k' r))"

lemma writesI:
  assumes "region_inv M ov r" "region_shape M ov r'" "links M ov own r'"
    and uniq: "\<And>b'. b' < M \<Longrightarrow> uniq r' (chain_of M r' b')"
    and binds: "\<And>b' k' w. b' < M \<Longrightarrow> binds r' (chain_of M r' b') k' w \<longleftrightarrow>
      (if b' = b \<and> k' = k then w = v else binds r (chain_of M r b') k' w)"
  shows "writes M ov b k v r r'"
  unfolding writes_def
proof (intro conjI allI impI)
  show "region_inv M ov r'"
    using assms(1-3) uniq by (auto simp: region_inv_def)
  fix b' k' assume b': "b' < M"
  show "region_raw M b' k' r' = (if b' = b \<and> k' = k then Some v else region_raw M b' k' r)"
  proof (cases "b' = b \<and> k' = k")
    case True
    with binds [OF b', of k' v] region_raw_iff [OF uniq [OF b'], of k' v] show ?thesis by simp
  next
    case False
    have "region_raw M b' k' r' = region_raw M b' k' r"
      by (rule raw_eqI [OF region_invD(4) [OF assms(1) b'] uniq [OF b']])
        (simp only: binds [OF b'] False if_False)
    then show ?thesis by (simp only: False if_False)
  qed
qed

lemma overwrite_slot:
  assumes inv: "region_inv M ov r" and b: "b < M" and p: "p \<in> chain_of M r b" "holds_key r k p i"
  shows "writes M ov b k v r (store_off p i v r)"
proof -
  obtain own where links: "links M ov own r" using inv by (auto simp: region_inv_def)
  note sh = region_invD(3) [OF inv]
  have pr: "p \<le> M + ov" "i < 7"
    using pos_ok_range [OF sh chain_of_own(1) [OF links b p(1)]] p(2) by (auto simp: has_key_def)
  let ?r = "store_off p i v r"
  have same: "links M ov own ?r" "chain_of M ?r b' = chain_of M r b'" for b'
    using same_links [OF links sh, of ?r] sh by auto
  have key: "holds_key ?r k' q j \<longleftrightarrow> holds_key r k' q j" for k' q j by (simp add: has_key_def)
  note off = store_at(2) [OF sh pr(1,2)]
  show ?thesis
  proof (rule writesI [OF inv _ same(1)])
    fix b' k' w assume b': "b' < M"
    note u = region_invD(4) [OF inv b']
    have "uniq ?r (chain_of M r b') \<and> (binds ?r (chain_of M r b') k' w \<longleftrightarrow>
      (if b' = b \<and> k' = k then w = v else binds r (chain_of M r b') k' w))"
    proof (cases "b' = b")
      case True
      with overwrite_content [OF u _ p(2) key off] p(1) show ?thesis by simp
    next
      case False
      then have "p \<notin> chain_of M r b'"
        using chain_of_own(2) [OF links b p(1)] chain_of_own(2) [OF links b', of p] by auto
      then have "off_at ?r q j = off_at r q j" if "q \<in> chain_of M r b'" for q j
        using off that by auto
      note un = untouched_chain [OF u key this]
    show ?thesis using un(1) un(2) [of k' w] False by simp
    qed
    then show "uniq ?r (chain_of M ?r b')" "binds ?r (chain_of M ?r b') k' w \<longleftrightarrow>
      (if b' = b \<and> k' = k then w = v else binds r (chain_of M r b') k' w)" by (simp_all add: same(2))
  qed (use sh in simp)
qed

text \<open>The two ways of publishing a new key share this argument: \<open>p\<close> is a slot of the chain that
  was not published, or the first slot of a fresh bucket.\<close>

lemma publish_writes:
  assumes inv: "region_inv M ov r" and b: "b < M" and sh': "region_shape M ov r'"
    and links: "links M ov own r" and links': "links M ov own' r'"
    and absent: "\<And>q j. q \<in> chain_of M r b \<Longrightarrow> \<not> holds_key r k q j"
    and free: "\<And>k'. \<not> holds_key r k' p i" "p \<in> chain_of M r b \<or> (\<forall>k' j. \<not> holds_key r k' p j)"
    and foreign: "\<And>b'. b' < M \<Longrightarrow> b' \<noteq> b \<Longrightarrow> p \<notin> chain_of M r b'"
    and chains: "\<And>b'. b' < M \<Longrightarrow> chain_of M r' b' = (if b' = b then insert p (chain_of M r b) else chain_of M r b')"
    and key: "\<And>k' q j. holds_key r' k' q j \<longleftrightarrow> holds_key r k' q j \<or> (q = p \<and> j = i \<and> k' = k)"
    and off: "\<And>q j. off_at r' q j = (if q = p \<and> j = i then v else off_at r q j)"
  shows "writes M ov b k v r r'"
proof (rule writesI [OF inv sh' links'])
  fix b' k' w assume b': "b' < M"
  note u = region_invD(4) [OF inv b']
  have "uniq r' (chain_of M r' b') \<and> (binds r' (chain_of M r' b') k' w \<longleftrightarrow>
    (if b' = b \<and> k' = k then w = v else binds r (chain_of M r b') k' w))"
  proof (cases "b' = b")
    case True
    have "holds_key r' k' q j \<longleftrightarrow> (holds_key r k' q j \<and> q \<in> chain_of M r b) \<or> (q = p \<and> j = i \<and> k' = k)"
      if "q \<in> insert p (chain_of M r b)" for k' q j
      using that free(2) key by auto
    from publish_content [OF u [unfolded True] absent free(1) this off] True chains [OF b] show ?thesis
      by simp
  next
    case False
    note p = foreign [OF b' False]
    have "holds_key r' k' q j \<longleftrightarrow> holds_key r k' q j" "off_at r' q j = off_at r q j"
      if "q \<in> chain_of M r b'" for k' q j using that p key off by auto
    note un = untouched_chain [OF u this]
    show ?thesis using un(1) un(2) [of k' w] False unfolding chains [OF b'] by simp
  qed
  then show "uniq r' (chain_of M r' b')" "binds r' (chain_of M r' b') k' w \<longleftrightarrow>
    (if b' = b \<and> k' = k then w = v else binds r (chain_of M r b') k' w)" by auto
qed

definition claim_slot :: "nat \<Rightarrow> nat \<Rightarrow> u64 \<Rightarrow> u64 \<Rightarrow> RegionState \<Rightarrow> RegionState" where
  "claim_slot p i k v r = count_entry (or_header p (push_bit i 1) (store_off p i v (store_key p i k r)))"

lemma claim_slot_at:
  assumes "region_shape M ov r" "p \<le> M + ov" "i < 7"
  shows "hdr_at (claim_slot p i k v r) q = (if q = p then hdr_at r p OR push_bit i 1 else hdr_at r q)"
    and "key_at (claim_slot p i k v r) q j = (if q = p \<and> j = i then k else key_at r q j)"
    and "off_at (claim_slot p i k v r) q j = (if q = p \<and> j = i then v else off_at r q j)"
    and "region_shape M ov (claim_slot p i k v r)"
    and "next_overflow_alloc (claim_slot p i k v r) = next_overflow_alloc r"
  using assms by (simp_all add: claim_slot_def store_at [of M ov])

lemma claim_writes:
  assumes inv: "region_inv M ov r" and b: "b < M"
    and absent: "\<And>q j. q \<in> chain_of M r b \<Longrightarrow> \<not> holds_key r k q j"
    and p: "p \<in> chain_of M r b" "i < 7" "\<not> bit (hdr_at r p) i"
  shows "writes M ov b k v r (claim_slot p i k v r)"
proof -
  obtain own where links: "links M ov own r" using inv by (auto simp: region_inv_def)
  note sh = region_invD(3) [OF inv]
  note pk = chain_of_own [OF links b p(1)]
  note at = claim_slot_at [OF sh pos_ok_range [OF sh pk(1)] p(2), of k v]
  let ?r = "claim_slot p i k v r"
  have nx: "next_idx (hdr_at ?r q) = next_idx (hdr_at r q)" for q
    using next_idx_or_bit [OF p(2)] by (simp add: at)
  have far: "hdr_at ?r q = hdr_at r q" if "M + next_overflow_alloc r < q" for q
    using pk(1) that by (auto simp: at pos_ok_def)
  note same = same_links [OF links sh at(4,5) nx far]
  have key: "holds_key ?r k' q j \<longleftrightarrow> holds_key r k' q j \<or> (q = p \<and> j = i \<and> k' = k)" for k' q j
    using p(2,3) by (auto simp: has_key_def at bit_simps bit_1_iff)
  show ?thesis
  proof (rule publish_writes [OF inv b at(4) links same(1) absent _ _ _ _ key at(3)])
    fix b' assume "b' < M" "b' \<noteq> b"
    then show "p \<notin> chain_of M r b'" using chain_of_own(2) [OF links, of b' p] pk(2) by auto
  next
    fix b' show "chain_of M ?r b' = (if b' = b then insert p (chain_of M r b) else chain_of M r b')"
      using same(2) p(1) by auto
  qed (use p in \<open>auto simp: has_key_def\<close>)
qed

definition extend_chain :: "nat \<Rightarrow> nat \<Rightarrow> u64 \<Rightarrow> u64 \<Rightarrow> RegionState \<Rightarrow> RegionState" where
  "extend_chain M t k v r =
    (let n = next_overflow_alloc r + 1;
         r3 = store_header (M + n) 1
           (store_off (M + n) 0 v (store_key (M + n) 0 k (r\<lparr>next_overflow_alloc := n\<rparr>)))
     in count_entry (store_header t (attached (hdr_at r3 t) n) r3))"

lemma extend_chain_at:
  assumes "region_shape M ov r" "next_overflow_alloc r < ov" "t \<le> M + next_overflow_alloc r"
  defines "nb \<equiv> M + (next_overflow_alloc r + 1)"
  shows "hdr_at (extend_chain M t k v r) q = (if q = t then attached (hdr_at r t) (next_overflow_alloc r + 1)
      else if q = nb then 1 else hdr_at r q)"
    and "key_at (extend_chain M t k v r) q j = (if q = nb \<and> j = 0 then k else key_at r q j)"
    and "off_at (extend_chain M t k v r) q j = (if q = nb \<and> j = 0 then v else off_at r q j)"
    and "region_shape M ov (extend_chain M t k v r)"
    and "next_overflow_alloc (extend_chain M t k v r) = next_overflow_alloc r + 1"
proof -
  have s: "region_shape M ov (r\<lparr>next_overflow_alloc := Suc (next_overflow_alloc r)\<rparr>)"
    using assms(1,2) by (simp add: region_shape_alt)
  have "nb \<le> M + ov" "t \<le> M + ov" "t \<noteq> nb" using assms(2,3) by (auto simp: nb_def)
  then show "hdr_at (extend_chain M t k v r) q = (if q = t then attached (hdr_at r t) (next_overflow_alloc r + 1)
      else if q = nb then 1 else hdr_at r q)"
    "key_at (extend_chain M t k v r) q j = (if q = nb \<and> j = 0 then k else key_at r q j)"
    "off_at (extend_chain M t k v r) q j = (if q = nb \<and> j = 0 then v else off_at r q j)"
    "region_shape M ov (extend_chain M t k v r)"
    "next_overflow_alloc (extend_chain M t k v r) = next_overflow_alloc r + 1"
    using s by (auto simp: extend_chain_def Let_def nb_def store_at [of M ov])
qed

lemma extend_links:
  assumes inv: "region_inv M ov r" and links: "links M ov own r" and room: "next_overflow_alloc r < ov"
    and t: "pos_ok M r t" "own t = b"
  shows "links M ov (own(M + (next_overflow_alloc r + 1) := b)) (extend_chain M t k v r)"
proof -
  let ?n = "next_overflow_alloc r + 1" and ?r = "extend_chain M t k v r"
  note sh = region_invD(3) [OF inv]
  have tle: "t \<le> M + next_overflow_alloc r" using t(1) by (auto simp: pos_ok_def)
  note at = extend_chain_at [OF sh room tle, of k v]
  have n56: "?n < 2 ^ 56" using room region_invD(2) [OF inv] by simp
  show ?thesis unfolding links_def
  proof (intro conjI allI impI)
    fix p assume "p < M"
    then show "(own(M + ?n := b)) p = p" using linksD(1) [OF links] by simp
  next
    fix p assume "M + next_overflow_alloc ?r < p \<and> p \<le> M + ov"
    then show "hdr_at ?r p = 0" using linksD(3) [OF links, of p] tle by (auto simp: at)
  next
    fix p assume p: "pos_ok M ?r p \<and> next_idx (hdr_at ?r p) \<noteq> 0"
    have "p \<noteq> M + ?n" using p tle by (auto simp: at next_idx_def)
    with p have pr: "pos_ok M r p" by (auto simp: pos_ok_def at)
    have "p < M + next_idx (hdr_at ?r p) \<and> next_idx (hdr_at ?r p) \<le> ?n
        \<and> (own(M + ?n := b)) (M + next_idx (hdr_at ?r p)) = own p"
    proof (cases "p = t")
      case True
      then show ?thesis using attached_next [OF n56] tle t(2) by (simp add: at)
    next
      case False
      then have "next_idx (hdr_at r p) \<noteq> 0" "hdr_at ?r p = hdr_at r p" using p \<open>p \<noteq> M + ?n\<close> by (auto simp: at)
      with linksD(2) [OF links pr] show ?thesis by (auto simp: pos_ok_def)
    qed
    then show "p < M + next_idx (hdr_at ?r p)" "next_idx (hdr_at ?r p) \<le> next_overflow_alloc ?r"
      "(own(M + ?n := b)) (M + next_idx (hdr_at ?r p)) = (own(M + ?n := b)) p"
      using \<open>p \<noteq> M + ?n\<close> by (auto simp: at)
  qed
qed

lemma extend_chain_of:
  assumes inv: "region_inv M ov r" and links: "links M ov own r" and room: "next_overflow_alloc r < ov"
    and b: "b < M" and t: "t = last (chain (chain_fuel r) M r b)" and b': "b' < M"
  shows "chain_of M (extend_chain M t k v r) b' =
    (if b' = b then insert (M + (next_overflow_alloc r + 1)) (chain_of M r b) else chain_of M r b')"
proof -
  let ?n = "next_overflow_alloc r + 1" and ?r = "extend_chain M t k v r"
  note sh = region_invD(3) [OF inv]
  note fuel = region_invD(5) [OF inv]
  have ends: "ends (M + ov) M r b" "ends (chain_fuel r) M r b"
    by (rule main_ends [OF links sh b], use room fuel in simp)+
  have t_in: "t \<in> chain_of M r b"
    using t ends(2) fuel by (auto simp: chain_of_def)
  note tk = chain_of_own [OF links b t_in]
  have tle: "t \<le> M + next_overflow_alloc r" using tk(1) by (auto simp: pos_ok_def)
  note at = extend_chain_at [OF sh room tle, of k v]
  have n56: "?n < 2 ^ 56" using room region_invD(2) [OF inv] by simp
  have fuel': "chain_fuel ?r = chain_fuel r" using at(4) sh by (simp add: chain_fuel_def region_shape_def)
  have same: "hdr_at ?r q = hdr_at r q" if "q \<noteq> t" "q \<in> chain_of M r b''" "b'' < M" for q b''
    using chain_of_own(1) [OF links that(3,2)] that(1) by (auto simp: at pos_ok_def)
  show ?thesis
  proof (cases "b' = b")
    case True
    have full: "chain (M + ov) M r b = chain (chain_fuel r) M r b"
      using chain_more_fuel [OF ends(1), of "chain_fuel r"] by (simp add: fuel)
    have "chain (Suc (M + ov)) M ?r b = chain (M + ov) M r b @ [M + ?n]"
    proof (rule chain_extend [OF links])
      show "pos_ok M r b" using b by (simp add: pos_ok_def)
      show "next_idx (hdr_at ?r t) = ?n" using attached_next [OF n56] by (simp add: at)
      show "next_idx (hdr_at ?r (M + ?n)) = 0" using tle by (simp add: at next_idx_def)
      fix q assume "q \<noteq> t" "q \<in> set (chain (M + ov) M r b)"
      then show "next_idx (hdr_at ?r q) = next_idx (hdr_at r q)"
        using same [of q b] b full by (simp add: chain_of_def)
    qed (use ends(1) t full in auto)
    then show ?thesis using True full fuel fuel' by (simp add: chain_of_def del: chain.simps)
  next
    case False
    have "hdr_at ?r q = hdr_at r q" if "q \<in> chain_of M r b'" for q
      using same [OF _ that b'] chain_of_own(2) [OF links b' that] tk(2) False by (cases "q = t") auto
    then have "chain (chain_fuel r) M ?r b' = chain (chain_fuel r) M r b'"
      by (intro chain_cong) (simp add: chain_of_def)
    with False fuel' show ?thesis by (simp add: chain_of_def)
  qed
qed

lemma extend_writes:
  assumes inv: "region_inv M ov r" and room: "next_overflow_alloc r < ov" and b: "b < M"
    and t: "t = last (chain (chain_fuel r) M r b)"
    and absent: "\<And>q j. q \<in> chain_of M r b \<Longrightarrow> \<not> holds_key r k q j"
  shows "writes M ov b k v r (extend_chain M t k v r)"
proof -
  obtain own where links: "links M ov own r" using inv by (auto simp: region_inv_def)
  let ?nb = "M + (next_overflow_alloc r + 1)"
  note sh = region_invD(3) [OF inv]
  have "t \<in> chain_of M r b"
    using t main_ends [OF links sh b, of "chain_fuel r"] room
    by (auto simp: chain_of_def region_invD(5) [OF inv])
  note tk = chain_of_own [OF links b this]
  have tle: "t \<le> M + next_overflow_alloc r" using tk(1) by (auto simp: pos_ok_def)
  note at = extend_chain_at [OF sh room tle, of k v]
  have nb0: "hdr_at r ?nb = 0" using linksD(3) [OF links, of ?nb] room by simp
  have key: "holds_key (extend_chain M t k v r) k' q j \<longleftrightarrow> holds_key r k' q j \<or> (q = ?nb \<and> j = 0 \<and> k' = k)"
    for k' q j
    using nb0 tle by (auto simp: has_key_def at attached_bit bit_1_iff)
  show ?thesis
  proof (rule publish_writes [OF inv b at(4) links extend_links [OF inv links room tk] absent _ _ _ _ key at(3)])
    fix b' assume b': "b' < M"
    show "chain_of M (extend_chain M t k v r) b' = (if b' = b then insert ?nb (chain_of M r b) else chain_of M r b')"
      by (rule extend_chain_of [OF inv links room b t b'])
    show "?nb \<notin> chain_of M r b'" using chain_of_own(1) [OF links b', of ?nb] by (auto simp: pos_ok_def)
  qed (use nb0 in \<open>auto simp: has_key_def\<close>)
qed

text \<open>Every branch of \<open>upsert\<close> on a well-formed region.\<close>

lemma region_upsert_cases:
  assumes inv: "region_inv M ov r" and b: "b < M"
  shows "(fst (region_upsert M ov b k v r) \<and> writes M ov b k v r (snd (region_upsert M ov b k v r))) \<or>
    (\<not> fst (region_upsert M ov b k v r) \<and> snd (region_upsert M ov b k v r) = r
      \<and> next_overflow_alloc r = ov \<and> (\<forall>q \<in> chain_of M r b. \<forall>i < 7. bit (hdr_at r q) i \<and> key_at r q i \<noteq> k))"
proof -
  obtain own where links: "links M ov own r" using inv by (auto simp: region_inv_def)
  note sh = region_invD(3) [OF inv]
  have "ends (chain_fuel r) M r b"
    by (rule main_ends [OF links sh b]) (use region_invD(5,6) [OF inv] in simp)
  note ok = chain_walk_ok [OF this, of "\<lambda>_. 0" k None]
  show ?thesis
  proof (cases "chain_walk (chain_fuel r) M r (\<lambda>_. 0) k b None")
    case (WMatch p i)
    with ok overwrite_slot [OF inv b, of p k i v] show ?thesis
      by (simp add: region_upsert_def walk_ok_def chain_of_def)
  next
    case (WMiss re t)
    then have absent: "\<And>q j. q \<in> chain_of M r b \<Longrightarrow> \<not> holds_key r k q j"
      and t: "t = last (chain (chain_fuel r) M r b)"
      using ok by (auto simp: walk_ok_def chain_of_def)
    show ?thesis
    proof (cases re)
      case (Some pi)
      with WMiss ok claim_writes [OF inv b absent, of "fst pi" "snd pi" v] show ?thesis
        by (cases pi) (simp add: region_upsert_def walk_ok_def chain_of_def claim_slot_def)
    next
      case None
      then have full: "\<forall>q \<in> chain_of M r b. \<forall>i < 7. bit (hdr_at r q) i"
        using WMiss ok by (simp add: walk_ok_def chain_of_def)
      show ?thesis
      proof (cases "next_overflow_alloc r < ov")
        case True
        with WMiss None extend_writes [OF inv True b t absent, of v] show ?thesis
          by (simp add: region_upsert_def extend_chain_def attached_def hdr_at_def Let_def)
      next
        case False
        with WMiss None full absent region_invD(6) [OF inv] show ?thesis
          by (auto simp: region_upsert_def has_key_def)
      qed
    qed
  qed (use ok in \<open>simp add: walk_ok_def\<close>)
qed

lemma region_upsert_refuses:
  assumes inv: "region_inv M ov r" and b: "b < M" and "next_overflow_alloc r = ov"
    and full: "\<forall>q \<in> chain_of M r b. \<forall>i < 7. bit (hdr_at r q) i \<and> key_at r q i \<noteq> k"
  shows "\<not> fst (region_upsert M ov b k v r)"
proof -
  obtain own where links: "links M ov own r" using inv by (auto simp: region_inv_def)
  have "ends (chain_fuel r) M r b"
    by (rule main_ends [OF links region_invD(3) [OF inv] b]) (use region_invD(5,6) [OF inv] in simp)
  note ok = chain_walk_ok [OF this, of "\<lambda>_. 0" k None]
  show ?thesis
  proof (cases "chain_walk (chain_fuel r) M r (\<lambda>_. 0) k b None")
    case (WMatch p i)
    with ok full show ?thesis by (auto simp: walk_ok_def chain_of_def has_key_def)
  next
    case (WMiss re t)
    with ok full have "re = None" by (auto simp: walk_ok_def chain_of_def split: option.splits)
    with WMiss assms(3) show ?thesis by (simp add: region_upsert_def)
  qed (simp add: region_upsert_def)
qed

lemma region_remove_cases:
  assumes inv: "region_inv M ov r" and b: "b < M"
  shows "(fst (region_remove M b k r) \<and> region_raw M b k r \<noteq> None
       \<and> writes M ov b k kTombstoneOffset r (snd (region_remove M b k r))) \<or>
    (\<not> fst (region_remove M b k r) \<and> snd (region_remove M b k r) = r \<and> region_raw M b k r = None)"
proof (cases "find_published (chain_fuel r) M r k b")
  case None
  then show ?thesis by (simp add: region_remove_def region_raw_def)
next
  case (Some pi)
  obtain p i where pi: "pi = (p, i)" by (cases pi)
  with Some find_published_ok [of "chain_fuel r" M r b k]
  have "p \<in> chain_of M r b" "holds_key r k p i" by (auto simp: chain_of_def)
  from overwrite_slot [OF inv b this] Some pi show ?thesis
    by (simp add: region_remove_def region_raw_def)
qed

section \<open>The whole tier\<close>

definition cold_inv :: "ColdTier \<Rightarrow> bool" where
  "cold_inv ct \<longleftrightarrow> (\<exists>n \<le> 55. main_buckets_per_region ct = 2 ^ n)
     \<and> length (regions ct) = kNumRegions
     \<and> (\<forall>r \<in> set (regions ct). region_inv (main_buckets_per_region ct) (overflow_slots_per_region ct) r)"

lemma region_id_less: "region_id_of fp < kNumRegions"
proof -
  have "(of_nat kNumRegions - 1 :: u64) = mask 5" by (simp add: kNumRegions_def mask_eq_exp_minus_1)
  then have "region_id_of fp = unat (take_bit 5 (drop_bit 59 fp))"
    by (simp only: region_id_of_def take_bit_eq_mask [symmetric])
  then show ?thesis using unat_take_bit_less [of 5] by (simp add: kNumRegions_def)
qed

lemma bucket_id_less: "n \<le> 63 \<Longrightarrow> bucket_id_of (2 ^ n) fp < 2 ^ n"
proof -
  have "(of_nat (2 ^ n) - 1 :: u64) = mask n" by (simp add: mask_eq_exp_minus_1)
  then have "\<exists>h. bucket_id_of (2 ^ n) fp = unat (take_bit n h :: u64)"
    by (auto simp only: bucket_id_of_def Let_def take_bit_eq_mask [symmetric])
  then show ?thesis using unat_take_bit_less by metis
qed

lemma cold_invD:
  assumes "cold_inv ct"
  shows "region_inv (main_buckets_per_region ct) (overflow_slots_per_region ct) (regions ct ! region_id_of fp)"
    and "bucket_id_of (main_buckets_per_region ct) fp < main_buckets_per_region ct"
    and "region_id_of fp < length (regions ct)"
  using assms region_id_less [of fp] bucket_id_less
  by (auto simp: cold_inv_def)

lemma upd_region_sel [simp]:
  "main_buckets_per_region (upd_region ct i r) = main_buckets_per_region ct"
  "overflow_slots_per_region (upd_region ct i r) = overflow_slots_per_region ct"
  "regions (upd_region ct i r) = (regions ct)[i := r]"
  by (simp_all add: upd_region_def)

lemma upd_region_same: "upd_region ct i (regions ct ! i) = ct"
  by (simp add: upd_region_def)

lemma cold_inv_upd:
  assumes "cold_inv ct" "region_inv (main_buckets_per_region ct) (overflow_slots_per_region ct) r"
  shows "cold_inv (upd_region ct i r)"
  using assms by (auto simp: cold_inv_def dest!: set_update_subset_insert [THEN subsetD])

text \<open>Two keys meet only if region, bucket and key identity agree.\<close>

definition same_cell :: "ColdTier \<Rightarrow> u64 \<Rightarrow> u64 \<Rightarrow> u64 \<Rightarrow> u64 \<Rightarrow> bool" where
  "same_cell ct fp k fp' k' \<longleftrightarrow> k' = k \<and> region_id_of fp' = region_id_of fp
     \<and> bucket_id_of (main_buckets_per_region ct) fp' = bucket_id_of (main_buckets_per_region ct) fp"

lemma writes_lookup:
  assumes "cold_inv ct"
    and "writes (main_buckets_per_region ct) (overflow_slots_per_region ct)
      (bucket_id_of (main_buckets_per_region ct) fp) k v (regions ct ! region_id_of fp) r'"
  shows "cold_inv (upd_region ct (region_id_of fp) r')"
    and "cold_lookup (upd_region ct (region_id_of fp) r') fp' k' =
      (if same_cell ct fp k fp' k' then if v = kTombstoneOffset then None else Some v
       else cold_lookup ct fp' k')"
proof -
  show "cold_inv (upd_region ct (region_id_of fp) r')"
    using assms(2) by (intro cold_inv_upd [OF assms(1)]) (simp add: writes_def)
  show "cold_lookup (upd_region ct (region_id_of fp) r') fp' k' =
      (if same_cell ct fp k fp' k' then if v = kTombstoneOffset then None else Some v
       else cold_lookup ct fp' k')"
    using assms(2) cold_invD(2,3) [OF assms(1)]
    by (cases "region_id_of fp' = region_id_of fp")
      (auto simp: cold_lookup_def same_cell_def writes_def region_lookup_raw Let_def)
qed

lemma cold_upsert_effect:
  assumes "cold_inv ct" "v \<noteq> kTombstoneOffset"
  shows "cold_inv (snd (cold_upsert ct fp k v))"
    and "fst (cold_upsert ct fp k v) \<Longrightarrow> cold_lookup (snd (cold_upsert ct fp k v)) fp' k' =
      (if same_cell ct fp k fp' k' then Some v else cold_lookup ct fp' k')"
    and "\<not> fst (cold_upsert ct fp k v) \<Longrightarrow> snd (cold_upsert ct fp k v) = ct"
  using region_upsert_cases [OF cold_invD(1) [OF assms(1), of fp] cold_invD(2) [OF assms(1), of fp], of k v] writes_lookup [OF assms(1), of fp k v]
    assms
  by (auto simp: cold_upsert_def Let_def upd_region_same split: prod.splits)

lemma cold_remove_effect:
  assumes "cold_inv ct"
  shows "cold_inv (snd (cold_remove ct fp k))"
    and "cold_lookup (snd (cold_remove ct fp k)) fp' k' =
      (if same_cell ct fp k fp' k' then None else cold_lookup ct fp' k')"
proof -
  let ?M = "main_buckets_per_region ct" and ?r = "regions ct ! region_id_of fp"
  have eff: "snd (cold_remove ct fp k) = upd_region ct (region_id_of fp) (snd (region_remove ?M (bucket_id_of ?M fp) k ?r))"
    by (simp add: cold_remove_def Let_def split: prod.splits)
  note cs = region_remove_cases [OF cold_invD(1) [OF assms, of fp] cold_invD(2) [OF assms, of fp], of k]
  have "cold_inv (snd (cold_remove ct fp k)) \<and> cold_lookup (snd (cold_remove ct fp k)) fp' k' =
      (if same_cell ct fp k fp' k' then None else cold_lookup ct fp' k')"
  proof (cases "region_raw ?M (bucket_id_of ?M fp) k ?r")
    case None
    moreover from this have "cold_lookup ct fp' k' = None" if "same_cell ct fp k fp' k'"
      using that by (auto simp: same_cell_def cold_lookup_def region_lookup_raw Let_def)
    ultimately show ?thesis using cs assms by (simp add: eff upd_region_same)
  next
    case (Some v)
    with cs writes_lookup [OF assms, of fp k kTombstoneOffset] show ?thesis by (simp add: eff)
  qed
  then show "cold_inv (snd (cold_remove ct fp k))" "cold_lookup (snd (cold_remove ct fp k)) fp' k' =
      (if same_cell ct fp k fp' k' then None else cold_lookup ct fp' k')" by auto
qed

text \<open>The durable contract, for keys whose routing hash is a function \<open>route\<close> of the key identity
  (which it is for every key type whose bytes fit the identity word).\<close>

interpretation cold: durable_map cold_inv "\<lambda>_. True" "\<lambda>v. v \<noteq> kTombstoneOffset"
  "\<lambda>ct k. cold_lookup ct (route k) k" "\<lambda>ct k v. cold_upsert ct (route k) k v"
  "\<lambda>ct k. snd (cold_remove ct (route k) k)" for route :: "u64 \<Rightarrow> u64"
proof
  fix ct :: ColdTier and k k' v :: u64
  assume inv: "cold_inv ct"
  show "cold_inv (snd (cold_remove ct (route k) k))" by (rule cold_remove_effect(1) [OF inv])
  show "cold_lookup (snd (cold_remove ct (route k) k)) (route k') k' =
    (if k' = k then None else cold_lookup ct (route k') k')"
    using cold_remove_effect(2) [OF inv, of "route k" k "route k'" k'] by (auto simp: same_cell_def)
  assume v: "v \<noteq> kTombstoneOffset"
  show "cold_inv (snd (cold_upsert ct (route k) k v))" by (rule cold_upsert_effect(1) [OF inv v])
  show "cold_lookup (snd (cold_upsert ct (route k) k v)) (route k') k' =
    (if k' = k then Some v else cold_lookup ct (route k') k')" if "fst (cold_upsert ct (route k) k v)"
    using cold_upsert_effect(2) [OF inv v that, of "route k'" k'] by (auto simp: same_cell_def)
  show "cold_lookup (snd (cold_upsert ct (route k) k v)) (route k') k' = cold_lookup ct (route k') k'"
    if "\<not> fst (cold_upsert ct (route k) k v)"
    using cold_upsert_effect(3) [OF inv v that] by simp
qed

section \<open>Creation\<close>

lemma bit_length_bounds: "0 < x \<Longrightarrow> 2 ^ (bit_length x - 1) \<le> x \<and> x < 2 ^ bit_length x \<and> 0 < bit_length x"
proof (induction x rule: bit_length.induct)
  case (1 x)
  show ?case
  proof (cases "x = 1")
    case True
    then show ?thesis by (simp add: bit_length.simps [of "Suc 0"] bit_length.simps [of 0])
  next
    case False
    with "1.prems" have IH: "2 ^ (bit_length (x div 2) - 1) \<le> x div 2" "x div 2 < 2 ^ bit_length (x div 2)"
      "0 < bit_length (x div 2)" using "1.IH" by (auto simp: div_greater_zero_iff)
    have "(2 :: nat) ^ bit_length (x div 2) = 2 * 2 ^ (bit_length (x div 2) - 1)"
      using IH(3) by (cases "bit_length (x div 2)") auto
    moreover have "2 * (x div 2) \<le> x" "x < 2 * (x div 2) + 2" by presburger+
    ultimately have "2 ^ bit_length (x div 2) \<le> x \<and> x < 2 * 2 ^ bit_length (x div 2)"
      using IH(1,2) by linarith
    moreover have "bit_length x = Suc (bit_length (x div 2))"
      using "1.prems" by (simp add: bit_length.simps [of x])
    ultimately show ?thesis by simp
  qed
qed

lemma next_pow2_bounds: "1 \<le> v \<Longrightarrow> v \<le> next_pow2 v \<and> next_pow2 v < 2 * v \<and> (\<exists>n. next_pow2 v = 2 ^ n)"
proof (cases "v = 1")
  case False
  assume "1 \<le> v"
  with False have "0 < v - 1" by simp
  note b = bit_length_bounds [OF this]
  then have "(2 :: nat) ^ bit_length (v - 1) = 2 * 2 ^ (bit_length (v - 1) - 1)"
    by (cases "bit_length (v - 1)") auto
  with b False \<open>1 \<le> v\<close> have "v \<le> 2 ^ bit_length (v - 1) \<and> 2 ^ bit_length (v - 1) < 2 * v" by linarith
  then show ?thesis using False \<open>1 \<le> v\<close> by (auto simp: next_pow2_def)
qed (auto simp: next_pow2_def intro: exI [of _ 0])

lemma zero_region_inv:
  assumes "0 < M" "ov < 2 ^ 56"
  shows "region_inv M ov \<lparr> num_entries = 0, next_overflow_alloc = 0, rbuckets = replicate (M + ov + 1) zero_bucket \<rparr>"
    (is "region_inv M ov ?r")
proof -
  have hdr: "hdr_at ?r p = 0" if "p \<le> M + ov" for p
    using that by (simp add: hdr_at_def bucket_at_def zero_bucket_def less_Suc_eq_le del: replicate_Suc)
  have "region_shape M ov ?r"
    by (simp add: region_shape_def zero_bucket_def kEntriesPerBucket_def)
  moreover have "links M ov id ?r"
    using hdr by (auto simp: links_def pos_ok_def next_idx_def)
  moreover have "uniq ?r (chain_of M ?r b)" if "b < M" for b
    using hdr that by (auto simp: uniq_def has_key_def chain_of_def chain_fuel_def next_idx_def)
  ultimately show ?thesis using assms unfolding region_inv_def by blast
qed

lemma zero_region_raw:
  "b < M \<Longrightarrow> region_raw M b k \<lparr> num_entries = 0, next_overflow_alloc = 0, rbuckets = replicate (M + ov + 1) zero_bucket \<rparr> = None"
  by (auto simp: region_raw_None chain_of_def chain_fuel_def next_idx_def has_key_def hdr_at_def
      bucket_at_def zero_bucket_def nth_Cons' simp del: replicate_Suc)

text \<open>A pool file the operating system can hold.\<close>

definition cold_fits :: "nat \<Rightarrow> nat \<Rightarrow> bool" where
  "cold_fits main_buckets overflow_slots \<longleftrightarrow>
     cold_total_size (next_pow2 (max 1 main_buckets)) (max 1 overflow_slots) < 2 ^ 63"

lemma cold_create_inv:
  assumes "cold_fits m v"
  shows "cold_inv (snd (cold_create m v))"
    and "cold_lookup (snd (cold_create m v)) fp k = None"
proof -
  let ?M = "next_pow2 (max 1 m)" and ?ov = "max 1 v"
  have M: "1 \<le> ?M" "\<exists>n. ?M = 2 ^ n" using next_pow2_bounds [of "max 1 m"] by auto
  then obtain n where n: "?M = 2 ^ n" by blast
  have "?M + ?ov < 2 ^ 51" using assms by (simp add: cold_fits_def cold_total_size_def kNumRegions_def)
  then have ov: "?ov < 2 ^ 56" and "(2 :: nat) ^ n < 2 ^ 51" using n by simp_all
  then have n55: "n \<le> 55" by (subst (asm) power_strict_increasing_iff) simp_all
  show inv: "cold_inv (snd (cold_create m v))"
    using zero_region_inv [OF _ ov, of ?M] M n n55 by (auto simp: cold_inv_def cold_create_def Let_def)
  have "bucket_id_of ?M fp < ?M" using cold_invD(2) [OF inv] by (simp add: cold_create_def Let_def)
  with zero_region_raw [OF this] region_id_less [of fp] show "cold_lookup (snd (cold_create m v)) fp k = None"
    by (simp add: cold_lookup_def cold_create_def Let_def region_lookup_raw)
qed

end
