(* ===== verification/Cold_Bulk.thy ===== *)
theory Cold_Bulk
  imports Cold_Tier_Props
begin

text \<open>
  The batched write path of the cold tier. \<open>apply_bucket_group\<close> stages entry words and chain
  links first and flips all occupancy bits at the end; it is shown equal to the sequence of single
  upserts it replaces, and \<open>bulk_upsert\<close> to the sequence over the whole sorted vector. The
  theory also relates the recovery scan to the lookups, and gives the crash states of an upsert.
\<close>

section \<open>Staged occupancy bits\<close>

lemma region_eqI:
  assumes "num_entries r = num_entries s" "next_overflow_alloc r = next_overflow_alloc s"
    and "length (rbuckets r) = length (rbuckets s)"
    and "\<And>q. q < length (rbuckets s) \<Longrightarrow> bucket_at r q = bucket_at s q"
  shows "r = s"
  using assms by (intro RegionState.equality nth_equalityI) (auto simp: bucket_at_def)

definition dirty_ok :: "nat \<Rightarrow> dirty \<Rightarrow> bool" where
  "dirty_ok n d \<longleftrightarrow> distinct (map fst d) \<and> (\<forall>(p, w) \<in> set d. p < n \<and> (\<forall>i. bit w i \<longrightarrow> i < 7))"

lemma add_dirty_fst: "fst ` set (add_dirty d p w) = insert p (fst ` set d)"
  by (induction d p w rule: add_dirty.induct) auto

lemma claimed_add_dirty: "batch_claimed_bits (add_dirty d p w) q = batch_claimed_bits d q OR (if q = p then w else 0)"
  by (induction d p w rule: add_dirty.induct) (auto simp: batch_claimed_bits_def)

lemma dirty_ok_add:
  assumes "dirty_ok n d" "p < n" "\<And>i. bit w i \<Longrightarrow> i < 7"
  shows "dirty_ok n (add_dirty d p w)"
  using assms
proof (induction d p w rule: add_dirty.induct)
  case (2 q v d p w)
  then have "dirty_ok n d" by (simp add: dirty_ok_def)
  with 2 add_dirty_fst [of d p w] show ?case
    by (cases "q = p") (auto simp: dirty_ok_def bit_or_iff image_iff)
qed (simp add: dirty_ok_def)

lemma claimed_bits_low: "dirty_ok n d \<Longrightarrow> bit (batch_claimed_bits d p) i \<Longrightarrow> i < 7"
  by (auto simp: batch_claimed_bits_def dirty_ok_def split: option.splits dest!: map_of_SomeD)

lemma claimed_fresh: "p \<notin> fst ` set d \<Longrightarrow> batch_claimed_bits d p = 0"
  by (auto simp: batch_claimed_bits_def split: option.splits dest!: map_of_SomeD) (metis fst_conv imageI)

definition or_hdr :: "u64 \<Rightarrow> cold_bucket \<Rightarrow> cold_bucket" where
  "or_hdr w b = b\<lparr>header := header b OR w\<rparr>"

lemma or_hdr_simps [simp]:
  "or_hdr 0 b = b" "or_hdr v (or_hdr w b) = or_hdr (w OR v) b" "header (or_hdr w b) = header b OR w"
  "entries (or_hdr w b) = entries b"
  by (simp_all add: or_hdr_def or.assoc)

lemma bucket_or_header:
  "bucket_at (or_header p w r) q = (if q = p \<and> p < length (rbuckets r) then or_hdr w (bucket_at r q) else bucket_at r q)"
  by (auto simp: or_header_def store_header_def bucket_at_set or_hdr_def)

lemma flip_bits_frame:
  "length (rbuckets (flip_bits d r)) = length (rbuckets r)" "num_entries (flip_bits d r) = num_entries r"
  "next_overflow_alloc (flip_bits d r) = next_overflow_alloc r"
proof -
  have "length (rbuckets (flip_bits d r)) = length (rbuckets r) \<and> num_entries (flip_bits d r) = num_entries r
    \<and> next_overflow_alloc (flip_bits d r) = next_overflow_alloc r"
    by (induction d arbitrary: r)
      (auto simp: flip_bits_def or_header_def store_header_def set_bucket_def)
  then show "length (rbuckets (flip_bits d r)) = length (rbuckets r)" "num_entries (flip_bits d r) = num_entries r"
    "next_overflow_alloc (flip_bits d r) = next_overflow_alloc r" by auto
qed

lemma flip_bits_at:
  "dirty_ok (length (rbuckets r)) d \<Longrightarrow> bucket_at (flip_bits d r) q = or_hdr (batch_claimed_bits d q) (bucket_at r q)"
proof (induction d arbitrary: r)
  case Nil
  then show ?case by (simp add: flip_bits_def batch_claimed_bits_def)
next
  case (Cons pw d)
  obtain p w where pw: "pw = (p, w)" by (cases pw)
  let ?r = "if w \<noteq> 0 then or_header p w r else r"
  have d: "dirty_ok (length (rbuckets ?r)) d" "p < length (rbuckets r)" "p \<notin> fst ` set d"
    using Cons.prems by (auto simp: dirty_ok_def pw)
  have "bucket_at (flip_bits (pw # d) r) q = or_hdr (batch_claimed_bits d q) (bucket_at ?r q)"
    using Cons.IH [OF d(1)] by (simp add: flip_bits_def pw)
  then show ?case using d claimed_fresh [OF d(3)]
    by (auto simp: pw bucket_or_header batch_claimed_bits_def)
qed

lemma flip_hdr_at:
  "dirty_ok (length (rbuckets r)) d \<Longrightarrow> hdr_at (flip_bits d r) q = hdr_at r q OR batch_claimed_bits d q"
  by (simp add: hdr_at_def flip_bits_at)

text \<open>A walk that counts claimed bits as live sees what a plain walk sees after the flip.\<close>

lemma walk_flip:
  assumes "dirty_ok (length (rbuckets r)) d"
  shows "chain_walk n M r (batch_claimed_bits d) k p re = chain_walk n M (flip_bits d r) (\<lambda>_. 0) k p re"
proof (induction n arbitrary: p re)
  case (Suc n)
  have "next_idx (hdr_at (flip_bits d r) p) = next_idx (hdr_at r p)"
    unfolding flip_hdr_at [OF assms] by (rule next_idx_or) (use claimed_bits_low [OF assms] in fastforce)
  with Suc show ?case
    by (auto simp: Let_def flip_bits_at [OF assms] hdr_at_def split: option.splits prod.splits)
qed simp

lemma chain_fuel_flip [simp]: "chain_fuel (flip_bits d r) = chain_fuel r"
  by (simp add: chain_fuel_def flip_bits_frame)

section \<open>A group is a sequence of upserts\<close>

fun seq_upserts :: "nat \<Rightarrow> nat \<Rightarrow> nat \<Rightarrow> BulkEntry list \<Rightarrow> RegionState \<Rightarrow> nat \<times> RegionState" where
  "seq_upserts M ov bid [] r = (0, r)"
| "seq_upserts M ov bid (e # es) r =
    (case region_upsert M ov bid (be_key e) (be_off e) r of
       (True, r') \<Rightarrow> (case seq_upserts M ov bid es r' of (n, r'') \<Rightarrow> (n + 1, r''))
     | (False, r') \<Rightarrow> (0, r'))"

lemma bucket_at_store_off:
  "bucket_at (store_off p i v r) q = (if q = p \<and> p < length (rbuckets r) then
     (bucket_at r p)\<lparr>entries := (entries (bucket_at r p))[i := (entries (bucket_at r p) ! i)\<lparr>e_off := v\<rparr>]\<rparr>
   else bucket_at r q)"
  by (auto simp: store_off_def bucket_at_set Let_def)

lemma bucket_at_store_key:
  "bucket_at (store_key p i v r) q = (if q = p \<and> p < length (rbuckets r) then
     (bucket_at r p)\<lparr>entries := (entries (bucket_at r p))[i := (entries (bucket_at r p) ! i)\<lparr>e_key := v\<rparr>]\<rparr>
   else bucket_at r q)"
  by (auto simp: store_key_def bucket_at_set Let_def)

lemma bucket_at_store_header:
  "bucket_at (store_header p h r) q = (if q = p \<and> p < length (rbuckets r) then (bucket_at r p)\<lparr>header := h\<rparr>
   else bucket_at r q)"
  by (auto simp: store_header_def bucket_at_set)

lemma num_entries_simps [simp]:
  "num_entries (store_off p i v r) = num_entries r" "num_entries (store_key p i v r) = num_entries r"
  "num_entries (store_header p h r) = num_entries r" "num_entries (or_header p h r) = num_entries r"
  "num_entries (count_entry r) = num_entries r + 1"
  by (simp_all add: store_off_def store_key_def store_header_def or_header_def set_bucket_def count_entry_def Let_def)

lemmas bucket_ats = bucket_at_store_off bucket_at_store_key bucket_at_store_header bucket_or_header

lemma or_hdr_entries: "or_hdr w (b\<lparr>entries := es\<rparr>) = (or_hdr w b)\<lparr>entries := es\<rparr>"
  by (simp add: or_hdr_def)

lemma flip_match:
  assumes "dirty_ok (length (rbuckets r)) d" "p < length (rbuckets r)"
  shows "flip_bits (add_dirty d p 0) (store_off p i v r) = store_off p i v (flip_bits d r)"
proof (rule region_eqI)
  have "dirty_ok (length (rbuckets (store_off p i v r))) (add_dirty d p 0)"
    using dirty_ok_add [OF assms, of 0] by simp
  note at = flip_bits_at [OF this]
  fix q show "bucket_at (flip_bits (add_dirty d p 0) (store_off p i v r)) q = bucket_at (store_off p i v (flip_bits d r)) q"
    by (simp add: at bucket_ats flip_bits_at [OF assms(1)] claimed_add_dirty flip_bits_frame or_hdr_entries)
qed (simp_all add: flip_bits_frame)

lemma flip_claim:
  assumes "dirty_ok (length (rbuckets r)) d" "p < length (rbuckets r)" "i < 7"
  shows "flip_bits (add_dirty d p (push_bit i 1)) (count_entry (store_off p i v (store_key p i k r)))
    = claim_slot p i k v (flip_bits d r)"
proof -
  let ?r = "count_entry (store_off p i v (store_key p i k r))"
  obtain w :: u64 where w: "push_bit i 1 = w" "\<And>j. bit w j \<Longrightarrow> j < 7"
    using assms(3) by (auto simp: bit_simps bit_1_iff)
  have "dirty_ok (length (rbuckets ?r)) (add_dirty d p w)"
    using dirty_ok_add [OF assms(1,2), of w] w(2) by simp
  note at = flip_bits_at [OF this]
  show ?thesis unfolding claim_slot_def w(1)
    by (rule region_eqI) (simp_all add: at bucket_ats flip_bits_at [OF assms(1)] claimed_add_dirty
        flip_bits_frame or_hdr_entries)
qed

lemma attach_or:
  fixes h a c :: u64
  assumes "\<And>i. bit c i \<Longrightarrow> i < 7"
  shows "((h AND 0x7f) OR a) OR c = ((h OR c) AND 0x7f) OR a"
  by (rule bit_word_eqI) (use assms in \<open>auto simp: bit_simps\<close>)

lemma flip_extend:
  fixes k v :: u64 and r :: RegionState and d :: dirty and M nb t :: nat
  assumes d: "dirty_ok (length (rbuckets r)) d" and t: "t < nb" and nb: "nb < length (rbuckets r)"
    and fresh: "hdr_at r nb = 0" "nb \<notin> fst ` set d" and n: "nb = M + (next_overflow_alloc r + 1)"
  defines "r2 \<equiv> store_off nb 0 v (store_key nb 0 k (r\<lparr>next_overflow_alloc := next_overflow_alloc r + 1\<rparr>))"
    and "a \<equiv> push_bit 7 1 OR push_bit 8 (of_nat (next_overflow_alloc r + 1)) :: u64"
  shows "flip_bits (add_dirty (add_dirty d nb 1) t 0)
      (count_entry (store_header t ((header (bucket_at r2 t) AND 0x7f) OR a) r2))
    = extend_chain M t k v (flip_bits d r)"
proof (rule region_eqI)
  let ?d = "add_dirty (add_dirty d nb 1) t 0"
  let ?r = "count_entry (store_header t ((header (bucket_at r2 t) AND 0x7f) OR a) r2)"
  have len: "length (rbuckets ?r) = length (rbuckets r)" by (simp add: r2_def)
  have "dirty_ok (length (rbuckets r)) ?d"
    using d t nb by (intro dirty_ok_add) (auto simp: bit_1_iff)
  then have at: "bucket_at (flip_bits ?d ?r) q = or_hdr (batch_claimed_bits ?d q) (bucket_at ?r q)" for q
    by (intro flip_bits_at) (simp only: len)
  note dr = flip_bits_at [OF d]
  have cl0: "batch_claimed_bits d nb = 0" by (rule claimed_fresh [OF fresh(2)])
  have att: "attached h (next_overflow_alloc r + 1) = (h AND 0x7f) OR a" for h
    by (simp add: attached_def a_def or.assoc)
  have hdr0: "header (bucket_at r nb) = 0" using fresh(1) by (simp add: hdr_at_def)
  fix q
  consider "q = t" | "q = nb" | "q \<noteq> t" "q \<noteq> nb" by blast
  then show "bucket_at (flip_bits ?d ?r) q = bucket_at (extend_chain M t k v (flip_bits d r)) q"
  proof cases
    case 1
    have low: "\<And>i. bit (batch_claimed_bits d t) i \<Longrightarrow> i < 7" using claimed_bits_low [OF d] by blast
    show ?thesis unfolding at using 1 t nb
      by (simp add: r2_def extend_chain_def bucket_ats dr claimed_add_dirty flip_bits_frame Let_def
          hdr_at_def att [simplified] n [symmetric, simplified] or_hdr_def attach_or [OF low])
  next
    case 2
    then show ?thesis unfolding at using t nb cl0 hdr0
      by (simp add: r2_def extend_chain_def bucket_ats dr claimed_add_dirty flip_bits_frame Let_def
          n [symmetric, simplified] or_hdr_def)
  next
    case 3
    then show ?thesis unfolding at using t nb
      by (simp add: r2_def extend_chain_def bucket_ats dr claimed_add_dirty flip_bits_frame Let_def
          n [symmetric, simplified])
  qed
qed (simp_all add: flip_bits_frame extend_chain_def r2_def Let_def)

lemma group_loop_seq:
  assumes "region_inv M ov (flip_bits d r)" "bid < M" "dirty_ok (length (rbuckets r)) d"
    and "\<forall>p \<in> fst ` set d. p \<le> M + next_overflow_alloc r"
    and "group_loop M ov bid es r d w = (r', d', w')"
  shows "seq_upserts M ov bid es (flip_bits d r) = (w' - w, flip_bits d' r') \<and> w \<le> w'"
  using assms
proof (induction es arbitrary: r d w)
  case (Cons e es)
  let ?s = "flip_bits d r" and ?k = "be_key e" and ?v = "be_off e"
  note inv = Cons.prems(1) and d = Cons.prems(3)
  obtain own where links: "links M ov own ?s" using inv by (auto simp: region_inv_def)
  note sh = region_invD(3) [OF inv]
  have len: "length (rbuckets r) = Suc (M + ov)" and alloc: "next_overflow_alloc ?s = next_overflow_alloc r"
    using sh by (simp_all add: region_shape_def flip_bits_frame)
  have "ends (chain_fuel ?s) M ?s bid"
    by (rule main_ends [OF links sh Cons.prems(2)]) (use region_invD(5,6) [OF inv] in simp)
  note ok = chain_walk_ok [OF this, of "\<lambda>_. 0" ?k None]
  have pos: "p \<le> M + next_overflow_alloc r \<and> p < length (rbuckets r)" if "p \<in> set (chain (chain_fuel ?s) M ?s bid)" for p
    using chain_of_own(1) [OF links Cons.prems(2), of p] that region_invD(6) [OF inv]
    by (auto simp: chain_of_def pos_ok_def alloc len)
  note walk = walk_flip [OF d, of "chain_fuel r" M ?k bid None]
  have ok': "walk_ok ?s (\<lambda>_. 0) ?k (chain (chain_fuel ?s) M ?s bid) None
      (chain_walk (chain_fuel r) M r (batch_claimed_bits d) ?k bid None)"
    using ok by (simp add: walk)
  note ups = region_upsert_cases [OF inv Cons.prems(2), of ?k ?v]
  have step: "seq_upserts M ov bid (e # es) ?s = (w' - w, flip_bits d' r') \<and> w \<le> w'"
    if r1: "flip_bits d1 r1 = s1" and up: "region_upsert M ov bid ?k ?v ?s = (True, s1)"
      and d1: "dirty_ok (length (rbuckets r1)) d1" "\<forall>p \<in> fst ` set d1. p \<le> M + next_overflow_alloc r1"
      and g: "group_loop M ov bid es r1 d1 (w + 1) = (r', d', w')" for r1 d1 s1
  proof -
    have "region_inv M ov s1" using ups by (auto simp: up writes_def)
    then have "seq_upserts M ov bid es s1 = (w' - (w + 1), flip_bits d' r') \<and> w + 1 \<le> w'"
      using Cons.IH [of d1 r1 "w + 1"] Cons.prems(2) d1 g r1 by simp
    then show ?thesis by (auto simp: up)
  qed
  show ?case
  proof (cases "chain_walk (chain_fuel r) M r (batch_claimed_bits d) ?k bid None")
    case (WMatch p i)
    then have p: "p \<in> set (chain (chain_fuel ?s) M ?s bid)" using ok' by (simp add: walk_ok_def)
    show ?thesis
    proof (rule step [OF flip_match [OF d conjunct2 [OF pos [OF p]]]])
      show "region_upsert M ov bid ?k ?v ?s = (True, store_off p i ?v ?s)"
        using WMatch walk by (simp add: region_upsert_def)
      show "group_loop M ov bid es (store_off p i ?v r) (add_dirty d p 0) (w + 1) = (r', d', w')"
        using WMatch Cons.prems(5) by simp
    qed (use d pos [OF p] Cons.prems(4) in \<open>auto simp: add_dirty_fst intro: dirty_ok_add\<close>)
  next
    case (WMiss re t)
    then have t: "t \<in> set (chain (chain_fuel ?s) M ?s bid)" using ok' by (simp add: walk_ok_def)
    show ?thesis
    proof (cases re)
      case (Some pi)
      obtain p i where pi: "pi = (p, i)" by (cases pi)
      have p: "p \<in> set (chain (chain_fuel ?s) M ?s bid)" "i < 7"
        using ok' WMiss Some pi by (auto simp: walk_ok_def)
      show ?thesis
      proof (rule step [OF flip_claim [OF d conjunct2 [OF pos [OF p(1)]] p(2)]])
        show "region_upsert M ov bid ?k ?v ?s = (True, claim_slot p i ?k ?v ?s)"
          using WMiss Some pi walk by (simp add: region_upsert_def claim_slot_def)
        show "group_loop M ov bid es (count_entry (store_off p i ?v (store_key p i ?k r)))
            (add_dirty d p (push_bit i 1)) (w + 1) = (r', d', w')"
          using WMiss Some pi Cons.prems(5) by simp
        show "dirty_ok (length (rbuckets (count_entry (store_off p i ?v (store_key p i ?k r))))) (add_dirty d p (push_bit i 1))"
          using dirty_ok_add [OF d conjunct2 [OF pos [OF p(1)]], of "push_bit i 1"] p(2)
          by (auto simp: bit_simps bit_1_iff)
      qed (use pos [OF p(1)] Cons.prems(4) in \<open>auto simp: add_dirty_fst\<close>)
    next
      case None
      let ?n = "next_overflow_alloc r + 1"
      show ?thesis
      proof (cases "?n > ov")
        case True
        with WMiss None Cons.prems(5) walk show ?thesis by (simp add: region_upsert_def flip_bits_frame)
      next
        case False
        let ?nb = "M + ?n"
        let ?r2 = "store_off ?nb 0 ?v (store_key ?nb 0 ?k (r\<lparr>next_overflow_alloc := ?n\<rparr>))"
        let ?a = "push_bit 7 1 OR push_bit 8 (of_nat ?n) :: u64"
        let ?r3 = "count_entry (store_header t ((header (bucket_at ?r2 t) AND 0x7f) OR ?a) ?r2)"
        let ?d2 = "add_dirty (add_dirty d ?nb 1) t 0"
        have nb: "?nb < length (rbuckets r)" "t < ?nb" using False len pos [OF t] by auto
        have "hdr_at ?s ?nb = 0" using linksD(3) [OF links, of ?nb] False by (simp add: alloc)
        then have hdr0: "hdr_at r ?nb = 0" by (simp add: flip_hdr_at [OF d] or_eq_0_iff)
        have fresh: "?nb \<notin> fst ` set d" using Cons.prems(4) by auto
        show ?thesis
        proof (rule step [OF flip_extend [OF d nb(2,1) hdr0 fresh refl, of ?v ?k]])
          show "region_upsert M ov bid ?k ?v ?s = (True, extend_chain M t ?k ?v ?s)"
            using WMiss None False walk
            by (simp add: region_upsert_def extend_chain_def attached_def hdr_at_def alloc Let_def)
          show "group_loop M ov bid es ?r3 ?d2 (w + 1) = (r', d', w')"
            using WMiss None False Cons.prems(5) by (simp add: Let_def)
          show "dirty_ok (length (rbuckets ?r3)) ?d2"
            using d nb by (simp, intro dirty_ok_add) (auto simp: bit_1_iff)
        qed (use Cons.prems(4) pos [OF t] in \<open>auto simp: add_dirty_fst\<close>)
      qed
    qed
  next
    case WNoFuel
    with ok' show ?thesis by (simp add: walk_ok_def)
  qed
qed simp

lemma apply_bucket_group_seq:
  assumes "region_inv M ov r" "bid < M"
  shows "apply_bucket_group M ov bid es r = seq_upserts M ov bid es r"
proof -
  obtain r' d' w' where g: "group_loop M ov bid es r [] 0 = (r', d', w')" by (metis prod_cases3)
  have "flip_bits [] r = r" by (simp add: flip_bits_def)
  with group_loop_seq [OF _ assms(2) _ _ g] assms(1) g show ?thesis
    by (simp add: apply_bucket_group_def dirty_ok_def)
qed

section \<open>The whole vector\<close>

definition upsert_entry :: "BulkEntry \<Rightarrow> ColdTier \<Rightarrow> ColdTier" where
  "upsert_entry e ct = snd (cold_upsert ct (be_fp e) (be_key e) (be_off e))"

fun accepted :: "BulkEntry list \<Rightarrow> ColdTier \<Rightarrow> bool" where
  "accepted [] ct \<longleftrightarrow> True"
| "accepted (e # es) ct \<longleftrightarrow> fst (cold_upsert ct (be_fp e) (be_key e) (be_off e)) \<and> accepted es (upsert_entry e ct)"

lemma accepted_append: "accepted (xs @ ys) ct \<longleftrightarrow> accepted xs ct \<and> accepted ys (fold upsert_entry xs ct)"
  by (induction xs arbitrary: ct) auto

lemma group_loop_le: "group_loop M ov bid es r d w = (r', d', w') \<Longrightarrow> w' \<le> w + length es"
proof (induction es arbitrary: r d w)
  case (Cons e es)
  have step: "w' \<le> w + length (e # es)" if "group_loop M ov bid es r1 d1 (w + 1) = (r', d', w')" for r1 d1
    using Cons.IH [OF that] by simp
  show ?case
  proof (cases "chain_walk (chain_fuel r) M r (batch_claimed_bits d) (be_key e) bid None")
    case (WMatch p i)
    with Cons.prems show ?thesis by (intro step) simp
  next
    case (WMiss re t)
    show ?thesis
    proof (cases re)
      case None
      show ?thesis
      proof (cases "next_overflow_alloc r + 1 > ov")
        case False
        with WMiss None Cons.prems show ?thesis by (intro step) (simp add: Let_def)
      qed (use WMiss None Cons.prems in simp)
    next
      case (Some pi)
      with WMiss Cons.prems show ?thesis by (cases pi) (intro step, simp)
    qed
  qed (use Cons.prems in simp)
qed simp

lemma apply_bucket_group_le: "fst (apply_bucket_group M ov bid es r) \<le> length es"
  using group_loop_le [of M ov bid es r "[]" 0]
  by (cases "group_loop M ov bid es r [] 0") (simp add: apply_bucket_group_def)

lemma cold_upsert_region:
  "region_id_of fp = rid \<Longrightarrow> bucket_id_of (main_buckets_per_region ct) fp = bid \<Longrightarrow>
   cold_upsert ct fp k v = (case region_upsert (main_buckets_per_region ct) (overflow_slots_per_region ct) bid k v
      (regions ct ! rid) of (ok, r) \<Rightarrow> (ok, upd_region ct rid r))"
  by (simp add: cold_upsert_def Let_def)

lemma upd_region_twice [simp]: "upd_region (upd_region ct i r) i s = upd_region ct i s"
  by (simp add: upd_region_def)

lemma seq_upserts_fold:
  assumes "\<forall>e \<in> set es. route_key M e = (rid, bid)" "M = main_buckets_per_region ct" "rid < length (regions ct)"
    and "fst (seq_upserts M (overflow_slots_per_region ct) bid es (regions ct ! rid)) = length es"
  shows "upd_region ct rid (snd (seq_upserts M (overflow_slots_per_region ct) bid es (regions ct ! rid)))
    = fold upsert_entry es ct \<and> accepted es ct"
  using assms
proof (induction es arbitrary: ct)
  case Nil
  then show ?case by (simp add: upd_region_same)
next
  case (Cons e es)
  let ?ov = "overflow_slots_per_region ct"
  obtain ok r' where u: "region_upsert M ?ov bid (be_key e) (be_off e) (regions ct ! rid) = (ok, r')"
    by (cases "region_upsert M ?ov bid (be_key e) (be_off e) (regions ct ! rid)")
  have ok: "ok" and n: "fst (seq_upserts M ?ov bid es r') = length es"
    using Cons.prems(4) by (auto simp: u split: prod.splits bool.splits)
  have "region_id_of (be_fp e) = rid" "bucket_id_of (main_buckets_per_region ct) (be_fp e) = bid"
    using Cons.prems(1,2) by (auto simp: route_key_def)
  from cold_upsert_region [OF this] have ct: "upsert_entry e ct = upd_region ct rid r'"
    "fst (cold_upsert ct (be_fp e) (be_key e) (be_off e))"
    using u ok Cons.prems(2) by (simp_all add: upsert_entry_def)
  have "upd_region (upd_region ct rid r') rid (snd (seq_upserts M ?ov bid es r'))
      = fold upsert_entry es (upd_region ct rid r') \<and> accepted es (upd_region ct rid r')"
    using Cons.IH [of "upd_region ct rid r'"] Cons.prems n by simp
  then show ?case using u ok ct by (auto split: prod.splits)
qed

lemma fold_upsert_entry_inv:
  assumes "cold_inv ct" "\<forall>e \<in> set es. be_off e \<noteq> kTombstoneOffset"
  shows "cold_inv (fold upsert_entry es ct)"
    and "main_buckets_per_region (fold upsert_entry es ct) = main_buckets_per_region ct"
proof -
  have "cold_inv (fold upsert_entry es ct) \<and>
      main_buckets_per_region (fold upsert_entry es ct) = main_buckets_per_region ct"
    using assms
  proof (induction es arbitrary: ct)
    case (Cons e es)
    have "cold_inv (upsert_entry e ct)"
      using cold_upsert_effect(1) [OF Cons.prems(1)] Cons.prems(2) by (simp add: upsert_entry_def)
    moreover have "main_buckets_per_region (upsert_entry e ct) = main_buckets_per_region ct"
      by (simp add: upsert_entry_def cold_upsert_def Let_def split: prod.splits)
    ultimately show ?case using Cons.IH [of "upsert_entry e ct"] Cons.prems(2) by simp
  qed simp
  then show "cold_inv (fold upsert_entry es ct)"
    "main_buckets_per_region (fold upsert_entry es ct) = main_buckets_per_region ct" by auto
qed

lemma bulk_runs_le: "fst (bulk_runs M es ct n) \<le> n + length es"
proof (induction M es ct n rule: bulk_runs.induct)
  case (2 M e es ct n)
  let ?same = "\<lambda>x. route_key M x = route_key M e"
  obtain rid bid where k: "route_key M e = (rid, bid)" by (cases "route_key M e")
  obtain w r where g: "apply_bucket_group M (overflow_slots_per_region ct) bid (e # takeWhile ?same es) (regions ct ! rid) = (w, r)"
    by (cases "apply_bucket_group M (overflow_slots_per_region ct) bid (e # takeWhile ?same es) (regions ct ! rid)")
  have "w \<le> Suc (length (takeWhile ?same es))"
    using apply_bucket_group_le [of M "overflow_slots_per_region ct" bid "e # takeWhile ?same es" "regions ct ! rid"] g by simp
  moreover have "length es = length (takeWhile ?same es) + length (dropWhile ?same es)"
    by (metis length_append takeWhile_dropWhile_id)
  moreover have "fst (bulk_runs M (dropWhile ?same es) (upd_region ct rid r) (n + w)) \<le> n + w + length (dropWhile ?same es)"
    using "2.IH" [OF refl refl refl k [symmetric] refl g [symmetric]] by simp
  ultimately show ?case using g by (simp add: k Let_def)
qed simp

lemma bulk_runs_fold:
  assumes "cold_inv ct" "M = main_buckets_per_region ct" "\<forall>e \<in> set es. be_off e \<noteq> kTombstoneOffset"
    and "fst (bulk_runs M es ct n) = n + length es"
  shows "snd (bulk_runs M es ct n) = fold upsert_entry es ct \<and> accepted es ct"
  using assms
proof (induction M es ct n rule: bulk_runs.induct)
  case (2 M e es ct n)
  let ?same = "\<lambda>x. route_key M x = route_key M e" and ?ov = "overflow_slots_per_region ct"
  let ?run = "e # takeWhile ?same es" and ?rest = "dropWhile ?same es"
  obtain rid bid where k: "route_key M e = (rid, bid)" by (cases "route_key M e")
  obtain w r where g: "apply_bucket_group M ?ov bid ?run (regions ct ! rid) = (w, r)"
    by (cases "apply_bucket_group M ?ov bid ?run (regions ct ! rid)")
  have unfold: "bulk_runs M (e # es) ct n = bulk_runs M ?rest (upd_region ct rid r) (n + w)"
    using g by (simp add: k Let_def)
  have len: "Suc (length es) = length ?run + length ?rest"
    by (metis (no_types, lifting) add_Suc length_Cons length_append takeWhile_dropWhile_id)
  have "w \<le> length ?run" using apply_bucket_group_le [of M ?ov bid ?run "regions ct ! rid"] g by simp
  moreover have "fst (bulk_runs M ?rest (upd_region ct rid r) (n + w)) \<le> n + w + length ?rest"
    by (rule bulk_runs_le)
  ultimately have w: "w = length ?run" and full: "fst (bulk_runs M ?rest (upd_region ct rid r) (n + w)) = n + w + length ?rest"
    using "2.prems"(4) len unfolding unfold by simp_all
  have rb: "rid = region_id_of (be_fp e)" "bid = bucket_id_of M (be_fp e)" using k by (simp_all add: route_key_def)
  have "region_inv M ?ov (regions ct ! rid)" "bid < M" "rid < length (regions ct)"
    using cold_invD [OF "2.prems"(1), of "be_fp e"] "2.prems"(2) rb by simp_all
  then have seq: "seq_upserts M ?ov bid ?run (regions ct ! rid) = (w, r)"
    using apply_bucket_group_seq g by simp
  have run: "upd_region ct rid r = fold upsert_entry ?run ct" "accepted ?run ct"
  proof -
    have "\<forall>x \<in> set ?run. route_key M x = (rid, bid)" using k by (auto dest: set_takeWhileD)
    from seq_upserts_fold [OF this "2.prems"(2) \<open>rid < length (regions ct)\<close>] seq w
    show "upd_region ct rid r = fold upsert_entry ?run ct" "accepted ?run ct" by simp_all
  qed
  note inv = fold_upsert_entry_inv [OF "2.prems"(1), of ?run]
  have offs: "\<forall>e \<in> set ?run. be_off e \<noteq> kTombstoneOffset" "\<forall>e \<in> set ?rest. be_off e \<noteq> kTombstoneOffset"
    using "2.prems"(3) by (auto dest: set_takeWhileD set_dropWhileD)
  have rest: "snd (bulk_runs M ?rest (upd_region ct rid r) (n + w)) = fold upsert_entry ?rest (fold upsert_entry ?run ct)
      \<and> accepted ?rest (fold upsert_entry ?run ct)"
    using "2.IH" [OF refl refl refl k [symmetric] refl g [symmetric]] full "2.prems"(2) inv offs run(1) by simp
  have split: "e # es = ?run @ ?rest" by simp
  show ?case unfolding unfold using rest run(2) accepted_append [of ?run ?rest ct]
    by (simp only: split [symmetric] fold_append o_apply) (metis split fold_append o_apply)
qed simp

lemma same_cell_stable [simp]: "same_cell (upsert_entry e ct) = same_cell ct"
proof -
  have "main_buckets_per_region (upsert_entry e ct) = main_buckets_per_region ct"
    by (simp add: upsert_entry_def cold_upsert_def Let_def split: prod.splits)
  then show ?thesis by (intro ext) (simp add: same_cell_def)
qed

lemma accepted_lookup:
  assumes "cold_inv ct" "\<forall>e \<in> set es. be_off e \<noteq> kTombstoneOffset" "accepted es ct"
  shows "cold_lookup (fold upsert_entry es ct) fp k =
    fold (\<lambda>e v. if same_cell ct (be_fp e) (be_key e) fp k then Some (be_off e) else v) es (cold_lookup ct fp k)"
  using assms
proof (induction es arbitrary: ct)
  case (Cons e es)
  have off: "be_off e \<noteq> kTombstoneOffset" using Cons.prems(2) by simp
  have "cold_lookup (upsert_entry e ct) fp k = (if same_cell ct (be_fp e) (be_key e) fp k then Some (be_off e)
      else cold_lookup ct fp k)"
    using cold_upsert_effect(2) [OF Cons.prems(1) off] Cons.prems(3) by (simp add: upsert_entry_def)
  moreover have "cold_inv (upsert_entry e ct)"
    using cold_upsert_effect(1) [OF Cons.prems(1) off] by (simp add: upsert_entry_def)
  ultimately show ?case using Cons.IH [of "upsert_entry e ct"] Cons.prems(2,3) by simp
qed simp

section \<open>Properties\<close>

text \<open>
  C9. The cold tier is a map: starting from a freshly created pool, after any sequence of upserts
  and removals a lookup returns exactly the offset of the last accepted upsert of that key, or
  nothing if it was never accepted or has been removed since; refused upserts change nothing.
\<close>

theorem cold_tier_is_map:
  fixes route :: "u64 \<Rightarrow> u64"
  assumes "cold_fits m v" "\<forall>x \<in> set ops. op_val (\<lambda>v. v \<noteq> kTombstoneOffset) x"
  defines "res \<equiv> cold.drun route ops (snd (cold_create m v)) Map.empty"
  shows "cold_inv (fst res) \<and> (\<forall>k. cold_lookup (fst res) (route k) k = snd res k)"
  using cold.drun_exact [of "snd (cold_create m v)" ops route Map.empty] cold_create_inv [OF assms(1)] assms(2)
  by (simp add: res_def)

theorem cold_tier_is_map_witness:
  "let res = cold.drun (\<lambda>k. k) [MPut 5 7, MDel 5, MPut 5 9, MPut 6 1] (snd (cold_create 1 1)) Map.empty
   in cold_inv (fst res) \<and> (\<forall>k. cold_lookup (fst res) k k = snd res k)"
proof -
  have "cold_fits 1 1" by (simp add: cold_fits_def cold_total_size_def next_pow2_def kNumRegions_def)
  from cold_tier_is_map [OF this, of "[MPut 5 7, MDel 5, MPut 5 9, MPut 6 1]" "\<lambda>k. k"] show ?thesis
    by (simp add: kTombstoneOffset_def Let_def)
qed

text \<open>
  C20. Every branch of a single upsert on a well-formed pool. It is refused exactly when the key is
  absent, its chain has no free slot and the region's overflow pool is used up, and then the pool is
  untouched; otherwise the key reads back with the new offset and every other key as before.
\<close>

theorem cold_upsert_total:
  fixes ct :: ColdTier and fp k v fp' k' :: u64
  assumes "cold_inv ct" "v \<noteq> kTombstoneOffset"
  defines "M \<equiv> main_buckets_per_region ct" and "r \<equiv> regions ct ! region_id_of fp"
  shows "(\<not> fst (cold_upsert ct fp k v) \<longleftrightarrow>
      next_overflow_alloc r = overflow_slots_per_region ct
      \<and> (\<forall>q \<in> chain_of M r (bucket_id_of M fp). \<forall>i < 7. bit (hdr_at r q) i \<and> key_at r q i \<noteq> k))
    \<and> (\<not> fst (cold_upsert ct fp k v) \<longrightarrow> snd (cold_upsert ct fp k v) = ct)
    \<and> (fst (cold_upsert ct fp k v) \<longrightarrow> cold_inv (snd (cold_upsert ct fp k v))
        \<and> cold_lookup (snd (cold_upsert ct fp k v)) fp' k' =
            (if same_cell ct fp k fp' k' then Some v else cold_lookup ct fp' k'))"
proof (intro conjI impI)
  note inv = cold_invD(1) [OF assms(1), of fp, folded M_def r_def]
  note b = cold_invD(2) [OF assms(1), of fp, folded M_def]
  note cs = region_upsert_cases [OF inv b, of k v]
  have fst: "fst (cold_upsert ct fp k v) = fst (region_upsert M (overflow_slots_per_region ct) (bucket_id_of M fp) k v r)"
    by (simp add: cold_upsert_def M_def r_def Let_def split: prod.splits)
  show "\<not> fst (cold_upsert ct fp k v) \<longleftrightarrow> next_overflow_alloc r = overflow_slots_per_region ct
      \<and> (\<forall>q \<in> chain_of M r (bucket_id_of M fp). \<forall>i < 7. bit (hdr_at r q) i \<and> key_at r q i \<noteq> k)"
    unfolding fst using cs region_upsert_refuses [OF inv b, of k v] by blast
  show "snd (cold_upsert ct fp k v) = ct" if "\<not> fst (cold_upsert ct fp k v)"
    using cold_upsert_effect(3) [OF assms(1,2) that] .
  assume ok: "fst (cold_upsert ct fp k v)"
  show "cold_inv (snd (cold_upsert ct fp k v))" by (rule cold_upsert_effect(1) [OF assms(1,2)])
  show "cold_lookup (snd (cold_upsert ct fp k v)) fp' k' = (if same_cell ct fp k fp' k' then Some v else cold_lookup ct fp' k')"
    by (rule cold_upsert_effect(2) [OF assms(1,2) ok])
qed

theorem cold_upsert_total_witness:
  "let ct = snd (cold_create 1 1) in fst (cold_upsert ct 0 5 7) \<and> cold_lookup (snd (cold_upsert ct 0 5 7)) 0 5 = Some 7"
proof -
  have fits: "cold_fits 1 1" by (simp add: cold_fits_def cold_total_size_def next_pow2_def kNumRegions_def)
  have "fst (cold_upsert (snd (cold_create 1 1)) 0 5 7)" by code_simp
  with cold_upsert_total [OF cold_create_inv(1) [OF fits], of 7 0 5 0 5] show ?thesis
    by (simp add: kTombstoneOffset_def same_cell_def Let_def)
qed

text \<open>
  C13. The batched write path equals the sequence it replaces: whenever \<open>bulk_upsert\<close> reports that
  it wrote every entry of its sorted vector, the resulting pool is bit for bit the one obtained by
  upserting the entries one at a time, and each lookup returns the offset of the last entry of the
  vector for that key.
\<close>

theorem bulk_upsert_sequential:
  assumes "cold_inv ct" "\<forall>e \<in> set xs. be_off e \<noteq> kTombstoneOffset"
    and "fst (bulk_upsert xs ct) = length xs"
  shows "snd (bulk_upsert xs ct) = fold upsert_entry xs ct \<and> cold_inv (snd (bulk_upsert xs ct))
    \<and> cold_lookup (snd (bulk_upsert xs ct)) fp k =
       fold (\<lambda>e v. if same_cell ct (be_fp e) (be_key e) fp k then Some (be_off e) else v) xs (cold_lookup ct fp k)"
  using bulk_runs_fold [OF assms(1) refl assms(2), of 0] assms(3)
    fold_upsert_entry_inv [OF assms(1,2)] accepted_lookup [OF assms(1,2)]
  by (simp add: bulk_upsert_def)

theorem bulk_upsert_sequential_witness:
  "let ct = snd (cold_create 1 1);
       xs = [\<lparr> be_fp = 0, be_key = 5, be_off = 7 \<rparr>, \<lparr> be_fp = 0, be_key = 6, be_off = 8 \<rparr>]
   in snd (bulk_upsert xs ct) = fold upsert_entry xs ct \<and> cold_lookup (snd (bulk_upsert xs ct)) 0 5 = Some 7"
proof -
  let ?ct = "snd (cold_create 1 1)"
  let ?xs = "[\<lparr> be_fp = 0, be_key = 5, be_off = 7 \<rparr>, \<lparr> be_fp = 0, be_key = 6, be_off = 8 \<rparr>]"
  have fits: "cold_fits 1 1" by (simp add: cold_fits_def cold_total_size_def next_pow2_def kNumRegions_def)
  have "fst (bulk_upsert ?xs ?ct) = 2" by code_simp
  then have conc: "snd (bulk_upsert ?xs ?ct) = fold upsert_entry ?xs ?ct \<and> cold_inv (snd (bulk_upsert ?xs ?ct))
    \<and> cold_lookup (snd (bulk_upsert ?xs ?ct)) 0 5 =
       fold (\<lambda>e v. if same_cell ?ct (be_fp e) (be_key e) 0 5 then Some (be_off e) else v) ?xs (cold_lookup ?ct 0 5)"
    by (intro bulk_upsert_sequential [OF cold_create_inv(1) [OF fits]]) (simp_all add: kTombstoneOffset_def)
  have "fold (\<lambda>e v. if same_cell ?ct (be_fp e) (be_key e) 0 5 then Some (be_off e) else v) ?xs (cold_lookup ?ct 0 5) = Some 7"
    by (simp add: same_cell_def)
  with conc show ?thesis unfolding Let_def by metis
qed

end
