(* ===== verification/Pmem.thy ===== *)
theory Pmem
  imports Hiom_Prelude
begin

text \<open>
  The persist primitives of \<open>viper.hpp\<close> (\<open>pmem_persist\<close>, \<open>pmem_flush_range\<close>, \<open>pmem_drain\<close>,
  \<open>pmem_memcpy_persist\<close>) over a two-level memory: the bytes the program sees and the bytes that
  survive a power failure. \<open>clwb\<close> marks the cache line of one address for write-back and
  \<open>sfence\<close> completes the marked write-backs; spontaneous evictions only add durable lines, so the
  model gives what the code can rely on. The main result says exactly for which ranges the
  primitives make every byte durable, and what this means for the entries of the cold tier and
  for the records of a Viper page.
\<close>

section \<open>Memory and primitives\<close>

record pmem =
  cached :: "nat \<Rightarrow> u8"
  durable :: "nat \<Rightarrow> u8"
  pending :: "nat list"

definition CACHE_LINE_SIZE :: nat where "CACHE_LINE_SIZE = 64"

definition clwb :: "nat \<Rightarrow> pmem \<Rightarrow> pmem" where
  "clwb a m = m\<lparr>pending := a div CACHE_LINE_SIZE # pending m\<rparr>"

definition sfence :: "pmem \<Rightarrow> pmem" where
  "sfence m = m\<lparr>durable := (\<lambda>x. if x div CACHE_LINE_SIZE \<in> set (pending m) then cached m x else durable m x),
                 pending := []\<rparr>"

text \<open>The loop shared by both flush primitives: \<open>for (; addr < end; addr += 64) clwb(addr)\<close>.\<close>

function clwb_loop :: "nat \<Rightarrow> nat \<Rightarrow> pmem \<Rightarrow> pmem" where
  "clwb_loop addr end m = (if addr < end then clwb_loop (addr + CACHE_LINE_SIZE) end (clwb addr m) else m)"
  by pat_completeness auto
termination by (relation "measure (\<lambda>(addr, end, m). end - addr)") (auto simp: CACHE_LINE_SIZE_def)

declare clwb_loop.simps [simp del]

definition pmem_flush_range :: "nat \<Rightarrow> nat \<Rightarrow> pmem \<Rightarrow> pmem" where
  "pmem_flush_range addr len m = clwb_loop addr (addr + len) m"

definition pmem_drain :: "pmem \<Rightarrow> pmem" where
  "pmem_drain m = sfence m"

definition pmem_persist :: "nat \<Rightarrow> nat \<Rightarrow> pmem \<Rightarrow> pmem" where
  "pmem_persist addr len m = sfence (clwb_loop addr (addr + len) m)"

definition store_bytes :: "nat \<Rightarrow> u8 list \<Rightarrow> pmem \<Rightarrow> pmem" where
  "store_bytes dest bs m =
    m\<lparr>cached := (\<lambda>x. if dest \<le> x \<and> x < dest + length bs then bs ! (x - dest) else cached m x)\<rparr>"

definition pmem_memcpy_persist :: "nat \<Rightarrow> u8 list \<Rightarrow> pmem \<Rightarrow> pmem" where
  "pmem_memcpy_persist dest bs m = pmem_persist dest (length bs) (store_bytes dest bs m)"

section \<open>Layout of the two persistent structures\<close>

text \<open>Byte address of entry \<open>i\<close> of bucket \<open>b\<close> of region \<open>r\<close> in a cold-tier file whose regions hold
  \<open>n\<close> buckets: a 4096-byte header page, then regions of a 16-byte header and 128-byte buckets whose
  8-byte occupancy header precedes the 16-byte entries.\<close>

definition cold_entry_addr :: "nat \<Rightarrow> nat \<Rightarrow> nat \<Rightarrow> nat \<Rightarrow> nat" where
  "cold_entry_addr n r b i = 4096 + r * (16 + n * 128) + 16 + b * 128 + 8 + i * 16"

text \<open>Byte address of slot \<open>i\<close> of a fixed-size page at page-aligned address \<open>4096 * p\<close>: the lock byte
  and the slot bitset take the first 16 bytes, then follow entries of \<open>e\<close> bytes.\<close>

definition record_addr :: "nat \<Rightarrow> nat \<Rightarrow> nat \<Rightarrow> nat" where
  "record_addr p e i = 4096 * p + 16 + i * e"

section \<open>Which lines the loop marks\<close>

lemma clwb_loop_frame [simp]:
  "cached (clwb_loop a e m) = cached m" "durable (clwb_loop a e m) = durable m"
  by (induction a e m rule: clwb_loop.induct; subst clwb_loop.simps; simp add: clwb_def)+

lemma clwb_loop_pending:
  "l \<in> set (pending (clwb_loop a e m)) \<longleftrightarrow> l \<in> set (pending m) \<or> (\<exists>k. a + 64 * k < e \<and> l = (a + 64 * k) div 64)"
proof (induction a e m rule: clwb_loop.induct)
  case (1 a e m)
  have split: "(\<exists>k. a + 64 * k < e \<and> l = (a + 64 * k) div 64)
      \<longleftrightarrow> (a < e \<and> l = a div 64) \<or> (\<exists>k. a + 64 + 64 * k < e \<and> l = (a + 64 + 64 * k) div 64)"
    (is "?L \<longleftrightarrow> ?R")
  proof
    assume ?L
    then obtain k where k: "a + 64 * k < e" "l = (a + 64 * k) div 64" by blast
    show ?R
    proof (cases k)
      case (Suc k')
      then have "a + 64 + 64 * k' < e \<and> l = (a + 64 + 64 * k') div 64" using k by (simp add: add.assoc)
      then show ?thesis by blast
    qed (use k in simp)
  next
    assume ?R
    then show ?L
    proof
      assume "\<exists>k. a + 64 + 64 * k < e \<and> l = (a + 64 + 64 * k) div 64"
      then obtain k where "a + 64 * Suc k < e \<and> l = (a + 64 * Suc k) div 64" by (auto simp: add.assoc)
      then show ?thesis by blast
    qed (auto intro: exI [of _ 0])
  qed
  show ?case
  proof (cases "a < e")
    case True
    then have "pending (clwb_loop a e m) = pending (clwb_loop (a + 64) e (clwb a m))"
      by (subst clwb_loop.simps) (simp add: CACHE_LINE_SIZE_def)
    then show ?thesis using "1.IH" [OF True] True split by (auto simp: clwb_def CACHE_LINE_SIZE_def)
  next
    case False
    then show ?thesis by (subst clwb_loop.simps) auto
  qed
qed

lemma persist_durable_byte:
  "durable (pmem_persist a len m) x =
    (if x div 64 \<in> set (pending m) \<or> (\<exists>k. a + 64 * k < a + len \<and> x div 64 = (a + 64 * k) div 64)
     then cached m x else durable m x)"
  using clwb_loop_pending [of "x div 64" a "a + len" m]
  by (auto simp: pmem_persist_def sfence_def CACHE_LINE_SIZE_def)

text \<open>All lines of the range are marked exactly when the last byte's line is.\<close>

lemma last_line_marked:
  fixes a len :: nat
  assumes "0 < len"
  shows "(\<exists>k. 64 * k < len \<and> (a + len - 1) div 64 = (a + 64 * k) div 64) \<longleftrightarrow> a mod 64 + (len - 1) mod 64 < 64"
proof -
  let ?q = "(len - 1) div 64" and ?r = "(len - 1) mod 64"
  have len: "len = 64 * ?q + ?r + 1" using assms by simp
  have kq: "64 * k < len \<longleftrightarrow> k \<le> ?q" for k
    using assms by (auto simp: less_eq_div_iff_mult_less_eq)
  have e: "(a + len - 1) div 64 = a div 64 + ?q + (a mod 64 + ?r) div 64"
  proof -
    have "a + len - 1 = 64 * (a div 64 + ?q) + (a mod 64 + ?r)" using assms by (simp add: algebra_simps)
    then show ?thesis by (metis add.commute div_mult_self2 mult.commute zero_neq_numeral)
  qed
  have k: "(a + 64 * k) div 64 = a div 64 + k" for k by simp
  show ?thesis
  proof
    assume "\<exists>k. 64 * k < len \<and> (a + len - 1) div 64 = (a + 64 * k) div 64"
    then obtain k where "k \<le> ?q" "(a + len - 1) div 64 = a div 64 + k" using kq k by auto
    then have "(a mod 64 + ?r) div 64 = 0" using e by linarith
    then show "a mod 64 + ?r < 64" by (simp add: div_eq_0_iff)
  next
    assume "a mod 64 + ?r < 64"
    then have "(a + len - 1) div 64 = (a + 64 * ?q) div 64" using e k by simp
    then show "\<exists>k. 64 * k < len \<and> (a + len - 1) div 64 = (a + 64 * k) div 64" using kq by blast
  qed
qed

lemma inner_line_marked:
  fixes a len x :: nat
  assumes "0 < len" "a \<le> x" "x < a + len" "a mod 64 + (len - 1) mod 64 < 64"
  shows "\<exists>k. 64 * k < len \<and> x div 64 = (a + 64 * k) div 64"
proof -
  obtain k where k: "64 * k < len" "(a + len - 1) div 64 = a div 64 + k"
    using last_line_marked [OF assms(1), of a] assms(4) by auto
  have "x div 64 \<le> a div 64 + k" using div_le_mono [of x "a + len - 1" 64] assms(1,3) k(2) by simp
  moreover have "a div 64 \<le> x div 64" using assms(2) by (rule div_le_mono)
  ultimately have "x div 64 = (a + 64 * (x div 64 - a div 64)) div 64" "64 * (x div 64 - a div 64) < len"
    using k(1) by auto
  then show ?thesis by blast
qed

text \<open>The range \<open>[a, a + len)\<close> is durable after a persist, whatever the memory held.\<close>

definition persists_all :: "nat \<Rightarrow> nat \<Rightarrow> bool" where
  "persists_all a len \<longleftrightarrow> (\<forall>m x. a \<le> x \<and> x < a + len \<longrightarrow> durable (pmem_persist a len m) x = cached m x)"

lemma persists_all_iff: "persists_all a len \<longleftrightarrow> len = 0 \<or> a mod 64 + (len - 1) mod 64 < 64"
proof (cases "len = 0")
  case False
  let ?m = "\<lparr>cached = (\<lambda>_. 1), durable = (\<lambda>_. 0), pending = []\<rparr>"
  have "a mod 64 + (len - 1) mod 64 < 64" if all: "\<forall>m x. a \<le> x \<and> x < a + len \<longrightarrow> durable (pmem_persist a len m) x = cached m x"
  proof -
    have "durable (pmem_persist a len ?m) (a + len - 1) = 1"
      using all [rule_format, of "a + len - 1" ?m] False by simp
    then show ?thesis using last_line_marked [of len a] False by (simp add: persist_durable_byte split: if_splits)
  qed
  moreover have "durable (pmem_persist a len m) x = cached m x"
    if "a mod 64 + (len - 1) mod 64 < 64" "a \<le> x" "x < a + len" for m x
    using inner_line_marked [OF _ that(2,3,1)] False by (simp add: persist_durable_byte)
  ultimately show ?thesis using False unfolding persists_all_def by blast
qed (auto simp: persists_all_def)

text \<open>\<open>pmem_persist(addr, len)\<close> makes every byte of its range durable exactly when the range does
  not reach past the last line its 64-byte steps land on: the offset of \<open>addr\<close> in its line plus the
  remainder of \<open>len - 1\<close> stays below 64. In particular a line-aligned address is always served, and
  an unaligned one loses its last line otherwise.\<close>

theorem pmem_persist_range:
  "persists_all a len \<longleftrightarrow> len = 0 \<or> a mod 64 + (len - 1) mod 64 < 64"
  by (rule persists_all_iff)

section \<open>Entries and records that straddle a line\<close>

lemma cold_entry_addr_mod: "cold_entry_addr n r b i mod 64 = (24 + 16 * (r + i)) mod 64"
proof -
  have "cold_entry_addr n r b i = (24 + 16 * (r + i)) + 64 * (64 + 2 * r * n + 2 * b)"
    by (simp add: cold_entry_addr_def algebra_simps)
  then show ?thesis by (metis mod_mult_self2)
qed

text \<open>C25. The persist of a freshly written cold-tier entry (16 bytes: key id, then offset) leaves
  bytes of the entry unflushed exactly for the slots \<open>i\<close> of region \<open>r\<close> with \<open>(r + i) mod 4 = 2\<close>:
  there the entry starts 56 bytes into a line, so its offset word lies on the next line.\<close>

theorem cold_entry_offset_not_flushed:
  "persists_all (cold_entry_addr n r b i) 16 \<longleftrightarrow> (r + i) mod 4 \<noteq> 2"
proof -
  have "(24 + 16 * (r + i)) mod 64 = (24 + 16 * ((r + i) mod 4)) mod 64"
  proof -
    have "16 * (r + i) = 16 * (4 * ((r + i) div 4) + (r + i) mod 4)" by (simp only: mult_div_mod_eq)
    then have "24 + 16 * (r + i) = 24 + 16 * ((r + i) mod 4) + 64 * ((r + i) div 4)" by (simp only: distrib_left)
    then show ?thesis by (metis mod_mult_self2)
  qed
  moreover have "(r + i) mod 4 \<in> {0, 1, 2, 3}" by (simp; presburger)
  ultimately have "cold_entry_addr n r b i mod 64 + 15 < 64 \<longleftrightarrow> (r + i) mod 4 \<noteq> 2"
    unfolding cold_entry_addr_mod by auto
  then show ?thesis using persists_all_iff [of "cold_entry_addr n r b i" 16] by simp
qed

text \<open>C26. For records of 216 bytes (a 16-byte key and a 200-byte value) the persist in \<open>put\<close> covers
  the record in slot \<open>i\<close> exactly when its offset \<open>16 + 24 i\<close> modulo 64 is at most 40: the tail of
  the record in slot 4, for example, is not flushed before the slot is published.\<close>

theorem record_tail_not_flushed:
  "persists_all (record_addr p 216 i) 216 \<longleftrightarrow> (16 + 24 * i) mod 64 \<le> 40"
proof -
  have "record_addr p 216 i = (16 + 24 * i) + 64 * (64 * p + 3 * i)" by (simp add: record_addr_def algebra_simps)
  then have "record_addr p 216 i mod 64 = (16 + 24 * i) mod 64" by (metis mod_mult_self2)
  then show ?thesis using persists_all_iff [of "record_addr p 216 i" 216] by auto
qed

end
