(* ===== verification/Cold_Persist.thy ===== *)
theory Cold_Persist
  imports Cold_Bulk Pmem
begin

text \<open>
  The stores and persists of a cold-tier upsert, one by one, and what a power failure between any two of
  them can leave. The persistent words of a region sit at the byte addresses of the file layout; a store
  goes to the cache, and a cache line may be written back on its own at any moment, so the durable
  content of a line is the line as it was at some moment since it was last flushed. \<open>pmem_persist\<close> flushes
  the lines that its loop of 64-byte steps visits (\<open>Pmem\<close>).
\<close>

section \<open>Words and addresses\<close>

text \<open>The words of a region: the two counters of \<open>RegionHeader\<close>, bucket headers, and the key and offset of
  an \<open>Entry\<close>.\<close>

datatype cword = CountW | CursorW | HdrW nat | KeyW nat nat | OffW nat nat

fun wval :: "cword \<Rightarrow> RegionState \<Rightarrow> nat" where
  "wval CountW r = num_entries r"
| "wval CursorW r = next_overflow_alloc r"
| "wval (HdrW p) r = unat (hdr_at r p)"
| "wval (KeyW p i) r = unat (key_at r p i)"
| "wval (OffW p i) r = unat (off_at r p i)"

text \<open>\<open>region_ptr\<close> and the bucket addresses, for regions of \<open>n\<close> buckets: a 4096-byte header page, then
  regions of a 16-byte header and 128-byte buckets.\<close>

fun word_addr :: "nat \<Rightarrow> nat \<Rightarrow> cword \<Rightarrow> nat" where
  "word_addr n rid CountW = 4096 + rid * (16 + n * 128)"
| "word_addr n rid CursorW = 4096 + rid * (16 + n * 128) + 8"
| "word_addr n rid (HdrW p) = 4096 + rid * (16 + n * 128) + 16 + p * 128"
| "word_addr n rid (KeyW p i) = cold_entry_addr n rid p i"
| "word_addr n rid (OffW p i) = cold_entry_addr n rid p i + 8"

definition line_of :: "nat \<Rightarrow> nat \<Rightarrow> cword \<Rightarrow> nat" where
  "line_of n rid w = word_addr n rid w div CACHE_LINE_SIZE"

text \<open>The lines marked by the flush loop of \<open>pmem_persist(addr, len)\<close>.\<close>

definition flushed_lines :: "nat \<Rightarrow> nat \<Rightarrow> nat list" where
  "flushed_lines addr len = pending (pmem_flush_range addr len \<lparr>cached = (\<lambda>_. 0), durable = (\<lambda>_. 0), pending = []\<rparr>)"

section \<open>Stores and persists\<close>

datatype pm_op = StoreKey nat nat u64 | StoreOff nat nat u64 | StoreHeader nat u64 | StoreCursor nat | StoreCount nat
  | Persist cword nat

fun do_store :: "pm_op \<Rightarrow> RegionState \<Rightarrow> RegionState" where
  "do_store (StoreKey p i k) r = store_key p i k r"
| "do_store (StoreOff p i v) r = store_off p i v r"
| "do_store (StoreHeader p h) r = store_header p h r"
| "do_store (StoreCursor c) r = r\<lparr>next_overflow_alloc := c\<rparr>"
| "do_store (StoreCount c) r = r\<lparr>num_entries := c\<rparr>"
| "do_store (Persist w len) r = r"

fun stored_word :: "pm_op \<Rightarrow> cword option" where
  "stored_word (StoreKey p i k) = Some (KeyW p i)"
| "stored_word (StoreOff p i v) = Some (OffW p i)"
| "stored_word (StoreHeader p h) = Some (HdrW p)"
| "stored_word (StoreCursor c) = Some CursorW"
| "stored_word (StoreCount c) = Some CountW"
| "stored_word (Persist w len) = None"

text \<open>The region as the program sees it, and for every line the regions whose content of that line may be the
  durable one, newest first.\<close>

record pm_state =
  pview :: RegionState
  versions :: "nat \<Rightarrow> RegionState list"

definition pm_step :: "nat \<Rightarrow> nat \<Rightarrow> pm_op \<Rightarrow> pm_state \<Rightarrow> pm_state" where
  "pm_step n rid op s =
    (case op of
       Persist w len \<Rightarrow> s\<lparr>versions := (\<lambda>l. if l \<in> set (flushed_lines (word_addr n rid w) len) then [pview s] else versions s l)\<rparr>
     | _ \<Rightarrow> let r = do_store op (pview s)
            in s\<lparr>pview := r,
                 versions := (\<lambda>l. if Some l = map_option (line_of n rid) (stored_word op) then r # versions s l else versions s l)\<rparr>)"

definition pm_run :: "nat \<Rightarrow> nat \<Rightarrow> pm_op list \<Rightarrow> pm_state \<Rightarrow> pm_state" where
  "pm_run n rid ops s = fold (pm_step n rid) ops s"

text \<open>The states at which the power can fail: before, between and after the operations.\<close>

fun crash_points :: "nat \<Rightarrow> nat \<Rightarrow> pm_op list \<Rightarrow> pm_state \<Rightarrow> pm_state list" where
  "crash_points n rid [] s = [s]"
| "crash_points n rid (op # ops) s = s # crash_points n rid ops (pm_step n rid op s)"

text \<open>\<open>ColdTier::upsert\<close> as the sequence of its stores and persists.\<close>

definition upsert_ops :: "nat \<Rightarrow> nat \<Rightarrow> nat \<Rightarrow> u64 \<Rightarrow> u64 \<Rightarrow> RegionState \<Rightarrow> pm_op list" where
  "upsert_ops M ov bid kid off r =
    (case chain_walk (chain_fuel r) M r (\<lambda>_. 0) kid bid None of
       WMatch p i \<Rightarrow> [StoreOff p i off, Persist (OffW p i) 8]
     | WMiss (Some (p, i)) _ \<Rightarrow>
         [StoreKey p i kid, StoreOff p i off, Persist (KeyW p i) 16,
          StoreHeader p (header (bucket_at r p) OR push_bit i 1), Persist (HdrW p) 8, StoreCount (num_entries r + 1)]
     | WMiss None tail \<Rightarrow>
         (let new_idx = next_overflow_alloc r + 1; nb = M + new_idx;
              desired = (header (bucket_at (store_header nb 1 r) tail) AND 0x7f) OR push_bit 7 1 OR push_bit 8 (of_nat new_idx)
          in if new_idx > ov then [StoreCursor new_idx, StoreCursor (new_idx - 1)]
             else [StoreCursor new_idx, StoreKey nb 0 kid, StoreOff nb 0 off, Persist (KeyW nb 0) 16,
                   StoreHeader nb 1, Persist (HdrW nb) 8, StoreHeader tail desired, Persist (HdrW tail) 8,
                   StoreCount (num_entries r + 1)])
     | WNoFuel \<Rightarrow> [])"

section \<open>Crash images\<close>

definition region_layout :: "nat \<Rightarrow> nat \<Rightarrow> RegionState \<Rightarrow> bool" where
  "region_layout M ov r \<longleftrightarrow> length (rbuckets r) = M + ov + 1 \<and> (\<forall>p \<le> M + ov. length (entries (bucket_at r p)) = 7)"

fun word_of :: "nat \<Rightarrow> nat \<Rightarrow> cword \<Rightarrow> bool" where
  "word_of M ov (HdrW p) \<longleftrightarrow> p \<le> M + ov"
| "word_of M ov (KeyW p i) \<longleftrightarrow> p \<le> M + ov \<and> i < 7"
| "word_of M ov (OffW p i) \<longleftrightarrow> p \<le> M + ov \<and> i < 7"
| "word_of M ov _ \<longleftrightarrow> True"

text \<open>A region that the power failure may leave: every line is one of its versions.\<close>

definition crash_image :: "nat \<Rightarrow> nat \<Rightarrow> nat \<Rightarrow> pm_state \<Rightarrow> RegionState \<Rightarrow> bool" where
  "crash_image M ov rid s r' \<longleftrightarrow> region_layout M ov r' \<and>
     (\<forall>l. \<exists>v \<in> set (versions s l). \<forall>w. word_of M ov w \<and> line_of (M + ov + 1) rid w = l \<longrightarrow> wval w r' = wval w v)"

text \<open>Everything is durable.\<close>

definition all_durable :: "RegionState \<Rightarrow> pm_state" where
  "all_durable r = \<lparr>pview = r, versions = (\<lambda>_. [r])\<rparr>"

text \<open>Everything is durable but the two counters, which no operation persists.\<close>

definition settled_but_counters :: "nat \<Rightarrow> nat \<Rightarrow> pm_state \<Rightarrow> bool" where
  "settled_but_counters n rid s \<longleftrightarrow> (\<forall>l. versions s l \<noteq> [] \<and>
     (\<forall>w. line_of n rid w = l \<longrightarrow> wval w (hd (versions s l)) = wval w (pview s) \<and>
       (w \<notin> {CountW, CursorW} \<longrightarrow> (\<forall>v \<in> set (versions s l). wval w v = wval w (pview s)))))"

section \<open>Values a word may have\<close>

definition vals :: "nat \<Rightarrow> nat \<Rightarrow> pm_state \<Rightarrow> cword \<Rightarrow> nat set" where
  "vals n rid s w = wval w ` set (versions s (line_of n rid w))"

text \<open>The newest version of a line is what the program sees there.\<close>

definition current :: "nat \<Rightarrow> nat \<Rightarrow> pm_state \<Rightarrow> bool" where
  "current n rid s \<longleftrightarrow> (\<forall>l. versions s l \<noteq> [] \<and> (\<forall>w. line_of n rid w = l \<longrightarrow> wval w (hd (versions s l)) = wval w (pview s)))"

lemma counter_frame [simp]:
  "bucket_at (r\<lparr>num_entries := c\<rparr>) p = bucket_at r p" "hdr_at (r\<lparr>num_entries := c\<rparr>) p = hdr_at r p"
  "key_at (r\<lparr>num_entries := c\<rparr>) p i = key_at r p i" "off_at (r\<lparr>num_entries := c\<rparr>) p i = off_at r p i"
  "num_entries (set_bucket r p b) = num_entries r" "next_overflow_alloc (set_bucket r p b) = next_overflow_alloc r"
  by (simp_all add: acc_defs)

lemma store_frame: "stored_word op \<noteq> Some w \<Longrightarrow> wval w (do_store op r) = wval w r"
  by (cases op; cases w) (auto simp: store_defs nth_list_update list_update_beyond not_less split: if_splits)

lemma flushed_lines_iff: "l \<in> set (flushed_lines a len) \<longleftrightarrow> (\<exists>k. a + 64 * k < a + len \<and> l = (a + 64 * k) div 64)"
  by (simp add: flushed_lines_def pmem_flush_range_def clwb_loop_pending)

lemma flush_own_line: "0 < len \<Longrightarrow> line_of n rid w \<in> set (flushed_lines (word_addr n rid w) len)"
  unfolding flushed_lines_iff line_of_def CACHE_LINE_SIZE_def by (intro exI [of _ 0]) simp

lemma flush_one_line: "0 < len \<Longrightarrow> len \<le> 64 \<Longrightarrow> set (flushed_lines (word_addr n rid w) len) = {line_of n rid w}"
  by (auto simp: flushed_lines_iff line_of_def CACHE_LINE_SIZE_def)

text \<open>The offset word of a slot lies on the line of its key word unless the slot straddles two lines.\<close>

lemma straddle: "line_of n rid (OffW p i) = line_of n rid (KeyW p i) \<longleftrightarrow> (rid + i) mod 4 \<noteq> 2"
proof -
  let ?a = "cold_entry_addr n rid p i"
  have e: "?a mod 64 = (24 + 16 * (rid + i)) mod 64" by (rule cold_entry_addr_mod)
  have "(a + 8) div 64 = a div 64 \<longleftrightarrow> a mod 64 + 8 < 64" for a :: nat
    using div_add1_eq [of a 8 64] by (simp add: div_eq_0_iff)
  moreover have "(24 + 16 * m) mod 64 + 8 < 64 \<longleftrightarrow> m mod 4 \<noteq> 2" for m :: nat
  proof -
    have "24 + 16 * m = 24 + 16 * (m mod 4) + 64 * (m div 4)" using mult_div_mod_eq [of 4 m] by linarith
    then have "(24 + 16 * m) mod 64 = (24 + 16 * (m mod 4)) mod 64" by (metis mod_mult_self2)
    moreover have "m mod 4 \<in> {0, 1, 2, 3}" by (simp; presburger)
    ultimately show ?thesis by auto
  qed
  ultimately show ?thesis by (simp only: line_of_def CACHE_LINE_SIZE_def word_addr.simps e)
qed

declare word_addr.simps [simp del]

lemma pm_step_view [simp]: "pview (pm_step n rid op s) = do_store op (pview s)"
  by (simp add: pm_step_def Let_def split: pm_op.split)

lemma store_versions:
  "stored_word op = Some w0 \<Longrightarrow>
    versions (pm_step n rid op s) l = (if l = line_of n rid w0 then do_store op (pview s) # versions s l else versions s l)"
  by (cases op) (auto simp: pm_step_def Let_def)

lemma current_vals: "current n rid s \<Longrightarrow> wval w (pview s) \<in> vals n rid s w"
  unfolding current_def vals_def by (metis imageI list.set_sel(1))

lemma vals_store:
  assumes "current n rid s" "stored_word op = Some w0"
  shows "vals n rid (pm_step n rid op s) w = (if w = w0 then insert (wval w (do_store op (pview s))) (vals n rid s w) else vals n rid s w)"
proof -
  let ?r = "do_store op (pview s)"
  have "wval w ?r \<in> vals n rid s w" if "w \<noteq> w0"
    using that assms store_frame [of op w "pview s"] current_vals [OF assms(1), of w] by simp
  then show ?thesis unfolding vals_def store_versions [OF assms(2)] by (auto simp: insert_absorb)
qed

lemma vals_stores:
  assumes "current n rid s"
  shows "vals n rid (pm_step n rid (StoreKey p i k) s) w =
      (if w = KeyW p i then insert (wval w (store_key p i k (pview s))) (vals n rid s w) else vals n rid s w)"
    and "vals n rid (pm_step n rid (StoreOff p i v) s) w =
      (if w = OffW p i then insert (wval w (store_off p i v (pview s))) (vals n rid s w) else vals n rid s w)"
    and "vals n rid (pm_step n rid (StoreHeader p h) s) w =
      (if w = HdrW p then insert (wval w (store_header p h (pview s))) (vals n rid s w) else vals n rid s w)"
    and "vals n rid (pm_step n rid (StoreCursor c) s) w =
      (if w = CursorW then insert c (vals n rid s w) else vals n rid s w)"
    and "vals n rid (pm_step n rid (StoreCount c) s) w =
      (if w = CountW then insert c (vals n rid s w) else vals n rid s w)"
  by (simp_all add: vals_store [OF assms stored_word.simps(1)] vals_store [OF assms stored_word.simps(2)]
      vals_store [OF assms stored_word.simps(3)] vals_store [OF assms stored_word.simps(4)] vals_store [OF assms stored_word.simps(5)])

lemma vals_persist:
  "vals n rid (pm_step n rid (Persist w0 len) s) w =
    (if line_of n rid w \<in> set (flushed_lines (word_addr n rid w0) len) then {wval w (pview s)} else vals n rid s w)"
  by (simp add: vals_def pm_step_def)

lemma current_step: "current n rid s \<Longrightarrow> current n rid (pm_step n rid op s)"
proof (cases "stored_word op")
  case None
  then obtain w len where "op = Persist w len" by (cases op) auto
  then show "current n rid s \<Longrightarrow> ?thesis" by (simp add: current_def pm_step_def)
next
  case (Some w0)
  assume "current n rid s"
  then have "wval w (hd (versions (pm_step n rid op s) (line_of n rid w))) = wval w (do_store op (pview s))"
    "versions (pm_step n rid op s) l \<noteq> []" for w l
    using store_frame [of op w "pview s"] Some by (cases "w0 = w"; auto simp: store_versions [OF Some] current_def)+
  then show ?thesis by (simp add: current_def)
qed

lemma settled_start:
  assumes "settled_but_counters n rid s"
  shows "current n rid s" "w \<noteq> CountW \<Longrightarrow> w \<noteq> CursorW \<Longrightarrow> vals n rid s w = {wval w (pview s)}"
proof -
  show c: "current n rid s" using assms by (simp add: settled_but_counters_def current_def)
  show "vals n rid s w = {wval w (pview s)}" if "w \<noteq> CountW" "w \<noteq> CursorW"
    using assms that current_vals [OF c, of w] by (auto simp: settled_but_counters_def vals_def)
qed

lemma image_vals: "crash_image M ov rid s r' \<Longrightarrow> n = M + ov + 1 \<Longrightarrow> word_of M ov w \<Longrightarrow> wval w r' \<in> vals n rid s w"
  unfolding crash_image_def vals_def by (metis image_eqI)

lemma all_durable_settled: "settled_but_counters n rid (all_durable r)"
  by (simp add: settled_but_counters_def all_durable_def)

text \<open>A region is determined by its words.\<close>

lemma region_words_eqI:
  assumes "region_layout M ov a" "region_layout M ov b" "num_entries a = num_entries b" "next_overflow_alloc a = next_overflow_alloc b"
    and "\<And>p. p \<le> M + ov \<Longrightarrow> hdr_at a p = hdr_at b p"
    and "\<And>p i. p \<le> M + ov \<Longrightarrow> i < 7 \<Longrightarrow> key_at a p i = key_at b p i \<and> off_at a p i = off_at b p i"
  shows "a = b"
proof -
  have "bucket_at a p = bucket_at b p" if p: "p \<le> M + ov" for p
  proof -
    have "entries (bucket_at a p) = entries (bucket_at b p)"
      using assms(1,2) assms(6) [OF p] p by (intro nth_equalityI) (auto simp: region_layout_def key_at_def off_at_def)
    then show ?thesis using assms(5) [OF p] by (simp add: hdr_at_def)
  qed
  then have "rbuckets a = rbuckets b" using assms(1,2) by (intro nth_equalityI) (auto simp: region_layout_def bucket_at_def)
  then show ?thesis using assms(3,4) by simp
qed

text \<open>The whole sequence is the operation on the region.\<close>

lemma pm_run_view: "pview (pm_run n rid ops s) = fold do_store ops (pview s)"
  unfolding pm_run_def by (induction ops arbitrary: s) simp_all

lemma header_frame:
  "header (bucket_at (store_off p i v r) q) = header (bucket_at r q)" "header (bucket_at (store_key p i k r) q) = header (bucket_at r q)"
  using hdr_at_simps(1,2) by (simp_all add: hdr_at_def)

lemma store_header_at: "header (bucket_at (store_header p h r) q) = (if p = q \<and> p < length (rbuckets r) then h else header (bucket_at r q))"
  by (simp add: store_header_def bucket_at_set)

lemma upsert_ops_run:
  "pview (pm_run n rid (upsert_ops M ov bid kid off (pview s)) s) = snd (region_upsert M ov bid kid off (pview s))"
  by (simp add: pm_run_view upsert_ops_def region_upsert_def Let_def or_header_def count_entry_def header_frame store_header_at
      split: walk_result.split option.split prod.split)

section \<open>Lines that are never flushed\<close>

lemma current_run: "current n rid s \<Longrightarrow> current n rid (pm_run n rid ops s)"
  unfolding pm_run_def by (induction ops arbitrary: s) (simp_all add: current_step)

lemma never_flushed:
  "r \<in> set (versions s l) \<Longrightarrow> \<forall>w len. Persist w len \<in> set ops \<longrightarrow> l \<notin> set (flushed_lines (word_addr n rid w) len) \<Longrightarrow>
    r \<in> set (versions (pm_run n rid ops s) l)"
  unfolding pm_run_def
proof (induction ops arbitrary: s)
  case (Cons op ops)
  have "r \<in> set (versions (pm_step n rid op s) l)" using Cons.prems by (cases op) (auto simp: pm_step_def Let_def)
  then show ?case using Cons by simp
qed simp

text \<open>The image in which one line is old and all others are current.\<close>

lemma old_line_image:
  assumes "current (M + ov + 1) rid s" "v \<in> set (versions s l)" "region_layout M ov r'"
    and "\<And>w. word_of M ov w \<Longrightarrow> wval w r' = (if line_of (M + ov + 1) rid w = l then wval w v else wval w (pview s))"
  shows "crash_image M ov rid s r'"
  unfolding crash_image_def
proof (intro conjI allI)
  fix k
  show "\<exists>u \<in> set (versions s k). \<forall>w. word_of M ov w \<and> line_of (M + ov + 1) rid w = k \<longrightarrow> wval w r' = wval w u"
  proof (cases "k = l")
    case True
    then show ?thesis using assms(2,4) by auto
  next
    case False
    have "versions s k \<noteq> []" "\<forall>w. line_of (M + ov + 1) rid w = k \<longrightarrow> wval w (hd (versions s k)) = wval w (pview s)"
      using assms(1) unfolding current_def by blast+
    then show ?thesis using assms(4) False by (intro bexI [of _ "hd (versions s k)"]) auto
  qed
qed (rule assms(3))

lemma below_line: "(rid + i) mod 4 = 2 \<Longrightarrow> word_addr n rid w < word_addr n rid (OffW p i) \<Longrightarrow> line_of n rid w \<noteq> line_of n rid (OffW p i)"
proof -
  let ?a = "cold_entry_addr n rid p i"
  assume s: "(rid + i) mod 4 = 2" and less: "word_addr n rid w < word_addr n rid (OffW p i)"
  obtain m where "rid + i = 4 * m + 2" using mult_div_mod_eq [of 4 "rid + i"] s by metis
  then have "24 + 16 * (rid + i) = 56 + 64 * m" by simp
  then have "?a mod 64 = 56" unfolding cold_entry_addr_mod by (simp only: mod_mult_self2) simp
  then have "(?a + 8) mod 64 = 0" using mod_add_left_eq [of ?a 64 8] by simp
  then have "b < ?a + 8 \<Longrightarrow> b div 64 \<noteq> (?a + 8) div 64" for b by (metis less_mult_imp_div_less mod_0_imp_dvd dvd_div_mult_self less_irrefl)
  then show ?thesis using less by (simp add: line_of_def CACHE_LINE_SIZE_def word_addr.simps)
qed

text \<open>The line of the two counters holds no word of a bucket but the first, and not even the header of the
  first bucket when \<open>rid mod 4 = 3\<close>.\<close>

lemma counter_line: "line_of n rid CountW = line_of n rid CursorW"
  "1 \<le> q \<Longrightarrow> line_of n rid (HdrW q) \<noteq> line_of n rid CursorW" "1 \<le> q \<Longrightarrow> line_of n rid (KeyW q i) \<noteq> line_of n rid CursorW"
  "1 \<le> q \<Longrightarrow> line_of n rid (OffW q i) \<noteq> line_of n rid CursorW" "rid mod 4 = 3 \<Longrightarrow> line_of n rid (HdrW 0) \<noteq> line_of n rid CursorW"
proof -
  define b where "b = 256 + rid * (1 + n * 8)"
  have base: "4096 + rid * (16 + n * 128) = 16 * b" by (simp add: b_def algebra_simps)
  have cursor: "line_of n rid CursorW = b div 4" and count: "line_of n rid CountW = b div 4"
    using div_mult2_eq [of "16 * b + 8" 16 4] div_mult2_eq [of "16 * b" 16 4] by (simp_all add: line_of_def word_addr.simps CACHE_LINE_SIZE_def base)
  then show "line_of n rid CountW = line_of n rid CursorW" by simp
  have far: "line_of n rid w \<noteq> b div 4" if "16 * b + 64 \<le> word_addr n rid w" for w
  proof -
    have "(16 * b + 64) div 64 \<le> word_addr n rid w div 64" using that by (rule div_le_mono)
    then show ?thesis using div_mult2_eq [of "16 * b" 16 4] by (simp add: line_of_def CACHE_LINE_SIZE_def)
  qed
  show "1 \<le> q \<Longrightarrow> line_of n rid (HdrW q) \<noteq> line_of n rid CursorW" "1 \<le> q \<Longrightarrow> line_of n rid (KeyW q i) \<noteq> line_of n rid CursorW"
    "1 \<le> q \<Longrightarrow> line_of n rid (OffW q i) \<noteq> line_of n rid CursorW"
    unfolding cursor by (rule far; simp add: word_addr.simps cold_entry_addr_def base)+
  show "rid mod 4 = 3 \<Longrightarrow> line_of n rid (HdrW 0) \<noteq> line_of n rid CursorW"
  proof -
    assume "rid mod 4 = 3"
    then obtain m where "rid = 4 * m + 3" using mult_div_mod_eq [of 4 rid] by metis
    then have "b = 4 * (64 + m * (1 + n * 8) + 6 * n) + 3" by (simp add: b_def algebra_simps)
    then have "b div 4 \<noteq> (b + 1) div 4" by simp
    then show ?thesis unfolding cursor using div_mult2_eq [of "16 * b + 16" 16 4] by (simp add: line_of_def word_addr.simps CACHE_LINE_SIZE_def base)
  qed
qed

end
