(* ===== verification/Cold_Crash.thy ===== *)
theory Cold_Crash
  imports Cold_Persist
begin

text \<open>
  Power failures during an upsert of the cold tier. \<open>Cold_Persist\<close> gives the images a failure between any two
  stores or persists can leave. Here they are classified, and lookups in them are compared with lookups
  before the upsert: other keys are not affected, but the written key may read a stale offset when its slot
  straddles two cache lines, and a lost allocation cursor makes a later upsert overwrite a bucket that is in
  use.
\<close>

section \<open>Regions that look the same\<close>

lemma same_view:
  assumes inv: "region_inv M ov r" and sh': "region_shape M ov r'"
    and al: "next_overflow_alloc r \<le> next_overflow_alloc r'"
    and hdr: "\<And>q. pos_ok M r q \<Longrightarrow> hdr_at r' q = hdr_at r q"
    and ent: "\<And>q i. pos_ok M r q \<Longrightarrow> i < 7 \<Longrightarrow> bit (hdr_at r q) i \<Longrightarrow>
      key_at r' q i = key_at r q i \<and> off_at r' q i = off_at r q i"
    and new: "\<And>q. M + next_overflow_alloc r < q \<Longrightarrow> q \<le> M + next_overflow_alloc r' \<Longrightarrow> next_idx (hdr_at r' q) = 0"
    and zero: "\<And>q. M + next_overflow_alloc r' < q \<Longrightarrow> q \<le> M + ov \<Longrightarrow> hdr_at r' q = 0"
  shows "region_inv M ov r'" and "b < M \<Longrightarrow> region_raw M b k r' = region_raw M b k r"
proof -
  obtain own where links: "links M ov own r" using inv by (auto simp: region_inv_def)
  note sh = region_invD(3) [OF inv]
  have fuel: "chain_fuel r' = chain_fuel r" using sh sh' by (simp add: chain_fuel_def region_shape_def)
  have chain: "chain_of M r' b = chain_of M r b" if "b < M" for b
  proof -
    have "chain (chain_fuel r) M r' b = chain (chain_fuel r) M r b"
      using chain_of_own(1) [OF links that] hdr by (intro chain_cong) (simp add: chain_of_def)
    then show ?thesis by (simp add: chain_of_def fuel)
  qed
  have hk: "holds_key r' k q i \<longleftrightarrow> holds_key r k q i" "holds_key r k q i \<Longrightarrow> off_at r' q i = off_at r q i"
    if "b < M" "q \<in> chain_of M r b" for b k q i
    using chain_of_own(1) [OF links that] hdr ent by (auto simp: has_key_def)
  have un: "uniq r' (chain_of M r' b)" if "b < M" for b
    using region_invD(4) [OF inv that] hk(1) [OF that] by (auto simp: chain [OF that] uniq_def)
  have "links M ov own r'"
    unfolding links_def
  proof (intro conjI allI impI)
    fix p assume "p < M" then show "own p = p" by (rule linksD(1) [OF links])
  next
    fix p assume p: "pos_ok M r' p \<and> next_idx (hdr_at r' p) \<noteq> 0"
    with new [of p] have pr: "pos_ok M r p"
      by (cases "p \<le> M + next_overflow_alloc r") (auto simp: pos_ok_def)
    with p hdr have "next_idx (hdr_at r p) \<noteq> 0" by simp
    from linksD(2) [OF links pr this] hdr [OF pr] al
    show "p < M + next_idx (hdr_at r' p)" "next_idx (hdr_at r' p) \<le> next_overflow_alloc r'"
      "own (M + next_idx (hdr_at r' p)) = own p" by (auto simp: pos_ok_def)
  next
    fix p assume "M + next_overflow_alloc r' < p \<and> p \<le> M + ov"
    then show "hdr_at r' p = 0" using zero by blast
  qed
  then show "region_inv M ov r'" using inv sh' un by (auto simp: region_inv_def)
  assume b: "b < M"
  have "binds r' (chain_of M r' b) k v \<longleftrightarrow> binds r (chain_of M r b) k v" for v
    unfolding binds_def chain [OF b] using hk [OF b] by metis
  then show "region_raw M b k r' = region_raw M b k r"
    by (intro raw_eqI [OF region_invD(4) [OF inv b] un [OF b]])
qed

section \<open>Kinds of crash images\<close>

text \<open>What an image of an interrupted upsert can look like, up to the two counters: nothing happened, the
  words of an unpublished slot are torn, an overflow bucket is written but not linked, or the whole update is
  there.\<close>

text \<open>\<open>old_or_new x y z\<close>: the stored word \<open>z\<close> is the old \<open>x\<close> or the new \<open>y\<close>.\<close>

definition old_or_new :: "u64 \<Rightarrow> u64 \<Rightarrow> u64 \<Rightarrow> bool" where
  "old_or_new x y z \<longleftrightarrow> z = x \<or> z = y"

inductive upsert_crash :: "nat \<Rightarrow> nat \<Rightarrow> nat \<Rightarrow> u64 \<Rightarrow> u64 \<Rightarrow> RegionState \<Rightarrow> RegionState \<Rightarrow> bool"
  for M ov bid kid off r where
  untouched: "upsert_crash M ov bid kid off r r"
| torn_entry: "chain_walk (chain_fuel r) M r (\<lambda>_. 0) kid bid None = WMiss (Some (p, i)) t \<Longrightarrow>
    old_or_new (key_at r p i) kid k' \<Longrightarrow> old_or_new (off_at r p i) off o' \<Longrightarrow>
    upsert_crash M ov bid kid off r (store_off p i o' (store_key p i k' r))"
| unlinked: "chain_walk (chain_fuel r) M r (\<lambda>_. 0) kid bid None = WMiss None t \<Longrightarrow>
    n = next_overflow_alloc r + 1 \<Longrightarrow> n \<le> ov \<Longrightarrow>
    old_or_new (key_at r (M + n) 0) kid k' \<Longrightarrow> old_or_new (off_at r (M + n) 0) off o' \<Longrightarrow>
    h = 0 \<or> (h = 1 \<and> k' = kid \<and> o' = off) \<Longrightarrow>
    upsert_crash M ov bid kid off r
      (store_header (M + n) h (store_off (M + n) 0 o' (store_key (M + n) 0 k' (r\<lparr>next_overflow_alloc := n\<rparr>))))"
| finished: "upsert_crash M ov bid kid off r (snd (region_upsert M ov bid kid off r))"
| counter: "upsert_crash M ov bid kid off r r' \<Longrightarrow>
    upsert_crash M ov bid kid off r (r'\<lparr>num_entries := n\<rparr>)"

lemma counter_view:
  assumes "region_inv M ov r"
  shows "region_inv M ov (r\<lparr>num_entries := n\<rparr>)"
    and "b < M \<Longrightarrow> region_raw M b k (r\<lparr>num_entries := n\<rparr>) = region_raw M b k r"
proof -
  have at: "bucket_at (r\<lparr>num_entries := n\<rparr>) q = bucket_at r q" for q by (simp add: bucket_at_def)
  have "region_shape M ov (r\<lparr>num_entries := n\<rparr>)"
    using region_invD(3) [OF assms] by (simp add: region_shape_def)
  moreover obtain own where "links M ov own r" using assms by (auto simp: region_inv_def)
  ultimately show "region_inv M ov (r\<lparr>num_entries := n\<rparr>)"
    "b < M \<Longrightarrow> region_raw M b k (r\<lparr>num_entries := n\<rparr>) = region_raw M b k r"
    using same_view [OF assms, of "r\<lparr>num_entries := n\<rparr>"] linksD(3) [of M ov own r]
    by (auto simp: hdr_at_def key_at_def off_at_def at)
qed

lemma torn_entry_view:
  assumes inv: "region_inv M ov r" and b: "bid < M"
    and w: "chain_walk (chain_fuel r) M r (\<lambda>_. 0) kid bid None = WMiss (Some (p, i)) t"
  shows "region_inv M ov (store_off p i o' (store_key p i k' r))"
    and "b' < M \<Longrightarrow> region_raw M b' k (store_off p i o' (store_key p i k' r)) = region_raw M b' k r"
proof -
  obtain own where links: "links M ov own r" using inv by (auto simp: region_inv_def)
  note sh = region_invD(3) [OF inv]
  have "ends (chain_fuel r) M r bid"
    by (rule main_ends [OF links sh b]) (use region_invD(5,6) [OF inv] in simp)
  from chain_walk_ok [OF this, of "\<lambda>_. 0" kid None] w
  have p: "p \<in> chain_of M r bid" "i < 7" "\<not> bit (hdr_at r p) i" by (auto simp: walk_ok_def chain_of_def)
  note pr = pos_ok_range [OF sh chain_of_own(1) [OF links b p(1)]]
  let ?r = "store_off p i o' (store_key p i k' r)"
  have "key_at ?r q j = key_at r q j \<and> off_at ?r q j = off_at r q j" if "bit (hdr_at r q) j" for q j
    using that p(2,3) sh pr by (auto simp: store_at [of M ov])
  with same_view [OF inv, of ?r] sh linksD(3) [OF links]
  show "region_inv M ov ?r" "b' < M \<Longrightarrow> region_raw M b' k ?r = region_raw M b' k r" by auto
qed

lemma unlinked_view:
  fixes k' o' h :: u64 and M ov n :: nat and r :: RegionState
  assumes inv: "region_inv M ov r" and n: "n = next_overflow_alloc r + 1" "n \<le> ov" and h: "h = 0 \<or> h = 1"
  defines "r' \<equiv> store_header (M + n) h (store_off (M + n) 0 o' (store_key (M + n) 0 k' (r\<lparr>next_overflow_alloc := n\<rparr>)))"
  shows "region_inv M ov r'" and "b' < M \<Longrightarrow> region_raw M b' k r' = region_raw M b' k r"
proof -
  obtain own where links: "links M ov own r" using inv by (auto simp: region_inv_def)
  have s: "region_shape M ov (r\<lparr>next_overflow_alloc := n\<rparr>)"
    using region_invD(3) [OF inv] n by (simp add: region_shape_alt)
  have nb: "M + n \<le> M + ov" using n by simp
  have hdr: "hdr_at r' q = (if q = M + n then h else hdr_at r q)" for q
    using s nb by (simp add: r'_def store_at [of M ov])
  have far: "pos_ok M r q \<Longrightarrow> q \<noteq> M + n" for q using n by (auto simp: pos_ok_def)
  have ent: "q \<noteq> M + n \<Longrightarrow> key_at r' q i = key_at r q i \<and> off_at r' q i = off_at r q i" for q i
    using s nb by (simp add: r'_def store_at [of M ov])
  have "next_idx h = 0" using h by (auto simp: next_idx_def)
  moreover have "region_shape M ov r'" "next_overflow_alloc r' = n" using s by (simp_all add: r'_def)
  moreover have "hdr_at r q = 0" if "M + n < q" "q \<le> M + ov" for q using linksD(3) [OF links, of q] that n by simp
  ultimately show "region_inv M ov r'" "b' < M \<Longrightarrow> region_raw M b' k r' = region_raw M b' k r"
    using same_view [OF inv, of r'] n far ent by (auto simp: hdr)
qed

lemma upsert_crash_effect:
  assumes "upsert_crash M ov bid kid off r r'" "region_inv M ov r" "bid < M"
  shows "region_inv M ov r' \<and> (\<forall>b' < M. \<forall>k. region_raw M b' k r' = region_raw M b' k r
    \<or> (b' = bid \<and> k = kid \<and> region_raw M b' k r' = Some off))"
  using assms
proof (induction rule: upsert_crash.induct)
  case finished
  with region_upsert_cases [OF finished.prems, of kid off] show ?case by (auto simp: writes_def split: if_splits)
next
  case (torn_entry p i t k' o')
  with torn_entry_view [OF torn_entry.prems torn_entry.hyps(1)] show ?case by auto
next
  case (unlinked t n k' o' h)
  with unlinked_view [OF unlinked.prems(1) unlinked.hyps(2,3), of h] show ?case by auto
next
  case (counter r' n)
  then have IH: "region_inv M ov r'" by simp
  from counter counter_view [OF IH] show ?case by auto
qed simp

section \<open>From images to kinds\<close>

text \<open>The slot that the upsert of an absent key fills.\<close>

definition new_slot :: "nat \<Rightarrow> nat \<Rightarrow> nat \<Rightarrow> u64 \<Rightarrow> RegionState \<Rightarrow> (nat \<times> nat) option" where
  "new_slot M ov bid kid r =
    (case chain_walk (chain_fuel r) M r (\<lambda>_. 0) kid bid None of
       WMiss (Some pi) _ \<Rightarrow> Some pi
     | WMiss None _ \<Rightarrow> if next_overflow_alloc r < ov then Some (M + (next_overflow_alloc r + 1), 0) else None
     | _ \<Rightarrow> None)"

lemma untouched_word:
  assumes "current n rid s" "vals n rid s w = {wval w (pview s)}" "\<forall>op \<in> set ops. stored_word op \<noteq> Some w" "s' \<in> set (crash_points n rid ops s)"
  shows "vals n rid s' w = {wval w (pview s)}"
  using assms
proof (induction ops arbitrary: s)
  case (Cons op ops)
  have frame: "wval w (do_store op (pview s)) = wval w (pview s)" using Cons.prems(3) store_frame by simp
  have "vals n rid (pm_step n rid op s) w = {wval w (pview s)}"
  proof (cases "stored_word op")
    case None
    then obtain w0 len where "op = Persist w0 len" by (cases op) auto
    then show ?thesis using Cons.prems(2) by (simp add: vals_persist)
  next
    case (Some w0)
    then show ?thesis using Cons.prems(2,3) vals_store [OF Cons.prems(1) Some, of w] by auto
  qed
  then show ?case using Cons.IH [OF current_step [OF Cons.prems(1), of op]] Cons.prems frame by auto
qed simp

lemma image_word:
  assumes "settled_but_counters n rid s" "s' \<in> set (crash_points n rid ops s)" "crash_image M ov rid s' r'" "n = M + ov + 1"
    and "word_of M ov w" "w \<noteq> CountW" "w \<noteq> CursorW" "\<forall>op \<in> set ops. stored_word op \<noteq> Some w"
  shows "wval w r' = wval w (pview s)"
  using untouched_word [OF settled_start(1) [OF assms(1)] settled_start(2) [OF assms(1,6,7)] assms(8,2)] image_vals [OF assms(3,4,5)] by simp

text \<open>An image that agrees with a region on all its buckets is that region up to the counters.\<close>

lemma image_eq:
  assumes "region_layout M ov r'" "region_shape M ov R"
    and "\<And>q. q \<le> M + ov \<Longrightarrow> hdr_at r' q = hdr_at R q"
    and "\<And>q i. q \<le> M + ov \<Longrightarrow> i < 7 \<Longrightarrow> key_at r' q i = key_at R q i"
    and "\<And>q i. q \<le> M + ov \<Longrightarrow> i < 7 \<Longrightarrow> off_at r' q i = off_at R q i"
  shows "r'\<lparr>next_overflow_alloc := next_overflow_alloc R, num_entries := num_entries R\<rparr> = R"
  by (rule region_words_eqI [of M ov]) (use assms in \<open>auto simp: region_layout_def region_shape_alt\<close>)

text \<open>The persist of an entry covers its key, and its offset too unless the slot straddles two lines.\<close>

lemma vals_persist_entry:
  "vals n rid (pm_step n rid (Persist (KeyW p i) 16) s) (KeyW p i) = {wval (KeyW p i) (pview s)}"
  "(rid + i) mod 4 \<noteq> 2 \<Longrightarrow> vals n rid (pm_step n rid (Persist (KeyW p i) 16) s) (OffW p i) = {wval (OffW p i) (pview s)}"
  "vals n rid (pm_step n rid (Persist w 8) s) w = {wval w (pview s)}"
  using straddle [of n rid p i] by (simp_all add: vals_persist flush_one_line)

lemma vals_persist_less: "current n rid s \<Longrightarrow> vals n rid (pm_step n rid (Persist w0 len) s) w \<subseteq> vals n rid s w"
  using current_vals [of n rid s w] by (auto simp: vals_persist)

lemma word_among:
  "unat x \<in> V \<Longrightarrow> V \<subseteq> {unat a, unat b} \<Longrightarrow> old_or_new a b x" "unat x \<in> V \<Longrightarrow> V \<subseteq> {unat a} \<Longrightarrow> x = a"
  "unat x \<in> V \<Longrightarrow> V \<subseteq> (if c then {unat a, unat b} else {unat b}) \<Longrightarrow> x = b \<or> c \<and> x = a" for x a b :: u64
  by (auto simp: old_or_new_def word_unat_eq_iff split: if_splits)

lemma match_image:
  assumes sh: "region_shape M ov (pview s)" and st: "settled_but_counters n rid s" and p: "p \<le> M + ov" "i < 7"
    and cp: "s' \<in> set (crash_points n rid [StoreOff p i off, Persist (OffW p i) 8] s)" and im: "crash_image M ov rid s' r'" "n = M + ov + 1"
  shows "old_or_new (off_at (pview s) p i) off (off_at r' p i)"
proof -
  let ?w = "OffW p i"
  note S = settled_start [OF st]
  have v: "vals n rid s ?w = {unat (off_at (pview s) p i)}" using S(2) [of ?w] by simp
  define s1 where "s1 = pm_step n rid (StoreOff p i off) s"
  have v1: "vals n rid s1 ?w = {unat off, unat (off_at (pview s) p i)}"
    unfolding s1_def vals_stores [OF S(1)] using v sh p by (simp add: store_at [of M ov])
  have "current n rid s1" using S(1) by (simp add: s1_def current_step)
  from vals_persist_less [OF this, of ?w 8 ?w] have "vals n rid s' ?w \<subseteq> {unat (off_at (pview s) p i), unat off}"
    using cp v v1 by (auto simp: s1_def [symmetric])
  moreover have "unat (off_at r' p i) \<in> vals n rid s' ?w" using image_vals [OF im, of ?w] p by simp
  ultimately show ?thesis by (intro word_among(1))
qed

text \<open>The words of a claimed slot, by the moment of the failure.\<close>

lemma claim_image:
  assumes sh: "region_shape M ov (pview s)" and st: "settled_but_counters n rid s" and p: "p \<le> M + ov" "i < 7"
    and cp: "s' \<in> set (crash_points n rid [StoreKey p i kid, StoreOff p i off, Persist (KeyW p i) 16, StoreHeader p h,
      Persist (HdrW p) 8, StoreCount c] s)" and im: "crash_image M ov rid s' r'" "n = M + ov + 1"
  shows "hdr_at r' p = hdr_at (pview s) p \<and> old_or_new (key_at (pview s) p i) kid (key_at r' p i) \<and> old_or_new (off_at (pview s) p i) off (off_at r' p i)
    \<or> old_or_new (hdr_at (pview s) p) h (hdr_at r' p) \<and> key_at r' p i = kid \<and> (off_at r' p i = off \<or> (rid + i) mod 4 = 2 \<and> off_at r' p i = off_at (pview s) p i)"
proof -
  let ?K = "KeyW p i" and ?O = "OffW p i" and ?H = "HdrW p"
  let ?k = "unat (key_at (pview s) p i)" and ?o = "unat (off_at (pview s) p i)" and ?h = "unat (hdr_at (pview s) p)"
  let ?os = "if (rid + i) mod 4 = 2 then {?o, unat off} else {unat off}"
  note S = settled_start [OF st]
  define s1 where "s1 = pm_step n rid (StoreKey p i kid) s"
  define s2 where "s2 = pm_step n rid (StoreOff p i off) s1"
  define s3 where "s3 = pm_step n rid (Persist ?K 16) s2"
  define s4 where "s4 = pm_step n rid (StoreHeader p h) s3"
  define s5 where "s5 = pm_step n rid (Persist ?H 8) s4"
  define s6 where "s6 = pm_step n rid (StoreCount c) s5"
  have cur: "current n rid s" "current n rid s1" "current n rid s2" "current n rid s3" "current n rid s4" "current n rid s5"
    using S(1) by (simp_all add: s1_def s2_def s3_def s4_def s5_def current_step)
  have r: "wval ?K (pview s2) = unat kid" "wval ?O (pview s2) = unat off" "wval ?H (pview s2) = ?h"
    "wval ?K (pview s4) = unat kid" "wval ?O (pview s4) = unat off" "wval ?H (pview s4) = unat h"
    using sh p by (simp_all add: s1_def s2_def s3_def s4_def store_at [of M ov])
  have v0: "vals n rid s ?K = {?k}" "vals n rid s ?O = {?o}" "vals n rid s ?H = {?h}" using S(2) by auto
  have v1: "vals n rid s1 ?K = {?k, unat kid}" "vals n rid s1 ?O = {?o}" "vals n rid s1 ?H = {?h}"
    unfolding s1_def vals_stores [OF cur(1)] using v0 sh p by (auto simp: store_at [of M ov])
  have v2: "vals n rid s2 ?K = {?k, unat kid}" "vals n rid s2 ?O = {?o, unat off}" "vals n rid s2 ?H = {?h}"
    unfolding s2_def vals_stores [OF cur(2)] using v1 r(2) by (auto simp: s2_def)
  have v3: "vals n rid s3 ?K = {unat kid}" "vals n rid s3 ?O \<subseteq> ?os" "vals n rid s3 ?H = {?h}"
  proof -
    show "vals n rid s3 ?K = {unat kid}" unfolding s3_def vals_persist_entry by (rule arg_cong [OF r(1)])
    show "vals n rid s3 ?H = {?h}" unfolding s3_def vals_persist using v2(3) r(3) by simp
    show "vals n rid s3 ?O \<subseteq> ?os"
      using v2(2) r(2) vals_persist_less [OF cur(3), of ?K 16 ?O] vals_persist_entry(2) [of rid i n p s2] unfolding s3_def by auto
  qed
  have v4: "vals n rid s4 ?K = {unat kid}" "vals n rid s4 ?O \<subseteq> ?os" "vals n rid s4 ?H = {?h, unat h}"
    unfolding s4_def vals_stores [OF cur(4)] using v3 r(6) by (auto simp: s4_def)
  have v5: "vals n rid s5 ?K = {unat kid}" "vals n rid s5 ?O \<subseteq> ?os" "vals n rid s5 ?H = {unat h}"
  proof -
    show "vals n rid s5 ?K = {unat kid}" unfolding s5_def vals_persist using v4(1) r(4) by simp
    show "vals n rid s5 ?H = {unat h}" unfolding s5_def vals_persist_entry by (rule arg_cong [OF r(6)])
    show "vals n rid s5 ?O \<subseteq> ?os" using v4(2) vals_persist_less [OF cur(5), of ?H 8 ?O] unfolding s5_def by blast
  qed
  have v6: "vals n rid s6 w = vals n rid s5 w" if "w \<noteq> CountW" for w unfolding s6_def vals_stores [OF cur(6)] using that by simp
  have K: "unat (key_at r' p i) \<in> vals n rid s' ?K" and O: "unat (off_at r' p i) \<in> vals n rid s' ?O" and H: "unat (hdr_at r' p) \<in> vals n rid s' ?H"
    using image_vals [OF im, of ?K] image_vals [OF im, of ?O] image_vals [OF im, of ?H] p by simp_all
  have "s' \<in> {s, s1, s2} \<union> {s3, s4, s5, s6}" using cp by (simp add: s1_def s2_def s3_def s4_def s5_def s6_def) blast
  then show ?thesis
  proof
    assume "s' \<in> {s, s1, s2}"
    then have "vals n rid s' ?K \<subseteq> {?k, unat kid}" "vals n rid s' ?O \<subseteq> {?o, unat off}" "vals n rid s' ?H \<subseteq> {?h}"
      using v0 v1 v2 by auto
    from word_among(1) [OF K this(1)] word_among(1) [OF O this(2)] word_among(2) [OF H this(3)] show ?thesis by simp
  next
    assume "s' \<in> {s3, s4, s5, s6}"
    then have V: "vals n rid s' ?K \<subseteq> {unat kid}" "vals n rid s' ?O \<subseteq> ?os" "vals n rid s' ?H \<subseteq> {?h, unat h}"
      using v3 v4 v5 v6 by auto
    show ?thesis using word_among(3) [OF O V(2)] word_among(2) [OF K V(1)] word_among(1) [OF H V(3)] by simp
  qed
qed

text \<open>The words of a new overflow bucket and of the header it is linked from.\<close>

lemma extend_image:
  assumes sh: "region_shape M ov (pview s)" and st: "settled_but_counters n rid s" and p: "p \<le> M + ov" and t: "t \<le> M + ov" "t \<noteq> p"
    and c: "c \<le> ov" and cp: "s' \<in> set (crash_points n rid [StoreCursor c, StoreKey p 0 kid, StoreOff p 0 off, Persist (KeyW p 0) 16,
      StoreHeader p 1, Persist (HdrW p) 8, StoreHeader t h, Persist (HdrW t) 8, StoreCount d] s)"
    and im: "crash_image M ov rid s' r'" "n = M + ov + 1"
  shows "hdr_at r' t = hdr_at (pview s) t \<and> hdr_at r' p = hdr_at (pview s) p \<and> old_or_new (key_at (pview s) p 0) kid (key_at r' p 0)
        \<and> old_or_new (off_at (pview s) p 0) off (off_at r' p 0)
    \<or> key_at r' p 0 = kid \<and> (off_at r' p 0 = off \<or> rid mod 4 = 2 \<and> off_at r' p 0 = off_at (pview s) p 0)
        \<and> (hdr_at r' t = hdr_at (pview s) t \<and> old_or_new (hdr_at (pview s) p) 1 (hdr_at r' p)
          \<or> hdr_at r' p = 1 \<and> old_or_new (hdr_at (pview s) t) h (hdr_at r' t))"
proof -
  let ?K = "KeyW p 0" and ?O = "OffW p 0" and ?H = "HdrW p" and ?T = "HdrW t"
  let ?k = "unat (key_at (pview s) p 0)" and ?o = "unat (off_at (pview s) p 0)" and ?h = "unat (hdr_at (pview s) p)" and ?t = "unat (hdr_at (pview s) t)"
  let ?os = "if rid mod 4 = 2 then {?o, unat off} else {unat off}"
  note S = settled_start [OF st]
  define s1 where "s1 = pm_step n rid (StoreCursor c) s"
  define s2 where "s2 = pm_step n rid (StoreKey p 0 kid) s1"
  define s3 where "s3 = pm_step n rid (StoreOff p 0 off) s2"
  define s4 where "s4 = pm_step n rid (Persist ?K 16) s3"
  define s5 where "s5 = pm_step n rid (StoreHeader p 1) s4"
  define s6 where "s6 = pm_step n rid (Persist ?H 8) s5"
  define s7 where "s7 = pm_step n rid (StoreHeader t h) s6"
  define s8 where "s8 = pm_step n rid (Persist ?T 8) s7"
  define s9 where "s9 = pm_step n rid (StoreCount d) s8"
  note defs = s1_def s2_def s3_def s4_def s5_def s6_def s7_def s8_def
  have cur: "current n rid s" "current n rid s1" "current n rid s2" "current n rid s3" "current n rid s4" "current n rid s5"
    "current n rid s6" "current n rid s7" "current n rid s8"
    using S(1) by (simp_all add: defs current_step)
  have sh1: "region_shape M ov ((pview s)\<lparr>next_overflow_alloc := c\<rparr>)" using sh c by (simp add: region_shape_alt)
  have r: "wval ?K (pview s3) = unat kid" "wval ?O (pview s3) = unat off" "wval ?H (pview s3) = ?h" "wval ?T (pview s3) = ?t"
    "wval ?K (pview s5) = unat kid" "wval ?H (pview s5) = 1" "wval ?T (pview s5) = ?t"
    "wval ?K (pview s7) = unat kid" "wval ?H (pview s7) = 1" "wval ?T (pview s7) = unat h"
    using sh1 p t by (simp_all add: defs store_at [of M ov])
  have v0: "vals n rid s ?K = {?k}" "vals n rid s ?O = {?o}" "vals n rid s ?H = {?h}" "vals n rid s ?T = {?t}" using S(2) by auto
  have v1: "vals n rid s1 w = vals n rid s w" if "w \<noteq> CursorW" for w unfolding s1_def vals_stores [OF cur(1)] using that by simp
  have v2: "vals n rid s2 ?K = {?k, unat kid}" "vals n rid s2 ?O = {?o}" "vals n rid s2 ?H = {?h}" "vals n rid s2 ?T = {?t}"
    unfolding s2_def vals_stores [OF cur(2)] using v0 v1 sh1 p by (auto simp: s1_def store_at [of M ov])
  have v3: "vals n rid s3 ?K = {?k, unat kid}" "vals n rid s3 ?O = {?o, unat off}" "vals n rid s3 ?H = {?h}" "vals n rid s3 ?T = {?t}"
    unfolding s3_def vals_stores [OF cur(3)] using v2 r(2) by (auto simp: s3_def)
  have v4: "vals n rid s4 ?K = {unat kid}" "vals n rid s4 ?O \<subseteq> ?os" "vals n rid s4 ?H = {?h}" "vals n rid s4 ?T = {?t}"
  proof -
    show "vals n rid s4 ?K = {unat kid}" unfolding s4_def vals_persist_entry by (rule arg_cong [OF r(1)])
    show "vals n rid s4 ?H = {?h}" "vals n rid s4 ?T = {?t}" unfolding s4_def vals_persist using v3(3,4) r(3,4) by simp_all
    show "vals n rid s4 ?O \<subseteq> ?os"
      using v3(2) r(2) vals_persist_less [OF cur(4), of ?K 16 ?O] vals_persist_entry(2) [of rid 0 n p s3] unfolding s4_def by auto
  qed
  have v5: "vals n rid s5 ?K = {unat kid}" "vals n rid s5 ?O \<subseteq> ?os" "vals n rid s5 ?H = {?h, 1}" "vals n rid s5 ?T = {?t}"
    unfolding s5_def vals_stores [OF cur(5)] using v4 t r(6) by (auto simp: s5_def)
  have v6: "vals n rid s6 ?K = {unat kid}" "vals n rid s6 ?O \<subseteq> ?os" "vals n rid s6 ?H = {1}" "vals n rid s6 ?T = {?t}"
  proof -
    show "vals n rid s6 ?K = {unat kid}" "vals n rid s6 ?T = {?t}" unfolding s6_def vals_persist using v5(1,4) r(5,7) by simp_all
    show "vals n rid s6 ?H = {1}" unfolding s6_def vals_persist_entry by (rule arg_cong [OF r(6)])
    show "vals n rid s6 ?O \<subseteq> ?os" using v5(2) vals_persist_less [OF cur(6), of ?H 8 ?O] unfolding s6_def by blast
  qed
  have v7: "vals n rid s7 ?K = {unat kid}" "vals n rid s7 ?O \<subseteq> ?os" "vals n rid s7 ?H = {1}" "vals n rid s7 ?T = {?t, unat h}"
    unfolding s7_def vals_stores [OF cur(7)] using v6 t r(10) by (auto simp: s7_def)
  have v8: "vals n rid s8 ?K = {unat kid}" "vals n rid s8 ?O \<subseteq> ?os" "vals n rid s8 ?H = {1}" "vals n rid s8 ?T = {unat h}"
  proof -
    show "vals n rid s8 ?K = {unat kid}" "vals n rid s8 ?H = {1}" unfolding s8_def vals_persist using v7(1,3) r(8,9) by simp_all
    show "vals n rid s8 ?T = {unat h}" unfolding s8_def vals_persist_entry by (rule arg_cong [OF r(10)])
    show "vals n rid s8 ?O \<subseteq> ?os" using v7(2) vals_persist_less [OF cur(8), of ?T 8 ?O] unfolding s8_def by blast
  qed
  have v9: "vals n rid s9 w = vals n rid s8 w" if "w \<noteq> CountW" for w unfolding s9_def vals_stores [OF cur(9)] using that by simp
  have K: "unat (key_at r' p 0) \<in> vals n rid s' ?K" and O: "unat (off_at r' p 0) \<in> vals n rid s' ?O" and H: "unat (hdr_at r' p) \<in> vals n rid s' ?H"
    and T: "unat (hdr_at r' t) \<in> vals n rid s' ?T"
    using image_vals [OF im, of ?K] image_vals [OF im, of ?O] image_vals [OF im, of ?H] image_vals [OF im, of ?T] p t by simp_all
  have "s' \<in> {s, s1, s2, s3} \<or> s' \<in> {s4, s5, s6} \<or> s' \<in> {s7, s8, s9}" using cp by (simp add: defs s9_def)
  then show ?thesis
  proof (elim disjE)
    assume "s' \<in> {s, s1, s2, s3}"
    then have "vals n rid s' ?K \<subseteq> {?k, unat kid}" "vals n rid s' ?O \<subseteq> {?o, unat off}" "vals n rid s' ?H \<subseteq> {?h}" "vals n rid s' ?T \<subseteq> {?t}"
      using v0 v1 v2 v3 by auto
    from word_among(1) [OF K this(1)] word_among(1) [OF O this(2)] word_among(2) [OF H this(3)] word_among(2) [OF T this(4)]
    show ?thesis by simp
  next
    assume "s' \<in> {s4, s5, s6}"
    then have V: "vals n rid s' ?K \<subseteq> {unat kid}" "vals n rid s' ?O \<subseteq> ?os" "vals n rid s' ?H \<subseteq> {?h, unat (1 :: u64)}" "vals n rid s' ?T \<subseteq> {?t}"
      using v4 v5 v6 by auto
    show ?thesis using word_among(3) [OF O V(2)] word_among(2) [OF K V(1)] word_among(1) [OF H V(3)] word_among(2) [OF T V(4)] by simp
  next
    assume "s' \<in> {s7, s8, s9}"
    then have V: "vals n rid s' ?K \<subseteq> {unat kid}" "vals n rid s' ?O \<subseteq> ?os" "vals n rid s' ?H \<subseteq> {unat (1 :: u64)}" "vals n rid s' ?T \<subseteq> {?t, unat h}"
      using v7 v8 v9 by auto
    show ?thesis using word_among(3) [OF O V(2)] word_among(2) [OF K V(1)] word_among(2) [OF H V(3)] word_among(1) [OF T V(4)] by simp
  qed
qed

text \<open>Every image of an interrupted upsert is of one of the kinds, up to the two counters and with the written
  offset or, for a straddling slot, the residue that was there.\<close>

abbreviation upsert_kind :: "nat \<Rightarrow> nat \<Rightarrow> nat \<Rightarrow> nat \<Rightarrow> u64 \<Rightarrow> u64 \<Rightarrow> RegionState \<Rightarrow> RegionState \<Rightarrow> bool" where
  "upsert_kind M ov rid bid kid off r r' \<equiv> \<exists>o' c d. upsert_crash M ov bid kid o' r (r'\<lparr>next_overflow_alloc := c, num_entries := d\<rparr>)
     \<and> (o' = off \<or> (\<exists>p i. new_slot M ov bid kid r = Some (p, i) \<and> (rid + i) mod 4 = 2 \<and> o' = off_at r p i))"

lemma upsert_kindI:
  assumes "region_layout M ov r'" "region_shape M ov R" "upsert_crash M ov bid kid o' r R"
    and "o' = off \<or> (\<exists>p i. new_slot M ov bid kid r = Some (p, i) \<and> (rid + i) mod 4 = 2 \<and> o' = off_at r p i)"
    and "\<And>q. q \<le> M + ov \<Longrightarrow> hdr_at r' q = hdr_at R q"
    and "\<And>q i. q \<le> M + ov \<Longrightarrow> i < 7 \<Longrightarrow> key_at r' q i = key_at R q i"
    and "\<And>q i. q \<le> M + ov \<Longrightarrow> i < 7 \<Longrightarrow> off_at r' q i = off_at R q i"
  shows "upsert_kind M ov rid bid kid off r r'"
  using assms(3,4) image_eq [OF assms(1,2,5,6,7)] by metis

lemma claim_kind:
  assumes sh: "region_shape M ov r" and lay: "region_layout M ov r'" and p: "p \<le> M + ov" "i < 7"
    and w: "chain_walk (chain_fuel r) M r (\<lambda>_. 0) kid bid None = WMiss (Some (p, i)) t"
    and other: "\<And>q. q \<le> M + ov \<Longrightarrow> q \<noteq> p \<Longrightarrow> hdr_at r' q = hdr_at r q"
      "\<And>q j. q \<le> M + ov \<Longrightarrow> j < 7 \<Longrightarrow> (q, j) \<noteq> (p, i) \<Longrightarrow> key_at r' q j = key_at r q j \<and> off_at r' q j = off_at r q j"
    and here: "hdr_at r' p = hdr_at r p \<and> old_or_new (key_at r p i) kid (key_at r' p i) \<and> old_or_new (off_at r p i) off (off_at r' p i)
      \<or> old_or_new (hdr_at r p) (hdr_at r p OR push_bit i 1) (hdr_at r' p) \<and> key_at r' p i = kid \<and> (off_at r' p i = off \<or> (rid + i) mod 4 = 2 \<and> off_at r' p i = off_at r p i)"
  shows "upsert_kind M ov rid bid kid off r r'"
proof -
  let ?k = "key_at r' p i" and ?o = "off_at r' p i"
  let ?R = "store_off p i ?o (store_key p i ?k r)"
  have ns: "new_slot M ov bid kid r = Some (p, i)" using w by (simp add: new_slot_def)
  have ents: "key_at r' q j = key_at ?R q j" "off_at r' q j = off_at ?R q j" if "q \<le> M + ov" "j < 7" for q j
    using other(2) [OF that] sh p by (auto simp: store_at [of M ov])
  have unpublished: ?thesis
    if "hdr_at r' p = hdr_at r p" "old_or_new (key_at r p i) kid ?k" "old_or_new (off_at r p i) x ?o" "x = off \<or> (rid + i) mod 4 = 2 \<and> x = off_at r p i" for x
  proof (rule upsert_kindI [OF lay])
    show "upsert_crash M ov bid kid x r ?R" by (rule upsert_crash.torn_entry [OF w that(2,3)])
    show "hdr_at r' q = hdr_at ?R q" if "q \<le> M + ov" for q using other(1) that \<open>hdr_at r' p = hdr_at r p\<close> by (cases "q = p") auto
  qed (use sh ns that(4) ents in auto)
  have published: ?thesis
    if "hdr_at r' p = hdr_at r p OR push_bit i 1" "?k = kid" "?o = off \<or> (rid + i) mod 4 = 2 \<and> ?o = off_at r p i"
  proof (rule upsert_kindI [OF lay])
    let ?R' = "count_entry (or_header p (push_bit i 1) ?R)"
    have "snd (region_upsert M ov bid kid ?o r) = ?R'" using w that(2) by (simp add: region_upsert_def Let_def)
    then show "upsert_crash M ov bid kid ?o r ?R'" using upsert_crash.finished [of M ov bid kid ?o r] by simp
    show "hdr_at r' q = hdr_at ?R' q" if "q \<le> M + ov" for q
      using other(1) that \<open>hdr_at r' p = hdr_at r p OR push_bit i 1\<close> sh p by (cases "q = p") (simp_all add: store_at [of M ov])
    show "?o = off \<or> (\<exists>p' i'. new_slot M ov bid kid r = Some (p', i') \<and> (rid + i') mod 4 = 2 \<and> ?o = off_at r p' i')"
      using ns that(3) by auto
  qed (use sh ents in auto)
  from here show ?thesis
  proof (elim disjE conjE)
    assume "hdr_at r' p = hdr_at r p" "old_or_new (key_at r p i) kid ?k" "old_or_new (off_at r p i) off ?o"
    then show ?thesis using unpublished [of off] by simp
  next
    assume "old_or_new (hdr_at r p) (hdr_at r p OR push_bit i 1) (hdr_at r' p)" "?k = kid" "?o = off"
    then show ?thesis using unpublished [of off] published by (auto simp: old_or_new_def)
  next
    assume "old_or_new (hdr_at r p) (hdr_at r p OR push_bit i 1) (hdr_at r' p)" "?k = kid" "(rid + i) mod 4 = 2" "?o = off_at r p i"
    then show ?thesis using unpublished [of "off_at r p i"] published by (auto simp: old_or_new_def)
  qed
qed

lemma extend_kind:
  fixes M r defines "n \<equiv> next_overflow_alloc r + 1" and "nb \<equiv> M + (next_overflow_alloc r + 1)"
  assumes sh: "region_shape M ov r" and lay: "region_layout M ov r'" and n: "n \<le> ov" and t: "t \<le> M + next_overflow_alloc r"
    and zero: "hdr_at r nb = 0" and w: "chain_walk (chain_fuel r) M r (\<lambda>_. 0) kid bid None = WMiss None t"
    and other: "\<And>q. q \<le> M + ov \<Longrightarrow> q \<noteq> nb \<Longrightarrow> q \<noteq> t \<Longrightarrow> hdr_at r' q = hdr_at r q"
      "\<And>q j. q \<le> M + ov \<Longrightarrow> j < 7 \<Longrightarrow> (q, j) \<noteq> (nb, 0) \<Longrightarrow> key_at r' q j = key_at r q j \<and> off_at r' q j = off_at r q j"
    and here: "hdr_at r' t = hdr_at r t \<and> hdr_at r' nb = hdr_at r nb \<and> old_or_new (key_at r nb 0) kid (key_at r' nb 0) \<and> old_or_new (off_at r nb 0) off (off_at r' nb 0)
      \<or> key_at r' nb 0 = kid \<and> (off_at r' nb 0 = off \<or> rid mod 4 = 2 \<and> off_at r' nb 0 = off_at r nb 0)
        \<and> (hdr_at r' t = hdr_at r t \<and> old_or_new (hdr_at r nb) 1 (hdr_at r' nb)
          \<or> hdr_at r' nb = 1 \<and> old_or_new (hdr_at r t) (attached (hdr_at r t) n) (hdr_at r' t))"
  shows "upsert_kind M ov rid bid kid off r r'"
proof -
  let ?k = "key_at r' nb 0" and ?o = "off_at r' nb 0"
  let ?r = "r\<lparr>next_overflow_alloc := n\<rparr>"
  let ?R = "\<lambda>h. store_header nb h (store_off nb 0 ?o (store_key nb 0 ?k ?r))"
  have s: "region_shape M ov ?r" using sh n by (simp add: region_shape_alt)
  have nb: "nb \<le> M + ov" "t \<noteq> nb" and nbn: "nb = M + n" using n t by (simp_all add: n_def nb_def)
  have ns: "new_slot M ov bid kid r = Some (nb, 0)" using w n by (simp add: new_slot_def nb_def n_def)
  have unlinked: ?thesis
    if "hdr_at r' t = hdr_at r t" "old_or_new (key_at r nb 0) kid ?k" "old_or_new (off_at r nb 0) x ?o"
      "hdr_at r' nb = 0 \<or> (hdr_at r' nb = 1 \<and> ?k = kid \<and> ?o = x)" "x = off \<or> rid mod 4 = 2 \<and> x = off_at r nb 0" for x
  proof (rule upsert_kindI [OF lay])
    show "upsert_crash M ov bid kid x r (?R (hdr_at r' nb))"
      unfolding nbn by (rule upsert_crash.unlinked [OF w meta_eq_to_obj_eq [OF n_def] n]) (use that(2-4) in \<open>simp_all add: nbn\<close>)
    show "hdr_at r' q = hdr_at (?R (hdr_at r' nb)) q" if "q \<le> M + ov" for q
      using other(1) that \<open>hdr_at r' t = hdr_at r t\<close> s nb by (cases "q = t") (auto simp: store_at [of M ov])
    show "x = off \<or> (\<exists>p i. new_slot M ov bid kid r = Some (p, i) \<and> (rid + i) mod 4 = 2 \<and> x = off_at r p i)" using that(5) ns by auto
  qed (use s nb other(2) in \<open>auto simp: store_at [of M ov]\<close>)
  have linked: ?thesis
    if "hdr_at r' nb = 1" "hdr_at r' t = attached (hdr_at r t) n" "?k = kid" "?o = off \<or> rid mod 4 = 2 \<and> ?o = off_at r nb 0"
  proof (rule upsert_kindI [OF lay])
    let ?R' = "extend_chain M t kid ?o r"
    note at = extend_chain_at [OF sh _ t, where k = kid and v = ?o, folded nb_def n_def]
    have "snd (region_upsert M ov bid kid ?o r) = ?R'"
      using w n by (simp add: region_upsert_def extend_chain_def attached_def hdr_at_def Let_def n_def)
    then show "upsert_crash M ov bid kid ?o r ?R'" using upsert_crash.finished [of M ov bid kid ?o r] by simp
    have lt: "next_overflow_alloc r < ov" using n by (simp add: n_def)
    show "region_shape M ov ?R'" by (rule at(4) [OF lt])
    show "hdr_at r' q = hdr_at ?R' q" if "q \<le> M + ov" for q
      using other(1) [OF that] \<open>hdr_at r' nb = 1\<close> \<open>hdr_at r' t = attached (hdr_at r t) n\<close> by (auto simp: at(1) [OF lt])
    show "key_at r' q j = key_at ?R' q j" "off_at r' q j = off_at ?R' q j" if "q \<le> M + ov" "j < 7" for q j
      using other(2) [OF that] \<open>?k = kid\<close> by (auto simp: at(2,3) [OF lt])
    show "?o = off \<or> (\<exists>p i. new_slot M ov bid kid r = Some (p, i) \<and> (rid + i) mod 4 = 2 \<and> ?o = off_at r p i)" using that(4) ns by auto
  qed
  show ?thesis
  proof (cases "hdr_at r' t = hdr_at r t")
    case True
    then show ?thesis using here unlinked [of off] unlinked [of ?o] zero by (auto simp: old_or_new_def)
  next
    case False
    then show ?thesis using here linked by (auto simp: old_or_new_def)
  qed
qed

lemma image_words:
  assumes "settled_but_counters n rid s" "s' \<in> set (crash_points n rid ops s)" "crash_image M ov rid s' r'" "n = M + ov + 1" "q \<le> M + ov"
  shows "\<forall>op \<in> set ops. stored_word op \<noteq> Some (HdrW q) \<Longrightarrow> hdr_at r' q = hdr_at (pview s) q"
    and "j < 7 \<Longrightarrow> \<forall>op \<in> set ops. stored_word op \<noteq> Some (KeyW q j) \<Longrightarrow> key_at r' q j = key_at (pview s) q j"
    and "j < 7 \<Longrightarrow> \<forall>op \<in> set ops. stored_word op \<noteq> Some (OffW q j) \<Longrightarrow> off_at r' q j = off_at (pview s) q j"
  using image_word [OF assms(1-4), of "HdrW q"] image_word [OF assms(1-4), of "KeyW q j"] image_word [OF assms(1-4), of "OffW q j"] assms(5)
  by (simp_all add: word_unat_eq_iff)

lemma match_kind:
  assumes sh: "region_shape M ov r" and lay: "region_layout M ov r'" and p: "p \<le> M + ov" "i < 7"
    and w: "chain_walk (chain_fuel r) M r (\<lambda>_. 0) kid bid None = WMatch p i"
    and other: "\<And>q. q \<le> M + ov \<Longrightarrow> hdr_at r' q = hdr_at r q" "\<And>q j. q \<le> M + ov \<Longrightarrow> j < 7 \<Longrightarrow> key_at r' q j = key_at r q j"
      "\<And>q j. q \<le> M + ov \<Longrightarrow> j < 7 \<Longrightarrow> (q, j) \<noteq> (p, i) \<Longrightarrow> off_at r' q j = off_at r q j"
    and here: "old_or_new (off_at r p i) off (off_at r' p i)"
  shows "upsert_kind M ov rid bid kid off r r'"
proof -
  have fin: "snd (region_upsert M ov bid kid off r) = store_off p i off r" using w by (simp add: region_upsert_def)
  from here show ?thesis unfolding old_or_new_def
  proof
    assume "off_at r' p i = off_at r p i"
    then have "off_at r' q j = off_at r q j" if "q \<le> M + ov" "j < 7" for q j using other(3) [OF that] by (cases "(q, j) = (p, i)") auto
    then show ?thesis by (intro upsert_kindI [OF lay sh upsert_crash.untouched]) (use other(1,2) in auto)
  next
    assume new: "off_at r' p i = off"
    show ?thesis
    proof (rule upsert_kindI [OF lay])
      show "upsert_crash M ov bid kid off r (store_off p i off r)" using upsert_crash.finished [of M ov bid kid off r] fin by simp
    qed (use other new sh p in \<open>auto simp: store_at [of M ov]\<close>)
  qed
qed

lemma upsert_image:
  fixes s :: pm_state
  assumes inv: "region_inv M ov (pview s)" and b: "bid < M" and st: "settled_but_counters n rid s" and n: "n = M + ov + 1"
    and cp: "s' \<in> set (crash_points n rid (upsert_ops M ov bid kid off (pview s)) s)" and im: "crash_image M ov rid s' r'"
  shows "upsert_kind M ov rid bid kid off (pview s) r'"
proof -
  let ?r = "pview s"
  obtain own where links: "links M ov own ?r" using inv by (auto simp: region_inv_def)
  note sh = region_invD(3) [OF inv] and W = image_words [OF st cp im n]
  have lay: "region_layout M ov r'" using im by (simp add: crash_image_def)
  have "ends (chain_fuel ?r) M ?r bid"
    by (rule main_ends [OF links sh b]) (use region_invD(5,6) [OF inv] in simp)
  note ok = chain_walk_ok [OF this, of "\<lambda>_. 0" kid None]
  have range: "q \<le> M + ov" "q \<le> M + next_overflow_alloc ?r" if "q \<in> chain_of M ?r bid" for q
    using pos_ok_range [OF sh chain_of_own(1) [OF links b that]] chain_of_own(1) [OF links b that] by (auto simp: pos_ok_def)
  show ?thesis
  proof (cases "chain_walk (chain_fuel ?r) M ?r (\<lambda>_. 0) kid bid None")
    case (WMatch p i)
    then have ops: "upsert_ops M ov bid kid off ?r = [StoreOff p i off, Persist (OffW p i) 8]" by (simp add: upsert_ops_def)
    have p: "p \<le> M + ov" "i < 7" using ok WMatch range(1) by (auto simp: walk_ok_def has_key_def chain_of_def)
    show ?thesis using match_image [OF sh st p cp [unfolded ops] im n] by (rule match_kind [OF sh lay p WMatch, rotated -1]) (use W in \<open>auto simp: ops\<close>)
  next
    case (WMiss re t)
    show ?thesis
    proof (cases re)
      case (Some pi)
      obtain p i where pi: "pi = (p, i)" by (cases pi)
      note w = WMiss [unfolded Some pi]
      have ops: "upsert_ops M ov bid kid off ?r = [StoreKey p i kid, StoreOff p i off, Persist (KeyW p i) 16,
          StoreHeader p (hdr_at ?r p OR push_bit i 1), Persist (HdrW p) 8, StoreCount (num_entries ?r + 1)]"
        using w by (simp add: upsert_ops_def hdr_at_def)
      have p: "p \<le> M + ov" "i < 7" using ok w range(1) by (auto simp: walk_ok_def chain_of_def)
      show ?thesis using claim_image [OF sh st p cp [unfolded ops] im n] by (rule claim_kind [OF sh lay p w, rotated -1]) (use W in \<open>auto simp: ops\<close>)
    next
      case None
      note w = WMiss [unfolded None]
      let ?n = "next_overflow_alloc ?r + 1"
      let ?nb = "M + (next_overflow_alloc ?r + 1)"
      have t: "t \<le> M + next_overflow_alloc ?r" "t \<le> M + ov" using ok w range [of t] by (auto simp: walk_ok_def chain_of_def)
      show ?thesis
      proof (cases "?n \<le> ov")
        case True
        have "hdr_at (store_header ?nb 1 ?r) t = hdr_at ?r t" using sh True t by (simp add: store_at [of M ov])
        then have ops: "upsert_ops M ov bid kid off ?r = [StoreCursor ?n, StoreKey ?nb 0 kid, StoreOff ?nb 0 off, Persist (KeyW ?nb 0) 16,
            StoreHeader ?nb 1, Persist (HdrW ?nb) 8, StoreHeader t (attached (hdr_at ?r t) ?n), Persist (HdrW t) 8, StoreCount (num_entries ?r + 1)]"
          using w True by (simp add: upsert_ops_def hdr_at_def attached_def Let_def)
        have nb: "?nb \<le> M + ov" "t \<noteq> ?nb" and zero: "hdr_at ?r ?nb = 0" using True t linksD(3) [OF links] by auto
        show ?thesis using extend_image [OF sh st nb(1) t(2) nb(2) True cp [unfolded ops] im n]
          by (rule extend_kind [OF sh lay True t(1) zero w, rotated -1]) (use W in \<open>auto simp: ops\<close>)
      next
        case False
        then have ops: "upsert_ops M ov bid kid off ?r = [StoreCursor ?n, StoreCursor (?n - 1)]" using w by (simp add: upsert_ops_def Let_def)
        show ?thesis by (rule upsert_kindI [OF lay sh upsert_crash.untouched]) (use W in \<open>auto simp: ops\<close>)
      qed
    qed
  qed (use ok in \<open>simp add: walk_ok_def\<close>)
qed

section \<open>Scans\<close>

lemma scan_chain_set:
  "set (scan_chain n M r p) = {(key_at r q i, off_at r q i) | q i.
     q \<in> set (chain n M r p) \<and> i < 7 \<and> bit (hdr_at r q) i \<and> off_at r q i \<noteq> kTombstoneOffset}"
proof (induction n M r p rule: scan_chain.induct)
  case (2 n M r p)
  have here: "set [(e_key (entries (bucket_at r p) ! i), e_off (entries (bucket_at r p) ! i)). i \<leftarrow> [0..<kEntriesPerBucket],
      slot_published (hdr_at r p) i \<and> e_off (entries (bucket_at r p) ! i) \<noteq> kTombstoneOffset]
    = {(key_at r p i, off_at r p i) | i. i < 7 \<and> bit (hdr_at r p) i \<and> off_at r p i \<noteq> kTombstoneOffset}"
    by (auto simp: key_at_def off_at_def kEntriesPerBucket_def)
  show ?case
  proof (cases "next_idx (hdr_at r p) = 0")
    case True
    with here show ?thesis by (simp add: hdr_at_def Let_def)
  next
    case False
    with here "2.IH" [OF refl refl refl] show ?thesis by (simp add: hdr_at_def Let_def) blast
  qed
qed simp

lemma scan_chain_lookup:
  assumes "region_inv M ov r" "b < M"
  shows "(k, v) \<in> set (scan_chain (chain_fuel r) M r b) \<longleftrightarrow> region_lookup M b k r = Some v"
proof -
  have "(k, v) \<in> set (scan_chain (chain_fuel r) M r b) \<longleftrightarrow> binds r (chain_of M r b) k v \<and> v \<noteq> kTombstoneOffset"
    by (auto simp: scan_chain_set binds_def has_key_def chain_of_def)
  with region_raw_iff [OF region_invD(4) [OF assms], of k v] show ?thesis
    by (auto simp: region_lookup_raw split: option.splits)
qed

section \<open>Properties\<close>

text \<open>Lookups do not read the counters.\<close>

lemma lookup_counters: "region_lookup M b k (r\<lparr>next_overflow_alloc := c, num_entries := d\<rparr>) = region_lookup M b k r"
proof -
  have "bucket_at (r\<lparr>next_overflow_alloc := c, num_entries := d\<rparr>) p = bucket_at r p" for p by simp
  then have "find_published f M (r\<lparr>next_overflow_alloc := c, num_entries := d\<rparr>) k p = find_published f M r k p" for f p
    by (induction f arbitrary: p) (simp_all add: Let_def del: counter_frame bucket_at_other split: option.split)
  then show ?thesis by (simp add: region_lookup_def chain_fuel_def split: option.split)
qed

text \<open>
  C5. Power failure during a cold-tier upsert. Start from a well-formed region whose words are durable
  except possibly the two region counters, run \<open>upsert\<close> and cut the power between any two of its stores and
  persists, or after its last one. Every key other than the written one then reads as before. The written
  key reads its old value, or the new one, or, when it was absent and the slot it was put into straddles two cache
  lines (\<open>(rid + i) mod 4 = 2\<close>), the offset that the slot held before: its offset word is never flushed. With
  the allocation cursor put right the region is well-formed.
\<close>

theorem cold_upsert_crash_safe:
  assumes "region_inv M ov (pview s)" "bid < M" "off \<noteq> kTombstoneOffset" "settled_but_counters (M + ov + 1) rid s"
    and "s' \<in> set (crash_points (M + ov + 1) rid (upsert_ops M ov bid kid off (pview s)) s)" "crash_image M ov rid s' r'"
  shows "(\<forall>b' < M. \<forall>k. (b', k) \<noteq> (bid, kid) \<longrightarrow> region_lookup M b' k r' = region_lookup M b' k (pview s))
    \<and> (region_lookup M bid kid r' = region_lookup M bid kid (pview s) \<or> region_lookup M bid kid r' = Some off
       \<or> (\<exists>p i. new_slot M ov bid kid (pview s) = Some (p, i) \<and> (rid + i) mod 4 = 2
            \<and> region_lookup M bid kid r' = (if off_at (pview s) p i = kTombstoneOffset then None else Some (off_at (pview s) p i))))
    \<and> (\<exists>c d. region_inv M ov (r'\<lparr>next_overflow_alloc := c, num_entries := d\<rparr>))"
proof -
  obtain o' c d where uc: "upsert_crash M ov bid kid o' (pview s) (r'\<lparr>next_overflow_alloc := c, num_entries := d\<rparr>)"
    and o': "o' = off \<or> (\<exists>p i. new_slot M ov bid kid (pview s) = Some (p, i) \<and> (rid + i) mod 4 = 2 \<and> o' = off_at (pview s) p i)"
    using upsert_image [OF assms(1,2,4) refl assms(5,6)] by blast
  let ?r = "r'\<lparr>next_overflow_alloc := c, num_entries := d\<rparr>"
  note eff = upsert_crash_effect [OF uc assms(1,2)]
  have raw: "region_lookup M b k r' = (case region_raw M b k ?r of Some v \<Rightarrow> if v = kTombstoneOffset then None else Some v | None \<Rightarrow> None)" for b k
    using lookup_counters [where r = r' and c = c and d = d] region_lookup_raw [of M b k ?r] by simp
  have other: "region_lookup M b' k r' = region_lookup M b' k (pview s)" if "b' < M" "(b', k) \<noteq> (bid, kid)" for b' k
  proof -
    have "region_raw M b' k ?r = region_raw M b' k (pview s)" using eff that by blast
    then show ?thesis unfolding raw by (simp add: region_lookup_raw)
  qed
  have own: "region_lookup M bid kid r' = region_lookup M bid kid (pview s)
    \<or> region_lookup M bid kid r' = (if o' = kTombstoneOffset then None else Some o')"
  proof -
    have "region_raw M bid kid ?r = region_raw M bid kid (pview s) \<or> region_raw M bid kid ?r = Some o'" using eff assms(2) by blast
    then show ?thesis unfolding raw by (auto simp: region_lookup_raw)
  qed
  have "region_lookup M bid kid r' = region_lookup M bid kid (pview s) \<or> region_lookup M bid kid r' = Some off
       \<or> (\<exists>p i. new_slot M ov bid kid (pview s) = Some (p, i) \<and> (rid + i) mod 4 = 2
            \<and> region_lookup M bid kid r' = (if off_at (pview s) p i = kTombstoneOffset then None else Some (off_at (pview s) p i)))"
    using o' own assms(3) by (elim disjE exE conjE) (simp, simp, blast, blast)
  then show ?thesis using other eff by blast
qed

text \<open>
  The recovery scan sees exactly the live entries: a key and offset are visited in a region
  of a well-formed pool if and only if they are what a lookup in some bucket of that region
  returns.
\<close>

theorem scan_region_exact:
  assumes "cold_inv ct" "rid < kNumRegions"
  shows "(k, v) \<in> set (scan_region ct rid) \<longleftrightarrow>
    (\<exists>b < main_buckets_per_region ct. region_lookup (main_buckets_per_region ct) b k (regions ct ! rid) = Some v)"
proof -
  have "region_inv (main_buckets_per_region ct) (overflow_slots_per_region ct) (regions ct ! rid)"
    using assms by (auto simp: cold_inv_def)
  from scan_chain_lookup [OF this] show ?thesis by (auto simp: scan_region_def Let_def)
qed

theorem scan_region_exact_witness:
  "((8, 108) \<in> set (scan_region (snd (cold_upsert (snd (cold_create 1 1)) 0 8 108)) 0)) =
   (\<exists>b < 1. region_lookup 1 b 8 (regions (snd (cold_upsert (snd (cold_create 1 1)) 0 8 108)) ! 0) = Some 108)"
proof -
  let ?ct = "snd (cold_upsert (snd (cold_create 1 1)) 0 8 108)"
  have fits: "cold_fits 1 1" by (simp add: cold_fits_def cold_total_size_def next_pow2_def kNumRegions_def)
  have inv: "cold_inv ?ct"
    by (rule cold_upsert_effect(1) [OF cold_create_inv(1) [OF fits]]) (simp add: kTombstoneOffset_def)
  have "main_buckets_per_region ?ct = 1"
    by (simp add: cold_upsert_def cold_create_def next_pow2_def Let_def split: prod.splits)
  with scan_region_exact [OF inv, of 0 8 108] show ?thesis by (simp add: kNumRegions_def)
qed

definition small_region :: RegionState where
  "small_region = \<lparr> num_entries = 0, next_overflow_alloc = 0, rbuckets = replicate (1 + 2 + 1) zero_bucket \<rparr>"

lemma small_region_inv: "region_inv 1 2 small_region"
  unfolding small_region_def by (rule zero_region_inv) simp_all

text \<open>The third slot of region 0 straddles: after an upsert into it has returned, the power failure can leave the
  key with the offset 0 that the slot held before.\<close>

definition two_keys :: RegionState where
  "two_keys = snd (region_upsert 1 2 0 6 106 (snd (region_upsert 1 2 0 5 105 small_region)))"

lemma residue_image:
  fixes M ov rid bid kid off r
  assumes sh: "region_shape M ov r" and w: "chain_walk (chain_fuel r) M r (\<lambda>_. 0) kid bid None = WMiss (Some (p, i)) t"
    and p: "p \<le> M + ov" "i < 7" and st: "(rid + i) mod 4 = 2"
  defines "s \<equiv> pm_run (M + ov + 1) rid (upsert_ops M ov bid kid off r) (all_durable r)"
  shows "crash_image M ov rid s (store_off p i (off_at r p i) (pview s))"
proof -
  let ?n = "M + ov + 1"
  let ?l = "line_of ?n rid (OffW p i)"
  have v: "pview s = count_entry (or_header p (push_bit i 1) (store_off p i off (store_key p i kid r)))"
    using upsert_ops_run [of ?n rid M ov bid kid off "all_durable r"] w by (simp add: s_def all_durable_def region_upsert_def Let_def)
  have shv: "region_shape M ov (pview s)" unfolding v using sh by simp
  have lines: "line_of ?n rid (KeyW p i) \<noteq> ?l" "line_of ?n rid (HdrW p) \<noteq> ?l" "line_of ?n rid CountW \<noteq> ?l"
    by (rule below_line [OF st]; simp add: word_addr.simps cold_entry_addr_def)+
  have cur: "current ?n rid s" unfolding s_def by (rule current_run [OF settled_start(1) [OF all_durable_settled]])
  have old: "r \<in> set (versions s ?l)"
    unfolding s_def by (rule never_flushed) (use w lines in \<open>auto simp: all_durable_def upsert_ops_def flush_one_line\<close>)
  show ?thesis
  proof (rule old_line_image [OF cur old])
    show "region_layout M ov (store_off p i (off_at r p i) (pview s))" using shv by (simp add: region_layout_def region_shape_alt)
    fix w assume w: "word_of M ov w"
    show "wval w (store_off p i (off_at r p i) (pview s)) = (if line_of ?n rid w = ?l then wval w r else wval w (pview s))"
    proof (cases "w = OffW p i")
      case True
      then show ?thesis using shv p by (simp add: store_at [of M ov])
    next
      case False
      then have "wval w (store_off p i (off_at r p i) (pview s)) = wval w (pview s)" using store_frame [of "StoreOff p i (off_at r p i)" w "pview s"] by simp
      moreover have "wval w (pview s) = wval w r" if "line_of ?n rid w = ?l"
        using that False lines sh p unfolding v by (cases w) (auto simp: store_at [of M ov] count_entry_def)
      ultimately show ?thesis by simp
    qed
  qed
qed

lemma two_keys_facts: "chain_walk (chain_fuel two_keys) 1 two_keys (\<lambda>_. 0) 7 0 None = WMiss (Some (0, 2)) 0"
  "region_lookup 1 0 5 two_keys = Some 105"
  "region_lookup 1 0 7 (store_off 0 2 (off_at two_keys 0 2) (snd (region_upsert 1 2 0 7 107 two_keys))) = Some 0"
  by code_simp+

lemma last_point: "pm_run n rid ops s \<in> set (crash_points n rid ops s)"
  unfolding pm_run_def by (induction ops arbitrary: s) auto

lemma two_keys_inv: "region_inv 1 2 two_keys"
proof -
  have "region_inv 1 2 (snd (region_upsert 1 2 0 k v r))" if "region_inv 1 2 r" for k v r
    using region_upsert_cases [OF that, of 0 k v] that by (auto simp: writes_def)
  then show ?thesis using small_region_inv by (simp add: two_keys_def)
qed

theorem cold_upsert_crash_safe_witness:
  "\<exists>r'. crash_image 1 2 0 (pm_run 4 0 (upsert_ops 1 2 0 7 107 two_keys) (all_durable two_keys)) r'
     \<and> region_lookup 1 0 7 r' = Some 0 \<and> region_lookup 1 0 5 r' = Some 105"
proof -
  let ?s = "pm_run 4 0 (upsert_ops 1 2 0 7 107 two_keys) (all_durable two_keys)"
  let ?r = "store_off 0 2 (off_at two_keys 0 2) (pview ?s)"
  have a: "pview (all_durable two_keys) = two_keys" by (simp add: all_durable_def)
  have e: "(1 :: nat) + 2 + 1 = 4" by simp
  have im: "crash_image 1 2 0 ?s ?r"
    by (rule residue_image [OF region_invD(3) [OF two_keys_inv] two_keys_facts(1), of 0 107, unfolded e]) simp_all
  moreover have "region_lookup 1 0 7 ?r = Some 0"
    using two_keys_facts(3) upsert_ops_run [of 4 0 1 2 0 7 107 "all_durable two_keys"] unfolding a by simp
  moreover have "region_lookup 1 0 5 ?r = Some 105"
    using cold_upsert_crash_safe [where s = "all_durable two_keys" and M = 1 and ov = 2 and bid = 0 and kid = 7 and off = 107 and rid = 0 and s' = ?s and r' = ?r, unfolded e]
      two_keys_inv im last_point [of 4 0 "upsert_ops 1 2 0 7 107 two_keys" "all_durable two_keys"] all_durable_settled two_keys_facts(2)
    unfolding a by (simp add: kTombstoneOffset_def)
  ultimately show ?thesis by blast
qed

section \<open>A lost allocation cursor\<close>

lemma chain_subset:
  "p \<in> S \<Longrightarrow> (\<And>q. q \<in> S \<Longrightarrow> next_idx (hdr_at r q) \<noteq> 0 \<Longrightarrow> M + next_idx (hdr_at r q) \<in> S) \<Longrightarrow> set (chain n M r p) \<subseteq> S"
  by (induction n arbitrary: p) auto

lemma chain_closed:
  "ends n M r p \<Longrightarrow> q \<in> set (chain n M r p) \<Longrightarrow> next_idx (hdr_at r q) \<noteq> 0 \<Longrightarrow> M + next_idx (hdr_at r q) \<in> set (chain n M r p)"
proof (induction n arbitrary: p)
  case (Suc n)
  show ?case
  proof (cases "q = p \<or> next_idx (hdr_at r p) = 0")
    case True
    then show ?thesis using Suc.prems by (cases n) (auto split: if_splits)
  next
    case False
    then show ?thesis using Suc by auto
  qed
qed simp

lemma chain_walk_cong:
  "(\<And>q. q \<in> set (chain n M r p) \<Longrightarrow> bucket_at r' q = bucket_at r q) \<Longrightarrow> chain_walk n M r' cl k p re = chain_walk n M r cl k p re"
proof (induction n arbitrary: p re)
  case (Suc n)
  have "bucket_at r' p = bucket_at r p" using Suc.prems by simp
  moreover have "chain_walk n M r' cl k (M + next_idx (hdr_at r p)) re' = chain_walk n M r cl k (M + next_idx (hdr_at r p)) re'"
    if "next_idx (hdr_at r p) \<noteq> 0" for re' using that Suc.prems by (intro Suc.IH) simp
  ultimately show ?case by (simp add: Let_def hdr_at_def split: prod.split option.split)
qed simp

text \<open>The cursor and the entry count are as before, everything else is as after the extension.\<close>

definition cursor_lost :: "RegionState \<Rightarrow> RegionState \<Rightarrow> RegionState" where
  "cursor_lost r r1 = r1\<lparr>next_overflow_alloc := next_overflow_alloc r, num_entries := num_entries r\<rparr>"

lemma cursor_lost_image:
  fixes M ov rid bid kid off r
  assumes sh: "region_shape M ov r" and M: "0 < M" and w: "chain_walk (chain_fuel r) M r (\<lambda>_. 0) kid bid None = WMiss None t"
    and room: "next_overflow_alloc r < ov" and t: "t \<le> M + next_overflow_alloc r" and far: "t \<noteq> 0 \<or> rid mod 4 = 3"
  defines "s \<equiv> pm_run (M + ov + 1) rid (upsert_ops M ov bid kid off r) (all_durable r)"
  shows "pview s = extend_chain M t kid off r" "crash_image M ov rid s (cursor_lost r (pview s))"
proof -
  let ?n = "M + ov + 1" and ?nb = "M + (next_overflow_alloc r + 1)"
  let ?l = "line_of (M + ov + 1) rid CursorW"
  show v: "pview s = extend_chain M t kid off r"
    using upsert_ops_run [of ?n rid M ov bid kid off "all_durable r"] w room
    by (simp add: s_def all_durable_def region_upsert_def extend_chain_def attached_def hdr_at_def Let_def)
  note at = extend_chain_at [OF sh room t, of kid off]
  have tl: "line_of ?n rid (HdrW t) \<noteq> ?l" using far counter_line(2) [of t ?n rid] counter_line(5) [of rid ?n] by (cases "t = 0") auto
  have nl: "line_of ?n rid (HdrW ?nb) \<noteq> ?l" "line_of ?n rid (KeyW ?nb 0) \<noteq> ?l" "line_of ?n rid (OffW ?nb 0) \<noteq> ?l"
    using counter_line(2-4) [of ?nb ?n rid] by simp_all
  have cur: "current ?n rid s" unfolding s_def by (rule current_run [OF settled_start(1) [OF all_durable_settled]])
  have old: "r \<in> set (versions s ?l)"
    unfolding s_def by (rule never_flushed) (use w tl nl in \<open>auto simp: all_durable_def upsert_ops_def flush_one_line Let_def split: if_splits\<close>)
  show "crash_image M ov rid s (cursor_lost r (pview s))"
  proof (rule old_line_image [OF cur old])
    show "region_layout M ov (cursor_lost r (pview s))"
      using at(4) unfolding v by (simp add: cursor_lost_def region_layout_def region_shape_alt)
    fix x
    have "wval x (pview s) = wval x r" if "line_of ?n rid x = ?l" "x \<noteq> CountW" "x \<noteq> CursorW"
      using that tl nl unfolding v by (cases x) (auto simp: at(1-3))
    then show "wval x (cursor_lost r (pview s)) = (if line_of ?n rid x = ?l then wval x r else wval x (pview s))"
      using counter_line(1) [of ?n rid] by (cases x) (auto simp: cursor_lost_def)
  qed
qed

lemma extend_bucket_other:
  "q \<noteq> t \<Longrightarrow> q \<noteq> M + (next_overflow_alloc r + 1) \<Longrightarrow> bucket_at (extend_chain M t k v r) q = bucket_at r q"
  by (simp add: extend_chain_def Let_def store_key_def store_off_def store_header_def bucket_at_set)

text \<open>Reusing the bucket at the end of the chain of \<open>bid\<close> for the chain of \<open>bid2\<close> takes the entry of \<open>kid\<close> away.\<close>

lemma reused_bucket:
  fixes M ov bid kid off r t
  assumes inv: "region_inv M ov r" and b: "bid < M" "bid2 < M" "bid \<noteq> bid2" and k: "kid2 \<noteq> kid"
    and w: "chain_walk (chain_fuel r) M r (\<lambda>_. 0) kid bid None = WMiss None t"
    and w2: "chain_walk (chain_fuel r) M r (\<lambda>_. 0) kid2 bid2 None = WMiss None t2"
    and room: "next_overflow_alloc r < ov"
  defines "r' \<equiv> cursor_lost r (extend_chain M t kid off r)"
  shows "fst (region_upsert M ov bid2 kid2 off2 r')" "region_lookup M bid kid (snd (region_upsert M ov bid2 kid2 off2 r')) = None"
proof -
  let ?n = "next_overflow_alloc r + 1"
  let ?nb = "M + (next_overflow_alloc r + 1)"
  obtain own where links: "links M ov own r" using inv by (auto simp: region_inv_def)
  note sh = region_invD(3) [OF inv]
  have ends: "ends (chain_fuel r) M r c" if "c < M" for c
    by (rule main_ends [OF links sh that]) (use region_invD(5,6) [OF inv] in simp)
  have absent: "\<not> holds_key r kid q i" if "q \<in> chain_of M r bid" for q i
    using chain_walk_ok [OF ends [OF b(1)], of "\<lambda>_. 0" kid None] w that by (auto simp: walk_ok_def chain_of_def)
  have "t \<in> chain_of M r bid" "t2 \<in> chain_of M r bid2"
    using chain_walk_ok [OF ends [OF b(1)], of "\<lambda>_. 0" kid None] w chain_walk_ok [OF ends [OF b(2)], of "\<lambda>_. 0" kid2 None] w2
    by (auto simp: walk_ok_def chain_of_def)
  note T = chain_of_own [OF links b(1) this(1)] and T2 = chain_of_own [OF links b(2) this(2)]
  have t: "t \<le> M + next_overflow_alloc r" "t2 \<le> M + next_overflow_alloc r" using T(1) T2(1) by (auto simp: pos_ok_def)
  have apart: "q \<noteq> t2" "q \<noteq> ?nb" if "q \<in> chain_of M r bid" for q using chain_of_own [OF links b(1) that] T2(2) b(3) by (auto simp: pos_ok_def)
  have apart2: "q \<noteq> t" "q \<noteq> ?nb" if "q \<in> chain_of M r bid2" for q using chain_of_own [OF links b(2) that] T(2) b(3) by (auto simp: pos_ok_def)
  note at1 = extend_chain_at [OF sh room t(1), of kid off]
  have r': "hdr_at r' q = hdr_at (extend_chain M t kid off r) q" "key_at r' q i = key_at (extend_chain M t kid off r) q i" for q i
    by (simp_all add: r'_def cursor_lost_def)
  have sh': "region_shape M ov r'" and fuel: "chain_fuel r' = chain_fuel r" and al: "next_overflow_alloc r' = next_overflow_alloc r"
    using at1(4) sh by (auto simp: r'_def cursor_lost_def region_shape_alt chain_fuel_def)
  have walk: "chain_walk (chain_fuel r') M r' (\<lambda>_. 0) kid2 bid2 None = WMiss None t2"
    unfolding fuel w2 [symmetric]
    by (rule chain_walk_cong) (use apart2 extend_bucket_other in \<open>auto simp: r'_def cursor_lost_def chain_of_def\<close>)
  have up: "region_upsert M ov bid2 kid2 off2 r' = (True, extend_chain M t2 kid2 off2 r')"
    using walk room al by (simp add: region_upsert_def extend_chain_def attached_def hdr_at_def Let_def)
  then show "fst (region_upsert M ov bid2 kid2 off2 r')" by simp
  let ?r3 = "extend_chain M t2 kid2 off2 r'"
  note at3 = extend_chain_at [OF sh', unfolded al, OF room t(2), of kid2 off2]
  have hdr: "hdr_at ?r3 q = (if q = t then attached (hdr_at r t) ?n else hdr_at r q)" if "q \<in> chain_of M r bid" for q
    using apart [OF that] by (simp add: at3(1) r' at1(1))
  have nbh: "hdr_at ?r3 ?nb = 1" using t by (simp add: at3(1))
  have fuel3: "chain_fuel ?r3 = chain_fuel r" using at3(4) sh by (simp add: chain_fuel_def region_shape_alt)
  have bidc: "bid \<in> chain_of M r bid" using ends [OF b(1)] by (cases "chain_fuel r") (auto simp: chain_of_def)
  have "chain_of M ?r3 bid \<subseteq> insert ?nb (chain_of M r bid)"
    unfolding chain_of_def [of M ?r3]
  proof (rule chain_subset)
    fix q assume q: "q \<in> insert ?nb (chain_of M r bid)" and nx: "next_idx (hdr_at ?r3 q) \<noteq> 0"
    have "ov < 2 ^ 56" by (rule region_invD(2) [OF inv])
    then have "next_idx (attached (hdr_at r t) ?n) = ?n" using room by (intro attached_next) simp
    then show "M + next_idx (hdr_at ?r3 q) \<in> insert ?nb (chain_of M r bid)"
      using q nx hdr [of q] nbh chain_closed [OF ends [OF b(1)], of q] by (cases "q = ?nb") (auto simp: next_idx_def chain_of_def split: if_splits)
  qed (use bidc in simp)
  moreover have "\<not> holds_key ?r3 kid q i" if q: "q \<in> insert ?nb (chain_of M r bid)" for q i
  proof (cases "q = ?nb")
    case True
    then show ?thesis using k nbh by (auto simp: has_key_def at3(2) bit_1_iff)
  next
    case False
    then have "q \<in> chain_of M r bid" using q by simp
    then show ?thesis using absent [of q i] hdr [of q] False by (auto simp: has_key_def at3(2) r' at1(2) attached_bit split: if_splits)
  qed
  ultimately have "region_raw M bid kid ?r3 = None" unfolding region_raw_None by blast
  then show "region_lookup M bid kid (snd (region_upsert M ov bid2 kid2 off2 r')) = None" unfolding up by (simp add: region_lookup_raw)
qed

text \<open>
  C21. The allocation cursor is not persisted, and a later upsert destroys an acknowledged key. Everything
  is durable, the chains of two buckets are full and the overflow pool has room. An upsert of \<open>kid\<close> into
  the first chain returns and links a new overflow bucket. If the link's line is not the one of the
  cursor (it is only for bucket 0 of a region with \<open>rid mod 4 \<noteq> 3\<close>), the power failure may leave the old cursor: \<open>kid\<close> is still
  found then, but the next upsert into the second chain allocates the same bucket, and \<open>kid\<close> is gone.
\<close>

theorem lost_cursor_destroys_key:
  fixes M ov rid bid kid off r
  assumes "region_inv M ov r" "bid < M" "bid2 < M" "bid \<noteq> bid2" "kid2 \<noteq> kid" "off \<noteq> kTombstoneOffset"
    and "chain_walk (chain_fuel r) M r (\<lambda>_. 0) kid bid None = WMiss None t"
    and "chain_walk (chain_fuel r) M r (\<lambda>_. 0) kid2 bid2 None = WMiss None t2"
    and "next_overflow_alloc r < ov" "t \<noteq> 0 \<or> rid mod 4 = 3"
  defines "s \<equiv> pm_run (M + ov + 1) rid (upsert_ops M ov bid kid off r) (all_durable r)"
  shows "\<exists>r'. crash_image M ov rid s r' \<and> region_lookup M bid kid r' = Some off \<and> fst (region_upsert M ov bid2 kid2 off2 r')
    \<and> region_lookup M bid kid (snd (region_upsert M ov bid2 kid2 off2 r')) = None"
proof -
  obtain own where links: "links M ov own r" using assms(1) by (auto simp: region_inv_def)
  have sh: "region_shape M ov r" and M: "0 < M" using region_invD(1,3) [OF assms(1)] by auto
  have "ends (chain_fuel r) M r bid"
    by (rule main_ends [OF links sh assms(2)]) (use region_invD(5,6) [OF assms(1)] in simp)
  then have "t \<in> chain_of M r bid" using chain_walk_ok [of _ M r bid "\<lambda>_. 0" kid None] assms(7) by (fastforce simp: walk_ok_def chain_of_def)
  then have t: "t \<le> M + next_overflow_alloc r" using chain_of_own(1) [OF links assms(2), of t] by (auto simp: pos_ok_def)
  note I = cursor_lost_image [OF sh M assms(7,9) t assms(10), where off = off, folded s_def]
  have up: "region_upsert M ov bid kid off r = (True, pview s)"
    using assms(7,9) unfolding I(1) by (simp add: region_upsert_def extend_chain_def attached_def hdr_at_def Let_def)
  then have "region_raw M bid kid (pview s) = Some off" using region_upsert_cases [OF assms(1,2), of kid off] assms(2) by (auto simp: writes_def)
  then have "region_lookup M bid kid (cursor_lost r (pview s)) = Some off"
    unfolding cursor_lost_def lookup_counters using assms(6) by (simp add: region_lookup_raw)
  note L = this [unfolded I(1)] and im = I(2) [unfolded I(1)] and R = reused_bucket [OF assms(1-5,7-9), where off = off and ?off2.0 = off2]
  show ?thesis by (rule exI, intro conjI, rule im, rule L, rule R(1), rule R(2))
qed

definition fill :: "nat \<Rightarrow> u64 list \<Rightarrow> RegionState \<Rightarrow> RegionState" where
  "fill b ks r = fold (\<lambda>k r. snd (region_upsert 2 2 b k (k + 100) r)) ks r"

lemma fill_inv: "region_inv 2 2 r \<Longrightarrow> b < 2 \<Longrightarrow> region_inv 2 2 (fill b ks r)"
proof (induction ks arbitrary: r)
  case (Cons k ks)
  have "region_inv 2 2 (snd (region_upsert 2 2 b k (k + 100) r))"
    using region_upsert_cases [OF Cons.prems, of k "k + 100"] Cons.prems(1) by (auto simp: writes_def)
  then show ?case using Cons by (simp add: fill_def)
qed (simp add: fill_def)

text \<open>Two main buckets, both full.\<close>

definition two_full :: RegionState where
  "two_full = fill 1 [11, 12, 13, 14, 15, 16, 17] (fill 0 [1, 2, 3, 4, 5, 6, 7]
     \<lparr> num_entries = 0, next_overflow_alloc = 0, rbuckets = replicate (2 + 2 + 1) zero_bucket \<rparr>)"

lemma two_full_facts:
  "chain_walk (chain_fuel two_full) 2 two_full (\<lambda>_. 0) 8 0 None = WMiss None 0"
  "chain_walk (chain_fuel two_full) 2 two_full (\<lambda>_. 0) 18 1 None = WMiss None 1" "next_overflow_alloc two_full = 0"
  by code_simp+

theorem lost_cursor_destroys_key_witness:
  "\<exists>r'. crash_image 2 2 3 (pm_run 5 3 (upsert_ops 2 2 0 8 108 two_full) (all_durable two_full)) r'
     \<and> region_lookup 2 0 8 r' = Some 108 \<and> region_lookup 2 0 8 (snd (region_upsert 2 2 1 18 118 r')) = None"
proof -
  have inv: "region_inv 2 2 two_full" unfolding two_full_def by (intro fill_inv zero_region_inv) simp_all
  have e: "(2 :: nat) + 2 + 1 = 5" by simp
  show ?thesis
    using lost_cursor_destroys_key [OF inv _ _ _ _ _ two_full_facts(1,2), where off = 108 and rid = 3 and ?off2.0 = 118, unfolded e] two_full_facts(3)
    by (auto simp: kTombstoneOffset_def)
qed

end
