(* ===== verification/Commit_Buffer.thy ===== *)
theory Commit_Buffer
  imports Hot_Tier Cold_Tier
begin

text \<open>
  The commit buffer (hiom/commit_buffer.hpp): eight lanes, each a multi-producer queue with an
  approximate size, and a mask of lanes that may hold entries. The queue itself is the
  third-party \<open>moodycamel::ConcurrentQueue\<close>; its two operations are arguments \<open>enq\<close> and
  \<open>deq\<close> of the model, and \<open>queue_ok\<close> states the documented behaviour the buffer relies on.
  The first part models whole calls; the second part models one lane at the granularity of its
  atomic operations, with several producers interleaved with the draining flusher.
\<close>

section \<open>Entries and lanes\<close>

datatype commit_op = kPut | kRemove

record CommitEntry =
  ce_op :: commit_op
  ce_fp64 :: u64
  ce_key_id :: u64
  ce_off :: u64
  ce_hot_slot :: SlotRef
  ce_seq :: u64

definition kNumLanes :: nat where "kNumLanes = 8"

text \<open>\<open>kRegionsPerLane = 4\<close>, so the lane shift is \<open>59 + 2\<close>.\<close>

definition kRegionsPerLane :: nat where "kRegionsPerLane = 32 div kNumLanes"

definition kLaneShift :: nat where "kLaneShift = 59 + 2"

definition lane_of_fp64 :: "u64 \<Rightarrow> nat" where
  "lane_of_fp64 fp64 = unat (drop_bit kLaneShift fp64 AND (of_nat kNumLanes - 1))"

definition flusher_of_lane :: "nat \<Rightarrow> nat \<Rightarrow> nat" where
  "flusher_of_lane lane_id num_flushers = lane_id div (kNumLanes div num_flushers)"

definition lanes_mask_for_flusher :: "nat \<Rightarrow> nat \<Rightarrow> u64" where
  "lanes_mask_for_flusher flusher_id num_flushers =
    (let lanes_per = kNumLanes div num_flushers; start = flusher_id * lanes_per
     in fold (\<lambda>i m. m OR push_bit (start + i) 1) [0..<lanes_per] 0)"

record 'q Lane =
  lane_q :: 'q
  approx :: nat

record 'q CommitBuffer =
  lanes :: "'q Lane list"
  nonempty_mask :: u64

definition new_buffer :: "'q \<Rightarrow> 'q CommitBuffer" where
  "new_buffer q0 = \<lparr> lanes = replicate kNumLanes \<lparr> lane_q = q0, approx = 0 \<rparr>, nonempty_mask = 0 \<rparr>"

section \<open>Whole calls\<close>

definition push :: "('q \<Rightarrow> CommitEntry \<Rightarrow> 'q) \<Rightarrow> nat \<Rightarrow> CommitEntry \<Rightarrow> 'q CommitBuffer \<Rightarrow> nat \<times> 'q CommitBuffer" where
  "push enq lane_id e cb =
    (let lane = lanes cb ! lane_id;
         prior = approx lane;
         lane1 = lane\<lparr>approx := prior + 1\<rparr>;
         lane2 = lane1\<lparr>lane_q := enq (lane_q lane1) e\<rparr>;
         cb1 = cb\<lparr>lanes := (lanes cb)[lane_id := lane2]\<rparr>;
         cb2 = (if prior = 0 then cb1\<lparr>nonempty_mask := nonempty_mask cb1 OR push_bit lane_id 1\<rparr> else cb1)
     in (prior + 1, cb2))"

definition try_drain_lane :: "('q \<Rightarrow> nat \<Rightarrow> CommitEntry list \<times> 'q) \<Rightarrow> nat \<Rightarrow> CommitEntry list \<Rightarrow> nat \<Rightarrow>
    'q CommitBuffer \<Rightarrow> nat \<times> CommitEntry list \<times> 'q CommitBuffer" where
  "try_drain_lane deq lane_id out mx cb =
    (if mx = 0 then (0, out, cb)
     else
       let lane = lanes cb ! lane_id;
           hint = approx lane;
           cap = min mx (hint + 64)
       in if cap = 0 then (0, out, cb)
          else case deq (lane_q lane) cap of (xs, q') \<Rightarrow>
            (let got = length xs;
                 lane1 = lane\<lparr>lane_q := q'\<rparr>;
                 cb1 = cb\<lparr>lanes := (lanes cb)[lane_id := lane1]\<rparr>
             in if got > 0 then
                  let prior = approx lane1;
                      lane2 = lane1\<lparr>approx := prior - got\<rparr>;
                      cb2 = cb\<lparr>lanes := (lanes cb)[lane_id := lane2]\<rparr>;
                      cb3 = (if prior = got
                             then cb2\<lparr>nonempty_mask := nonempty_mask cb2 AND NOT (push_bit lane_id 1)\<rparr>
                             else cb2)
                  in (got, out @ xs, cb3)
                else (got, out, cb1)))"

definition size_hint_lane :: "nat \<Rightarrow> 'q CommitBuffer \<Rightarrow> nat" where
  "size_hint_lane lane_id cb = approx (lanes cb ! lane_id)"

definition size_hint :: "'q CommitBuffer \<Rightarrow> nat" where
  "size_hint cb = sum_list (map approx (lanes cb))"

section \<open>One lane at the granularity of its atomic operations\<close>

text \<open>
  A producer inside \<open>push\<close> has counted its entry, or also enqueued it; both remember whether
  the counter was 0 before. The consumer is the flusher inside
  \<open>drain_to_empty_and_apply_locked\<close>: it enters the lane only when the mask bit is set, and
  repeats \<open>try_drain_lane\<close> until a call returns 0.
\<close>

datatype producer = Idle | Counted bool CommitEntry | Enqueued bool

datatype consumer = Outside | AtDequeue | AtSubtract nat | AtClear

record 'q lane_state =
  ls_q :: 'q
  ls_approx :: nat
  ls_bit :: bool
  ls_producers :: "producer list"
  ls_consumer :: consumer

datatype lane_event = PushCount nat CommitEntry | PushEnqueue nat | PushMask nat
  | DrainEnter | DrainDequeue nat | DrainSubtract | DrainClear

fun lane_step :: "('q \<Rightarrow> CommitEntry \<Rightarrow> 'q) \<Rightarrow> ('q \<Rightarrow> nat \<Rightarrow> CommitEntry list \<times> 'q) \<Rightarrow> lane_event \<Rightarrow>
    'q lane_state \<Rightarrow> 'q lane_state option" where
  "lane_step enq deq (PushCount i e) s =
    (if i < length (ls_producers s) \<and> ls_producers s ! i = Idle
     then Some (s\<lparr>ls_approx := ls_approx s + 1, ls_producers := (ls_producers s)[i := Counted (ls_approx s = 0) e]\<rparr>)
     else None)"
| "lane_step enq deq (PushEnqueue i) s =
    (if i < length (ls_producers s) then
       case ls_producers s ! i of
         Counted z e \<Rightarrow> Some (s\<lparr>ls_q := enq (ls_q s) e, ls_producers := (ls_producers s)[i := Enqueued z]\<rparr>)
       | _ \<Rightarrow> None
     else None)"
| "lane_step enq deq (PushMask i) s =
    (if i < length (ls_producers s) then
       case ls_producers s ! i of
         Enqueued z \<Rightarrow> Some (s\<lparr>ls_bit := ls_bit s \<or> z, ls_producers := (ls_producers s)[i := Idle]\<rparr>)
       | _ \<Rightarrow> None
     else None)"
| "lane_step enq deq DrainEnter s =
    (if ls_consumer s = Outside \<and> ls_bit s then Some (s\<lparr>ls_consumer := AtDequeue\<rparr>) else None)"
| "lane_step enq deq (DrainDequeue cap) s =
    (if ls_consumer s = AtDequeue \<and> 0 < cap then
       case deq (ls_q s) cap of (xs, q') \<Rightarrow>
         Some (s\<lparr>ls_q := q', ls_consumer := (if xs = [] then Outside else AtSubtract (length xs))\<rparr>)
     else None)"
| "lane_step enq deq DrainSubtract s =
    (case ls_consumer s of
       AtSubtract n \<Rightarrow> Some (s\<lparr>ls_approx := ls_approx s - n,
                               ls_consumer := (if ls_approx s = n then AtClear else AtDequeue)\<rparr>)
     | _ \<Rightarrow> None)"
| "lane_step enq deq DrainClear s =
    (if ls_consumer s = AtClear then Some (s\<lparr>ls_bit := False, ls_consumer := AtDequeue\<rparr>) else None)"

fun lane_run :: "('q \<Rightarrow> CommitEntry \<Rightarrow> 'q) \<Rightarrow> ('q \<Rightarrow> nat \<Rightarrow> CommitEntry list \<times> 'q) \<Rightarrow> lane_event list \<Rightarrow>
    'q lane_state \<Rightarrow> 'q lane_state option" where
  "lane_run enq deq [] s = Some s"
| "lane_run enq deq (x # xs) s = (case lane_step enq deq x s of None \<Rightarrow> None | Some s' \<Rightarrow> lane_run enq deq xs s')"

definition lane_init :: "'q \<Rightarrow> nat \<Rightarrow> 'q lane_state" where
  "lane_init q0 n = \<lparr> ls_q = q0, ls_approx = 0, ls_bit = False, ls_producers = replicate n Idle, ls_consumer = Outside \<rparr>"

text \<open>Documented behaviour of the queue: what is enqueued is dequeued exactly once, and a bulk
  dequeue with positive room returns nothing only from an empty queue.\<close>

definition queue_ok :: "'q \<Rightarrow> ('q \<Rightarrow> CommitEntry \<Rightarrow> 'q) \<Rightarrow> ('q \<Rightarrow> nat \<Rightarrow> CommitEntry list \<times> 'q) \<Rightarrow>
    ('q \<Rightarrow> CommitEntry multiset) \<Rightarrow> bool" where
  "queue_ok q0 enq deq contents \<longleftrightarrow> contents q0 = {#}
     \<and> (\<forall>q e. contents (enq q e) = add_mset e (contents q))
     \<and> (\<forall>q n xs q'. deq q n = (xs, q') \<longrightarrow> contents q = mset xs + contents q' \<and> length xs \<le> n
          \<and> (xs = [] \<and> 0 < n \<longrightarrow> contents q = {#}))"

text \<open>A list is such a queue.\<close>

definition list_enq :: "CommitEntry list \<Rightarrow> CommitEntry \<Rightarrow> CommitEntry list" where
  "list_enq q e = q @ [e]"

definition list_deq :: "CommitEntry list \<Rightarrow> nat \<Rightarrow> CommitEntry list \<times> CommitEntry list" where
  "list_deq q n = (take n q, drop n q)"

lemma list_queue_ok: "queue_ok [] list_enq list_deq mset"
proof -
  have "mset q = mset (take n q) + mset (drop n q)" for q :: "CommitEntry list" and n
    by (metis append_take_drop_id mset_append)
  then show ?thesis by (auto simp: queue_ok_def list_enq_def list_deq_def)
qed

section \<open>Lane ownership\<close>

lemma lane_of_region: "lane_of_fp64 fp = region_id_of fp div kRegionsPerLane"
proof -
  have m: "(of_nat kNumLanes - 1 :: u64) = mask 3" "(of_nat kNumRegions - 1 :: u64) = mask 5"
    by (simp_all add: kNumLanes_def kNumRegions_def mask_eq_exp_minus_1)
  have "drop_bit 2 (take_bit 5 (drop_bit 59 fp)) = take_bit 3 (drop_bit 61 fp)"
    by (rule bit_word_eqI) (auto simp: bit_simps)
  moreover have "unat (drop_bit 2 w) = unat w div 4" for w :: u64
    by (simp add: drop_bit_eq_div unat_div)
  ultimately have "unat (take_bit 5 (drop_bit 59 fp)) div 4 = unat (take_bit 3 (drop_bit 61 fp))" by metis
  then show ?thesis
    unfolding lane_of_fp64_def region_id_of_def m take_bit_eq_mask [symmetric]
    by (simp add: kRegionsPerLane_def kLaneShift_def kNumLanes_def)
qed

lemma lane_less: "lane_of_fp64 fp < kNumLanes"
proof -
  have "(of_nat kNumLanes - 1 :: u64) = mask 3" by (simp add: kNumLanes_def mask_eq_exp_minus_1)
  then have "lane_of_fp64 fp = unat (take_bit 3 (drop_bit kLaneShift fp))"
    by (simp only: lane_of_fp64_def take_bit_eq_mask [symmetric])
  then show ?thesis using unat_take_bit_less [of 3] by (simp add: kNumLanes_def)
qed

lemma fold_or_bits:
  "bit (fold (\<lambda>i m. m OR push_bit (s + i) 1) xs w) n \<longleftrightarrow>
     bit w n \<or> (n < 64 \<and> (\<exists>i \<in> set xs. n = s + i))" for w :: u64
  by (induction xs arbitrary: w) (auto simp: bit_simps bit_1_iff)

lemma lanes_mask_bit:
  "bit (lanes_mask_for_flusher f nf) lane \<longleftrightarrow>
     lane < 64 \<and> f * (kNumLanes div nf) \<le> lane \<and> lane < f * (kNumLanes div nf) + kNumLanes div nf"
  unfolding lanes_mask_for_flusher_def Let_def fold_or_bits by (auto simp: le_iff_add)

section \<open>Whole calls conserve entries\<close>

definition buffer_inv :: "('q \<Rightarrow> CommitEntry multiset) \<Rightarrow> 'q CommitBuffer \<Rightarrow> bool" where
  "buffer_inv contents cb \<longleftrightarrow> length (lanes cb) = kNumLanes
     \<and> (\<forall>l < kNumLanes. approx (lanes cb ! l) = size (contents (lane_q (lanes cb ! l)))
          \<and> (bit (nonempty_mask cb) l \<longleftrightarrow> contents (lane_q (lanes cb ! l)) \<noteq> {#}))"

definition buffered :: "('q \<Rightarrow> CommitEntry multiset) \<Rightarrow> 'q CommitBuffer \<Rightarrow> CommitEntry multiset" where
  "buffered contents cb = sum_list (map (\<lambda>l. contents (lane_q l)) (lanes cb))"

lemma sum_list_replace:
  "i < length xs \<Longrightarrow> sum_list (map f (xs[i := y])) + f (xs ! i) = sum_list (map f xs) + (f y :: 'a multiset)"
proof (induction xs arbitrary: i)
  case (Cons x xs)
  then show ?case by (cases i) (auto simp: ac_simps)
qed simp

lemma mask_bit_simps:
  "l < 8 \<Longrightarrow> bit (w OR push_bit l 1) n \<longleftrightarrow> bit w n \<or> n = l"
  "l < 8 \<Longrightarrow> bit (w AND NOT (push_bit l 1)) n \<longleftrightarrow> bit w n \<and> n \<noteq> l" for w :: u64
  by (auto simp: bit_simps bit_1_iff dest: bit_imp_le_length)

lemma push_correct:
  assumes "queue_ok q0 enq deq contents" "buffer_inv contents cb" "lane < kNumLanes"
  shows "buffer_inv contents (snd (push enq lane e cb))"
    and "buffered contents (snd (push enq lane e cb)) = add_mset e (buffered contents cb)"
    and "fst (push enq lane e cb) = size (contents (lane_q (lanes (snd (push enq lane e cb)) ! lane)))"
proof -
  let ?l = "lanes cb ! lane"
  let ?l2 = "?l\<lparr>approx := approx ?l + 1, lane_q := enq (lane_q ?l) e\<rparr>"
  have enq: "contents (enq q e) = add_mset e (contents q)" for q using assms(1) by (simp add: queue_ok_def)
  have len: "lane < length (lanes cb)" "lane < 8" using assms(2,3) by (simp_all add: buffer_inv_def kNumLanes_def)
  have lanes: "lanes (snd (push enq lane e cb)) = (lanes cb)[lane := ?l2]"
    by (simp add: push_def Let_def)
  have mask: "nonempty_mask (snd (push enq lane e cb))
      = (if approx ?l = 0 then nonempty_mask cb OR push_bit lane 1 else nonempty_mask cb)"
    by (simp add: push_def Let_def)
  show "buffer_inv contents (snd (push enq lane e cb))"
    unfolding buffer_inv_def lanes mask
    using assms(2) len by (auto simp: buffer_inv_def nth_list_update enq mask_bit_simps simp del: push_bit_of_1)
  show "buffered contents (snd (push enq lane e cb)) = add_mset e (buffered contents cb)"
    using sum_list_replace [OF len(1), of "\<lambda>l. contents (lane_q l)" ?l2]
    unfolding buffered_def lanes by (simp add: enq)
  show "fst (push enq lane e cb) = size (contents (lane_q (lanes (snd (push enq lane e cb)) ! lane)))"
    using assms(2,3) len by (simp add: lanes enq buffer_inv_def) (simp add: push_def Let_def)
qed

lemma drain_correct:
  assumes "queue_ok q0 enq deq contents" "buffer_inv contents cb" "lane < kNumLanes"
    and d: "try_drain_lane deq lane out mx cb = (got, out', cb')"
  shows "buffer_inv contents cb' \<and> (\<exists>xs. out' = out @ xs \<and> got = length xs \<and> got \<le> mx
      \<and> buffered contents cb = mset xs + buffered contents cb'
      \<and> (got = 0 \<and> 0 < mx \<longrightarrow> contents (lane_q (lanes cb' ! lane)) = {#}))"
proof (cases "mx = 0")
  case True
  with d assms(2) show ?thesis by (simp add: try_drain_lane_def)
next
  case False
  let ?l = "lanes cb ! lane" and ?cap = "min mx (approx (lanes cb ! lane) + 64)"
  obtain xs q' where dq: "deq (lane_q ?l) ?cap = (xs, q')" by (cases "deq (lane_q ?l) ?cap")
  have cap: "0 < ?cap" using False by simp
  have q: "contents (lane_q ?l) = mset xs + contents q'" "length xs \<le> ?cap"
    "xs = [] \<Longrightarrow> contents (lane_q ?l) = {#}"
    using assms(1) dq cap unfolding queue_ok_def by blast+
  have len: "lane < length (lanes cb)" "lane < 8" using assms(2,3) by (simp_all add: buffer_inv_def kNumLanes_def)
  have ap: "approx ?l = length xs + size (contents q')" using assms(2,3) q(1) by (simp add: buffer_inv_def)
  have same: "?l\<lparr>lane_q := q', approx := size (contents q')\<rparr> = ?l\<lparr>lane_q := q'\<rparr>" if "xs = []"
    using ap that by (cases ?l) simp
  have lanes': "lanes cb' = (lanes cb)[lane := ?l\<lparr>lane_q := q', approx := size (contents q')\<rparr>]"
  proof (cases "xs = []")
    case True
    show ?thesis unfolding same [OF True]
      using d False cap dq True by (auto simp: try_drain_lane_def Let_def split: if_splits)
  qed (use d False cap dq ap in \<open>auto simp: try_drain_lane_def Let_def split: if_splits\<close>)
  have cb': "got = length xs" "out' = out @ xs"
    "nonempty_mask cb' = (if xs \<noteq> [] \<and> contents q' = {#} then nonempty_mask cb AND NOT (push_bit lane 1) else nonempty_mask cb)"
    using d False cap dq ap by (auto simp: try_drain_lane_def Let_def split: if_splits)
  have "buffered contents cb' + contents (lane_q ?l) = buffered contents cb + contents q'"
    using sum_list_replace [OF len(1), of "\<lambda>l. contents (lane_q l)"] unfolding buffered_def lanes' by simp
  then have "buffered contents cb = mset xs + buffered contents cb'" using q(1) by (simp add: ac_simps)
  moreover have "buffer_inv contents cb'"
    using assms(2) len q(1,3) unfolding buffer_inv_def lanes' cb'(3)
    by (auto simp: nth_list_update mask_bit_simps simp del: push_bit_of_1)
  ultimately show ?thesis using cb'(1,2) lanes' q len by auto
qed

section \<open>Sequences of calls\<close>

datatype buffer_call = CPush CommitEntry | CDrain nat nat

text \<open>The state also collects everything drained so far.\<close>

fun buffer_calls :: "('q \<Rightarrow> CommitEntry \<Rightarrow> 'q) \<Rightarrow> ('q \<Rightarrow> nat \<Rightarrow> CommitEntry list \<times> 'q) \<Rightarrow> buffer_call list \<Rightarrow>
    CommitEntry list \<Rightarrow> 'q CommitBuffer \<Rightarrow> CommitEntry list \<times> 'q CommitBuffer" where
  "buffer_calls enq deq [] out cb = (out, cb)"
| "buffer_calls enq deq (CPush e # cs) out cb =
    buffer_calls enq deq cs out (snd (push enq (lane_of_fp64 (ce_fp64 e)) e cb))"
| "buffer_calls enq deq (CDrain l mx # cs) out cb =
    (case try_drain_lane deq l out mx cb of (got, out', cb') \<Rightarrow> buffer_calls enq deq cs out' cb')"

fun pushed :: "buffer_call list \<Rightarrow> CommitEntry multiset" where
  "pushed [] = {#}"
| "pushed (CPush e # cs) = add_mset e (pushed cs)"
| "pushed (CDrain l mx # cs) = pushed cs"

lemma buffer_calls_correct:
  assumes "queue_ok q0 enq deq contents" "buffer_inv contents cb"
    and "\<forall>l mx. CDrain l mx \<in> set cs \<longrightarrow> l < kNumLanes"
    and "buffer_calls enq deq cs out cb = (out', cb')"
  shows "buffer_inv contents cb' \<and> mset out + buffered contents cb + pushed cs = mset out' + buffered contents cb'"
  using assms(2-)
proof (induction cs arbitrary: out cb)
  case (Cons c cs)
  show ?case
  proof (cases c)
    case (CPush e)
    note ps = push_correct [OF assms(1) Cons.prems(1) lane_less [of "ce_fp64 e"], of e]
    from Cons.IH [OF ps(1), of out] Cons.prems CPush ps(2) show ?thesis by simp
  next
    case (CDrain l mx)
    obtain got o1 cb1 where d: "try_drain_lane deq l out mx cb = (got, o1, cb1)"
      by (cases "try_drain_lane deq l out mx cb")
    have "l < kNumLanes" using Cons.prems(2) CDrain by auto
    note dr = drain_correct [OF assms(1) Cons.prems(1) this d]
    then obtain xs where "o1 = out @ xs" "buffered contents cb = mset xs + buffered contents cb1" by blast
    moreover have "\<forall>l mx. CDrain l mx \<in> set cs \<longrightarrow> l < kNumLanes" using Cons.prems(2) by simp
    ultimately show ?thesis using Cons.IH [of cb1 o1] dr Cons.prems(3) CDrain d by (simp add: ac_simps)
  qed
qed simp

lemma new_buffer_inv:
  assumes "queue_ok q0 enq deq contents"
  shows "buffer_inv contents (new_buffer q0)" "buffered contents (new_buffer q0) = {#}"
proof -
  have "contents q0 = {#}" using assms by (simp add: queue_ok_def)
  then show "buffer_inv contents (new_buffer q0)" "buffered contents (new_buffer q0) = {#}"
    by (simp add: new_buffer_def buffer_inv_def) (simp add: \<open>contents q0 = {#}\<close> new_buffer_def buffered_def kNumLanes_def numeral_eq_Suc)
qed

section \<open>Interleavings of one lane\<close>

definition counted :: "producer \<Rightarrow> nat" where
  "counted p = (case p of Counted z e \<Rightarrow> 1 | _ \<Rightarrow> 0)"

definition in_consumer :: "consumer \<Rightarrow> nat" where
  "in_consumer c = (case c of AtSubtract n \<Rightarrow> n | _ \<Rightarrow> 0)"

text \<open>The counter is exact up to entries counted but not enqueued and dequeued but not subtracted.\<close>

definition lane_count_inv :: "('q \<Rightarrow> CommitEntry multiset) \<Rightarrow> 'q lane_state \<Rightarrow> bool" where
  "lane_count_inv contents s \<longleftrightarrow>
     ls_approx s = size (contents (ls_q s)) + sum_list (map counted (ls_producers s)) + in_consumer (ls_consumer s)"

lemma counted_update:
  assumes "i < length ps"
  shows "sum_list (map counted (ps[i := p])) + counted (ps ! i) = sum_list (map counted ps) + counted p"
proof -
  have "counted (ps ! i) \<le> sum_list (map counted ps)"
    using assms by (simp add: member_le_sum_list)
  then show ?thesis using sum_list_update [of i "map counted ps" "counted p"] assms by (simp add: map_update)
qed

lemma lane_step_count:
  assumes q: "queue_ok q0 enq deq contents" and inv: "lane_count_inv contents s"
    and step: "lane_step enq deq x s = Some s'"
  shows "lane_count_inv contents s'"
proof (cases x)
  case (PushCount i e)
  with step counted_update [of i "ls_producers s" "Counted (ls_approx s = 0) e"] inv show ?thesis
    by (auto simp: lane_count_inv_def counted_def split: if_splits)
next
  case (PushEnqueue i)
  then obtain z e where pi: "i < length (ls_producers s)" "ls_producers s ! i = Counted z e"
    and s': "s' = s\<lparr>ls_q := enq (ls_q s) e, ls_producers := (ls_producers s)[i := Enqueued z]\<rparr>"
    using step by (auto split: if_splits producer.splits)
  have "contents (enq (ls_q s) e) = add_mset e (contents (ls_q s))" using q by (simp add: queue_ok_def)
  with counted_update [OF pi(1), of "Enqueued z"] pi(2) inv s' show ?thesis
    by (simp add: lane_count_inv_def counted_def)
next
  case (PushMask i)
  then obtain z where pi: "i < length (ls_producers s)" "ls_producers s ! i = Enqueued z"
    and s': "s' = s\<lparr>ls_bit := ls_bit s \<or> z, ls_producers := (ls_producers s)[i := Idle]\<rparr>"
    using step by (auto split: if_splits producer.splits)
  with counted_update [OF pi(1), of Idle] inv show ?thesis by (simp add: lane_count_inv_def counted_def)
next
  case (DrainDequeue cap)
  obtain xs q' where d: "deq (ls_q s) cap = (xs, q')" by (cases "deq (ls_q s) cap")
  then have "contents (ls_q s) = mset xs + contents q'" using q by (auto simp: queue_ok_def)
  with DrainDequeue step inv d show ?thesis by (auto simp: lane_count_inv_def in_consumer_def split: if_splits)
qed (use step inv in \<open>auto simp: lane_count_inv_def in_consumer_def split: if_splits consumer.splits\<close>)

lemma lane_run_count:
  "queue_ok q0 enq deq contents \<Longrightarrow> lane_count_inv contents s \<Longrightarrow> lane_run enq deq xs s = Some s' \<Longrightarrow>
   lane_count_inv contents s'"
  by (induction xs arbitrary: s) (auto split: option.splits intro: lane_step_count)

text \<open>A lane whose bit was lost: nobody is about to set it and the consumer is away.\<close>

definition no_setter :: "producer \<Rightarrow> bool" where
  "no_setter p \<longleftrightarrow> (case p of Idle \<Rightarrow> True | Counted z e \<Rightarrow> \<not> z | Enqueued z \<Rightarrow> \<not> z)"

definition stuck :: "'q lane_state \<Rightarrow> bool" where
  "stuck s \<longleftrightarrow> ls_consumer s = Outside \<and> \<not> ls_bit s \<and> 0 < ls_approx s \<and> (\<forall>p \<in> set (ls_producers s). no_setter p)"

lemma stuck_step:
  assumes "stuck s" "lane_step enq deq x s = Some s'"
  shows "stuck s'"
proof (cases x)
  case (PushMask i)
  then obtain z where "i < length (ls_producers s)" "ls_producers s ! i = Enqueued z"
    and s': "s' = s\<lparr>ls_bit := ls_bit s \<or> z, ls_producers := (ls_producers s)[i := Idle]\<rparr>"
    using assms(2) by (auto split: if_splits producer.splits)
  moreover from this assms(1) have "\<not> z" by (fastforce simp: stuck_def no_setter_def dest: nth_mem)
  ultimately show ?thesis using assms(1)
    by (auto simp: stuck_def no_setter_def dest!: set_update_subset_insert [THEN subsetD])
next
  case (PushEnqueue i)
  then obtain z e where "i < length (ls_producers s)" "ls_producers s ! i = Counted z e"
    and s': "s' = s\<lparr>ls_q := enq (ls_q s) e, ls_producers := (ls_producers s)[i := Enqueued z]\<rparr>"
    using assms(2) by (auto split: if_splits producer.splits)
  moreover from this assms(1) have "\<not> z" by (fastforce simp: stuck_def no_setter_def dest: nth_mem)
  ultimately show ?thesis using assms(1)
    by (auto simp: stuck_def no_setter_def dest!: set_update_subset_insert [THEN subsetD])
next
  case (PushCount i e)
  with assms show ?thesis
    by (auto simp: stuck_def no_setter_def split: if_splits dest!: set_update_subset_insert [THEN subsetD])
qed (use assms in \<open>auto simp: stuck_def split: if_splits\<close>)

lemma stuck_run: "stuck s \<Longrightarrow> lane_run enq deq xs s = Some s' \<Longrightarrow> stuck s'"
  by (induction xs arbitrary: s) (auto split: option.splits intro: stuck_step)

section \<open>Properties\<close>

text \<open>
  C22. Conservation of commits: over any sequence of whole push and drain calls on a fresh buffer,
  the entries pushed are exactly those drained plus those still buffered; each lane's counter is
  its exact length and its mask bit is set exactly when the lane is not empty. The queue operations
  are the parameters \<open>enq\<close> and \<open>deq\<close> with their documented behaviour \<open>queue_ok\<close>.
\<close>

theorem commit_buffer_conserves:
  assumes "queue_ok q0 enq deq contents" "\<forall>l mx. CDrain l mx \<in> set cs \<longrightarrow> l < kNumLanes"
    and "buffer_calls enq deq cs [] (new_buffer q0) = (out, cb)"
  shows "pushed cs = mset out + buffered contents cb \<and> buffer_inv contents cb"
  using buffer_calls_correct [OF assms(1) new_buffer_inv(1) [OF assms(1)] assms(2,3)]
    new_buffer_inv(2) [OF assms(1)] by simp

definition sample_entry :: "u64 \<Rightarrow> CommitEntry" where
  "sample_entry fp = \<lparr> ce_op = kPut, ce_fp64 = fp, ce_key_id = fp, ce_off = 1, ce_hot_slot = no_ref, ce_seq = 65536 \<rparr>"

theorem commit_buffer_conserves_witness:
  "\<exists>out cb. buffer_calls list_enq list_deq [CPush (sample_entry 3), CDrain 0 1024] [] (new_buffer []) = (out, cb)
     \<and> add_mset (sample_entry 3) {#} = mset out + buffered mset cb"
proof -
  obtain out cb where c: "buffer_calls list_enq list_deq [CPush (sample_entry 3), CDrain 0 1024] [] (new_buffer []) = (out, cb)"
    by (cases "buffer_calls list_enq list_deq [CPush (sample_entry 3), CDrain 0 1024] [] (new_buffer [])")
  from commit_buffer_conserves [OF list_queue_ok _ c] c show ?thesis by (simp add: kNumLanes_def)
qed

text \<open>
  Lane routing and ownership: all entries of one cold-tier region go to one lane, and for
  every admissible number of flushers each lane is owned by exactly one of them, the owner's mask
  being exactly its lanes. So entries with the same routing hash are always applied by one flusher.
\<close>

theorem lane_ownership:
  assumes "num_flushers \<in> {1, 2, 4, 8}" "f < num_flushers"
  shows "lane_of_fp64 fp = region_id_of fp div kRegionsPerLane \<and> lane_of_fp64 fp < kNumLanes
    \<and> flusher_of_lane (lane_of_fp64 fp) num_flushers < num_flushers
    \<and> (bit (lanes_mask_for_flusher f num_flushers) (lane_of_fp64 fp) \<longleftrightarrow> flusher_of_lane (lane_of_fp64 fp) num_flushers = f)"
proof -
  have l: "lane_of_fp64 fp < 8" using lane_less [of fp] by (simp add: kNumLanes_def)
  have part: "f * d \<le> n \<and> n < f * d + d \<longleftrightarrow> n div d = f" if "0 < d" for d n :: nat
  proof
    assume "f * d \<le> n \<and> n < f * d + d"
    then show "n div d = f" by (intro div_nat_eqI) (simp_all add: mult.commute)
  next
    assume "n div d = f"
    then show "f * d \<le> n \<and> n < f * d + d"
      using div_times_less_eq_dividend [of n d] dividend_less_div_times [OF that, of n] by (simp add: add.commute)
  qed
  have d: "0 < kNumLanes div num_flushers" "kNumLanes div num_flushers * num_flushers = 8"
    using assms(1) by (auto simp: kNumLanes_def)
  then have "lane_of_fp64 fp div (kNumLanes div num_flushers) < num_flushers"
    using l by (simp add: less_mult_imp_div_less mult.commute)
  then show ?thesis using l part [OF d(1), of "lane_of_fp64 fp"] lane_of_region [of fp]
    by (simp add: lanes_mask_bit flusher_of_lane_def kNumLanes_def)
qed

theorem lane_ownership_witness:
  "lane_of_fp64 0xFFFFFFFFFFFFFFFF = region_id_of 0xFFFFFFFFFFFFFFFF div kRegionsPerLane
   \<and> (bit (lanes_mask_for_flusher 1 2) (lane_of_fp64 0xFFFFFFFFFFFFFFFF) \<longleftrightarrow> flusher_of_lane (lane_of_fp64 0xFFFFFFFFFFFFFFFF) 2 = 1)"
proof -
  have "(2 :: nat) \<in> {1, 2, 4, 8}" "(1 :: nat) < 2" by simp_all
  from lane_ownership [OF this] show ?thesis by blast
qed

text \<open>
  The quiescence test of \<open>flush_and_wait\<close> is sound under every interleaving of producers with
  the flusher: whenever a lane's counter reads 0, its queue is empty and no producer is between
  counting and enqueueing an entry.
\<close>

theorem zero_hint_means_empty:
  assumes "queue_ok q0 enq deq contents" "lane_run enq deq xs (lane_init q0 n) = Some s" "ls_approx s = 0"
  shows "contents (ls_q s) = {#} \<and> (\<forall>p \<in> set (ls_producers s). counted p = 0)"
proof -
  have "lane_count_inv contents (lane_init q0 n)"
    using assms(1) by (simp add: lane_count_inv_def lane_init_def queue_ok_def counted_def in_consumer_def sum_list_replicate)
  from lane_run_count [OF assms(1) this assms(2)] assms(3) show ?thesis
    by (simp add: lane_count_inv_def sum_list_eq_0_iff)
qed

theorem zero_hint_means_empty_witness:
  "\<exists>s. lane_run list_enq list_deq [PushCount 0 (sample_entry 3), PushEnqueue 0, PushMask 0, DrainEnter, DrainDequeue 65,
      DrainSubtract] (lane_init [] 1) = Some s \<and> ls_approx s = 0 \<and> mset (ls_q s) = {#}"
proof -
  let ?run = "lane_run list_enq list_deq [PushCount 0 (sample_entry 3), PushEnqueue 0, PushMask 0, DrainEnter, DrainDequeue 65,
      DrainSubtract] (lane_init [] 1)"
  obtain s where s: "?run = Some s" "ls_approx s = 0"
    by (simp add: lane_init_def list_enq_def list_deq_def)
  from zero_hint_means_empty [OF list_queue_ok s] s show ?thesis by blast
qed

text \<open>
  C23. A lost wake-up in the mask protocol. There is an interleaving of two producers with a
  draining flusher after which every thread is outside its call, the lane still holds an entry and
  its mask bit is clear: the flusher subtracts the last entry, a producer counts from 0, enqueues
  and sets the bit, and only then does the flusher clear it, while the second producer counts from
  1. From that state on, whatever producers and flusher do, the flusher never enters the lane again
  and its counter never returns to 0.
\<close>

theorem commit_lane_lost_wakeup:
  "\<exists>xs s. lane_run list_enq list_deq xs (lane_init [] 2) = Some s
     \<and> ls_consumer s = Outside \<and> ls_producers s = [Idle, Idle] \<and> ls_q s \<noteq> [] \<and> \<not> ls_bit s
     \<and> (\<forall>ys s'. lane_run list_enq list_deq ys s = Some s' \<longrightarrow>
          ls_consumer s' = Outside \<and> \<not> ls_bit s' \<and> 0 < ls_approx s')"
proof -
  let ?e = "sample_entry"
  define xs where "xs = [PushCount 0 (?e 1), PushEnqueue 0, PushMask 0, DrainEnter, DrainDequeue 65, DrainSubtract,
    PushCount 0 (?e 2), PushEnqueue 0, PushMask 0, DrainClear, PushCount 1 (?e 3), DrainDequeue 65, DrainSubtract,
    DrainDequeue 65, PushEnqueue 1, PushMask 1]"
  obtain s where run: "lane_run list_enq list_deq xs (lane_init [] 2) = Some s"
    and s: "ls_consumer s = Outside" "ls_producers s = [Idle, Idle]" "ls_q s \<noteq> []" "\<not> ls_bit s" "0 < ls_approx s"
    by (simp add: xs_def lane_init_def list_enq_def list_deq_def numeral_eq_Suc)
  have "stuck s" using s by (simp add: stuck_def no_setter_def)
  then have "stuck s'" if "lane_run list_enq list_deq ys s = Some s'" for ys s' using stuck_run that by blast
  with run s show ?thesis by (auto simp: stuck_def)
qed

theorem commit_lane_lost_wakeup_witness:
  "\<exists>xs s. lane_run list_enq list_deq xs (lane_init [] 2) = Some s \<and> ls_q s \<noteq> [] \<and> \<not> ls_bit s"
  using commit_lane_lost_wakeup by blast

end
