(* ===== verification/Viper_Lock.thy ===== *)
theory Viper_Lock
  imports Hiom_Prelude
begin

text \<open>
  The one-byte version lock of a Viper page, the DRAM registry of lock intents, and the repair of
  locks that a crashed process left behind (\<open>hiom_try_repair_stale_lock\<close>), at the granularity
  of single atomic accesses. The lock word holds the lock bit, a five-bit version and the
  USED and CLIENT flags. Two step systems run the code of several threads: writers against one
  repairer or several, and an optimistic reader against writers.
\<close>

section \<open>The lock word\<close>

definition CLIENT_BIT :: u8 where "CLIENT_BIT = 128"
definition NO_CLIENT_BIT :: u8 where "NO_CLIENT_BIT = 127"
definition USED_BIT :: u8 where "USED_BIT = 64"
definition UNLOCKED_BIT :: u8 where "UNLOCKED_BIT = 254"

definition IS_LOCKED :: "u8 \<Rightarrow> bool" where "IS_LOCKED w \<longleftrightarrow> w AND 1 \<noteq> 0"
definition is_bit_set :: "u8 \<Rightarrow> u8 \<Rightarrow> bool" where "is_bit_set w b \<longleftrightarrow> w AND b \<noteq> 0"

text \<open>One compare-exchange of \<open>lock\<close>: the expected value is an unlocked word.\<close>

definition cas_word :: "u8 \<Rightarrow> u8 \<Rightarrow> u8 \<Rightarrow> bool \<times> u8" where
  "cas_word expected desired w = (if w = expected then (True, desired) else (False, w))"

text \<open>\<open>lock(false)\<close> with nothing in between: load, mask, one compare-exchange.\<close>

definition page_lock :: "u8 \<Rightarrow> u8 option" where
  "page_lock w =
    (let lv = w AND UNLOCKED_BIT
     in case cas_word lv (lv + 1) w of (True, w') \<Rightarrow> Some w' | (False, _) \<Rightarrow> None)"

definition page_unlock :: "u8 \<Rightarrow> u8" where
  "page_unlock cv = (((cv + 1) mod USED_BIT) OR USED_BIT) OR (cv AND CLIENT_BIT)"

section \<open>The registry of lock intents\<close>

definition kLockIntentSlots :: nat where "kLockIntentSlots = 128"

definition home_slot :: "u64 \<Rightarrow> nat" where
  "home_slot p = unat (drop_bit 12 p AND (of_nat kLockIntentSlots - 1))"

text \<open>Linear probing from the home slot. \<open>None\<close>: every slot was taken, the caller keeps spinning.\<close>

fun intent_probe :: "nat \<Rightarrow> nat \<Rightarrow> u64 list \<Rightarrow> nat option" where
  "intent_probe 0 i r = None"
| "intent_probe (Suc n) i r = (if r ! i = 0 then Some i else intent_probe n ((i + 1) mod kLockIntentSlots) r)"

definition intent_publish :: "u64 \<Rightarrow> u64 list \<Rightarrow> (nat \<times> u64 list) option" where
  "intent_publish p r =
    (case intent_probe kLockIntentSlots (home_slot p) r of None \<Rightarrow> None | Some i \<Rightarrow> Some (i, r[i := p]))"

definition intent_clear :: "nat \<Rightarrow> u64 list \<Rightarrow> u64 list" where
  "intent_clear slot r = r[slot := 0]"

definition intent_registered :: "u64 \<Rightarrow> u64 list \<Rightarrow> bool" where
  "intent_registered p r \<longleftrightarrow> first_idx kLockIntentSlots (\<lambda>i. r ! i = p) \<noteq> None"

text \<open>The repair as one thread runs it undisturbed: the result and the new lock word.\<close>

definition try_repair_stale_lock :: "u64 \<Rightarrow> u64 list \<Rightarrow> u8 \<Rightarrow> bool \<times> u8" where
  "try_repair_stale_lock page r w =
    (if \<not> IS_LOCKED w then (True, w)
     else if intent_registered page r then (False, w)
     else if \<not> IS_LOCKED w then (True, w)
     else if intent_registered page r then (False, w)
     else cas_word w (w AND UNLOCKED_BIT) w)"

section \<open>Threads interleaved on one page\<close>

text \<open>
  What a thread is about to do. A writer probes the registry from a slot on, has published its
  intent in a slot, has loaded the lock word, holds the lock, has loaded the word in \<open>unlock\<close>, or
  has unlocked with its intent still registered. A repairer is in its first scan, at the second
  load, in the second scan, or at the final compare-exchange.
\<close>

datatype lk_pc = LIdle | LProbe nat | LPublished nat | LLoaded nat u8 | LHolding nat
  | LUnlocking nat u8 | LUnlocked nat
  | RScan1 nat | RReload | RScan2 u8 nat | RCas u8

text \<open>\<open>unl\<close> is a history variable: how many unlocks were stored since a repairer's last reload.\<close>

record lk_state =
  word :: u8
  intents :: "u64 list"
  pcs :: "lk_pc list"
  unl :: nat

text \<open>A thread starts to lock or to repair, or goes on with what it does (\<open>EStep\<close> says whether its
  \<open>lock\<close> is blocking). \<open>EForeign\<close> is a thread that works on another page and publishes or withdraws
  its intent.\<close>

datatype lk_event = EStart nat | EStep nat bool | RStart nat | RStep nat | EForeign nat u64

definition go :: "nat \<Rightarrow> lk_pc \<Rightarrow> lk_state \<Rightarrow> lk_state" where
  "go t pc s = s\<lparr>pcs := (pcs s)[t := pc]\<rparr>"

fun writer_step :: "u64 \<Rightarrow> nat \<Rightarrow> bool \<Rightarrow> lk_pc \<Rightarrow> lk_state \<Rightarrow> lk_state" where
  "writer_step page t blocking (LProbe i) s =
    (if intents s ! i = 0 then go t (LPublished i) (s\<lparr>intents := (intents s)[i := page]\<rparr>)
     else go t (LProbe ((i + 1) mod kLockIntentSlots)) s)"
| "writer_step page t blocking (LPublished i) s = go t (LLoaded i (word s AND UNLOCKED_BIT)) s"
| "writer_step page t blocking (LLoaded i lv) s =
    (case cas_word lv (lv + 1) (word s) of
       (True, w) \<Rightarrow> go t (LHolding i) (s\<lparr>word := w\<rparr>)
     | (False, w) \<Rightarrow> if blocking then go t (LLoaded i (w AND UNLOCKED_BIT)) s else go t (LUnlocked i) s)"
| "writer_step page t blocking (LHolding i) s = go t (LUnlocking i (word s)) s"
| "writer_step page t blocking (LUnlocking i cv) s = go t (LUnlocked i) (s\<lparr>word := page_unlock cv, unl := unl s + 1\<rparr>)"
| "writer_step page t blocking (LUnlocked i) s = go t LIdle (s\<lparr>intents := intent_clear i (intents s)\<rparr>)"
| "writer_step page t blocking _ s = s"

fun repair_step :: "u64 \<Rightarrow> nat \<Rightarrow> lk_pc \<Rightarrow> lk_state \<Rightarrow> lk_state" where
  "repair_step page t (RScan1 i) s =
    (if i < kLockIntentSlots then if intents s ! i = page then go t LIdle s else go t (RScan1 (i + 1)) s
     else go t RReload s)"
| "repair_step page t RReload s =
    (if IS_LOCKED (word s) then go t (RScan2 (word s) 0) (s\<lparr>unl := 0\<rparr>) else go t LIdle s)"
| "repair_step page t (RScan2 lv i) s =
    (if i < kLockIntentSlots then if intents s ! i = page then go t LIdle s else go t (RScan2 lv (i + 1)) s
     else go t (RCas lv) s)"
| "repair_step page t (RCas lv) s = go t LIdle (s\<lparr>word := snd (cas_word lv (lv AND UNLOCKED_BIT) (word s))\<rparr>)"
| "repair_step page t _ s = s"

fun is_repair :: "lk_pc \<Rightarrow> bool" where
  "is_repair (RScan1 i) = True" | "is_repair RReload = True" | "is_repair (RScan2 lv i) = True"
| "is_repair (RCas lv) = True" | "is_repair _ = False"

fun lk_step :: "u64 \<Rightarrow> lk_event \<Rightarrow> lk_state \<Rightarrow> lk_state option" where
  "lk_step page (EStart t) s =
    (if t < length (pcs s) \<and> pcs s ! t = LIdle then Some (go t (LProbe (home_slot page)) s) else None)"
| "lk_step page (EStep t b) s =
    (if t < length (pcs s) \<and> pcs s ! t \<noteq> LIdle \<and> \<not> is_repair (pcs s ! t)
     then Some (writer_step page t b (pcs s ! t) s) else None)"
| "lk_step page (RStart t) s =
    (if t < length (pcs s) \<and> pcs s ! t = LIdle
     then Some (if IS_LOCKED (word s) then go t (RScan1 0) s else s) else None)"
| "lk_step page (RStep t) s =
    (if t < length (pcs s) \<and> is_repair (pcs s ! t) then Some (repair_step page t (pcs s ! t) s) else None)"
| "lk_step page (EForeign i v) s =
    (if i < length (intents s) \<and> intents s ! i \<noteq> page \<and> v \<noteq> page
     then Some (s\<lparr>intents := (intents s)[i := v]\<rparr>) else None)"

fun lk_run :: "u64 \<Rightarrow> lk_event list \<Rightarrow> lk_state \<Rightarrow> lk_state option" where
  "lk_run page [] s = Some s"
| "lk_run page (e # es) s = (case lk_step page e s of None \<Rightarrow> None | Some s' \<Rightarrow> lk_run page es s')"

text \<open>After a restart: any lock word, an empty registry, \<open>n\<close> threads.\<close>

definition lk_init :: "u8 \<Rightarrow> nat \<Rightarrow> lk_state" where
  "lk_init w n = \<lparr>word = w, intents = replicate kLockIntentSlots 0, pcs = replicate n LIdle, unl = 0\<rparr>"

section \<open>Arithmetic of the lock word\<close>

definition ver :: "u8 \<Rightarrow> nat" where "ver w = unat w div 2 mod 32"

lemma locked_odd: "IS_LOCKED w \<longleftrightarrow> odd (unat w)"
proof -
  have "unat (w AND 1) = unat w mod 2" by (simp add: and_one_eq unat_mod)
  then show ?thesis unfolding IS_LOCKED_def by (metis odd_iff_mod_2_eq_one even_iff_mod_2_eq_zero unsigned_0 unat_eq_zero zero_neq_one)
qed

lemma mask_unlocked [simp]: "\<not> IS_LOCKED (w AND UNLOCKED_BIT)"
proof -
  have "(254::u8) AND 1 = 0" by simp
  then show ?thesis unfolding IS_LOCKED_def UNLOCKED_BIT_def by (simp add: and.assoc)
qed

lemma lock_unat: "\<not> IS_LOCKED w \<Longrightarrow> unat (w + 1) = unat w + 1"
proof -
  assume "\<not> IS_LOCKED w"
  then have "even (unat w)" by (simp add: locked_odd)
  moreover have "unat w < 256" using unsigned_less [of w] by simp
  ultimately have "unat w + 1 < 256" by presburger
  then show ?thesis by (simp add: unat_word_ariths)
qed
lemma lock_locks: "\<not> IS_LOCKED w \<Longrightarrow> IS_LOCKED (w + 1)"
  using lock_unat [of w] by (simp add: locked_odd)
lemma lock_ver: "\<not> IS_LOCKED w \<Longrightarrow> ver (w + 1) = ver w"
  using lock_unat [of w] by (simp add: locked_odd ver_def)

lemma unlock_low: "unat (page_unlock w) mod 64 = (unat w + 1) mod 64"
proof -
  have m: "x mod 64 = take_bit 6 x" for x :: u8 by (simp add: take_bit_eq_mod)
  have "take_bit 6 (page_unlock w) = take_bit 6 (w + 1)"
    unfolding page_unlock_def USED_BIT_def CLIENT_BIT_def m by (simp add: take_bit_or take_bit_and)
  then have "unat (take_bit 6 (page_unlock w)) = unat (take_bit 6 (w + 1))" by simp
  then have "unat (page_unlock w) mod 64 = unat (w + 1) mod 64"
    by (simp only: unsigned_take_bit_eq) (simp add: take_bit_eq_mod)
  also have "\<dots> = (unat w + 1) mod 64" by (simp add: unat_word_ariths mod_mod_cancel)
  finally show ?thesis .
qed

lemma half_mod: "n div 2 mod 32 = n mod 64 div 2" for n :: nat
  using mod_mult2_eq [of n 2 32] by simp

lemma odd_mod_64: "odd (n mod 64) \<longleftrightarrow> odd n" for n :: nat
  by (simp add: dvd_mod_iff)

lemma unlock_unlocks: "IS_LOCKED w \<Longrightarrow> \<not> IS_LOCKED (page_unlock w)"
  using unlock_low [of w] odd_mod_64 [of "unat w + 1"] odd_mod_64 [of "unat (page_unlock w)"] unfolding locked_odd by simp

lemma unlock_ver: "IS_LOCKED w \<Longrightarrow> ver (page_unlock w) = (ver w + 1) mod 32"
proof -
  assume "IS_LOCKED w"
  then obtain k where k: "unat w = 2 * k + 1" by (auto simp: locked_odd elim: oddE)
  have "ver (page_unlock w) = (unat w + 1) mod 64 div 2" by (simp add: ver_def half_mod unlock_low)
  also have "\<dots> = (k + 1) mod 32" using half_mod [of "2 * (k + 1)"] k by simp
  finally show ?thesis by (simp add: ver_def k mod_Suc_eq)
qed
section \<open>Invariant with one repairer\<close>

fun slot_of :: "lk_pc \<Rightarrow> nat option" where
  "slot_of (LPublished i) = Some i" | "slot_of (LLoaded i lv) = Some i" | "slot_of (LHolding i) = Some i"
| "slot_of (LUnlocking i cv) = Some i" | "slot_of (LUnlocked i) = Some i" | "slot_of _ = None"

fun holds :: "lk_pc \<Rightarrow> bool" where
  "holds (LHolding i) = True" | "holds (LUnlocking i cv) = True" | "holds _ = False"

definition reg_inv :: "u64 \<Rightarrow> lk_state \<Rightarrow> bool" where
  "reg_inv page s \<longleftrightarrow> page \<noteq> 0 \<and> length (intents s) = kLockIntentSlots
     \<and> (\<forall>t < length (pcs s). \<forall>i. slot_of (pcs s ! t) = Some i \<longrightarrow> i < kLockIntentSlots \<and> intents s ! i = page)
     \<and> (\<forall>t < length (pcs s). \<forall>t' < length (pcs s). \<forall>i. slot_of (pcs s ! t) = Some i \<and> slot_of (pcs s ! t') = Some i \<longrightarrow> t = t')
     \<and> (\<forall>t < length (pcs s). \<forall>i. pcs s ! t = LProbe i \<longrightarrow> i < kLockIntentSlots)"

fun hold_ok :: "u8 \<Rightarrow> lk_pc \<Rightarrow> bool" where
  "hold_ok w (LHolding i) \<longleftrightarrow> IS_LOCKED w" | "hold_ok w (LUnlocking i cv) \<longleftrightarrow> cv = w \<and> IS_LOCKED w"
| "hold_ok w (LLoaded i lv) \<longleftrightarrow> \<not> IS_LOCKED lv" | "hold_ok w _ \<longleftrightarrow> True"

definition one_holder :: "lk_pc list \<Rightarrow> bool" where
  "one_holder ps \<longleftrightarrow> (\<forall>t < length ps. \<forall>t' < length ps. holds (ps ! t) \<longrightarrow> holds (ps ! t') \<longrightarrow> t = t')"

definition hold_inv :: "lk_state \<Rightarrow> bool" where
  "hold_inv s \<longleftrightarrow> (\<forall>t < length (pcs s). hold_ok (word s) (pcs s ! t)) \<and> one_holder (pcs s)"

text \<open>While the repairer that read \<open>lv\<close> is at registry slot \<open>i\<close> of its second scan, either nothing was
  unlocked and a live holder's intent is still ahead of the scan, or the version has moved on.\<close>

fun ahead :: "nat \<Rightarrow> lk_pc \<Rightarrow> bool" where
  "ahead i (LHolding k) \<longleftrightarrow> i \<le> k" | "ahead i (LUnlocking k cv) \<longleftrightarrow> i \<le> k" | "ahead i _ \<longleftrightarrow> True"

definition scan_ok :: "lk_state \<Rightarrow> u8 \<Rightarrow> nat \<Rightarrow> bool" where
  "scan_ok s lv i \<longleftrightarrow>
     (unl s = 0 \<and> word s = lv \<and> IS_LOCKED lv \<and> (\<forall>t < length (pcs s). ahead i (pcs s ! t)))
     \<or> (0 < unl s \<and> ver (word s) = (ver lv + unl s) mod 32)"

fun scan_pos :: "lk_pc \<Rightarrow> (u8 \<times> nat) option" where
  "scan_pos (RScan2 lv i) = Some (lv, i)" | "scan_pos (RCas lv) = Some (lv, kLockIntentSlots)" | "scan_pos _ = None"

definition repair_inv :: "nat \<Rightarrow> lk_state \<Rightarrow> bool" where
  "repair_inv r s \<longleftrightarrow> (\<forall>t < length (pcs s). is_repair (pcs s ! t) \<longrightarrow> t = r)
     \<and> (\<forall>t < length (pcs s). \<forall>lv i. scan_pos (pcs s ! t) = Some (lv, i) \<longrightarrow> scan_ok s lv i)"

lemma home_slot_less: "home_slot p < kLockIntentSlots"
proof -
  have m: "(of_nat kLockIntentSlots - 1 :: u64) = mask 7" by (simp add: kLockIntentSlots_def mask_eq_exp_minus_1)
  have "home_slot p = unat (take_bit 7 (drop_bit 12 p))"
    unfolding home_slot_def m take_bit_eq_mask ..
  then show ?thesis using unat_take_bit_less [of 7] by (simp add: kLockIntentSlots_def)
qed

lemma go_simps [simp]:
  "word (go t pc s) = word s" "intents (go t pc s) = intents s" "unl (go t pc s) = unl s"
  "pcs (go t pc s) = (pcs s)[t := pc]"
  by (simp_all add: go_def)

text \<open>A thread that cannot be a holder moves to a program point that is none: only its own
  obligations are new.\<close>

lemma writer_reg:
  assumes "reg_inv page s" "t < length (pcs s)"
  shows "reg_inv page (writer_step page t b (pcs s ! t) s)"
proof (cases "pcs s ! t")
  case (LProbe i)
  with assms have i: "i < kLockIntentSlots" by (simp add: reg_inv_def)
  have "page \<noteq> 0" using assms(1) by (simp add: reg_inv_def)
  have "slot_of (pcs s ! t') \<noteq> Some i" if "t' < length (pcs s)" "intents s ! i = 0" for t'
    using assms(1) that by (auto simp: reg_inv_def)
  then show ?thesis using assms LProbe i
    by (auto simp: reg_inv_def nth_list_update kLockIntentSlots_def split: if_splits)
qed (use assms in \<open>auto simp: reg_inv_def nth_list_update cas_word_def intent_clear_def split: if_splits\<close>)

lemma hold_ok_irrelevant: "\<not> holds pc \<Longrightarrow> hold_ok w pc \<Longrightarrow> hold_ok w' pc"
  by (cases pc) auto

lemma ahead_irrelevant: "\<not> holds pc \<Longrightarrow> ahead i pc"
  by (cases pc) auto

lemma one_holder_update:
  assumes "one_holder ps" "t < length ps" "holds pc \<Longrightarrow> holds (ps ! t) \<or> (\<forall>t' < length ps. \<not> holds (ps ! t'))"
  shows "one_holder (ps[t := pc])"
proof -
  have "t1 = t2" if "t1 < length ps" "t2 < length ps" "holds (ps[t := pc] ! t1)" "holds (ps[t := pc] ! t2)" for t1 t2
    using assms that unfolding one_holder_def by (metis nth_list_update_eq nth_list_update_neq)
  then show ?thesis by (simp add: one_holder_def)
qed

lemma hold_invI:
  assumes "one_holder (pcs s)" "t < length (pcs s)" "hold_ok (word s') pc" "pcs s' = (pcs s)[t := pc]"
    and "holds pc \<Longrightarrow> holds (pcs s ! t) \<or> (\<forall>t' < length (pcs s). \<not> holds (pcs s ! t'))"
    and "\<And>t'. t' < length (pcs s) \<Longrightarrow> t' \<noteq> t \<Longrightarrow> hold_ok (word s') (pcs s ! t')"
  shows "hold_inv s'"
  unfolding hold_inv_def assms(4) using one_holder_update [OF assms(1,2,5)] assms(2,3,6)
  by (simp add: nth_list_update)

lemma hold_same_word:
  assumes "hold_inv s" "t < length (pcs s)" "hold_ok (word s) pc" "word s' = word s" "pcs s' = (pcs s)[t := pc]"
    and "holds pc \<Longrightarrow> holds (pcs s ! t)"
  shows "hold_inv s'"
  by (rule hold_invI [OF _ assms(2) _ assms(5)]) (use assms in \<open>auto simp: hold_inv_def\<close>)

lemma writer_hold:
  assumes "hold_inv s" "t < length (pcs s)"
  shows "hold_inv (writer_step page t b (pcs s ! t) s)"
proof -
  have ok: "hold_ok (word s) (pcs s ! t')" if "t' < length (pcs s)" for t' using assms(1) that by (simp add: hold_inv_def)
  have one: "one_holder (pcs s)" using assms(1) by (simp add: hold_inv_def)
  note same = hold_same_word [OF assms]
  show ?thesis
  proof (cases "pcs s ! t")
    case (LLoaded i lv)
    then have lv: "\<not> IS_LOCKED lv" using ok [OF assms(2)] by simp
    show ?thesis
    proof (cases "word s = lv")
      case True
      have free: "\<not> holds (pcs s ! t')" if "t' < length (pcs s)" for t'
        using ok [OF that] True lv by (cases "pcs s ! t'") auto
      show ?thesis
        by (rule hold_invI [OF one assms(2), of _ "LHolding i"])
          (use LLoaded True lock_locks [OF lv] free hold_ok_irrelevant [OF free ok] in \<open>simp_all add: cas_word_def\<close>)
    next
      case False
      show ?thesis
        by (rule same [of "if b then LLoaded i (word s AND UNLOCKED_BIT) else LUnlocked i"])
          (use LLoaded False in \<open>auto simp: cas_word_def split: if_splits\<close>)
    qed
  next
    case (LUnlocking i cv)
    have free: "\<not> holds (pcs s ! t')" if "t' < length (pcs s)" "t' \<noteq> t" for t'
      using one LUnlocking that assms(2) unfolding one_holder_def by (metis holds.simps(2))
    show ?thesis
      by (rule hold_invI [OF one assms(2), of _ "LUnlocked i"])
        (use LUnlocking hold_ok_irrelevant [OF free ok] in simp_all)
  next
    case (LProbe i)
    show ?thesis
      by (rule same [of "if intents s ! i = 0 then LPublished i else LProbe ((i + 1) mod kLockIntentSlots)"])
        (use LProbe in \<open>auto split: if_splits\<close>)
  next
    case (LPublished i)
    show ?thesis by (rule same [of "LLoaded i (word s AND UNLOCKED_BIT)"]) (use LPublished in auto)
  next
    case (LHolding i)
    show ?thesis by (rule same [of "LUnlocking i (word s)"]) (use LHolding ok [OF assms(2)] in auto)
  next
    case (LUnlocked i)
    show ?thesis by (rule same [of LIdle]) (use LUnlocked in auto)
  qed (use assms in auto)
qed

lemma scan_ok_step:
  assumes "scan_ok s lv i" "unl s' = unl s" "t < length (pcs s)" "pcs s' = (pcs s)[t := pc]"
    and "0 < unl s \<Longrightarrow> ver (word s') = ver (word s)" "IS_LOCKED (word s) \<Longrightarrow> word s' = word s"
    and "IS_LOCKED (word s) \<Longrightarrow> ahead i (pcs s ! t) \<Longrightarrow> ahead i pc"
  shows "scan_ok s' lv i"
  using assms by (auto simp: scan_ok_def nth_list_update)

lemma repair_invI:
  assumes "repair_inv r s" "t < length (pcs s)" "pcs s' = (pcs s)[t := pc]" "is_repair pc \<Longrightarrow> is_repair (pcs s ! t) \<or> t = r"
    and "\<And>lv i. scan_ok s lv i \<Longrightarrow> scan_ok s' lv i" "\<And>lv i. scan_pos pc = Some (lv, i) \<Longrightarrow> scan_ok s' lv i"
  shows "repair_inv r s'"
  unfolding repair_inv_def assms(3) using assms
  by (auto simp: repair_inv_def nth_list_update split: if_splits)

lemma writer_repair:
  assumes "repair_inv r s" "hold_inv s" "t < length (pcs s)"
  shows "repair_inv r (writer_step page t b (pcs s ! t) s)"
proof -
  have ok: "hold_ok (word s) (pcs s ! t)" using assms by (simp add: hold_inv_def)
  note I = repair_invI [OF assms(1,3)] and S = scan_ok_step [OF _ _ assms(3)]
  show ?thesis
  proof (cases "pcs s ! t")
    case (LLoaded i lv)
    then have lv: "\<not> IS_LOCKED lv" using ok by simp
    show ?thesis
      by (rule I [of _ "if word s = lv then LHolding i else if b then LLoaded i (word s AND UNLOCKED_BIT) else LUnlocked i"],
          goal_cases) (use LLoaded lv lock_ver [OF lv] in \<open>auto simp: cas_word_def intro!: S split: if_splits\<close>)
  next
    case (LUnlocking i cv)
    then have cv: "cv = word s" "IS_LOCKED (word s)" using ok by auto
    have "scan_ok (writer_step page t b (pcs s ! t) s) lv k" if "scan_ok s lv k" for lv k
      using that LUnlocking cv unlock_ver [OF cv(2)] by (auto simp: scan_ok_def mod_Suc_eq)
    then show ?thesis by - (rule I [of _ "LUnlocked i"], use LUnlocking in auto)
  next
    case (LProbe i)
    show ?thesis
      by (rule I [of _ "if intents s ! i = 0 then LPublished i else LProbe ((i + 1) mod kLockIntentSlots)"], goal_cases)
        (use LProbe in \<open>auto intro!: S split: if_splits\<close>)
  next
    case (LPublished i)
    show ?thesis by (rule I [of _ "LLoaded i (word s AND UNLOCKED_BIT)"], goal_cases) (use LPublished in \<open>auto intro!: S\<close>)
  next
    case (LHolding i)
    show ?thesis by (rule I [of _ "LUnlocking i (word s)"], goal_cases) (use LHolding in \<open>auto intro!: S\<close>)
  next
    case (LUnlocked i)
    show ?thesis by (rule I [of _ LIdle], goal_cases) (use LUnlocked in \<open>auto intro!: S\<close>)
  qed (use assms in auto)
qed

lemma ver_shift: "0 < n \<Longrightarrow> n < 32 \<Longrightarrow> ver w \<noteq> (ver w + n) mod 32"
proof
  assume n: "0 < n" "n < 32" and e: "ver w = (ver w + n) mod 32"
  have v: "ver w < 32" by (simp add: ver_def)
  show False
  proof (cases "ver w + n < 32")
    case False
    then have "(ver w + n) mod 32 = ver w + n - 32" using v n by (simp add: mod_if)
    then show False using e n False by linarith
  qed (use e n in simp)
qed

text \<open>What the final compare-exchange of the repair relies on.\<close>

lemma cas_finds_no_holder:
  assumes "repair_inv r s" "reg_inv page s" "t < length (pcs s)" "pcs s ! t = RCas (word s)" "unl s < 32"
    and "t' < length (pcs s)"
  shows "\<not> holds (pcs s ! t')"
proof -
  have "scan_ok s (word s) kLockIntentSlots" using assms(1,3,4) by (simp add: repair_inv_def)
  then have "ahead kLockIntentSlots (pcs s ! t')"
    using ver_shift [of "unl s" "word s"] assms(5,6) by (auto simp: scan_ok_def)
  moreover have "slot_of (pcs s ! t') = Some k \<Longrightarrow> k < kLockIntentSlots" for k
    using assms(2,6) by (simp add: reg_inv_def)
  ultimately show ?thesis by (cases "pcs s ! t'") fastforce+
qed

lemma repair_reg:
  assumes "reg_inv page s" "t < length (pcs s)"
  shows "reg_inv page (repair_step page t (pcs s ! t) s)"
  using assms by (cases "pcs s ! t") (auto simp: reg_inv_def nth_list_update split: if_splits)

lemma repair_hold:
  assumes "hold_inv s" "repair_inv r s" "reg_inv page s" "t < length (pcs s)" "\<And>lv. pcs s ! t = RCas lv \<Longrightarrow> unl s < 32"
  shows "hold_inv (repair_step page t (pcs s ! t) s)"
proof (cases "pcs s ! t")
  case (RCas lv)
  have ok: "hold_ok (word s) (pcs s ! t')" if "t' < length (pcs s)" for t' using assms(1) that by (simp add: hold_inv_def)
  have one: "one_holder (pcs s)" using assms(1) by (simp add: hold_inv_def)
  show ?thesis
  proof (cases "word s = lv")
    case True
    have free: "\<not> holds (pcs s ! t')" if "t' < length (pcs s)" for t'
      by (rule cas_finds_no_holder [OF assms(2,3,4)]) (use RCas True assms(5) that in auto)
    show ?thesis
      by (rule hold_invI [OF one assms(4), of _ LIdle])
        (use RCas True hold_ok_irrelevant [OF free ok] in \<open>simp_all add: cas_word_def\<close>)
  qed (rule hold_same_word [OF assms(1,4), of LIdle], use RCas in \<open>auto simp: cas_word_def\<close>)
next
  case (RScan1 i)
  show ?thesis
    by (rule hold_same_word [OF assms(1,4),
          of "if i < kLockIntentSlots then if intents s ! i = page then LIdle else RScan1 (i + 1) else RReload"])
      (use RScan1 in \<open>auto split: if_splits\<close>)
next
  case RReload
  show ?thesis
    by (rule hold_same_word [OF assms(1,4), of "if IS_LOCKED (word s) then RScan2 (word s) 0 else LIdle"])
      (use RReload in \<open>auto split: if_splits\<close>)
next
  case (RScan2 lv i)
  show ?thesis
    by (rule hold_same_word [OF assms(1,4),
          of "if i < kLockIntentSlots then if intents s ! i = page then LIdle else RScan2 lv (i + 1) else RCas lv"])
      (use RScan2 in \<open>auto split: if_splits\<close>)
qed (use assms in auto)

lemma scan_advances:
  assumes "scan_ok s lv i" "reg_inv page s" "i < kLockIntentSlots" "intents s ! i \<noteq> page"
  shows "\<forall>t < length (pcs s). 0 < unl s \<or> ahead (Suc i) (pcs s ! t)"
proof (intro allI impI)
  fix t' assume t': "t' < length (pcs s)"
  have "slot_of (pcs s ! t') = Some k \<Longrightarrow> intents s ! k = page" for k
    using assms(2) t' by (simp add: reg_inv_def)
  moreover have "0 < unl s \<or> ahead i (pcs s ! t')" using assms(1) t' by (auto simp: scan_ok_def)
  ultimately show "0 < unl s \<or> ahead (Suc i) (pcs s ! t')"
    using assms(4) by (cases "pcs s ! t'") (auto simp: Suc_le_eq le_less)
qed

lemma ahead_mono: "ahead i pc \<Longrightarrow> j \<le> i \<Longrightarrow> ahead j pc"
  by (cases pc) auto

lemma repair_alone:
  assumes "repair_inv r s" "t < length (pcs s)" "is_repair (pcs s ! t)" "pcs s' = (pcs s)[t := pc]"
    and "\<And>lv i. scan_pos pc = Some (lv, i) \<Longrightarrow> scan_ok s' lv i"
  shows "repair_inv r s'"
proof -
  have r: "t = r" using assms(1,2,3) by (simp add: repair_inv_def)
  have other: "\<not> is_repair (pcs s ! t')" if "t' < length (pcs s)" "t' \<noteq> t" for t'
    using assms(1) that r by (auto simp: repair_inv_def)
  then have "scan_pos (pcs s ! t') = None" if "t' < length (pcs s)" "t' \<noteq> t" for t'
    using that by (cases "pcs s ! t'") fastforce+
  then show ?thesis using other r assms(2,5) unfolding repair_inv_def assms(4)
    by (auto simp: nth_list_update)
qed

lemma repair_repair:
  assumes "repair_inv r s" "reg_inv page s" "t < length (pcs s)" "is_repair (pcs s ! t)"
  shows "repair_inv r (repair_step page t (pcs s ! t) s)"
proof (cases "pcs s ! t")
  case (RScan2 lv i)
  have ok: "scan_ok s lv i" using assms(1,3) RScan2 by (simp add: repair_inv_def)
  show ?thesis
  proof (cases "i < kLockIntentSlots \<and> intents s ! i \<noteq> page")
    case True
    have "scan_ok (go t (RScan2 lv (i + 1)) s) lv (i + 1)"
      using ok scan_advances [OF ok assms(2)] True assms(3) by (auto simp: scan_ok_def nth_list_update)
    then show ?thesis
      by - (rule repair_alone [OF assms(1,3,4), of _ "RScan2 lv (i + 1)"], use RScan2 True in auto)
  next
    case False
    have "scan_ok (go t (RCas lv) s) lv kLockIntentSlots" if "\<not> i < kLockIntentSlots"
      using ok that assms(3) ahead_mono [of i _ kLockIntentSlots] by (auto simp: scan_ok_def nth_list_update)
    then show ?thesis
      by - (rule repair_alone [OF assms(1,3,4), of _ "if i < kLockIntentSlots then LIdle else RCas lv"],
          use RScan2 False in \<open>auto split: if_splits\<close>)
  qed
next
  case (RScan1 i)
  show ?thesis
    by (rule repair_alone [OF assms(1,3,4),
          of _ "if i < kLockIntentSlots then if intents s ! i = page then LIdle else RScan1 (i + 1) else RReload"])
      (use RScan1 in \<open>auto split: if_splits\<close>)
next
  case RReload
  have "ahead 0 pc" for pc by (cases pc) auto
  then have "scan_ok (go t (RScan2 (word s) 0) (s\<lparr>unl := 0\<rparr>)) (word s) 0" if "IS_LOCKED (word s)"
    using that by (simp add: scan_ok_def)
  then show ?thesis
    by - (rule repair_alone [OF assms(1,3,4), of _ "if IS_LOCKED (word s) then RScan2 (word s) 0 else LIdle"],
        use RReload in \<open>auto split: if_splits\<close>)
next
  case (RCas lv)
  show ?thesis by (rule repair_alone [OF assms(1,3,4), of _ LIdle]) (use RCas in auto)
qed (use assms in auto)

definition lk_inv :: "u64 \<Rightarrow> nat \<Rightarrow> lk_state \<Rightarrow> bool" where
  "lk_inv page r s \<longleftrightarrow> reg_inv page s \<and> hold_inv s \<and> repair_inv r s"

text \<open>Only thread \<open>r\<close> starts a repair, and its compare-exchange comes before 32 unlocks.\<close>

fun repairs_by :: "nat \<Rightarrow> lk_event \<Rightarrow> bool" where
  "repairs_by r (RStart t) \<longleftrightarrow> t = r" | "repairs_by r _ \<longleftrightarrow> True"

fun in_time :: "lk_state \<Rightarrow> lk_event \<Rightarrow> bool" where
  "in_time s (RStep t) \<longleftrightarrow> (case pcs s ! t of RCas lv \<Rightarrow> unl s < 32 | _ \<Rightarrow> True)" | "in_time s _ \<longleftrightarrow> True"

fun timely :: "u64 \<Rightarrow> lk_event list \<Rightarrow> lk_state \<Rightarrow> bool" where
  "timely page [] s = True"
| "timely page (e # es) s = (in_time s e \<and> (case lk_step page e s of None \<Rightarrow> True | Some s' \<Rightarrow> timely page es s'))"

lemma start_inv:
  assumes "lk_inv page r s" "t < length (pcs s)" "pcs s ! t = LIdle"
    and "pc = LProbe (home_slot page) \<or> pc = RScan1 0 \<and> t = r"
  shows "lk_inv page r (go t pc s)"
proof -
  have "reg_inv page (go t pc s)"
    using assms home_slot_less by (auto simp: lk_inv_def reg_inv_def nth_list_update split: if_splits)
  moreover have "hold_inv (go t pc s)"
    by (rule hold_same_word [of s t pc]) (use assms in \<open>auto simp: lk_inv_def\<close>)
  moreover have "scan_ok (go t pc s) lv i" if "scan_ok s lv i" for lv i
    by (rule scan_ok_step [OF that _ assms(2), of _ pc]) (use assms(4) in auto)
  then have "repair_inv r (go t pc s)"
    by - (rule repair_invI [of r s t _ pc], use assms in \<open>auto simp: lk_inv_def\<close>)
  ultimately show ?thesis by (simp add: lk_inv_def)
qed

lemma foreign_inv:
  assumes "lk_inv page r s" "i < length (intents s)" "intents s ! i \<noteq> page"
  shows "lk_inv page r (s\<lparr>intents := (intents s)[i := v]\<rparr>)"
  using assms by (auto simp: lk_inv_def reg_inv_def hold_inv_def repair_inv_def scan_ok_def nth_list_update)

lemma lk_step_inv [preserve]:
  assumes "lk_inv page r s" "lk_step page e s = Some s'" "repairs_by r e" "in_time s e"
  shows "lk_inv page r s'"
proof (cases e)
  case (EStep t b)
  with assms show ?thesis
    using writer_reg [of page s t b] writer_hold [of s t page b] writer_repair [of r s t page b]
    by (auto simp: lk_inv_def split: if_splits)
next
  case (RStep t)
  then have t: "t < length (pcs s)" "is_repair (pcs s ! t)" "s' = repair_step page t (pcs s ! t) s"
    using assms(2) by (auto split: if_splits)
  moreover have "unl s < 32" if "pcs s ! t = RCas lv" for lv using assms(4) RStep that by simp
  ultimately show ?thesis
    using assms(1) repair_reg [of page s t] repair_hold [of s r page t] repair_repair [of r s page t]
    by (simp add: lk_inv_def)
qed (use assms start_inv [OF assms(1)] foreign_inv [OF assms(1)] in \<open>auto split: if_splits\<close>)

lemma lk_run_inv:
  assumes "lk_inv page r s" "lk_run page es s = Some s'" "list_all (repairs_by r) es" "timely page es s"
  shows "lk_inv page r s'"
  using assms
proof (induction es arbitrary: s)
  case (Cons e es)
  then obtain s1 where s1: "lk_step page e s = Some s1" by (auto split: option.splits)
  then have "lk_inv page r s1" using Cons.prems lk_step_inv by simp
  then show ?case using Cons s1 by simp
qed simp

lemma lk_init_inv: "page \<noteq> 0 \<Longrightarrow> lk_inv page r (lk_init w n)"
  by (simp add: lk_inv_def reg_inv_def hold_inv_def repair_inv_def one_holder_def lk_init_def)

section \<open>Properties of the repair\<close>

lemma holder_word_stable:
  assumes inv: "lk_inv page r s" and t': "t' < length (pcs s)" "holds (pcs s ! t')"
    and step: "lk_step page e s = Some s'" "in_time s e" "\<And>b. e \<noteq> EStep t' b"
  shows "word s' = word s"
proof (cases e)
  case (EStep t b)
  then have t: "t < length (pcs s)" "t \<noteq> t'" "s' = writer_step page t b (pcs s ! t) s"
    using step by (auto split: if_splits)
  have locked: "IS_LOCKED (word s)"
    using inv t' by (cases "pcs s ! t'") (auto simp: lk_inv_def hold_inv_def)
  have ok: "hold_ok (word s) (pcs s ! t)" using inv t(1) by (simp add: lk_inv_def hold_inv_def)
  have "\<not> holds (pcs s ! t)" using inv t(1,2) t' by (auto simp: lk_inv_def hold_inv_def one_holder_def)
  then show ?thesis using t(3) ok locked by (cases "pcs s ! t") (auto simp: cas_word_def)
next
  case (RStep t)
  then have t: "t < length (pcs s)" "s' = repair_step page t (pcs s ! t) s" using step by (auto split: if_splits)
  show ?thesis
  proof (cases "pcs s ! t")
    case (RCas lv)
    then have "unl s < 32" using step(2) RStep by simp
    then have "word s \<noteq> lv" using cas_finds_no_holder [of r s page t t'] inv t(1) t' RCas by (auto simp: lk_inv_def)
    then show ?thesis using t(2) RCas by (simp add: cas_word_def)
  qed (use t in auto)
qed (use step in \<open>auto split: if_splits\<close>)

text \<open>C12. While one thread repairs, locks are never taken away. From any lock word left by a crash
  and an empty registry, let any threads lock and unlock the page in any interleaving with the
  repair steps of a single thread \<open>r\<close>, other pages' intents coming and going, where each repair
  reaches its compare-exchange before 32 unlocks have followed its second load. Then at most one
  thread holds the lock, and no step of another thread changes the lock word under a holder.\<close>

theorem stale_lock_repair_safe:
  assumes "page \<noteq> 0" "lk_run page es (lk_init w n) = Some s"
    and "list_all (repairs_by r) es" "timely page es (lk_init w n)"
  shows "one_holder (pcs s)
    \<and> (\<forall>t' e s'. t' < length (pcs s) \<longrightarrow> holds (pcs s ! t') \<longrightarrow> lk_step page e s = Some s' \<longrightarrow> in_time s e \<longrightarrow>
         (\<forall>b. e \<noteq> EStep t' b) \<longrightarrow> word s' = word s)"
proof -
  have inv: "lk_inv page r s" by (rule lk_run_inv [OF lk_init_inv [OF assms(1)] assms(2-4)])
  then show ?thesis using holder_word_stable [OF inv] by (auto simp: lk_inv_def hold_inv_def)
qed

theorem stale_lock_repair_safe_witness:
  "\<exists>s. lk_run 4096 ([EStart 0, EStep 0 True, EStep 0 True, EStep 0 True, RStart 1] @ replicate 2 (RStep 1)) (lk_init 64 2) = Some s
     \<and> pcs s ! 0 = LHolding 1 \<and> one_holder (pcs s)"
proof -
  let ?es = "[EStart 0, EStep 0 True, EStep 0 True, EStep 0 True, RStart 1] @ replicate 2 (RStep 1)"
  have run: "case lk_run 4096 ?es (lk_init 64 2) of None \<Rightarrow> False | Some s \<Rightarrow> pcs s ! 0 = LHolding 1" by code_simp
  have side: "list_all (repairs_by 1) ?es" "timely 4096 ?es (lk_init 64 2)" by code_simp+
  obtain s where s: "lk_run 4096 ?es (lk_init 64 2) = Some s" "pcs s ! 0 = LHolding 1"
    using run by (auto split: option.splits simp del: lk_run.simps)
  have "one_holder (pcs s)" using stale_lock_repair_safe [OF _ s(1) side] by simp
  then show ?thesis using s by blast
qed

text \<open>Two repairers of one stale lock and one writer.\<close>

definition aba_schedule :: "lk_event list" where
  "aba_schedule = [RStart 0, RStart 1] @ replicate 130 (RStep 0) @ replicate 130 (RStep 1)
     @ replicate 129 (RStep 0) @ replicate 129 (RStep 1)
     @ [RStep 1, EStart 2, EStep 2 True, EStep 2 True, EStep 2 True]"

text \<open>C24. With a second repairer the repair clears a live lock, with no unlock in between: both
  repairers pass their scans on a crash-stale lock, the first one clears it, a writer publishes its
  intent and takes the lock, which gives back the very word the second repairer expects because a
  repair does not advance the version. The second compare-exchange succeeds and the writer holds a
  page whose lock bit is clear.\<close>

theorem two_repairers_clear_live_lock:
  "\<exists>s s'. lk_run 4096 aba_schedule (lk_init 65 3) = Some s \<and> pcs s ! 2 = LHolding 1 \<and> IS_LOCKED (word s) \<and> unl s = 0
     \<and> lk_step 4096 (RStep 0) s = Some s' \<and> pcs s' ! 2 = LHolding 1 \<and> \<not> IS_LOCKED (word s')"
proof -
  have "(case lk_run 4096 aba_schedule (lk_init 65 3) of None \<Rightarrow> False
      | Some s \<Rightarrow> pcs s ! 2 = LHolding 1 \<and> IS_LOCKED (word s) \<and> unl s = 0 \<and>
         (case lk_step 4096 (RStep 0) s of None \<Rightarrow> False
          | Some s' \<Rightarrow> pcs s' ! 2 = LHolding 1 \<and> \<not> IS_LOCKED (word s')))"
    by code_simp
  then show ?thesis by (auto split: option.splits simp del: lk_step.simps lk_run.simps)
qed

section \<open>The registry and the repair as whole calls\<close>

lemma intent_probe_None:
  "i < kLockIntentSlots \<Longrightarrow>
    intent_probe n i r = None \<longleftrightarrow> (\<forall>k < n. r ! ((i + k) mod kLockIntentSlots) \<noteq> 0)"
proof (induction n arbitrary: i)
  case (Suc n)
  have "(\<forall>k < Suc n. r ! ((i + k) mod kLockIntentSlots) \<noteq> 0)
      \<longleftrightarrow> r ! i \<noteq> 0 \<and> (\<forall>k < n. r ! (((i + 1) mod kLockIntentSlots + k) mod kLockIntentSlots) \<noteq> 0)"
    using Suc.prems by (simp add: All_less_Suc2 mod_add_left_eq)
  then show ?case using Suc.IH [of "(i + 1) mod kLockIntentSlots"] by (simp add: kLockIntentSlots_def)
qed simp

lemma intent_probe_Some:
  "intent_probe n i r = Some j \<Longrightarrow> i < kLockIntentSlots \<Longrightarrow> j < kLockIntentSlots \<and> r ! j = 0"
  by (induction n arbitrary: i) (auto simp: kLockIntentSlots_def split: if_splits)

lemma probe_reaches_all:
  assumes "i < kLockIntentSlots" "j < kLockIntentSlots"
  shows "\<exists>k < kLockIntentSlots. (i + k) mod kLockIntentSlots = j"
proof (cases "i \<le> j")
  case True
  then show ?thesis using assms by (intro exI [of _ "j - i"]) auto
next
  case False
  then show ?thesis using assms by (intro exI [of _ "j + kLockIntentSlots - i"]) auto
qed

text \<open>The registry: publishing fails only when all 128 slots are taken (the code then spins);
  a published page is registered until its slot is cleared, and clearing restores the registry.\<close>

theorem lock_intent_registry:
  assumes "length r = kLockIntentSlots" "p \<noteq> 0"
  shows "(intent_publish p r = None \<longleftrightarrow> 0 \<notin> set r)
    \<and> (\<forall>i r'. intent_publish p r = Some (i, r') \<longrightarrow> intent_registered p r' \<and> intent_clear i r' = r)"
proof -
  have "intent_probe kLockIntentSlots (home_slot p) r = None \<longleftrightarrow> (\<forall>j < kLockIntentSlots. r ! j \<noteq> 0)"
    unfolding intent_probe_None [OF home_slot_less] using probe_reaches_all [OF home_slot_less]
    by (metis kLockIntentSlots_def mod_less_divisor zero_less_numeral)
  then have full: "intent_publish p r = None \<longleftrightarrow> 0 \<notin> set r"
    using assms(1) by (auto simp: intent_publish_def in_set_conv_nth split: option.splits)
  have "intent_registered p r' \<and> intent_clear i r' = r" if "intent_publish p r = Some (i, r')" for i r'
  proof -
    have i: "r' = r[i := p]" "i < kLockIntentSlots" "r ! i = 0"
      using that intent_probe_Some [OF _ home_slot_less] by (auto simp: intent_publish_def split: option.splits)
    then have "intent_registered p r'" using assms by (auto simp: intent_registered_def first_idx_None_iff simp del: not_None_eq)
    moreover have "intent_clear i r' = r" using i list_update_id [of r i] by (simp add: intent_clear_def)
    ultimately show ?thesis by simp
  qed
  with full show ?thesis by blast
qed

theorem lock_intent_registry_witness:
  "intent_publish 8192 (replicate 128 0) \<noteq> None"
  using lock_intent_registry [of "replicate 128 0" 8192] by (simp add: kLockIntentSlots_def)

text \<open>A repair that runs undisturbed: an unlocked word is left alone; a locked word whose page is
  registered is left alone and reported busy; otherwise only the lock bit is cleared, keeping the
  version and the USED and CLIENT flags.\<close>

theorem stale_lock_repair_outcome:
  "try_repair_stale_lock page r w =
     (if \<not> IS_LOCKED w then (True, w) else if intent_registered page r then (False, w)
      else (True, w AND UNLOCKED_BIT))
   \<and> ver (w AND UNLOCKED_BIT) = ver w \<and> is_bit_set (w AND UNLOCKED_BIT) USED_BIT = is_bit_set w USED_BIT
   \<and> is_bit_set (w AND UNLOCKED_BIT) CLIENT_BIT = is_bit_set w CLIENT_BIT"
proof -
  have "unat (w AND UNLOCKED_BIT) div 2 = unat w div 2"
  proof -
    have "drop_bit 1 (w AND UNLOCKED_BIT) = drop_bit 1 w"
    proof -
      have m: "drop_bit 1 UNLOCKED_BIT = mask 7" by (simp add: UNLOCKED_BIT_def mask_eq_exp_minus_1 drop_bit_eq_div)
      have "take_bit 7 (drop_bit 1 w) = drop_bit 1 w" by (rule bit_word_eqI) (auto simp: bit_simps dest: bit_imp_le_length)
      then show ?thesis by (simp only: drop_bit_and m take_bit_eq_mask)
    qed
    then have "unat (drop_bit 1 (w AND UNLOCKED_BIT)) = unat (drop_bit 1 w)" by simp
    then show ?thesis by (simp add: drop_bit_eq_div unat_div)
  qed
  then have "ver (w AND UNLOCKED_BIT) = ver w" by (simp add: ver_def)
  moreover have "(w AND UNLOCKED_BIT) AND USED_BIT = w AND USED_BIT" "(w AND UNLOCKED_BIT) AND CLIENT_BIT = w AND CLIENT_BIT"
    by (simp_all add: UNLOCKED_BIT_def USED_BIT_def CLIENT_BIT_def and.assoc)
  ultimately show ?thesis by (auto simp: try_repair_stale_lock_def cas_word_def is_bit_set_def)
qed

section \<open>Optimistic reads against writers\<close>

text \<open>
  \<open>hiom_read_at_offset_status\<close> and \<open>get_value_from_offset\<close> read a record without the lock: load the
  lock word, give up if it is locked, copy the record word by word, and accept the copy if the lock
  word is unchanged. Writers lock, overwrite record words, and unlock. \<open>snap\<close> (the record when the
  reader loaded the lock word) and \<open>cycles\<close> (unlocks since) are history variables.
\<close>

datatype rd_pc = RdIdle | RdCopy u8 "u64 list" | RdDone "u64 list" | RdTransient

record sl_state =
  sl_word :: u8
  sl_data :: "u64 list"
  sl_held :: bool
  sl_rd :: rd_pc
  snap :: "u64 list"
  cycles :: nat

datatype sl_event = WLock | WStore nat u64 | WUnlock | RdLoad | RdCopyWord | RdCheck

fun sl_step :: "sl_event \<Rightarrow> sl_state \<Rightarrow> sl_state option" where
  "sl_step WLock s = (case page_lock (sl_word s) of None \<Rightarrow> None | Some w \<Rightarrow> Some (s\<lparr>sl_word := w, sl_held := True\<rparr>))"
| "sl_step (WStore i v) s = (if sl_held s then Some (s\<lparr>sl_data := (sl_data s)[i := v]\<rparr>) else None)"
| "sl_step WUnlock s =
    (if sl_held s then Some (s\<lparr>sl_word := page_unlock (sl_word s), sl_held := False, cycles := cycles s + 1\<rparr>) else None)"
| "sl_step RdLoad s =
    (if sl_rd s = RdIdle then Some (s\<lparr>sl_rd := (if IS_LOCKED (sl_word s) then RdTransient else RdCopy (sl_word s) []),
                                      snap := sl_data s, cycles := 0\<rparr>) else None)"
| "sl_step RdCopyWord s =
    (case sl_rd s of
       RdCopy lv buf \<Rightarrow> if length buf < length (sl_data s)
                        then Some (s\<lparr>sl_rd := RdCopy lv (buf @ [sl_data s ! length buf])\<rparr>) else None
     | _ \<Rightarrow> None)"
| "sl_step RdCheck s =
    (case sl_rd s of
       RdCopy lv buf \<Rightarrow> if length buf = length (sl_data s)
                        then Some (s\<lparr>sl_rd := (if lv \<noteq> sl_word s then RdTransient else RdDone buf)\<rparr>) else None
     | _ \<Rightarrow> None)"

fun sl_run :: "sl_event list \<Rightarrow> sl_state \<Rightarrow> sl_state option" where
  "sl_run [] s = Some s"
| "sl_run (e # es) s = (case sl_step e s of None \<Rightarrow> None | Some s' \<Rightarrow> sl_run es s')"

definition sl_init :: "u8 \<Rightarrow> u64 list \<Rightarrow> sl_state" where
  "sl_init w d = \<lparr>sl_word = w, sl_data = d, sl_held = False, sl_rd = RdIdle, snap = d, cycles = 0\<rparr>"

text \<open>Up to the first unlock after the load the version stands still, and while nobody holds the lock
  the record is the snapshot and the copy a prefix of it.\<close>

definition copy_ok :: "sl_state \<Rightarrow> u8 \<Rightarrow> u64 list \<Rightarrow> bool" where
  "copy_ok s lv buf \<longleftrightarrow> \<not> IS_LOCKED lv \<and> ver (sl_word s) = (ver lv + cycles s) mod 32
     \<and> length buf \<le> length (sl_data s)
     \<and> (cycles s = 0 \<and> \<not> sl_held s \<longrightarrow> sl_word s = lv \<and> sl_data s = snap s \<and> buf = take (length buf) (snap s))"

definition sl_inv :: "sl_state \<Rightarrow> bool" where
  "sl_inv s \<longleftrightarrow> (sl_held s \<longrightarrow> IS_LOCKED (sl_word s))
     \<and> (case sl_rd s of RdCopy lv buf \<Rightarrow> copy_ok s lv buf
        | RdDone buf \<Rightarrow> cycles s < 32 \<longrightarrow> buf = snap s | _ \<Rightarrow> True)"

lemma page_lock_Some: "page_lock w = Some w' \<longleftrightarrow> \<not> IS_LOCKED w \<and> w' = w + 1"
proof -
  have "w AND UNLOCKED_BIT = w" if "\<not> IS_LOCKED w"
  proof -
    have "w AND 1 = 0" using that by (simp add: IS_LOCKED_def)
    then have w0: "\<not> bit w 0" by (simp add: and_one_eq bit_0 mod_2_eq_odd)
    have ub: "bit UNLOCKED_BIT n \<longleftrightarrow> n < 8 \<and> n \<noteq> 0" for n
    proof -
      have u: "UNLOCKED_BIT = NOT 1" by (simp add: UNLOCKED_BIT_def)
      show ?thesis unfolding u by (simp add: bit_not_iff bit_1_iff del: not_one_eq)
    qed
    show ?thesis
    proof (rule bit_word_eqI)
      fix n :: nat
      show "bit (w AND UNLOCKED_BIT) n = bit w n" if "n < LENGTH(8)"
        using that w0 by (cases "n = 0") (simp_all add: bit_and_iff ub)
    qed
  qed
  moreover have "w AND UNLOCKED_BIT \<noteq> w" if "IS_LOCKED w" using that mask_unlocked [of w] by metis
  ultimately show ?thesis by (cases "IS_LOCKED w") (auto simp: page_lock_def cas_word_def Let_def)
qed

lemma sl_step_inv [preserve]: "sl_inv s \<Longrightarrow> sl_step e s = Some s' \<Longrightarrow> sl_inv s'"
proof (induction e s rule: sl_step.induct)
  case (1 s)
  then show ?case
    by (auto simp: sl_inv_def copy_ok_def page_lock_Some lock_locks lock_ver split: option.splits rd_pc.splits)
next
  case (2 i v s)
  then show ?case by (auto simp: sl_inv_def copy_ok_def split: if_splits rd_pc.splits)
next
  case (3 s)
  then show ?case by (auto simp: sl_inv_def copy_ok_def unlock_ver mod_Suc_eq split: if_splits rd_pc.splits)
next
  case (4 s)
  have "ver w mod 32 = ver w" for w by (simp add: ver_def)
  with 4 show ?case by (auto simp: sl_inv_def copy_ok_def split: if_splits)
next
  case (5 s)
  then show ?case
    by (auto simp: sl_inv_def copy_ok_def take_Suc_conv_app_nth split: if_splits rd_pc.splits)
next
  case (6 s)
  have "buf = snap s" if "copy_ok s (sl_word s) buf" "length buf = length (sl_data s)" "cycles s < 32" for buf
  proof -
    have "\<not> 0 < cycles s" using that(1,3) ver_shift [of "cycles s" "sl_word s"] by (auto simp: copy_ok_def)
    moreover have "\<not> sl_held s" using that(1) 6(1) by (auto simp: copy_ok_def sl_inv_def)
    ultimately show ?thesis using that(1,2) by (auto simp: copy_ok_def)
  qed
  with 6 show ?case by (auto simp: sl_inv_def split: if_splits rd_pc.splits)
qed

lemma sl_run_inv: "sl_inv s \<Longrightarrow> sl_run es s = Some s' \<Longrightarrow> sl_inv s'"
  by (induction es arbitrary: s) (auto split: option.splits dest: sl_step_inv)

text \<open>C11. An accepted optimistic read is never torn: in any interleaving of the reader with writers
  that lock, overwrite parts of the record and unlock, if the reader accepts its copy and fewer than
  32 unlocks happened meanwhile, the copy is the record as it stood when the reader began. Any lock
  word and record may be there at the start, a crash-stale lock included.\<close>

theorem optimistic_read_not_torn:
  assumes "sl_run es (sl_init w d) = Some s" "sl_rd s = RdDone buf" "cycles s < 32"
  shows "buf = snap s"
proof -
  have "sl_inv (sl_init w d)" by (simp add: sl_inv_def sl_init_def)
  then have "sl_inv s" using assms(1) sl_run_inv by blast
  then show ?thesis using assms(2,3) by (simp add: sl_inv_def)
qed

theorem optimistic_read_not_torn_witness:
  "\<exists>s. sl_run [RdLoad, RdCopyWord, RdCopyWord, RdCheck, WLock, WStore 0 9, WUnlock] (sl_init 64 [1, 2]) = Some s
     \<and> sl_rd s = RdDone [1, 2] \<and> snap s = [1, 2] \<and> sl_data s = [9, 2]"
proof -
  let ?es = "[RdLoad, RdCopyWord, RdCopyWord, RdCheck, WLock, WStore 0 9, WUnlock]"
  have "case sl_run ?es (sl_init 64 [1, 2]) of None \<Rightarrow> False
      | Some s \<Rightarrow> sl_rd s = RdDone [1, 2] \<and> sl_data s = [9, 2] \<and> cycles s < 32" by code_simp
  then obtain s where s: "sl_run ?es (sl_init 64 [1, 2]) = Some s" "sl_rd s = RdDone [1, 2]" "sl_data s = [9, 2]" "cycles s < 32"
    by (auto split: option.splits simp del: sl_run.simps)
  then have "[1, 2] = snap s" using optimistic_read_not_torn by blast
  then show ?thesis using s by auto
qed

text \<open>The bound is exact: 32 complete lock cycles bring the version back, and a reader interrupted
  by them accepts a record mixed from two states.\<close>

theorem version_wraps_after_32_cycles:
  "\<exists>s. sl_run ([RdLoad, RdCopyWord] @ concat (replicate 32 [WLock, WStore 0 7, WStore 1 8, WUnlock]) @ [RdCopyWord, RdCheck])
       (sl_init 64 [1, 2]) = Some s \<and> sl_rd s = RdDone [1, 8] \<and> cycles s = 32"
proof -
  have "case sl_run ([RdLoad, RdCopyWord] @ concat (replicate 32 [WLock, WStore 0 7, WStore 1 8, WUnlock]) @ [RdCopyWord, RdCheck])
       (sl_init 64 [1, 2]) of None \<Rightarrow> False | Some s \<Rightarrow> sl_rd s = RdDone [1, 8] \<and> cycles s = 32" by code_simp
  then show ?thesis by (auto split: option.splits simp del: sl_run.simps)
qed

end
