(* ===== verification/Cceh.thy ===== *)
theory Cceh
  imports Offset_Codec
begin

text \<open>
  The volatile offset map of Viper (cceh.hpp): extendible hashing with 1024-slot segments, a
  16-slot probe window, lazy invalidation after a split, and a directory that doubles. The model
  is one thread at a time: the segment semaphore and the directory lock are free when an operation
  starts, so every compare-exchange succeeds; what the code does with its local variables around
  them is kept. Segments live in a heap (a list) and the directory holds their indices, since
  several directory entries share one segment. Shift amounts of 64 (a directory of depth 0) are
  undefined behaviour in C++; the invariant asks for depth at least 1.
\<close>

section \<open>Constants and data\<close>

definition SENTINEL :: u64 where "SENTINEL = 0xFFFFFFFFFFFFFFFE"
definition INVALID :: u64 where "INVALID = 0xFFFFFFFFFFFFFFFF"

definition kSegmentBits :: nat where "kSegmentBits = 8"
definition kMask :: u64 where "kMask = mask kSegmentBits"
definition kSegmentSize :: nat where "kSegmentSize = 2 ^ kSegmentBits * 16 * 4"
definition kNumPairPerCacheLine :: nat where "kNumPairPerCacheLine = 4"
definition kNumCacheLine :: nat where "kNumCacheLine = 4"
definition kNumSlot :: nat where "kNumSlot = kSegmentSize div 16"
definition kWindow :: nat where "kWindow = kNumPairPerCacheLine * kNumCacheLine"

text \<open>\<open>Pair\<close>: the index key (fingerprint or key word) and the record offset.\<close>

record Pair =
  p_key :: u64
  p_value :: u64

definition empty_pair :: Pair where "empty_pair = \<lparr>p_key = INVALID, p_value = Tombstone\<rparr>"

record Segment =
  seg_slots :: "Pair list"
  local_depth :: nat
  pattern :: nat

record CCEH =
  dir_depth :: nat
  dir_segs :: "nat list"
  heap :: "Segment list"

text \<open>
  What the template parameter \<open>KeyType\<close> decides: whether keys are larger than 8 bytes and only
  their hash is kept (\<open>requires_fingerprint\<close>), the hash of a key and of a stored key word
  (\<open>std::_Hash_bytes\<close>), and the word of a small key.
\<close>

record 'k KeyTraits =
  using_fp :: bool
  hash_key :: "'k \<Rightarrow> u64"
  key_word :: "'k \<Rightarrow> u64"
  hash_word :: "u64 \<Rightarrow> u64"

definition key_checker :: "'k KeyTraits \<Rightarrow> 'k \<Rightarrow> u64" where
  "key_checker T k = (if using_fp T then hash_key T k else key_word T k)"

definition slot_hash :: "'k KeyTraits \<Rightarrow> u64 \<Rightarrow> u64" where
  "slot_hash T w = (if using_fp T then w else hash_word T w)"

text \<open>The \<open>d\<close> leading bits of a hash: \<open>key_hash >> (8 * sizeof(key_hash) - d)\<close>.\<close>

definition prefix :: "nat \<Rightarrow> u64 \<Rightarrow> nat" where
  "prefix d hsh = unat (drop_bit (64 - d) hsh)"

definition home_loc :: "u64 \<Rightarrow> nat" where
  "home_loc hsh = unat (hsh AND kMask) * kNumPairPerCacheLine"

section \<open>Segments\<close>

datatype ins_result = InsOk u64 Segment | InsFull Segment | InsRetry

text \<open>
  The probe loop of \<open>Segment::Insert\<close> from window position \<open>i\<close>, \<open>n\<close> positions left. \<open>lk\<close> is the
  local variable \<open>LOCK\<close>, the expected value of the claiming compare-exchange; a failed
  compare-exchange leaves the slot's key in it, and only the last branch resets it.
\<close>

fun insert_loop :: "'k KeyTraits \<Rightarrow> ('k \<Rightarrow> u64 \<Rightarrow> bool) \<Rightarrow> 'k \<Rightarrow> u64 \<Rightarrow> nat \<Rightarrow> nat \<Rightarrow> nat \<Rightarrow> u64 \<Rightarrow> nat \<Rightarrow> nat \<Rightarrow>
    Pair list \<Rightarrow> u64 option \<times> Pair list" where
  "insert_loop T check k v ld pat loc lk i 0 ps = (None, ps)"
| "insert_loop T check k v ld pat loc lk i (Suc n) ps =
    (let slot = (loc + i) mod kNumSlot;
         key0 = p_key (ps ! slot);
         invalidate = (key0 \<noteq> INVALID \<and> prefix ld (slot_hash T key0) \<noteq> pat);
         ps1 = (if invalidate then ps[slot := empty_pair] else ps);
         cur = ps1 ! slot
     in if p_key cur = lk then
          (Some (p_value cur),
           ps1[slot := \<lparr>p_key = (if is_tombstone v then INVALID else key_checker T k), p_value = v\<rparr>])
        else if p_key cur = key_checker T k then
          if using_fp T \<and> \<not> check k (p_value cur)
          then insert_loop T check k v ld pat loc (p_key cur) (i + 1) n ps1
          else (Some (p_value cur),
                ps1[slot := \<lparr>p_key = (if is_tombstone v then INVALID else p_key cur), p_value = v\<rparr>])
        else insert_loop T check k v ld pat loc INVALID (i + 1) n ps1)"

definition seg_insert :: "'k KeyTraits \<Rightarrow> ('k \<Rightarrow> u64 \<Rightarrow> bool) \<Rightarrow> 'k \<Rightarrow> u64 \<Rightarrow> nat \<Rightarrow> u64 \<Rightarrow> Segment \<Rightarrow> ins_result" where
  "seg_insert T check k v loc hsh s =
    (if prefix (local_depth s) hsh \<noteq> pattern s then InsRetry
     else case insert_loop T check k v (local_depth s) (pattern s) loc INVALID 0 kWindow (seg_slots s) of
            (Some old, ps) \<Rightarrow> InsOk old (s\<lparr>seg_slots := ps\<rparr>)
          | (None, ps) \<Rightarrow> InsFull (s\<lparr>seg_slots := ps\<rparr>))"

definition insert4split :: "u64 \<Rightarrow> u64 \<Rightarrow> nat \<Rightarrow> Pair list \<Rightarrow> Pair list" where
  "insert4split key v loc ps =
    (case first_idx kWindow (\<lambda>i. p_key (ps ! ((loc + i) mod kNumSlot)) = INVALID) of
       None \<Rightarrow> ps
     | Some i \<Rightarrow> ps[(loc + i) mod kNumSlot := \<lparr>p_key = key, p_value = v\<rparr>])"

definition split_slot :: "'k KeyTraits \<Rightarrow> nat \<Rightarrow> Pair \<Rightarrow> Pair list \<Rightarrow> Pair list" where
  "split_slot T ld p ps =
    (let hsh = slot_hash T (p_key p)
     in if hsh AND push_bit (64 - ld - 1) 1 \<noteq> 0 then insert4split (p_key p) (p_value p) (home_loc hsh) ps else ps)"

text \<open>\<open>Segment::Split\<close>: the old segment keeps its slots, the new one receives copies of the pairs
  whose next hash bit is set.\<close>

definition seg_split :: "'k KeyTraits \<Rightarrow> Segment \<Rightarrow> Segment \<times> Segment" where
  "seg_split T s =
    (s\<lparr>local_depth := local_depth s + 1\<rparr>,
     \<lparr>seg_slots = fold (split_slot T (local_depth s)) (seg_slots s) (replicate kNumSlot empty_pair),
      local_depth = local_depth s + 1, pattern = 0\<rparr>)"

section \<open>Directory\<close>

definition cceh_new :: "nat \<Rightarrow> CCEH" where
  "cceh_new depth = \<lparr>dir_depth = depth, dir_segs = [0..<2 ^ depth],
     heap = map (\<lambda>i. \<lparr>seg_slots = replicate kNumSlot empty_pair, local_depth = depth, pattern = i\<rparr>) [0..<2 ^ depth]\<rparr>"

text \<open>The directory update after a split of the segment at entry \<open>x\<close>, whose depth is now \<open>ld\<close>, with
  the new segment \<open>s1\<close>: the buddy entry, the upper half of the chunk, or a doubled directory.\<close>

definition dir_split :: "nat \<Rightarrow> nat \<Rightarrow> nat \<Rightarrow> nat \<Rightarrow> nat \<times> nat list \<Rightarrow> nat \<times> nat list" where
  "dir_split x ld s0 s1 dd =
    (case dd of (depth, d) \<Rightarrow>
       if ld - 1 < depth then
         if depth - ld = 0 then
           if x mod 2 = 0 then (depth, d[x + 1 := s1]) else (depth, d[x := s1])
         else
           let chunk_size = 2 ^ (depth - (ld - 1)); x0 = x - x mod chunk_size
           in (depth, fold (\<lambda>i d. d[x0 + chunk_size div 2 + i := s1]) [0..<chunk_size div 2] d)
       else (depth + 1, concat (map (\<lambda>i. if i = x then [s0, s1] else [d ! i, d ! i]) [0..<length d])))"

definition cceh_split :: "'k KeyTraits \<Rightarrow> u64 \<Rightarrow> nat \<Rightarrow> CCEH \<Rightarrow> CCEH" where
  "cceh_split T hsh target m =
    (case seg_split T (heap m ! target) of (s0, s1) \<Rightarrow>
       let s0' = s0\<lparr>pattern := prefix (local_depth s0 - 1) hsh * 2\<rparr>;
           s1' = s1\<lparr>pattern := prefix (local_depth s1 - 1) hsh * 2 + 1\<rparr>;
           x = prefix (dir_depth m) hsh;
           dd = dir_split x (local_depth s0') target (length (heap m)) (dir_depth m, dir_segs m)
       in m\<lparr>dir_depth := fst dd, dir_segs := snd dd, heap := (heap m)[target := s0'] @ [s1']\<rparr>)"

text \<open>\<open>CCEH::Insert\<close>; \<open>None\<close> when \<open>n\<close> rounds of insert and split were not enough.\<close>

fun cceh_insert :: "nat \<Rightarrow> 'k KeyTraits \<Rightarrow> ('k \<Rightarrow> u64 \<Rightarrow> bool) \<Rightarrow> 'k \<Rightarrow> u64 \<Rightarrow> CCEH \<Rightarrow> (u64 \<times> CCEH) option" where
  "cceh_insert 0 T check k v m = None"
| "cceh_insert (Suc n) T check k v m =
    (let hsh = hash_key T k;
         target = dir_segs m ! prefix (dir_depth m) hsh
     in case seg_insert T check k v (home_loc hsh) hsh (heap m ! target) of
          InsOk old s \<Rightarrow> Some (old, m\<lparr>heap := (heap m)[target := s]\<rparr>)
        | InsRetry \<Rightarrow> cceh_insert n T check k v m
        | InsFull s \<Rightarrow> cceh_insert n T check k v (cceh_split T hsh target (m\<lparr>heap := (heap m)[target := s]\<rparr>)))"

definition seg_get :: "'k KeyTraits \<Rightarrow> ('k \<Rightarrow> u64 \<Rightarrow> bool) \<Rightarrow> 'k \<Rightarrow> nat \<Rightarrow> Segment \<Rightarrow> u64" where
  "seg_get T check k loc s =
    (case first_idx kWindow (\<lambda>i. let p = seg_slots s ! ((loc + i) mod kNumSlot)
                               in p_key p = key_checker T k \<and> (using_fp T \<longrightarrow> check k (p_value p))) of
       None \<Rightarrow> Tombstone
     | Some i \<Rightarrow> p_value (seg_slots s ! ((loc + i) mod kNumSlot)))"

definition cceh_get :: "'k KeyTraits \<Rightarrow> ('k \<Rightarrow> u64 \<Rightarrow> bool) \<Rightarrow> 'k \<Rightarrow> CCEH \<Rightarrow> u64" where
  "cceh_get T check k m =
    (let hsh = hash_key T k
     in seg_get T check k (home_loc hsh) (heap m ! (dir_segs m ! prefix (dir_depth m) hsh)))"

definition cceh_capacity :: "CCEH \<Rightarrow> nat" where
  "cceh_capacity m = card (set (dir_segs m)) * kNumSlot"

text \<open>\<open>dram_bytes\<close> counts a segment each time the directory entry differs from the one before;
  directory and segment sizes are those of the build.\<close>

fun adjacent_runs :: "nat option \<Rightarrow> nat list \<Rightarrow> nat" where
  "adjacent_runs prev [] = 0"
| "adjacent_runs prev (x # xs) = (if Some x \<noteq> prev then 1 else 0) + adjacent_runs (Some x) xs"

definition cceh_dram_bytes :: "nat \<Rightarrow> nat \<Rightarrow> CCEH \<Rightarrow> nat" where
  "cceh_dram_bytes dir_size seg_size m =
    dir_size + length (dir_segs m) * 8 + adjacent_runs None (dir_segs m) * seg_size"

section \<open>Probe windows\<close>

abbreviation win :: "nat \<Rightarrow> nat \<Rightarrow> nat" where "win loc i \<equiv> (loc + i) mod kNumSlot"

lemma kNumSlot_val: "kNumSlot = 1024" and kWindow_val: "kWindow = 16"
  by (simp_all add: kNumSlot_def kSegmentSize_def kSegmentBits_def kWindow_def kNumPairPerCacheLine_def kNumCacheLine_def)

lemma win_less: "win loc i < kNumSlot" by (simp add: kNumSlot_val)

lemma win_inj:
  assumes "i < kWindow" "j < kWindow" "win loc i = win loc j"
  shows "i = j"
proof -
  have "i = j" if "i \<le> j" "win loc i = win loc j" "j < 16" for i j :: nat
  proof -
    have "(loc + j) mod 1024 = (loc + i) mod 1024" using that(2) by (simp add: kNumSlot_val)
    then have "1024 dvd (loc + j) - (loc + i)" by (simp add: mod_eq_dvd_iff_nat that(1))
    then have "1024 dvd j - i" by simp
    then show "i = j" using that by (auto dest: dvd_imp_le)
  qed
  then show ?thesis using assms kWindow_val by (metis nle_le)
qed

definition matches :: "'k KeyTraits \<Rightarrow> ('k \<Rightarrow> u64 \<Rightarrow> bool) \<Rightarrow> 'k \<Rightarrow> Pair \<Rightarrow> bool" where
  "matches T check k p \<longleftrightarrow> p_key p = key_checker T k \<and> (using_fp T \<longrightarrow> check k (p_value p))"

lemma seg_get_eq:
  "seg_get T check k loc s =
    (case first_idx kWindow (\<lambda>i. matches T check k (seg_slots s ! win loc i)) of
       None \<Rightarrow> Tombstone | Some i \<Rightarrow> p_value (seg_slots s ! win loc i))"
  by (simp add: seg_get_def matches_def Let_def)

text \<open>One round of the probe loop, with the slot after lazy invalidation named.\<close>

lemma insert_loop_round:
  fixes ps loc i T ld pat
  defines "slot \<equiv> win loc i"
  defines "ps1 \<equiv> (if p_key (ps ! slot) \<noteq> INVALID \<and> prefix ld (slot_hash T (p_key (ps ! slot))) \<noteq> pat
                    then ps[slot := empty_pair] else ps)"
  shows "insert_loop T check k v ld pat loc lk i (Suc n) ps =
    (if p_key (ps1 ! slot) = lk then
       (Some (p_value (ps1 ! slot)),
        ps1[slot := \<lparr>p_key = (if is_tombstone v then INVALID else key_checker T k), p_value = v\<rparr>])
     else if matches T check k (ps1 ! slot) then
       (Some (p_value (ps1 ! slot)),
        ps1[slot := \<lparr>p_key = (if is_tombstone v then INVALID else p_key (ps1 ! slot)), p_value = v\<rparr>])
     else insert_loop T check k v ld pat loc
            (if p_key (ps1 ! slot) = key_checker T k then key_checker T k else INVALID) (i + 1) n ps1)"
  unfolding slot_def ps1_def by (auto simp: Let_def matches_def)

declare insert_loop.simps(2) [simp del]

lemma insert_loop_length [simp]: "length (snd (insert_loop T check k v ld pat loc lk i n ps)) = length ps"
proof (induction n arbitrary: lk i ps)
  case (Suc n)
  then show ?case unfolding insert_loop_round by simp
qed simp

lemma insert_loop_outside:
  "\<forall>t. i \<le> t \<and> t < i + n \<longrightarrow> win loc t \<noteq> q \<Longrightarrow> snd (insert_loop T check k v ld pat loc lk i n ps) ! q = ps ! q"
proof (induction n arbitrary: lk i ps)
  case (Suc n)
  have "win loc i \<noteq> q" using Suc.prems by (metis add_Suc_right le_add1 le_refl less_Suc_eq_le)
  moreover have "\<forall>t. i + 1 \<le> t \<and> t < i + 1 + n \<longrightarrow> win loc t \<noteq> q" using Suc.prems by auto
  note IH = Suc.IH [OF this]
  ultimately show ?case unfolding insert_loop_round by (simp add: IH)
qed simp

lemma insert_loop_found:
  assumes "insert_loop T check k v ld pat loc lk i n ps = (Some old, ps')" "i + n \<le> kWindow" "length ps = kNumSlot"
    and "\<not> is_tombstone v"
  shows "\<exists>j. i \<le> j \<and> j < i + n \<and> ps' ! win loc j = \<lparr>p_key = key_checker T k, p_value = v\<rparr>
    \<and> (\<forall>t. i \<le> t \<and> t < j \<longrightarrow> \<not> matches T check k (ps' ! win loc t))"
  using assms(1-3)
proof (induction n arbitrary: lk i ps)
  case (Suc n)
  let ?s = "win loc i"
  define ps1 where "ps1 = (if p_key (ps ! ?s) \<noteq> INVALID \<and> prefix ld (slot_hash T (p_key (ps ! ?s))) \<noteq> pat
                    then ps[?s := empty_pair] else ps)"
  have l1: "length ps1 = kNumSlot" using Suc.prems(3) by (simp add: ps1_def)
  then have len: "?s < length ps1" using win_less by simp
  note run = Suc.prems(1) [unfolded insert_loop_round, folded ps1_def]
  show ?case
  proof (cases "p_key (ps1 ! ?s) = lk \<or> matches T check k (ps1 ! ?s)")
    case True
    then have "ps' ! ?s = \<lparr>p_key = key_checker T k, p_value = v\<rparr>"
      using run assms(4) len by (auto simp: matches_def split: if_splits)
    then show ?thesis by (intro exI [of _ i]) auto
  next
    case False
    then have rec: "insert_loop T check k v ld pat loc
        (if p_key (ps1 ! ?s) = key_checker T k then key_checker T k else INVALID) (i + 1) n ps1 = (Some old, ps')"
      using run by (simp split: if_splits)
    obtain j where j: "i + 1 \<le> j" "j < i + 1 + n" "ps' ! win loc j = \<lparr>p_key = key_checker T k, p_value = v\<rparr>"
      "\<forall>t. i + 1 \<le> t \<and> t < j \<longrightarrow> \<not> matches T check k (ps' ! win loc t)"
      using Suc.IH [OF rec _ l1] Suc.prems(2) by auto
    have "win loc t \<noteq> ?s" if "i + 1 \<le> t" "t < i + 1 + n" for t
      using win_inj [of t i loc] that Suc.prems(2) by auto
    then have "ps' ! ?s = ps1 ! ?s" using insert_loop_outside [of "i + 1" n loc ?s] rec by (metis snd_conv)
    then have "\<not> matches T check k (ps' ! win loc t)" if "i \<le> t" "t < j" for t
      using False j(4) that by (cases "t = i") auto
    then show ?thesis using j by (intro exI [of _ j]) auto
  qed
qed simp

lemma seg_insert_get:
  assumes "seg_insert T check k v loc hsh s = InsOk old s'" "length (seg_slots s) = kNumSlot"
    and "\<not> is_tombstone v" "using_fp T \<Longrightarrow> check k v"
  shows "seg_get T check k loc s' = v"
proof -
  obtain ps where ps: "insert_loop T check k v (local_depth s) (pattern s) loc INVALID 0 kWindow (seg_slots s) = (Some old, ps)"
    "s' = s\<lparr>seg_slots := ps\<rparr>"
    using assms(1) by (auto simp: seg_insert_def split: if_splits option.splits prod.splits)
  obtain j where j: "j < kWindow" "ps ! win loc j = \<lparr>p_key = key_checker T k, p_value = v\<rparr>"
    "\<forall>t < j. \<not> matches T check k (ps ! win loc t)"
    using insert_loop_found [OF ps(1) _ assms(2,3)] by auto
  then have "first_idx kWindow (\<lambda>i. matches T check k (ps ! win loc i)) = Some j"
    using assms(4) by (auto simp: first_idx_Some_iff matches_def)
  then show ?thesis using j ps(2) by (simp add: seg_get_eq)
qed

section \<open>Other keys\<close>

text \<open>A slot that holds key word \<open>c\<close> is untouched and no slot comes to hold it.\<close>

definition keeps :: "u64 \<Rightarrow> Pair list \<Rightarrow> Pair list \<Rightarrow> bool" where
  "keeps c ps ps' \<longleftrightarrow> (\<forall>q < length ps. (p_key (ps ! q) = c \<longrightarrow> ps' ! q = ps ! q) \<and> (p_key (ps ! q) \<noteq> c \<longrightarrow> p_key (ps' ! q) \<noteq> c))"

lemma keeps_refl: "keeps c ps ps" by (simp add: keeps_def)

lemma keeps_trans: "keeps c ps ps1 \<Longrightarrow> keeps c ps1 ps2 \<Longrightarrow> length ps1 = length ps \<Longrightarrow> keeps c ps ps2"
  by (auto simp: keeps_def)

lemma keeps_update: "p_key (ps ! q) \<noteq> c \<Longrightarrow> p_key p \<noteq> c \<Longrightarrow> keeps c ps (ps[q := p])"
  by (cases "q < length ps") (auto simp: keeps_def nth_list_update)

lemma insert_loop_keeps:
  assumes "c \<noteq> INVALID" "c \<noteq> key_checker T k" "prefix ld (slot_hash T c) = pat" "lk \<in> {INVALID, key_checker T k}"
  shows "keeps c ps (snd (insert_loop T check k v ld pat loc lk i n ps))"
  using assms(4)
proof (induction n arbitrary: lk i ps)
  case (Suc n)
  let ?s = "win loc i"
  define ps1 where "ps1 = (if p_key (ps ! ?s) \<noteq> INVALID \<and> prefix ld (slot_hash T (p_key (ps ! ?s))) \<noteq> pat
                    then ps[?s := empty_pair] else ps)"
  have k1: "keeps c ps ps1" and len: "length ps1 = length ps"
    using assms(1,3) by (auto simp: ps1_def empty_pair_def keeps_refl intro!: keeps_update)
  have "keeps c ps1 (snd (insert_loop T check k v ld pat loc lk i (Suc n) ps))"
    unfolding insert_loop_round ps1_def [symmetric]
    using Suc.prems assms(1,2) by (auto simp: matches_def keeps_update Suc.IH)
  then show ?case using k1 len keeps_trans by blast
qed (simp add: keeps_refl)

lemma seg_insert_other:
  assumes "seg_insert T check k v loc hsh s = InsOk old s' \<or> seg_insert T check k v loc hsh s = InsFull s'" "length (seg_slots s) = kNumSlot"
    and "key_checker T k' \<noteq> key_checker T k" "key_checker T k' \<noteq> INVALID"
    and "prefix (local_depth s) (slot_hash T (key_checker T k')) = pattern s"
  shows "seg_get T check k' loc' s' = seg_get T check k' loc' s"
proof -
  obtain r ps where ps: "insert_loop T check k v (local_depth s) (pattern s) loc INVALID 0 kWindow (seg_slots s) = (r, ps)"
    "s' = s\<lparr>seg_slots := ps\<rparr>"
    using assms(1) by (auto simp: seg_insert_def split: if_splits option.splits prod.splits)
  have k: "keeps (key_checker T k') (seg_slots s) ps"
    using insert_loop_keeps [OF assms(4,3,5), of INVALID "seg_slots s" check v loc 0 kWindow] ps(1) by simp
  have q: "win loc' i < length (seg_slots s)" for i using assms(2) win_less by simp
  have "matches T check k' (ps ! win loc' i) = matches T check k' (seg_slots s ! win loc' i)" for i
    using k q [of i] by (auto simp: keeps_def matches_def)
  moreover have "ps ! win loc' i = seg_slots s ! win loc' i" if "matches T check k' (seg_slots s ! win loc' i)" for i
    using k q [of i] that by (auto simp: keeps_def matches_def)
  ultimately show ?thesis
    unfolding seg_get_eq ps(2) by (simp add: fun_eq_iff split: option.split) (metis first_idx_SomeD)
qed

section \<open>The directory invariant\<close>

text \<open>A segment of depth \<open>ld\<close> serves exactly the directory entries whose \<open>ld\<close> leading bits are its
  pattern.\<close>

definition seg_ok :: "nat \<Rightarrow> nat \<Rightarrow> Segment \<Rightarrow> bool" where
  "seg_ok depth i s \<longleftrightarrow> 1 \<le> local_depth s \<and> local_depth s \<le> depth \<and> i div 2 ^ (depth - local_depth s) = pattern s
     \<and> length (seg_slots s) = kNumSlot"

definition cceh_inv :: "CCEH \<Rightarrow> bool" where
  "cceh_inv m \<longleftrightarrow> 1 \<le> dir_depth m \<and> length (dir_segs m) = 2 ^ dir_depth m
     \<and> (\<forall>i < 2 ^ dir_depth m. dir_segs m ! i < length (heap m) \<and> seg_ok (dir_depth m) i (heap m ! (dir_segs m ! i)))"

lemma prefix_eq: "prefix e hsh = unat hsh div 2 ^ (64 - e)"
proof -
  have "unat hsh < 2 ^ 64" using unsigned_less [of hsh] by simp
  then have "take_bit 64 (unat hsh) = unat hsh" by (simp add: take_bit_nat_eq_self)
  then show ?thesis unfolding prefix_def unsigned_drop_bit_eq by (simp add: drop_bit_eq_div)
qed

lemma prefix_less: "d \<le> 64 \<Longrightarrow> prefix d hsh < 2 ^ d"
proof -
  assume d: "d \<le> 64"
  have "unat hsh < 2 ^ 64" using unsigned_less [of hsh] by simp
  then have "unat hsh < 2 ^ d * 2 ^ (64 - d)" using d by (simp flip: power_add)
  then show ?thesis by (simp add: prefix_eq less_mult_imp_div_less)
qed

lemma prefix_div: "ld \<le> d \<Longrightarrow> d \<le> 64 \<Longrightarrow> prefix d hsh div 2 ^ (d - ld) = prefix ld hsh"
proof -
  assume a: "ld \<le> d" "d \<le> 64"
  then have "64 - ld = (64 - d) + (d - ld)" by simp
  then show ?thesis by (simp add: prefix_eq div_mult2_eq power_add)
qed

lemma fold_fill:
  "length (fold (\<lambda>i d. d[a + i := s]) [0..<n] d) = length d"
  "i < length d \<Longrightarrow> fold (\<lambda>i d. d[a + i := s]) [0..<n] d ! i = (if a \<le> i \<and> i < a + n then s else d ! i)"
  by (induction n) (auto simp: nth_list_update less_Suc_eq)

lemma chunk_start: "x - x mod c = (x div c) * c" for x c :: nat
  by (simp add: minus_mod_eq_div_mult)

lemma div_bounds: "0 < h \<Longrightarrow> i div h = q \<longleftrightarrow> h * q \<le> i \<and> i < h * Suc q" for h :: nat
  using times_div_less_eq_dividend [of h i] dividend_less_times_div [of h i] by (auto intro: div_nat_eqI)

lemma even_half: "a div 2 = p \<Longrightarrow> a \<noteq> 2 * p + 1 \<Longrightarrow> a = 2 * p" for a :: nat
  by presburger

lemma dir_split_normal:
  assumes "ld < depth" "x < length d"
  shows "fst (dir_split x (Suc ld) s0 s1 (depth, d)) = depth"
    and "length (snd (dir_split x (Suc ld) s0 s1 (depth, d))) = length d"
    and "i < length d \<Longrightarrow> snd (dir_split x (Suc ld) s0 s1 (depth, d)) ! i =
      (if i div 2 ^ (depth - Suc ld) = 2 * (x div 2 ^ (depth - ld)) + 1 then s1 else d ! i)"
proof -
  let ?h = "2 ^ (depth - Suc ld) :: nat"
  have chunk: "2 ^ (depth - ld) = 2 * ?h" using assms(1) by (metis Suc_diff_Suc power_Suc)
  have upper: "i div ?h = 2 * q + 1 \<longleftrightarrow> q * (2 * ?h) + ?h \<le> i \<and> i < q * (2 * ?h) + ?h + ?h" for i q
    using div_bounds [of ?h i "2 * q + 1"] by (simp add: algebra_simps)
  have one: "i = (if x mod 2 = 0 then x + 1 else x) \<longleftrightarrow> i = 2 * (x div 2) + 1" for i by presburger
  show "fst (dir_split x (Suc ld) s0 s1 (depth, d)) = depth"
    "length (snd (dir_split x (Suc ld) s0 s1 (depth, d))) = length d"
    using assms(1) by (simp_all add: dir_split_def Let_def fold_fill(1))
  assume i: "i < length d"
  show "snd (dir_split x (Suc ld) s0 s1 (depth, d)) ! i =
      (if i div ?h = 2 * (x div 2 ^ (depth - ld)) + 1 then s1 else d ! i)"
  proof (cases "depth - Suc ld = 0")
    case True
    then have "2 ^ (depth - ld) = (2 :: nat)" using chunk by simp
    moreover have "snd (dir_split x (Suc ld) s0 s1 (depth, d)) = d[(if x mod 2 = 0 then x + 1 else x) := s1]"
      using assms(1) True by (simp add: dir_split_def)
    ultimately show ?thesis using True i one [of i] by (auto simp: nth_list_update)
  next
    case False
    then have "snd (dir_split x (Suc ld) s0 s1 (depth, d)) =
        fold (\<lambda>j d. d[x - x mod (2 * ?h) + ?h + j := s1]) [0..<?h] d"
      using assms(1) chunk by (simp add: dir_split_def Let_def)
    then show ?thesis unfolding chunk upper using i by (simp add: fold_fill(2) chunk_start)
  qed
qed

lemma concat_pairs:
  "length (concat (map (\<lambda>i. [f i, g i]) [0..<n])) = 2 * n"
  "j < 2 * n \<Longrightarrow> concat (map (\<lambda>i. [f i, g i]) [0..<n]) ! j = (if even j then f (j div 2) else g (j div 2))"
proof (induction n)
  case (Suc n)
  { case 1 then show ?case using Suc by simp }
  { case 2
    then consider "j < 2 * n" | "j = 2 * n" | "j = Suc (2 * n)" by (metis less_2_cases_iff less_SucE mult_Suc_right add_2_eq_Suc)
    then show ?case using Suc by cases (auto simp: nth_append) }
qed simp_all

lemma dir_split_double:
  assumes "\<not> ld < depth" "x < length d"
  shows "fst (dir_split x (Suc ld) s0 s1 (depth, d)) = depth + 1"
    and "length (snd (dir_split x (Suc ld) s0 s1 (depth, d))) = 2 * length d"
    and "j < 2 * length d \<Longrightarrow> snd (dir_split x (Suc ld) s0 s1 (depth, d)) ! j =
      (if j div 2 = x then if even j then s0 else s1 else d ! (j div 2))"
proof -
  let ?f = "\<lambda>i. if i = x then s0 else d ! i" and ?g = "\<lambda>i. if i = x then s1 else d ! i"
  have "(\<lambda>i. if i = x then [s0, s1] else [d ! i, d ! i]) = (\<lambda>i. [?f i, ?g i])" by auto
  then have *: "dir_split x (Suc ld) s0 s1 (depth, d) = (depth + 1, concat (map (\<lambda>i. [?f i, ?g i]) [0..<length d]))"
    using assms(1) by (simp add: dir_split_def)
  show "fst (dir_split x (Suc ld) s0 s1 (depth, d)) = depth + 1"
    "length (snd (dir_split x (Suc ld) s0 s1 (depth, d))) = 2 * length d"
    unfolding * by (simp_all only: fst_conv snd_conv concat_pairs)
  show "j < 2 * length d \<Longrightarrow> snd (dir_split x (Suc ld) s0 s1 (depth, d)) ! j =
      (if j div 2 = x then if even j then s0 else s1 else d ! (j div 2))"
    unfolding * snd_conv by (subst concat_pairs(2)) auto
qed

lemma insert4split_length [simp]: "length (insert4split key v loc ps) = length ps"
  by (simp add: insert4split_def split: option.split)

lemma seg_split_fields:
  "local_depth (fst (seg_split T s)) = Suc (local_depth s)" "local_depth (snd (seg_split T s)) = Suc (local_depth s)"
  "seg_slots (fst (seg_split T s)) = seg_slots s" "length (seg_slots (snd (seg_split T s))) = kNumSlot"
proof -
  have "length (fold (split_slot T ld) qs ps) = length ps" for ld qs ps
    by (induction qs arbitrary: ps) (auto simp: split_slot_def Let_def)
  then show "local_depth (fst (seg_split T s)) = Suc (local_depth s)" "local_depth (snd (seg_split T s)) = Suc (local_depth s)"
    "seg_slots (fst (seg_split T s)) = seg_slots s" "length (seg_slots (snd (seg_split T s))) = kNumSlot"
    by (simp_all add: seg_split_def)
qed

text \<open>Where the entries of a split segment go: below and above the middle of its chunk.\<close>

lemma cceh_split_inv:
  assumes inv: "cceh_inv m" and d: "dir_depth m \<le> 64" and ld64: "local_depth (heap m ! target) < 64"
    and t: "target = dir_segs m ! prefix (dir_depth m) hsh"
  shows "cceh_inv (cceh_split T hsh target m)" "dir_depth (cceh_split T hsh target m) \<le> 64"
proof -
  let ?depth = "dir_depth m" and ?d = "dir_segs m" and ?s = "heap m ! target"
  let ?ld = "local_depth ?s"
  define x where "x = prefix ?depth hsh"
  define s0 where "s0 = (fst (seg_split T ?s))\<lparr>pattern := prefix ?ld hsh * 2\<rparr>"
  define s1 where "s1 = (snd (seg_split T ?s))\<lparr>pattern := prefix ?ld hsh * 2 + 1\<rparr>"
  define dd where "dd = dir_split x (Suc ?ld) target (length (heap m)) (?depth, ?d)"
  have m': "cceh_split T hsh target m = m\<lparr>dir_depth := fst dd, dir_segs := snd dd, heap := (heap m)[target := s0] @ [s1]\<rparr>"
    by (simp add: cceh_split_def Let_def s0_def s1_def dd_def x_def seg_split_fields case_prod_unfold)
  have len: "length ?d = 2 ^ ?depth" "1 \<le> ?depth" using inv by (simp_all add: cceh_inv_def)
  have x: "x < 2 ^ ?depth" using d prefix_less by (simp add: x_def)
  have segs: "?d ! i < length (heap m)" "seg_ok ?depth i (heap m ! (?d ! i))" if "i < 2 ^ ?depth" for i
    using inv that by (simp_all add: cceh_inv_def)
  have tx: "?d ! x = target" using t by (simp add: x_def)
  have ld: "1 \<le> ?ld" "?ld \<le> ?depth" "length (seg_slots ?s) = kNumSlot" and tl: "target < length (heap m)"
    using segs [OF x] by (auto simp: seg_ok_def tx)
  have p: "x div 2 ^ (?depth - ?ld) = prefix ?ld hsh" using prefix_div [OF ld(2)] d by (simp add: x_def)
  have same: "i div 2 ^ (?depth - ?ld) = prefix ?ld hsh" if "i < 2 ^ ?depth" "?d ! i = target" for i
    using segs(2) [OF that(1)] segs(2) [OF x] that(2) tx p by (simp add: seg_ok_def)
  have h': "((heap m)[target := s0] @ [s1]) ! j = (if j = length (heap m) then s1 else if j = target then s0 else heap m ! j)"
    if "j \<le> length (heap m)" for j using that tl by (auto simp: nth_append nth_list_update)
  have fields: "local_depth s0 = Suc ?ld" "local_depth s1 = Suc ?ld" "length (seg_slots s0) = kNumSlot"
    "length (seg_slots s1) = kNumSlot" "pattern s0 = prefix ?ld hsh * 2" "pattern s1 = prefix ?ld hsh * 2 + 1"
    using ld(3) by (simp_all add: s0_def s1_def seg_split_fields)
  have "fst dd \<le> 64 \<and> 1 \<le> fst dd \<and> length (snd dd) = 2 ^ fst dd
     \<and> (\<forall>i < 2 ^ fst dd. snd dd ! i \<le> length (heap m) \<and> seg_ok (fst dd) i (((heap m)[target := s0] @ [s1]) ! (snd dd ! i)))"
  proof (cases "?ld < ?depth")
    case True
    note N = dir_split_normal [where d = ?d and x = x and ?s0.0 = target and ?s1.0 = "length (heap m)", OF True, unfolded len(1), OF x, folded dd_def]
    have chunk: "?depth - ?ld = Suc (?depth - Suc ?ld)" using True by simp
    have half: "i div 2 ^ (?depth - ?ld) = i div 2 ^ (?depth - Suc ?ld) div 2" for i :: nat
      unfolding chunk power_Suc2 by (rule div_mult2_eq)
    have "seg_ok ?depth i (((heap m)[target := s0] @ [s1]) ! (snd dd ! i))" "snd dd ! i \<le> length (heap m)" if i: "i < 2 ^ ?depth" for i
    proof -
      consider "i div 2 ^ (?depth - Suc ?ld) = 2 * prefix ?ld hsh + 1"
        | "?d ! i = target" "i div 2 ^ (?depth - Suc ?ld) \<noteq> 2 * prefix ?ld hsh + 1"
        | "?d ! i \<noteq> target" "i div 2 ^ (?depth - Suc ?ld) \<noteq> 2 * prefix ?ld hsh + 1" by blast
      then show "seg_ok ?depth i (((heap m)[target := s0] @ [s1]) ! (snd dd ! i))"
      proof cases
        case 1
        then show ?thesis using N(3) [OF i] p h' fields True by (simp add: seg_ok_def)
      next
        case 2
        have "i div 2 ^ (?depth - Suc ?ld) = 2 * prefix ?ld hsh"
          using even_half [OF _ 2(2)] same [OF i 2(1)] half [of i] by simp
        then show ?thesis using N(3) [OF i] 2 p h' fields tl True by (simp add: seg_ok_def)
      next
        case 3
        then show ?thesis using N(3) [OF i] p h' segs [OF i] by (simp add: less_imp_le)
      qed
      show "snd dd ! i \<le> length (heap m)" using N(3) [OF i] segs(1) [OF i] by auto
    qed
    then show ?thesis using N(1,2) len d by simp
  next
    case False
    note D = dir_split_double [where d = ?d and x = x and ?s0.0 = target and ?s1.0 = "length (heap m)", OF False, unfolded len(1), OF x, folded dd_def]
    have eq: "?ld = ?depth" using False ld(2) by simp
    have "seg_ok (?depth + 1) j (((heap m)[target := s0] @ [s1]) ! (snd dd ! j))" "snd dd ! j \<le> length (heap m)" if j: "j < 2 * 2 ^ ?depth" for j
    proof -
      have i: "j div 2 < 2 ^ ?depth" using j by simp
      show "seg_ok (?depth + 1) j (((heap m)[target := s0] @ [s1]) ! (snd dd ! j))"
      proof (cases "j div 2 = x")
        case True
        then have "j = (if even j then 2 * x else 2 * x + 1)" by auto
        then show ?thesis using D(3) [OF j] True h' fields eq tl p by (auto simp: seg_ok_def)
      next
        case False
        have "?d ! (j div 2) \<noteq> target" using same [OF i] p eq False by auto
        moreover have "seg_ok (?depth + 1) j s" if "seg_ok ?depth (j div 2) s" for s
          using that by (auto simp: seg_ok_def Suc_diff_le div_mult2_eq)
        ultimately show ?thesis using D(3) [OF j] False h' segs [OF i] by (simp add: less_imp_le)
      qed
      show "snd dd ! j \<le> length (heap m)" using D(3) [OF j] segs(1) [OF i] tl by auto
    qed
    then show ?thesis using D(1,2) ld64 eq by simp
  qed
  then show "cceh_inv (cceh_split T hsh target m)" "dir_depth (cceh_split T hsh target m) \<le> 64"
    unfolding m' by (auto simp: cceh_inv_def less_Suc_eq_le)
qed

section \<open>The whole map\<close>

lemma seg_insert_fields:
  "seg_insert T check k v loc hsh s = InsOk old s' \<or> seg_insert T check k v loc hsh s = InsFull s' \<Longrightarrow>
    local_depth s' = local_depth s \<and> pattern s' = pattern s \<and> length (seg_slots s') = length (seg_slots s)"
proof -
  have "length ps = length (seg_slots s)"
    if "insert_loop T check k v (local_depth s) (pattern s) loc INVALID 0 kWindow (seg_slots s) = (r, ps)" for r ps
    using insert_loop_length that by (metis snd_conv)
  then show "seg_insert T check k v loc hsh s = InsOk old s' \<or> seg_insert T check k v loc hsh s = InsFull s' \<Longrightarrow> ?thesis"
    by (auto simp: seg_insert_def split: if_splits option.splits prod.splits)
qed

lemma replace_segment_inv:
  assumes "cceh_inv m" "target < length (heap m)" "local_depth s' = local_depth (heap m ! target)"
    "pattern s' = pattern (heap m ! target)" "length (seg_slots s') = length (seg_slots (heap m ! target))"
  shows "cceh_inv (m\<lparr>heap := (heap m)[target := s']\<rparr>)"
  using assms by (auto simp: cceh_inv_def seg_ok_def nth_list_update)

text \<open>In a well-formed map the routed segment accepts the key's pattern, so there is no retry.\<close>

lemma routed_segment:
  assumes "cceh_inv m" "dir_depth m \<le> 64" and t: "target = dir_segs m ! prefix (dir_depth m) hsh"
  shows "target < length (heap m)" "length (seg_slots (heap m ! target)) = kNumSlot"
    "prefix (local_depth (heap m ! target)) hsh = pattern (heap m ! target)"
    "seg_insert T check k v loc hsh (heap m ! target) \<noteq> InsRetry"
proof -
  let ?s = "heap m ! target"
  have x: "prefix (dir_depth m) hsh < 2 ^ dir_depth m" using assms(2) by (rule prefix_less)
  then have ok: "seg_ok (dir_depth m) (prefix (dir_depth m) hsh) ?s" and tl: "target < length (heap m)"
    using assms(1) t by (auto simp: cceh_inv_def)
  have pat: "prefix (local_depth ?s) hsh = pattern ?s"
    using ok prefix_div [OF _ assms(2), of "local_depth ?s" hsh] by (simp add: seg_ok_def)
  then show "target < length (heap m)" "length (seg_slots ?s) = kNumSlot" "prefix (local_depth ?s) hsh = pattern ?s"
    using tl ok by (simp_all add: seg_ok_def)
  show "seg_insert T check k v loc hsh ?s \<noteq> InsRetry"
    using pat by (auto simp: seg_insert_def split: option.splits prod.splits)
qed

lemma cceh_new_inv: "1 \<le> depth \<Longrightarrow> cceh_inv (cceh_new depth)"
  by (auto simp: cceh_inv_def cceh_new_def seg_ok_def)

section \<open>Duplicates and the stale claim value\<close>

text \<open>A segment of depth 1 with two pairs at the start of one probe window.\<close>

definition pairs_at :: "nat \<Rightarrow> Pair \<Rightarrow> Pair \<Rightarrow> Pair list" where
  "pairs_at loc a b = (replicate kNumSlot empty_pair)[loc := a, Suc loc := b]"

definition one_segment :: "nat \<Rightarrow> Pair \<Rightarrow> Pair \<Rightarrow> Segment" where
  "one_segment loc a b = \<lparr>seg_slots = pairs_at loc a b, local_depth = 1, pattern = 0\<rparr>"

lemma pairs_at_simps:
  "Suc loc < kNumSlot \<Longrightarrow> pairs_at loc a b ! loc = a" "Suc loc < kNumSlot \<Longrightarrow> pairs_at loc a b ! Suc loc = b"
  "(pairs_at loc a b)[loc := a'] = pairs_at loc a' b" "(pairs_at loc a b)[Suc loc := b'] = pairs_at loc a b'"
  by (simp_all add: pairs_at_def list_update_swap)

text \<open>The pair that an insert of \<open>v\<close> leaves in the slot it takes.\<close>

definition put_pair :: "'k KeyTraits \<Rightarrow> 'k \<Rightarrow> u64 \<Rightarrow> Pair" where
  "put_pair T k v = \<lparr>p_key = (if is_tombstone v then INVALID else key_checker T k), p_value = v\<rparr>"

lemma insert_first:
  assumes "Suc loc < kNumSlot" "prefix 1 hsh = 0" "p_key a = INVALID \<or> matches T check k a"
    and "p_key a \<noteq> INVALID \<Longrightarrow> prefix 1 (slot_hash T (p_key a)) = 0"
  shows "seg_insert T check k v loc hsh (one_segment loc a b) = InsOk (p_value a) (one_segment loc (put_pair T k v) b)"
proof -
  obtain n where w: "kWindow = Suc n" by (rule that [of 15]) (simp add: kWindow_val)
  show ?thesis using assms unfolding seg_insert_def one_segment_def w
    by (auto simp: insert_loop_round pairs_at_simps put_pair_def matches_def)
qed

lemma insert_second:
  assumes "Suc loc < kNumSlot" "prefix 1 hsh = 0" "p_key a \<noteq> INVALID" "\<not> matches T check k a"
    and "p_key b = (if p_key a = key_checker T k then key_checker T k else INVALID)"
    and "prefix 1 (slot_hash T (p_key a)) = 0" "p_key b \<noteq> INVALID \<Longrightarrow> prefix 1 (slot_hash T (p_key b)) = 0"
  shows "seg_insert T check k v loc hsh (one_segment loc a b) = InsOk (p_value b) (one_segment loc a (put_pair T k v))"
proof -
  obtain n where w: "kWindow = Suc (Suc n)" by (rule that [of 14]) (simp add: kWindow_val)
  show ?thesis using assms unfolding seg_insert_def one_segment_def w
    by (auto simp: insert_loop_round pairs_at_simps put_pair_def)
qed

text \<open>C29. A removed key comes back. When a key's entry sits behind a slot that was freed in the
  meantime, the next insert of the key takes the freed slot and reports no previous offset; after the
  key is removed, the lookup finds the old entry again. Here \<open>k\<close> has its entry in the second slot of
  its window and the first slot is free; \<open>v\<close> is the updated offset.\<close>

theorem cceh_removed_key_returns:
  assumes "Suc loc < kNumSlot" "prefix 1 hsh = 0" "p_key a = INVALID" "p_value a = Tombstone" "matches T check k b"
    and "key_checker T k \<noteq> INVALID" "prefix 1 (slot_hash T (key_checker T k)) = 0"
    and "\<not> is_tombstone v" "using_fp T \<longrightarrow> check k v"
  shows "seg_insert T check k v loc hsh (one_segment loc a b) = InsOk Tombstone (one_segment loc (put_pair T k v) b)
    \<and> seg_insert T check k Tombstone loc hsh (one_segment loc (put_pair T k v) b)
        = InsOk v (one_segment loc (put_pair T k Tombstone) b)
    \<and> seg_get T check k loc (one_segment loc (put_pair T k Tombstone) b) = p_value b"
proof -
  have tomb: "is_tombstone Tombstone" by (simp add: is_tombstone_def Tombstone_def)
  have "first_idx kWindow (\<lambda>i. matches T check k (pairs_at loc (put_pair T k Tombstone) b ! win loc i)) = Some 1"
    using assms(1,5,6) tomb by (auto simp: first_idx_Some_iff kWindow_val pairs_at_simps matches_def put_pair_def)
  then have "seg_get T check k loc (one_segment loc (put_pair T k Tombstone) b) = p_value b"
    using assms(1) by (simp add: seg_get_eq one_segment_def pairs_at_simps)
  moreover have "seg_insert T check k v loc hsh (one_segment loc a b) = InsOk Tombstone (one_segment loc (put_pair T k v) b)"
    using insert_first [of loc hsh a T check k v b] assms by simp
  moreover have "seg_insert T check k Tombstone loc hsh (one_segment loc (put_pair T k v) b)
        = InsOk (p_value (put_pair T k v)) (one_segment loc (put_pair T k Tombstone) b)"
    by (rule insert_first [OF assms(1,2)]) (use assms(7-9) in \<open>auto simp: matches_def put_pair_def\<close>)
  ultimately show ?thesis by (simp add: put_pair_def)
qed

definition word_keys :: "u64 KeyTraits" where
  "word_keys = \<lparr>using_fp = False, hash_key = (\<lambda>k. k), key_word = (\<lambda>k. k), hash_word = (\<lambda>w. w)\<rparr>"

theorem cceh_removed_key_returns_witness:
  "seg_get word_keys (\<lambda>_ _. True) 257 4 (one_segment 4 (put_pair word_keys 257 Tombstone) \<lparr>p_key = 257, p_value = 20\<rparr>) = 20"
  using cceh_removed_key_returns [of 4 257 empty_pair word_keys "\<lambda>_ _. True" 257 "\<lparr>p_key = 257, p_value = 20\<rparr>" 30]
  by (simp add: kNumSlot_val prefix_def empty_pair_def word_keys_def matches_def key_checker_def slot_hash_def
      INVALID_def is_tombstone_def INVALID_OFFSET_def drop_bit_eq_div)

text \<open>C30. The claim value goes stale. Fingerprinted keys \<open>k\<close>, \<open>k1\<close> and \<open>k2\<close> with one hash, \<open>k1\<close> and \<open>k2\<close> in
  adjacent slots: the insert of \<open>k\<close> rejects the first by comparing keys, keeps its fingerprint as the
  expected value, and the compare-exchange then claims the second slot, overwriting the entry of \<open>k2\<close>
  and returning the offset of \<open>k2\<close> as the previous offset of \<open>k\<close>.\<close>

theorem cceh_collision_overwrites:
  assumes "Suc loc < kNumSlot" "prefix 1 hsh = 0" "using_fp T" "key_checker T k \<noteq> INVALID"
    and "prefix 1 (key_checker T k) = 0" "p_key a = key_checker T k" "p_key b = key_checker T k" "\<not> check k (p_value a)"
  shows "seg_insert T check k v loc hsh (one_segment loc a b) = InsOk (p_value b) (one_segment loc a (put_pair T k v))"
  by (rule insert_second [OF assms(1,2)]) (use assms(3-) in \<open>auto simp: matches_def slot_hash_def\<close>)

definition colliding_keys :: "u64 KeyTraits" where
  "colliding_keys = \<lparr>using_fp = True, hash_key = (\<lambda>_. 5), key_word = (\<lambda>k. k), hash_word = (\<lambda>w. w)\<rparr>"

theorem cceh_collision_overwrites_witness:
  "seg_insert colliding_keys (\<lambda>k off. off = 100 + k) 3 103 20 5 (one_segment 20 \<lparr>p_key = 5, p_value = 102\<rparr> \<lparr>p_key = 5, p_value = 101\<rparr>)
    = InsOk 101 (one_segment 20 \<lparr>p_key = 5, p_value = 102\<rparr> \<lparr>p_key = 5, p_value = 103\<rparr>)"
  using cceh_collision_overwrites [of 20 5 colliding_keys 3 "\<lparr>p_key = 5, p_value = 102\<rparr>" "\<lparr>p_key = 5, p_value = 101\<rparr>"
      "\<lambda>k off. off = 100 + k" 103]
  by (simp add: kNumSlot_val prefix_def colliding_keys_def key_checker_def put_pair_def INVALID_def
      is_tombstone_def INVALID_OFFSET_def drop_bit_eq_div)

end
