(* ===== verification/Cceh_Props.thy ===== *)
theory Cceh_Props
  imports Cceh
begin

text \<open>
  Inserts into the offset map with splits. A split keeps every entry readable as long as no pair of the
  segment has wrapped around its end; a key whose hash is shared by few pairs finds room after at most as
  many splits as the hash has bits left. Together: an insert returns, its key reads the new offset, and
  every other key reads what it read before.
\<close>

section \<open>Routing\<close>

text \<open>All directory entries that share the pattern of a segment lead to it.\<close>

definition chunked :: "CCEH \<Rightarrow> bool" where
  "chunked m \<longleftrightarrow> (\<forall>i < 2 ^ dir_depth m. \<forall>j < 2 ^ dir_depth m. let s = heap m ! (dir_segs m ! i)
     in j div 2 ^ (dir_depth m - local_depth s) = pattern s \<longrightarrow> dir_segs m ! j = dir_segs m ! i)"

abbreviation seg_of :: "CCEH \<Rightarrow> u64 \<Rightarrow> nat" where
  "seg_of m hsh \<equiv> dir_segs m ! prefix (dir_depth m) hsh"

lemma chunkedD:
  "chunked m \<Longrightarrow> i < 2 ^ dir_depth m \<Longrightarrow> j < 2 ^ dir_depth m \<Longrightarrow>
    j div 2 ^ (dir_depth m - local_depth (heap m ! (dir_segs m ! i))) = pattern (heap m ! (dir_segs m ! i)) \<Longrightarrow> dir_segs m ! j = dir_segs m ! i"
  unfolding chunked_def Let_def by blast

lemma cceh_invD:
  assumes "cceh_inv m" "i < 2 ^ dir_depth m"
  shows "dir_segs m ! i < length (heap m)" "1 \<le> local_depth (heap m ! (dir_segs m ! i))" "local_depth (heap m ! (dir_segs m ! i)) \<le> dir_depth m"
    "i div 2 ^ (dir_depth m - local_depth (heap m ! (dir_segs m ! i))) = pattern (heap m ! (dir_segs m ! i))" "length (dir_segs m) = 2 ^ dir_depth m"
  using assms by (auto simp: cceh_inv_def seg_ok_def)

text \<open>The two halves of a split segment, and the map after it.\<close>

definition low_half :: "'k KeyTraits \<Rightarrow> u64 \<Rightarrow> Segment \<Rightarrow> Segment" where
  "low_half T hsh s = (fst (seg_split T s))\<lparr>pattern := prefix (local_depth s) hsh * 2\<rparr>"

definition high_half :: "'k KeyTraits \<Rightarrow> u64 \<Rightarrow> Segment \<Rightarrow> Segment" where
  "high_half T hsh s = (snd (seg_split T s))\<lparr>pattern := prefix (local_depth s) hsh * 2 + 1\<rparr>"

lemma half_fields [simp]:
  "local_depth (low_half T hsh s) = Suc (local_depth s)" "local_depth (high_half T hsh s) = Suc (local_depth s)"
  "seg_slots (low_half T hsh s) = seg_slots s" "pattern (low_half T hsh s) = prefix (local_depth s) hsh * 2"
  "pattern (high_half T hsh s) = prefix (local_depth s) hsh * 2 + 1"
  by (simp_all add: low_half_def high_half_def seg_split_fields)

lemma split_parts:
  fixes T hsh target m
  defines "s \<equiv> heap m ! target" and "m' \<equiv> cceh_split T hsh target m"
  defines "dd \<equiv> dir_split (prefix (dir_depth m) hsh) (Suc (local_depth s)) target (length (heap m)) (dir_depth m, dir_segs m)"
  shows "heap m' = (heap m)[target := low_half T hsh s] @ [high_half T hsh s]" "dir_depth m' = fst dd" "dir_segs m' = snd dd"
  by (simp_all add: m'_def s_def dd_def cceh_split_def Let_def low_half_def high_half_def seg_split_fields case_prod_unfold)

lemma split_heap:
  assumes "target < length (heap m)"
  shows "heap (cceh_split T hsh target m) ! target = low_half T hsh (heap m ! target)"
    "heap (cceh_split T hsh target m) ! length (heap m) = high_half T hsh (heap m ! target)"
    "i < length (heap m) \<Longrightarrow> i \<noteq> target \<Longrightarrow> heap (cceh_split T hsh target m) ! i = heap m ! i"
    "length (heap (cceh_split T hsh target m)) = Suc (length (heap m))"
  using assms by (simp_all add: split_parts nth_append)

lemma div_half: "d < e \<Longrightarrow> i div 2 ^ (e - d) = i div 2 ^ (e - Suc d) div 2" for i d e :: nat
proof -
  assume "d < e"
  then have "e - d = Suc (e - Suc d)" by simp
  then show ?thesis by (simp only: power_Suc2 div_mult2_eq)
qed

lemma odd_half: "a div 2 = p \<Longrightarrow> a = 2 * p \<or> a = 2 * p + 1" for a :: nat
  by presburger

text \<open>The directory after a split: the entries of the target go to one of its halves, all others stay.\<close>

lemma split_dir:
  fixes T :: "'k KeyTraits"
  assumes inv: "cceh_inv m" and ch: "chunked m" and d: "dir_depth m \<le> 64" and t: "target = seg_of m hsh"
  defines "ld \<equiv> local_depth (heap m ! target)" and "m' \<equiv> cceh_split T hsh target m" and "D \<equiv> dir_depth (cceh_split T hsh target m)"
  shows "D = (if ld < dir_depth m then dir_depth m else Suc (dir_depth m))" and "ld < D"
    and "j < 2 ^ D \<Longrightarrow> dir_segs m' ! j = (if j div 2 ^ (D - ld) = prefix ld hsh
        then if even (j div 2 ^ (D - Suc ld)) then target else length (heap m) else dir_segs m ! (j div 2 ^ (D - dir_depth m)))"
    and "i < 2 ^ dir_depth m \<Longrightarrow> dir_segs m ! i = target \<longleftrightarrow> i div 2 ^ (dir_depth m - ld) = prefix ld hsh"
proof -
  let ?d = "dir_depth m" and ?x = "prefix (dir_depth m) hsh"
  have x: "?x < 2 ^ ?d" by (rule prefix_less [OF d])
  note I = cceh_invD [OF inv x]
  have ldle: "ld \<le> ?d" and len: "length (dir_segs m) = 2 ^ ?d" using I t by (simp_all add: ld_def)
  have px: "?x div 2 ^ (?d - ld) = prefix ld hsh" by (rule prefix_div [OF ldle d])
  have pat: "pattern (heap m ! target) = prefix ld hsh" using I(4) px t by (simp add: ld_def)
  have mine: "dir_segs m ! i = target \<longleftrightarrow> i div 2 ^ (?d - ld) = prefix ld hsh" if "i < 2 ^ ?d" for i
    using cceh_invD(4) [OF inv that] chunkedD [OF ch x that] pat t by (auto simp: ld_def)
  show "dir_segs m ! i = target \<longleftrightarrow> i div 2 ^ (dir_depth m - ld) = prefix ld hsh" if "i < 2 ^ dir_depth m" by (rule mine [OF that])
  have parts: "D = fst (dir_split ?x (Suc ld) target (length (heap m)) (?d, dir_segs m))"
    "dir_segs m' = snd (dir_split ?x (Suc ld) target (length (heap m)) (?d, dir_segs m))"
    by (simp_all add: D_def m'_def ld_def split_parts)
  have xl: "?x < length (dir_segs m)" using x len by simp
  show D: "D = (if ld < ?d then ?d else Suc ?d)"
    using parts(1) dir_split_normal(1) [OF _ xl] dir_split_double(1) [OF _ xl] by simp
  then show "ld < D" using ldle by simp
  assume j: "j < 2 ^ D"
  show "dir_segs m' ! j = (if j div 2 ^ (D - ld) = prefix ld hsh
        then if even (j div 2 ^ (D - Suc ld)) then target else length (heap m) else dir_segs m ! (j div 2 ^ (D - ?d)))"
  proof (cases "ld < ?d")
    case True
    have jd: "j < 2 ^ ?d" and Dd: "D = ?d" using j D True by simp_all
    have "dir_segs m' ! j = (if j div 2 ^ (?d - Suc ld) = 2 * prefix ld hsh + 1 then length (heap m) else dir_segs m ! j)"
      unfolding parts(2) using dir_split_normal(3) [OF True xl, of j target "length (heap m)"] jd len px by simp
    moreover have "j div 2 ^ (?d - ld) = j div 2 ^ (?d - Suc ld) div 2" by (rule div_half [OF True])
    ultimately show ?thesis using mine [OF jd] odd_half [of "j div 2 ^ (?d - Suc ld)" "prefix ld hsh"] unfolding Dd by auto
  next
    case False
    then have eq: "ld = ?d" and DS: "D = Suc ?d" using ldle D by simp_all
    have jl: "j < 2 * length (dir_segs m)" and j2: "j div 2 < 2 ^ ?d" using j DS len by simp_all
    have "dir_segs m' ! j = (if j div 2 = ?x then if even j then target else length (heap m) else dir_segs m ! (j div 2))"
      unfolding parts(2) using dir_split_double(3) [where ld = ld and depth = ?d and ?s0.0 = target and ?s1.0 = "length (heap m)", OF False xl jl] .
    then show ?thesis using eq DS by simp
  qed
qed

lemma split_route:
  assumes inv: "cceh_inv m" and ch: "chunked m" and d: "dir_depth m \<le> 64" and t: "target = seg_of m hsh"
    and ld64: "local_depth (heap m ! target) < 64"
  shows "seg_of (cceh_split T hsh target m) h' = (if seg_of m h' = target
      then if even (prefix (Suc (local_depth (heap m ! target))) h') then target else length (heap m) else seg_of m h')"
proof -
  let ?ld = "local_depth (heap m ! target)" and ?D = "dir_depth (cceh_split T hsh target m)"
  note S = split_dir(1-3) [where T = T, OF inv ch d t] split_dir(4) [OF inv ch d t]
  have D64: "?D \<le> 64" by (rule cceh_split_inv(2) [OF inv d ld64 t])
  have dD: "dir_depth m \<le> ?D" "Suc ?ld \<le> ?D" "?ld \<le> ?D" using S(1,2) by (auto split: if_splits)
  note pr = prefix_div [OF dD(1) D64, of h'] prefix_div [OF dD(2) D64, of h'] prefix_div [OF dD(3) D64, of h']
  have x: "prefix (dir_depth m) h' < 2 ^ dir_depth m" by (rule prefix_less [OF d])
  have "?ld \<le> dir_depth m" using cceh_invD(3) [OF inv prefix_less [OF d, of hsh]] t by simp
  then have "seg_of m h' = target \<longleftrightarrow> prefix ?ld h' = prefix ?ld hsh" using S(4) [OF x] prefix_div [OF _ d] by simp
  then show ?thesis using S(3) [OF prefix_less [OF D64, of h']] by (simp add: pr)
qed

lemma split_chunked:
  assumes inv: "cceh_inv m" and ch: "chunked m" and d: "dir_depth m \<le> 64" and t: "target = seg_of m hsh"
  shows "chunked (cceh_split T hsh target m)"
  unfolding chunked_def Let_def
proof (intro allI impI)
  let ?m = "cceh_split T hsh target m" and ?ld = "local_depth (heap m ! target)" and ?d = "dir_depth m"
  let ?D = "dir_depth ?m" and ?p = "prefix (local_depth (heap m ! target)) hsh"
  note S = split_dir(1-3) [where T = T, OF inv ch d t] split_dir(4) [OF inv ch d t]
  have tl: "target < length (heap m)" using cceh_invD(1) [OF inv prefix_less [OF d, of hsh]] t by simp
  note hp = split_heap(1-3) [where T = T and hsh = hsh, OF tl]
  have dD: "?d \<le> ?D" using S(1) by simp
  fix i j assume i: "i < 2 ^ ?D" and j: "j < 2 ^ ?D"
    and e: "j div 2 ^ (?D - local_depth (heap ?m ! (dir_segs ?m ! i))) = pattern (heap ?m ! (dir_segs ?m ! i))"
  have small: "k div 2 ^ (?D - ?d) < 2 ^ ?d" if "k < 2 ^ ?D" for k :: nat
  proof -
    have "(2 :: nat) ^ ?D = 2 ^ ?d * 2 ^ (?D - ?d)" using dD by (simp flip: power_add)
    then show ?thesis using that by (simp add: less_mult_imp_div_less)
  qed
  have half: "k div 2 ^ (?D - ?ld) = k div 2 ^ (?D - Suc ?ld) div 2" for k :: nat by (rule div_half [OF S(2)])
  show "dir_segs ?m ! j = dir_segs ?m ! i"
  proof (cases "i div 2 ^ (?D - ?ld) = ?p")
    case True
    then have "j div 2 ^ (?D - Suc ?ld) = i div 2 ^ (?D - Suc ?ld)"
      using e S(3) [OF i] hp(1,2) odd_half [of "i div 2 ^ (?D - Suc ?ld)" ?p] half by (auto split: if_splits)
    moreover from this have "j div 2 ^ (?D - ?ld) = ?p" using True half by simp
    ultimately show ?thesis using S(3) [OF i] S(3) [OF j] True by simp
  next
    case False
    let ?i = "i div 2 ^ (?D - ?d)" and ?j = "j div 2 ^ (?D - ?d)"
    have split: "k div 2 ^ (?D - l) = k div 2 ^ (?D - ?d) div 2 ^ (?d - l)" if "l \<le> ?d" for k l :: nat
    proof -
      have "?D - l = (?D - ?d) + (?d - l)" using dD that by simp
      then show ?thesis by (simp add: power_add div_mult2_eq)
    qed
    have ldle: "?ld \<le> ?d" using cceh_invD(3) [OF inv prefix_less [OF d, of hsh]] t by simp
    have ni: "dir_segs m ! ?i \<noteq> target" using S(4) [OF small [OF i]] False split [OF ldle, of i] by simp
    have ri: "dir_segs ?m ! i = dir_segs m ! ?i" using S(3) [OF i] False by simp
    note Ii = cceh_invD [OF inv small [OF i]]
    have "heap ?m ! (dir_segs ?m ! i) = heap m ! (dir_segs m ! ?i)" unfolding ri by (rule hp(3) [OF Ii(1) ni])
    then have "dir_segs m ! ?j = dir_segs m ! ?i"
      using e split [OF Ii(3), of j] by (intro chunkedD [OF ch small [OF i] small [OF j]]) simp
    moreover from this have "j div 2 ^ (?D - ?ld) \<noteq> ?p" using ni S(4) [OF small [OF j]] split [OF ldle, of j] by simp
    ultimately show ?thesis using S(3) [OF j] ri by simp
  qed
qed

section \<open>Splits keep the pairs\<close>

text \<open>The slots that hold a key word, in slot order.\<close>

abbreviation of_key :: "u64 \<Rightarrow> Pair list \<Rightarrow> Pair list" where
  "of_key w ps \<equiv> filter (\<lambda>p. p_key p = w) ps"

text \<open>Every pair lies in its probe window, which has not wrapped around.\<close>

definition placed :: "'k KeyTraits \<Rightarrow> Pair list \<Rightarrow> bool" where
  "placed T ps \<longleftrightarrow> (\<forall>q < length ps. p_key (ps ! q) \<noteq> INVALID \<longrightarrow>
     home_loc (slot_hash T (p_key (ps ! q))) \<le> q \<and> q < home_loc (slot_hash T (p_key (ps ! q))) + kWindow)"

lemma home_less: "home_loc hsh < kNumSlot"
proof -
  have "unat (hsh AND kMask) < 2 ^ 8" unfolding kMask_def kSegmentBits_def take_bit_eq_mask [symmetric] by (rule unat_take_bit_less)
  then show ?thesis by (simp add: home_loc_def kNumPairPerCacheLine_def kNumSlot_val)
qed

lemma find_filter: "(\<And>x. x \<in> set xs \<Longrightarrow> P x \<Longrightarrow> Q x) \<Longrightarrow> find P (filter Q xs) = find P xs"
  by (induction xs) auto

lemma find_nth: "find P xs = (case first_idx (length xs) (\<lambda>i. P (xs ! i)) of None \<Rightarrow> None | Some i \<Rightarrow> Some (xs ! i))"
proof (cases "first_idx (length xs) (\<lambda>i. P (xs ! i))")
  case None
  then have "find P xs = None" by (auto simp: first_idx_None_iff find_None_iff in_set_conv_nth)
  then show ?thesis using None by simp
next
  case (Some i)
  then have "i < length xs \<and> P (xs ! i) \<and> (\<forall>j < i. \<not> P (xs ! j))" by (rule first_idx_SomeD)
  then show ?thesis using Some by (auto simp: find_Some_iff)
qed

text \<open>In such a segment a lookup returns the first pair in slot order that matches.\<close>

lemma seg_get_find:
  assumes len: "length (seg_slots s) = kNumSlot" and pl: "placed T (seg_slots s)" and w: "key_checker T k \<noteq> INVALID"
    and h: "loc = home_loc (slot_hash T (key_checker T k))"
  shows "seg_get T check k loc s = (case find (matches T check k) (of_key (key_checker T k) (seg_slots s)) of None \<Rightarrow> Tombstone | Some p \<Rightarrow> p_value p)"
proof -
  let ?P = "\<lambda>q. matches T check k (seg_slots s ! q)"
  have in_win: "loc \<le> q \<and> q < loc + kWindow" if "q < kNumSlot" "?P q" for q
    using pl that len w h by (auto simp: placed_def matches_def)
  have "find (matches T check k) (of_key (key_checker T k) (seg_slots s)) = find (matches T check k) (seg_slots s)"
    by (rule find_filter) (simp add: matches_def)
  also have "\<dots> = (case first_idx kNumSlot ?P of None \<Rightarrow> None | Some i \<Rightarrow> Some (seg_slots s ! i))"
    using find_nth [of "matches T check k" "seg_slots s"] len by simp
  finally have f: "find (matches T check k) (of_key (key_checker T k) (seg_slots s)) =
    (case first_idx kNumSlot ?P of None \<Rightarrow> None | Some i \<Rightarrow> Some (seg_slots s ! i))" .
  show ?thesis
  proof (cases "first_idx kNumSlot ?P")
    case None
    then have "first_idx kWindow (\<lambda>i. ?P (win loc i)) = None" by (simp add: first_idx_None_iff kNumSlot_val)
    then show ?thesis using f None by (simp add: seg_get_eq)
  next
    case (Some q)
    then have q: "q < kNumSlot" "?P q" "\<forall>j < q. \<not> ?P j" using first_idx_SomeD by blast+
    note iw = in_win [OF q(1,2)]
    then have wq: "win loc (q - loc) = q" using q(1) by simp
    have "\<not> ?P (win loc j)" if "j < q - loc" for j using q(1,3) that by simp
    then have "first_idx kWindow (\<lambda>i. ?P (win loc i)) = Some (q - loc)" using iw q(2) wq by (simp add: first_idx_Some_iff less_diff_conv2)
    then show ?thesis using f Some wq by (simp add: seg_get_eq)
  qed
qed

text \<open>The copy of a segment under construction, when the slots below \<open>n\<close> have been visited.\<close>

definition copying :: "'k KeyTraits \<Rightarrow> nat \<Rightarrow> nat \<Rightarrow> Pair list \<Rightarrow> Pair list \<Rightarrow> bool" where
  "copying T ld n ps qs \<longleftrightarrow> length qs = kNumSlot
    \<and> (\<forall>q < kNumSlot. p_key (qs ! q) \<noteq> INVALID \<longrightarrow> q < n \<and> home_loc (slot_hash T (p_key (qs ! q))) \<le> q
        \<and> q < home_loc (slot_hash T (p_key (qs ! q))) + kWindow
        \<and> (\<forall>r. home_loc (slot_hash T (p_key (qs ! q))) \<le> r \<and> r < q \<longrightarrow> p_key (qs ! r) \<noteq> INVALID))
    \<and> (\<forall>w. w \<noteq> INVALID \<longrightarrow> slot_hash T w AND push_bit (64 - ld - 1) 1 \<noteq> 0 \<longrightarrow> of_key w qs = of_key w (take n ps))"

lemma pair_eta [simp]: "\<lparr>p_key = p_key p, p_value = p_value p\<rparr> = p" for p :: Pair
  by simp

lemma filter_update_last:
  assumes "j < length xs" "\<not> P (xs ! j)" "\<And>q. j < q \<Longrightarrow> q < length xs \<Longrightarrow> \<not> P (xs ! q)"
  shows "filter P (xs[j := x]) = filter P xs @ (if P x then [x] else [])"
proof -
  have d: "filter P (drop (Suc j) xs) = []" using assms(3) by (auto simp: filter_empty_conv in_set_conv_nth)
  have "filter P xs = filter P (take j xs @ xs ! j # drop (Suc j) xs)" using id_take_nth_drop [OF assms(1)] by simp
  also have "\<dots> = filter P (take j xs)" using assms(2) d by simp
  finally show ?thesis using upd_conv_take_nth_drop [OF assms(1), of x] d by simp
qed

lemma filter_update_none:
  assumes "j < length xs" "\<not> P (xs ! j)" "\<not> P x"
  shows "filter P (xs[j := x]) = filter P xs"
proof -
  have "filter P xs = filter P (take j xs @ xs ! j # drop (Suc j) xs)" using id_take_nth_drop [OF assms(1)] by simp
  then show ?thesis using upd_conv_take_nth_drop [OF assms(1), of x] assms(2,3) by simp
qed

lemma first_idx_le:
  assumes "P j" "j < n"
  shows "\<exists>i \<le> j. first_idx n P = Some i"
proof (cases "first_idx n P")
  case (Some i)
  then have "\<not> j < i" using first_idx_SomeD assms(1) by blast
  then show ?thesis using Some by auto
qed (use assms in \<open>simp add: first_idx_None_iff\<close>)

lemma copying_step:
  assumes C: "copying T ld n ps qs" and pl: "placed T ps" and len: "length ps = kNumSlot" and n: "n < kNumSlot"
  shows "copying T ld (Suc n) ps (split_slot T ld (ps ! n) qs)"
proof -
  let ?w = "p_key (ps ! n)"
  let ?h = "slot_hash T ?w"
  let ?bit = "\<lambda>w. slot_hash T w AND push_bit (64 - ld - 1) 1 \<noteq> 0"
  have lq: "length qs = kNumSlot"
    and occ: "\<And>q. q < kNumSlot \<Longrightarrow> p_key (qs ! q) \<noteq> INVALID \<Longrightarrow> q < n \<and> home_loc (slot_hash T (p_key (qs ! q))) \<le> q
        \<and> q < home_loc (slot_hash T (p_key (qs ! q))) + kWindow
        \<and> (\<forall>r. home_loc (slot_hash T (p_key (qs ! q))) \<le> r \<and> r < q \<longrightarrow> p_key (qs ! r) \<noteq> INVALID)"
    and ok: "\<And>w. w \<noteq> INVALID \<Longrightarrow> ?bit w \<Longrightarrow> of_key w qs = of_key w (take n ps)"
    using C unfolding copying_def by blast+
  have tk: "of_key w (take (Suc n) ps) = of_key w (take n ps) @ (if ?w = w then [ps ! n] else [])" for w
    using n len by (simp add: take_Suc_conv_app_nth)
  have skip: "copying T ld (Suc n) ps qs" if "\<not> ?bit ?w"
    unfolding copying_def using lq occ ok tk that less_SucI by fastforce
  show ?thesis
  proof (cases "?bit ?w")
    case False then show ?thesis using skip by (simp add: split_slot_def Let_def)
  next
    case True
    then have step: "split_slot T ld (ps ! n) qs = insert4split ?w (p_value (ps ! n)) (home_loc ?h) qs" by (simp add: split_slot_def Let_def)
    have nf: "p_key (qs ! q) = INVALID" if "n \<le> q" "q < kNumSlot" for q using occ [OF that(2)] that(1) by auto
    show ?thesis
    proof (cases "?w = INVALID")
      case inv: True
      have "\<exists>j < kNumSlot. p_key (qs ! j) = INVALID \<and> split_slot T ld (ps ! n) qs = qs[j := ps ! n] \<or> split_slot T ld (ps ! n) qs = qs"
      proof (cases "first_idx kWindow (\<lambda>i. p_key (qs ! win (home_loc ?h) i) = INVALID)")
        case (Some i)
        then have "split_slot T ld (ps ! n) qs = qs[win (home_loc ?h) i := ps ! n]" unfolding step insert4split_def by simp
        then show ?thesis using first_idx_SomeD [OF Some] win_less by (intro exI [of _ "win (home_loc ?h) i"]) auto
      qed (auto simp: step insert4split_def kNumSlot_val intro: exI [of _ 0])
      then consider "split_slot T ld (ps ! n) qs = qs"
        | j where "j < kNumSlot" "p_key (qs ! j) = INVALID" "split_slot T ld (ps ! n) qs = qs[j := ps ! n]" by blast
      then show ?thesis
      proof cases
        case 1 show ?thesis unfolding 1 copying_def using lq occ ok tk inv less_SucI by fastforce
      next
        case (2 j)
        have key: "p_key (qs[j := ps ! n] ! q) = p_key (qs ! q)" if "q < kNumSlot" for q
          using that 2(1,2) inv by (cases "j = q") (simp_all add: lq)
        have "of_key w (qs[j := ps ! n]) = of_key w qs" if "w \<noteq> INVALID" for w
          by (rule filter_update_none) (use 2 lq that inv in auto)
        moreover have "q < Suc n" if "q < kNumSlot" "p_key (qs ! q) \<noteq> INVALID" for q using occ [OF that] by simp
        ultimately show ?thesis unfolding 2(3) copying_def using lq occ ok tk inv key by (auto dest: less_trans)
      qed
    next
      case False
      have home: "home_loc ?h \<le> n" "n < home_loc ?h + kWindow" using pl n len False by (auto simp: placed_def)
      then have "p_key (qs ! win (home_loc ?h) (n - home_loc ?h)) = INVALID" using nf [OF le_refl n] n by simp
      then obtain i where i: "first_idx kWindow (\<lambda>i. p_key (qs ! win (home_loc ?h) i) = INVALID) = Some i" "i \<le> n - home_loc ?h"
        using first_idx_le [of "\<lambda>i. p_key (qs ! win (home_loc ?h) i) = INVALID" "n - home_loc ?h" kWindow] home by (auto simp: less_diff_conv2)
      define j where "j = home_loc ?h + i"
      have jn: "j \<le> n" "j < kNumSlot" "win (home_loc ?h) i = j" using i(2) home n by (simp_all add: j_def)
      have free: "p_key (qs ! j) = INVALID" and before: "\<And>r. home_loc ?h \<le> r \<Longrightarrow> r < j \<Longrightarrow> p_key (qs ! r) \<noteq> INVALID"
      proof -
        note F = first_idx_SomeD [OF i(1)]
        show "p_key (qs ! j) = INVALID" using F jn(3) by simp
        fix r assume r: "home_loc ?h \<le> r" "r < j"
        then have "r - home_loc ?h < i" by (auto simp: j_def)
        then have "p_key (qs ! win (home_loc ?h) (r - home_loc ?h)) \<noteq> INVALID" using F by blast
        then show "p_key (qs ! r) \<noteq> INVALID" using r jn(2) by simp
      qed
      have new: "split_slot T ld (ps ! n) qs = qs[j := ps ! n]" unfolding step insert4split_def using i(1) jn(3) by simp
      have "of_key w (qs[j := ps ! n]) = of_key w (take (Suc n) ps)" if w: "w \<noteq> INVALID" "?bit w" for w
      proof (cases "w = ?w")
        case True
        have "of_key w (qs[j := ps ! n]) = of_key w qs @ (if ?w = w then [ps ! n] else [])"
        proof (rule filter_update_last)
          show "p_key (qs ! q) \<noteq> w" if "j < q" "q < length qs" for q
            using occ [of q] that lq w(1) free True by (auto simp: j_def)
        qed (use jn lq free w in auto)
        then show ?thesis using ok [OF w] tk by simp
      next
        case False
        then have "of_key w (qs[j := ps ! n]) = of_key w qs" using jn lq free w by (intro filter_update_none) auto
        then show ?thesis using ok [OF w] tk False by simp
      qed
      moreover have "q < Suc n \<and> home_loc (slot_hash T (p_key (qs[j := ps ! n] ! q))) \<le> q
        \<and> q < home_loc (slot_hash T (p_key (qs[j := ps ! n] ! q))) + kWindow
        \<and> (\<forall>r. home_loc (slot_hash T (p_key (qs[j := ps ! n] ! q))) \<le> r \<and> r < q \<longrightarrow> p_key (qs[j := ps ! n] ! r) \<noteq> INVALID)"
        if q: "q < kNumSlot" "p_key (qs[j := ps ! n] ! q) \<noteq> INVALID" for q
      proof (cases "q = j")
        case True
        moreover have "home_loc ?h \<le> j" "j < home_loc ?h + kWindow" using first_idx_SomeD [OF i(1)] by (simp_all add: j_def)
        ultimately show ?thesis using jn(1,2) before lq by simp
      next
        case ne: False
        then have o: "p_key (qs ! q) \<noteq> INVALID" using q(2) by simp
        have up: "p_key (qs[j := ps ! n] ! r) \<noteq> INVALID" if "p_key (qs ! r) \<noteq> INVALID" for r
          using that free by (cases "r = j") auto
        show ?thesis using occ [OF q(1) o] ne up by simp
      qed
      ultimately show ?thesis unfolding new copying_def using lq by auto
    qed
  qed
qed

lemma split_bit: "ld < 64 \<Longrightarrow> hsh AND push_bit (64 - ld - 1) 1 \<noteq> 0 \<longleftrightarrow> odd (prefix (Suc ld) hsh)" for hsh :: u64
proof -
  assume "ld < 64"
  then have "hsh AND push_bit (64 - ld - 1) 1 \<noteq> 0 \<longleftrightarrow> bit hsh (63 - ld)"
    using and_exp_eq_0_iff_not_bit [of hsh "63 - ld"] by (simp add: push_bit_eq_mult)
  moreover have "odd (prefix (Suc ld) hsh) \<longleftrightarrow> bit (drop_bit (63 - ld) hsh) 0"
  proof -
    have "odd (unat x) \<longleftrightarrow> bit x 0" for x :: u64 by (simp add: bit_unsigned_iff flip: bit_0)
    then show ?thesis using \<open>ld < 64\<close> by (simp add: prefix_def)
  qed
  ultimately show ?thesis by (simp add: bit_drop_bit_eq)
qed

lemma split_copies:
  assumes pl: "placed T (seg_slots s)" and len: "length (seg_slots s) = kNumSlot" and ld: "local_depth s < 64"
  shows "placed T (seg_slots (high_half T hsh s))" "length (seg_slots (high_half T hsh s)) = kNumSlot"
    "w \<noteq> INVALID \<Longrightarrow> odd (prefix (Suc (local_depth s)) (slot_hash T w)) \<Longrightarrow> of_key w (seg_slots (high_half T hsh s)) = of_key w (seg_slots s)"
proof -
  let ?ps = "seg_slots s" and ?f = "split_slot T (local_depth s)"
  have start: "copying T (local_depth s) 0 ?ps (replicate kNumSlot empty_pair)"
    by (auto simp: copying_def empty_pair_def)
  have "copying T (local_depth s) n ?ps (fold ?f (take n ?ps) (replicate kNumSlot empty_pair))" if "n \<le> kNumSlot" for n
    using that
  proof (induction n)
    case (Suc n)
    have "take (Suc n) ?ps = take n ?ps @ [?ps ! n]" using Suc.prems len by (simp add: take_Suc_conv_app_nth)
    then show ?case using copying_step [OF Suc.IH pl len] Suc.prems by simp
  qed (use start in simp)
  from this [of kNumSlot] have C: "copying T (local_depth s) kNumSlot ?ps (seg_slots (high_half T hsh s))"
    using len by (simp add: high_half_def seg_split_def)
  then show "placed T (seg_slots (high_half T hsh s))" "length (seg_slots (high_half T hsh s)) = kNumSlot"
    by (simp_all add: copying_def placed_def)
  show "of_key w (seg_slots (high_half T hsh s)) = of_key w ?ps" if "w \<noteq> INVALID" "odd (prefix (Suc (local_depth s)) (slot_hash T w))"
    using C that split_bit [OF ld] len by (simp add: copying_def)
qed

text \<open>The keys of the map: their word is not the reserved one and leads back to the hash.\<close>

definition proper_key :: "'k KeyTraits \<Rightarrow> 'k \<Rightarrow> bool" where
  "proper_key T k \<longleftrightarrow> key_checker T k \<noteq> INVALID \<and> slot_hash T (key_checker T k) = hash_key T k"

definition all_placed :: "'k KeyTraits \<Rightarrow> CCEH \<Rightarrow> bool" where
  "all_placed T m \<longleftrightarrow> (\<forall>s \<in> set (heap m). length (seg_slots s) = kNumSlot \<and> placed T (seg_slots s))"

lemma seg_get_slots: "seg_slots s' = seg_slots s \<Longrightarrow> seg_get T check k loc s' = seg_get T check k loc s"
  unfolding seg_get_def by (auto split: option.split)

lemma split_get:
  assumes inv: "cceh_inv m" and ch: "chunked m" and d: "dir_depth m \<le> 64" and t: "target = seg_of m hsh"
    and ld64: "local_depth (heap m ! target) < 64" and pl: "all_placed T m" and k: "proper_key T k"
  shows "cceh_get T check k (cceh_split T hsh target m) = cceh_get T check k m"
proof -
  let ?s = "heap m ! target"
  have tl: "target < length (heap m)" using cceh_invD(1) [OF inv prefix_less [OF d, of hsh]] t by simp
  note hp = split_heap(1-3) [where T = T and hsh = hsh, OF tl]
  have ps: "placed T (seg_slots ?s)" "length (seg_slots ?s) = kNumSlot" using pl tl by (simp_all add: all_placed_def)
  note sc = split_copies [OF ps ld64]
  have w: "key_checker T k \<noteq> INVALID" "home_loc (hash_key T k) = home_loc (slot_hash T (key_checker T k))" "slot_hash T (key_checker T k) = hash_key T k"
    using k by (simp_all add: proper_key_def)
  note rt = split_route [OF inv ch d t ld64, of T "hash_key T k"]
  show ?thesis
  proof (cases "seg_of m (hash_key T k) = target")
    case True
    show ?thesis
    proof (cases "even (prefix (Suc (local_depth ?s)) (hash_key T k))")
      case even: True
      then show ?thesis using True rt hp(1) seg_get_slots [of "low_half T hsh ?s" ?s] by (simp add: cceh_get_def Let_def)
    next
      case odd: False
      have "seg_get T check k (home_loc (hash_key T k)) (high_half T hsh ?s) = seg_get T check k (home_loc (hash_key T k)) ?s"
        unfolding seg_get_find [OF sc(2,1) w(1,2)] seg_get_find [OF ps(2,1) w(1,2)] using sc(3) [OF w(1)] odd w(3) by simp
      then show ?thesis using True odd rt hp(2) by (simp add: cceh_get_def Let_def)
    qed
  next
    case False
    have "seg_of m (hash_key T k) < length (heap m)" by (rule cceh_invD(1) [OF inv prefix_less [OF d]])
    then show ?thesis using False rt hp(3) by (simp add: cceh_get_def Let_def)
  qed
qed

lemma split_placed:
  assumes pl: "all_placed T m" and tl: "target < length (heap m)" and ld64: "local_depth (heap m ! target) < 64"
  shows "all_placed T (cceh_split T hsh target m)"
proof -
  let ?s = "heap m ! target"
  have ps: "placed T (seg_slots ?s)" "length (seg_slots ?s) = kNumSlot" using pl tl by (simp_all add: all_placed_def)
  have "set (heap (cceh_split T hsh target m)) \<subseteq> insert (high_half T hsh ?s) (insert (low_half T hsh ?s) (set (heap m)))"
    using set_update_subset_insert [of "heap m" target "low_half T hsh ?s"] by (auto simp: split_parts)
  then show ?thesis using pl ps split_copies(1,2) [OF ps ld64] unfolding all_placed_def by auto
qed

section \<open>A full probe window\<close>

lemma insert_loop_clears:
  "insert_loop T check k v ld pat loc lk i n ps = (None, ps') \<Longrightarrow> q < length ps \<Longrightarrow> ps' ! q = ps ! q \<or> ps' ! q = empty_pair"
proof (induction n arbitrary: lk i ps)
  case (Suc n)
  let ?s = "win loc i"
  define ps1 where "ps1 = (if p_key (ps ! ?s) \<noteq> INVALID \<and> prefix ld (slot_hash T (p_key (ps ! ?s))) \<noteq> pat
                    then ps[?s := empty_pair] else ps)"
  have l1: "length ps1 = length ps" and p1: "ps1 ! q = ps ! q \<or> ps1 ! q = empty_pair"
    using Suc.prems(2) by (simp_all add: ps1_def nth_list_update) (cases "q = win loc i"; simp)
  have "ps' ! q = ps1 ! q \<or> ps' ! q = empty_pair"
    using Suc.prems(1) Suc.IH [of _ _ ps1] Suc.prems(2) l1 unfolding insert_loop_round ps1_def [symmetric] by (auto split: if_splits)
  then show ?case using p1 by auto
qed simp

text \<open>A slot in use under the pattern of the segment.\<close>

definition in_use :: "'k KeyTraits \<Rightarrow> nat \<Rightarrow> nat \<Rightarrow> Pair \<Rightarrow> bool" where
  "in_use T ld pat p \<longleftrightarrow> p_key p \<noteq> INVALID \<and> prefix ld (slot_hash T (p_key p)) = pat"

text \<open>An insert that finds no slot passed a slot in use in every two neighbouring places: a free slot is
  passed over only right behind a pair whose fingerprint matched and whose key did not.\<close>

lemma insert_loop_full:
  assumes "insert_loop T check k v ld pat loc lk i n ps = (None, ps')" "i + n \<le> kWindow" "length ps = kNumSlot"
  shows "\<forall>t. i \<le> t \<and> t < i + n \<longrightarrow> in_use T ld pat (ps' ! win loc t) \<or> (if t = i then lk \<noteq> INVALID else in_use T ld pat (ps' ! win loc (t - 1)))"
  using assms
proof (induction n arbitrary: lk i ps)
  case (Suc n)
  let ?s = "win loc i"
  define ps1 where "ps1 = (if p_key (ps ! ?s) \<noteq> INVALID \<and> prefix ld (slot_hash T (p_key (ps ! ?s))) \<noteq> pat
                    then ps[?s := empty_pair] else ps)"
  have l1: "length ps1 = kNumSlot" using Suc.prems(3) by (simp add: ps1_def)
  have len: "?s < length ps" using Suc.prems(3) win_less by simp
  define lk' where "lk' = (if p_key (ps1 ! ?s) = key_checker T k then key_checker T k else INVALID)"
  have ne: "p_key (ps1 ! ?s) \<noteq> lk" and rec: "insert_loop T check k v ld pat loc lk' (i + 1) n ps1 = (None, ps')"
    using Suc.prems(1) unfolding insert_loop_round ps1_def [symmetric] lk'_def by (auto split: if_splits)
  have "win loc t \<noteq> ?s" if "i + 1 \<le> t" "t < i + 1 + n" for t
    using win_inj [of t i loc] that Suc.prems(2) by auto
  then have here: "ps' ! ?s = ps1 ! ?s" using insert_loop_outside [of "i + 1" n loc ?s] rec by (metis snd_conv)
  have use1: "in_use T ld pat (ps1 ! ?s)" if "p_key (ps1 ! ?s) \<noteq> INVALID"
    using that len by (auto simp: ps1_def in_use_def empty_pair_def split: if_splits)
  have IH: "\<forall>t. i + 1 \<le> t \<and> t < i + 1 + n \<longrightarrow> in_use T ld pat (ps' ! win loc t) \<or>
      (if t = i + 1 then lk' \<noteq> INVALID else in_use T ld pat (ps' ! win loc (t - 1)))"
    by (rule Suc.IH [OF rec _ l1]) (use Suc.prems(2) in simp)
  show ?case
  proof (intro allI impI)
    fix t assume t: "i \<le> t \<and> t < i + Suc n"
    show "in_use T ld pat (ps' ! win loc t) \<or> (if t = i then lk \<noteq> INVALID else in_use T ld pat (ps' ! win loc (t - 1)))"
    proof (cases "t = i")
      case True then show ?thesis using here use1 ne by auto
    next
      case False
      have "in_use T ld pat (ps' ! ?s)" if "lk' \<noteq> INVALID" using that use1 here by (auto simp: lk'_def split: if_splits)
      then show ?thesis using IH [rule_format, of t] t False by (auto split: if_splits)
    qed
  qed
qed auto

text \<open>The pairs of a segment whose hash is \<open>hsh\<close>.\<close>

definition same_hash :: "'k KeyTraits \<Rightarrow> u64 \<Rightarrow> Segment \<Rightarrow> nat" where
  "same_hash T hsh s = length (filter (\<lambda>p. p_key p \<noteq> INVALID \<and> slot_hash T (p_key p) = hsh) (seg_slots s))"

lemma seg_full:
  assumes "seg_insert T check k v loc hsh s = InsFull s'" "length (seg_slots s) = kNumSlot"
  shows "\<And>q. q < kNumSlot \<Longrightarrow> seg_slots s' ! q = seg_slots s ! q \<or> seg_slots s' ! q = empty_pair"
    and "same_hash T h s' \<le> same_hash T h s" and "local_depth s = 64 \<Longrightarrow> 8 \<le> same_hash T hsh s"
proof -
  obtain ps where run: "insert_loop T check k v (local_depth s) (pattern s) loc INVALID 0 kWindow (seg_slots s) = (None, ps)"
    and s': "s' = s\<lparr>seg_slots := ps\<rparr>" and pat: "prefix (local_depth s) hsh = pattern s"
    using assms(1) by (auto simp: seg_insert_def split: if_splits option.splits prod.splits)
  have cl: "seg_slots s' ! q = seg_slots s ! q \<or> seg_slots s' ! q = empty_pair" if "q < kNumSlot" for q
    using insert_loop_clears [OF run] assms(2) that by (simp add: s')
  then show "\<And>q. q < kNumSlot \<Longrightarrow> seg_slots s' ! q = seg_slots s ! q \<or> seg_slots s' ! q = empty_pair" .
  have len': "length (seg_slots s') = kNumSlot" using insert_loop_length run assms(2) by (metis snd_conv s' Segment.select_convs(1) Segment.surjective Segment.update_convs(1))
  show le: "same_hash T h s' \<le> same_hash T h s" for h
    unfolding same_hash_def length_filter_conv_card len' assms(2)
  proof (rule card_mono)
    have "seg_slots s' ! q = seg_slots s ! q" if "q < kNumSlot" "p_key (seg_slots s' ! q) \<noteq> INVALID" for q
      using cl [OF that(1)] that(2) by (auto simp: empty_pair_def)
    then show "{i. i < kNumSlot \<and> p_key (seg_slots s' ! i) \<noteq> INVALID \<and> slot_hash T (p_key (seg_slots s' ! i)) = h}
      \<subseteq> {i. i < kNumSlot \<and> p_key (seg_slots s ! i) \<noteq> INVALID \<and> slot_hash T (p_key (seg_slots s ! i)) = h}" by auto
  qed simp
  assume 64: "local_depth s = 64"
  let ?Q = "\<lambda>q. p_key (seg_slots s' ! q) \<noteq> INVALID \<and> slot_hash T (p_key (seg_slots s' ! q)) = hsh"
  have use: "?Q q" if "in_use T (local_depth s) (pattern s) (seg_slots s' ! q)" for q
    using that pat 64 by (simp add: in_use_def prefix_def word_unat_eq_iff)
  define f where "f j = (if ?Q (win loc (2 * j)) then win loc (2 * j) else win loc (2 * j + 1))" for j
  have Qf: "?Q (f j)" if "j < 8" for j
    using insert_loop_full [OF run _ assms(2)] that use [of "win loc (2 * j)"] use [of "win loc (2 * j + 1)"]
    by (auto simp: f_def s' kWindow_val dest: spec [of _ "2 * j + 1"])
  have inj: "inj_on f {..<8}"
  proof (rule inj_onI)
    fix a b assume ab: "a \<in> {..<8}" "b \<in> {..<8}" "f a = f b"
    obtain x y where "x \<in> {2 * a, 2 * a + 1}" "y \<in> {2 * b, 2 * b + 1}" "f a = win loc x" "f b = win loc y"
      unfolding f_def by (metis insertI1 insertI2)
    moreover from this have "x = y" using ab win_inj [of x y loc] by (auto simp: kWindow_val)
    ultimately show "a = b" by auto
  qed
  have "card (f ` {..<8}) \<le> card {q. q < kNumSlot \<and> ?Q q}"
  proof (rule card_mono)
    have "f j < kNumSlot" for j by (auto simp only: f_def win_less split: if_splits)
    then show "f ` {..<8} \<subseteq> {q. q < kNumSlot \<and> ?Q q}" using Qf by blast
  qed simp
  then have "8 \<le> same_hash T hsh s'" unfolding same_hash_def length_filter_conv_card len' using card_image [OF inj] by simp
  then show "8 \<le> same_hash T hsh s" using le by (rule order_trans)
qed

lemma filter_update_le: "length (filter P (xs[j := x])) \<le> length (filter P xs) + (if P x then 1 else 0)"
proof (induction xs arbitrary: j)
  case (Cons y ys)
  then show ?case by (cases j) (auto simp: le_SucI split: if_splits)
qed simp

lemma high_half_hash: "same_hash T h (high_half T hsh s) \<le> same_hash T h s"
proof -
  let ?P = "\<lambda>p. p_key p \<noteq> INVALID \<and> slot_hash T (p_key p) = h"
  have "length (filter ?P (fold (split_slot T ld) ps qs)) \<le> length (filter ?P qs) + length (filter ?P ps)" for ld ps qs
  proof (induction ps arbitrary: qs)
    case (Cons p ps)
    have "split_slot T ld p qs = qs \<or> (\<exists>j. split_slot T ld p qs = qs[j := p])"
      by (auto simp: split_slot_def insert4split_def Let_def split: option.splits)
    then have "length (filter ?P (split_slot T ld p qs)) \<le> length (filter ?P qs) + (if ?P p then 1 else 0)"
      using filter_update_le [of ?P qs _ p] by auto
    then show ?case using Cons [of "split_slot T ld p qs"] by (auto split: if_splits)
  qed simp
  from this [of "local_depth s" "seg_slots s" "replicate kNumSlot empty_pair"] show ?thesis
    by (simp add: same_hash_def high_half_def seg_split_def empty_pair_def)
qed

section \<open>Inserts return\<close>

text \<open>The well-formed maps: the directory leads each hash to the one segment of its pattern and has at most
  as many levels as a hash has bits.\<close>

definition cceh_wf :: "CCEH \<Rightarrow> bool" where
  "cceh_wf m \<longleftrightarrow> cceh_inv m \<and> chunked m \<and> dir_depth m \<le> 64"

abbreviation with_segment :: "CCEH \<Rightarrow> nat \<Rightarrow> Segment \<Rightarrow> CCEH" where
  "with_segment m target s \<equiv> m\<lparr>heap := (heap m)[target := s]\<rparr>"

lemma replace_segment_wf:
  assumes "cceh_wf m" "target < length (heap m)" "local_depth s' = local_depth (heap m ! target)"
    "pattern s' = pattern (heap m ! target)" "length (seg_slots s') = length (seg_slots (heap m ! target))"
  shows "cceh_wf (with_segment m target s')"
proof -
  have "local_depth ((heap m)[target := s'] ! q) = local_depth (heap m ! q)" "pattern ((heap m)[target := s'] ! q) = pattern (heap m ! q)" for q
    using assms(2-4) by (cases "q = target"; simp)+
  then have "chunked (with_segment m target s') = chunked m" by (simp add: chunked_def Let_def)
  then show ?thesis using assms(1) replace_segment_inv [OF _ assms(2-5)] by (simp add: cceh_wf_def)
qed

lemma split_wf: "cceh_wf m \<Longrightarrow> local_depth (heap m ! seg_of m hsh) < 64 \<Longrightarrow> cceh_wf (cceh_split T hsh (seg_of m hsh) m)"
  using cceh_split_inv split_chunked unfolding cceh_wf_def by blast

lemma cceh_new_wf: "1 \<le> depth \<Longrightarrow> depth \<le> 64 \<Longrightarrow> cceh_wf (cceh_new depth)"
  using cceh_new_inv [of depth] by (simp add: cceh_wf_def chunked_def Let_def) (simp add: cceh_new_def)

text \<open>One round that ends in a split. The segment of the hash becomes one bit deeper and holds no further
  pair of that hash.\<close>

lemma full_split:
  fixes T :: "'k KeyTraits" and m hsh s'
  assumes wf: "cceh_wf m" and ins: "seg_insert T check k v loc hsh (heap m ! seg_of m hsh) = InsFull s'"
    and few: "same_hash T hsh (heap m ! seg_of m hsh) < 8"
  defines "m1 \<equiv> with_segment m (seg_of m hsh) s'" and "m2 \<equiv> cceh_split T hsh (seg_of m hsh) (with_segment m (seg_of m hsh) s')"
  shows "local_depth (heap m ! seg_of m hsh) < 64" and "cceh_wf m1" and "cceh_wf m2"
    and "local_depth (heap m2 ! seg_of m2 hsh) = Suc (local_depth (heap m ! seg_of m hsh))"
    and "same_hash T hsh (heap m2 ! seg_of m2 hsh) < 8"
proof -
  let ?t = "seg_of m hsh"
  have I: "cceh_inv m" "chunked m" "dir_depth m \<le> 64" using wf by (simp_all add: cceh_wf_def)
  note R = routed_segment(1,2) [OF I(1,3) refl, of hsh]
  note F = seg_insert_fields [of T check k v loc hsh "heap m ! ?t" _ s'] and full = seg_full(2,3) [OF ins R(2)]
  have f: "local_depth s' = local_depth (heap m ! ?t)" "pattern s' = pattern (heap m ! ?t)" "length (seg_slots s') = length (seg_slots (heap m ! ?t))"
    using F ins by simp_all
  have "local_depth (heap m ! ?t) \<le> 64" using cceh_invD(3) [OF I(1) prefix_less [OF I(3)], of hsh] I(3) by simp
  then show ld: "local_depth (heap m ! ?t) < 64" using full(2) few by fastforce
  show wf1: "cceh_wf m1" unfolding m1_def by (rule replace_segment_wf [OF wf R(1) f])
  have t1: "seg_of m1 hsh = ?t" and h1: "heap m1 ! ?t = s'" and len1: "length (heap m1) = length (heap m)" using R(1) by (simp_all add: m1_def)
  have m2: "m2 = cceh_split T hsh (seg_of m1 hsh) m1" unfolding m2_def m1_def by simp
  show "cceh_wf m2" unfolding m2 by (rule split_wf [OF wf1]) (use t1 h1 f(1) ld in simp)
  have I1: "cceh_inv m1" "chunked m1" "dir_depth m1 \<le> 64" using wf1 by (simp_all add: cceh_wf_def)
  have "seg_of m2 hsh \<in> {?t, length (heap m1)}"
    using split_route [OF I1 refl, of hsh T hsh] t1 h1 f(1) ld by (simp add: m2)
  then have "heap m2 ! seg_of m2 hsh \<in> {low_half T hsh s', high_half T hsh s'}"
    using split_heap(1,2) [of ?t m1 T hsh] len1 R(1) t1 h1 by (elim insertE emptyE) (simp_all add: m2)
  moreover have "same_hash T hsh (low_half T hsh s') = same_hash T hsh s'" by (simp add: same_hash_def)
  ultimately show "local_depth (heap m2 ! seg_of m2 hsh) = Suc (local_depth (heap m ! ?t))" "same_hash T hsh (heap m2 ! seg_of m2 hsh) < 8"
    using f(1) full(1) [of hsh] few high_half_hash [of T hsh hsh s'] by auto
qed

text \<open>An insert returns: a property kept by every round that ends in a split holds of the map in which the
  key finds its slot.\<close>

lemma insert_total:
  assumes "cceh_wf m" "same_hash T (hash_key T k) (heap m ! seg_of m (hash_key T k)) < 8"
    and "64 < n + local_depth (heap m ! seg_of m (hash_key T k))" "P m"
    and step: "\<And>m s'. P m \<Longrightarrow> cceh_wf m \<Longrightarrow> local_depth (heap m ! seg_of m (hash_key T k)) < 64 \<Longrightarrow>
      seg_insert T check k v (home_loc (hash_key T k)) (hash_key T k) (heap m ! seg_of m (hash_key T k)) = InsFull s' \<Longrightarrow>
      P (cceh_split T (hash_key T k) (seg_of m (hash_key T k)) (with_segment m (seg_of m (hash_key T k)) s'))"
  shows "\<exists>old m1 s'. cceh_insert n T check k v m = Some (old, with_segment m1 (seg_of m1 (hash_key T k)) s') \<and> cceh_wf m1 \<and> P m1
    \<and> seg_insert T check k v (home_loc (hash_key T k)) (hash_key T k) (heap m1 ! seg_of m1 (hash_key T k)) = InsOk old s'"
  using assms(1-4)
proof (induction n arbitrary: m)
  case 0
  let ?h = "hash_key T k"
  have I: "cceh_inv m" "dir_depth m \<le> 64" using 0 by (simp_all add: cceh_wf_def)
  have "local_depth (heap m ! seg_of m ?h) \<le> dir_depth m" by (rule cceh_invD(3) [OF I(1) prefix_less [OF I(2)]])
  then show ?case using 0 I(2) by simp
next
  case (Suc n)
  let ?h = "hash_key T k" and ?ins = "\<lambda>m. seg_insert T check k v (home_loc (hash_key T k)) (hash_key T k) (heap m ! seg_of m (hash_key T k))"
  have "cceh_inv m" "dir_depth m \<le> 64" using Suc.prems by (simp_all add: cceh_wf_def)
  then have "?ins m \<noteq> InsRetry" by (rule routed_segment(4)) simp
  then consider old s' where "?ins m = InsOk old s'" | s' where "?ins m = InsFull s'" by (cases "?ins m") auto
  then show ?case
  proof cases
    case 1 then show ?thesis using Suc.prems by (intro exI [of _ old] exI [of _ m] exI [of _ s']) simp
  next
    case 2
    let ?m = "cceh_split T ?h (seg_of m ?h) (with_segment m (seg_of m ?h) s')"
    note S = full_split [OF Suc.prems(1) 2 Suc.prems(2)]
    have "cceh_insert (Suc n) T check k v m = cceh_insert n T check k v ?m" using 2 by (simp add: Let_def)
    then show ?thesis using Suc.IH [OF S(3,5) _ step [OF Suc.prems(4,1) S(1) 2]] S(4) Suc.prems(3) by simp
  qed
qed

lemma insert_finish:
  assumes wf: "cceh_wf m" and ins: "seg_insert T check k v loc hsh (heap m ! seg_of m hsh) = InsOk old s'"
  shows "cceh_wf (with_segment m (seg_of m hsh) s')" "length (seg_slots (heap m ! seg_of m hsh)) = kNumSlot" "seg_of m hsh < length (heap m)"
proof -
  have I: "cceh_inv m" "dir_depth m \<le> 64" using wf by (simp_all add: cceh_wf_def)
  note R = routed_segment(1,2) [OF I refl, of hsh]
  then show "length (seg_slots (heap m ! seg_of m hsh)) = kNumSlot" "seg_of m hsh < length (heap m)" by simp_all
  show "cceh_wf (with_segment m (seg_of m hsh) s')"
    by (rule replace_segment_wf [OF wf R(1)]) (use seg_insert_fields [of T check k v loc hsh _ old s'] ins in simp_all)
qed

lemma insert_loop_slots:
  "q < length ps \<Longrightarrow> snd (insert_loop T check k v ld pat loc lk i n ps) ! q = ps ! q
    \<or> p_key (snd (insert_loop T check k v ld pat loc lk i n ps) ! q) = INVALID
    \<or> p_key (snd (insert_loop T check k v ld pat loc lk i n ps) ! q) = key_checker T k \<and> (\<exists>t. i \<le> t \<and> t < i + n \<and> q = win loc t)"
proof (induction n arbitrary: lk i ps)
  case (Suc n)
  let ?s = "win loc i"
  define ps1 where "ps1 = (if p_key (ps ! ?s) \<noteq> INVALID \<and> prefix ld (slot_hash T (p_key (ps ! ?s))) \<noteq> pat
                    then ps[?s := empty_pair] else ps)"
  have l1: "q < length ps1" using Suc.prems by (simp add: ps1_def)
  have p1: "ps1 ! q = ps ! q \<or> p_key (ps1 ! q) = INVALID"
    using Suc.prems by (cases "q = ?s") (auto simp: ps1_def empty_pair_def)
  have later: "\<exists>t. i \<le> t \<and> t < i + Suc n \<and> q = win loc t" if "\<exists>t. i + 1 \<le> t \<and> t < i + 1 + n \<and> q = win loc t"
    using that by (metis Suc_eq_plus1 add_Suc_shift Suc_leD)
  have now: "\<exists>t. i \<le> t \<and> t < i + Suc n \<and> ?s = win loc t" by (intro exI [of _ i]) simp
  let ?run = "snd (insert_loop T check k v ld pat loc lk i (Suc n) ps)"
  show ?case
  proof (cases "p_key (ps1 ! ?s) = lk \<or> matches T check k (ps1 ! ?s)")
    case True
    then have "?run = ps1[?s := \<lparr>p_key = (if is_tombstone v then INVALID else key_checker T k), p_value = v\<rparr>]"
      unfolding insert_loop_round ps1_def [symmetric] by (auto simp: matches_def)
    then show ?thesis using p1 l1 now by (cases "q = ?s") auto
  next
    case False
    then have "?run = snd (insert_loop T check k v ld pat loc (if p_key (ps1 ! ?s) = key_checker T k then key_checker T k else INVALID) (i + 1) n ps1)"
      unfolding insert_loop_round ps1_def [symmetric] by simp
    then show ?thesis
      using Suc.IH [OF l1, of "if p_key (ps1 ! ?s) = key_checker T k then key_checker T k else INVALID" "i + 1"] p1 later by auto
  qed
qed simp

text \<open>Replacing a segment by what an insert made of it: other keys read the same, and the pairs stay in
  their windows unless the key's own window wraps around.\<close>

lemma replaced_get:
  assumes wf: "cceh_wf m"
    and ins: "seg_insert T check k v loc hsh (heap m ! seg_of m hsh) = InsOk old s' \<or> seg_insert T check k v loc hsh (heap m ! seg_of m hsh) = InsFull s'"
    and k': "proper_key T k'" "key_checker T k' \<noteq> key_checker T k"
  shows "cceh_get T check k' (with_segment m (seg_of m hsh) s') = cceh_get T check k' m"
proof (cases "seg_of m (hash_key T k') = seg_of m hsh")
  case True
  have I: "cceh_inv m" "dir_depth m \<le> 64" using wf by (simp_all add: cceh_wf_def)
  note R = routed_segment(1-3) [OF I refl, of "hash_key T k'"]
  have "key_checker T k' \<noteq> INVALID" "prefix (local_depth (heap m ! seg_of m hsh)) (slot_hash T (key_checker T k')) = pattern (heap m ! seg_of m hsh)"
    using k'(1) R(3) True by (simp_all add: proper_key_def)
  then have "seg_get T check k' (home_loc (hash_key T k')) s' = seg_get T check k' (home_loc (hash_key T k')) (heap m ! seg_of m hsh)"
    using R(2) True k'(2) by (intro seg_insert_other [OF ins]) simp_all
  then show ?thesis using True R(1) by (simp add: cceh_get_def Let_def)
qed (simp add: cceh_get_def Let_def)

lemma replaced_placed:
  assumes pl: "all_placed T m" and t: "target < length (heap m)"
    and ins: "seg_insert T check k v (home_loc (hash_key T k)) hsh (heap m ! target) = InsFull s'
      \<or> seg_insert T check k v (home_loc (hash_key T k)) hsh (heap m ! target) = InsOk old s'
        \<and> proper_key T k \<and> home_loc (hash_key T k) + kWindow \<le> kNumSlot"
  shows "all_placed T (with_segment m target s')"
proof -
  let ?s = "heap m ! target" and ?loc = "home_loc (hash_key T k)"
  have ps: "placed T (seg_slots ?s)" "length (seg_slots ?s) = kNumSlot" using pl t by (simp_all add: all_placed_def)
  have len: "length (seg_slots s') = kNumSlot" using seg_insert_fields [of T check k v ?loc hsh ?s old s'] ins ps(2) by auto
  have "placed T (seg_slots s')"
    unfolding placed_def
  proof (intro allI impI)
    fix q assume q: "q < length (seg_slots s')" "p_key (seg_slots s' ! q) \<noteq> INVALID"
    consider "seg_slots s' ! q = seg_slots ?s ! q"
      | j where "proper_key T k" "?loc + kWindow \<le> kNumSlot" "p_key (seg_slots s' ! q) = key_checker T k" "j < kWindow" "q = win ?loc j"
      using ins
    proof (elim disjE conjE)
      assume full: "seg_insert T check k v ?loc hsh ?s = InsFull s'"
      then show thesis using that(1) seg_full(1) [OF full ps(2), of q] q len by (auto simp: empty_pair_def)
    next
      assume ok: "seg_insert T check k v ?loc hsh ?s = InsOk old s'" "proper_key T k" "?loc + kWindow \<le> kNumSlot"
      then obtain ps' where run: "insert_loop T check k v (local_depth ?s) (pattern ?s) ?loc INVALID 0 kWindow (seg_slots ?s) = (Some old, ps')"
        "s' = ?s\<lparr>seg_slots := ps'\<rparr>" by (auto simp: seg_insert_def split: if_splits option.splits prod.splits)
      then show thesis using that(1) that(2) [OF ok(2,3)] q len ps(2)
          insert_loop_slots [of q "seg_slots ?s" T check k v "local_depth ?s" "pattern ?s" ?loc INVALID 0 kWindow] by auto
    qed
    then show "home_loc (slot_hash T (p_key (seg_slots s' ! q))) \<le> q \<and> q < home_loc (slot_hash T (p_key (seg_slots s' ! q))) + kWindow"
    proof cases
      case 1 then show ?thesis using ps q len by (simp add: placed_def)
    next
      case 2 then show ?thesis by (simp add: proper_key_def)
    qed
  qed
  then show ?thesis using pl len set_update_subset_insert [of "heap m" target s'] unfolding all_placed_def by auto
qed

lemma split_round:
  fixes T :: "'k KeyTraits" and m hsh s'
  assumes wf: "cceh_wf m" and pl: "all_placed T m" and ld: "local_depth (heap m ! seg_of m hsh) < 64"
    and ins: "seg_insert T check k v (home_loc (hash_key T k)) hsh (heap m ! seg_of m hsh) = InsFull s'"
  defines "m1 \<equiv> with_segment m (seg_of m hsh) s'"
  shows "all_placed T (cceh_split T hsh (seg_of m hsh) m1)"
    and "proper_key T k' \<Longrightarrow> key_checker T k' \<noteq> key_checker T k \<Longrightarrow> cceh_get T check k' (cceh_split T hsh (seg_of m hsh) m1) = cceh_get T check k' m"
proof -
  let ?t = "seg_of m hsh"
  have I: "cceh_inv m" "dir_depth m \<le> 64" using wf by (simp_all add: cceh_wf_def)
  note R = routed_segment(1,2) [OF I refl, of hsh]
  have f: "local_depth s' = local_depth (heap m ! ?t)" "pattern s' = pattern (heap m ! ?t)" "length (seg_slots s') = length (seg_slots (heap m ! ?t))"
    using seg_insert_fields [of T check k v "home_loc (hash_key T k)" hsh "heap m ! ?t" _ s'] ins by simp_all
  have wf1: "cceh_inv m1" "chunked m1" "dir_depth m1 \<le> 64" using replace_segment_wf [OF wf R(1) f] by (simp_all add: m1_def cceh_wf_def)
  have t1: "?t = seg_of m1 hsh" and h1: "heap m1 ! ?t = s'" and l1: "?t < length (heap m1)" using R(1) by (simp_all add: m1_def)
  have ld1: "local_depth (heap m1 ! ?t) < 64" using ld h1 f(1) by simp
  have pl1: "all_placed T m1" unfolding m1_def by (rule replaced_placed [OF pl R(1) disjI1 [OF ins]])
  show "all_placed T (cceh_split T hsh ?t m1)" by (rule split_placed [OF pl1 l1 ld1])
  assume k': "proper_key T k'" "key_checker T k' \<noteq> key_checker T k"
  have "cceh_get T check k' m1 = cceh_get T check k' m" unfolding m1_def by (rule replaced_get [OF wf disjI2 [OF ins] k'])
  then show "cceh_get T check k' (cceh_split T hsh ?t m1) = cceh_get T check k' m"
    using split_get [OF wf1 t1 ld1 pl1 k'(1)] by simp
qed

section \<open>Inserts with splits\<close>

text \<open>C27. An insert returns and its key reads the new offset. In a well-formed map whose segment for the key
  holds fewer than eight pairs with the key's full hash, the retry loop of \<open>CCEH::Insert\<close> ends: each split
  makes the segment one bit deeper, so 65 rounds minus the segment's depth are enough. The map stays
  well-formed and the lookup of the key returns the offset. (Eight, not sixteen: the loop passes over a
  free slot right behind a pair whose fingerprint matched and whose key did not.)\<close>

theorem cceh_insert_get:
  assumes "cceh_wf m" and "same_hash T (hash_key T k) (heap m ! seg_of m (hash_key T k)) < 8"
    and "64 < n + local_depth (heap m ! seg_of m (hash_key T k))"
    and "\<not> is_tombstone v" and "using_fp T \<Longrightarrow> check k v"
  shows "\<exists>old m'. cceh_insert n T check k v m = Some (old, m') \<and> cceh_wf m' \<and> cceh_get T check k m' = v"
proof -
  let ?h = "hash_key T k"
  obtain old m1 s' where ins: "cceh_insert n T check k v m = Some (old, with_segment m1 (seg_of m1 ?h) s')" "cceh_wf m1"
    "seg_insert T check k v (home_loc ?h) ?h (heap m1 ! seg_of m1 ?h) = InsOk old s'"
    using insert_total [OF assms(1-3), of "\<lambda>_. True" check v] by auto
  note fin = insert_finish [OF ins(2,3)]
  then show ?thesis using ins(1) seg_insert_get [OF ins(3) fin(2) assms(4,5)] by (simp add: cceh_get_def Let_def)
qed

text \<open>C28. Every other key reads what it read before, through any number of splits, as long as no pair of the
  map lies in a wrapped probe window: a split copies the pairs in slot order, and wrapped pairs, which come
  first in that order, could take the slot of a later one (\<open>Insert4split\<close> then drops it). The condition
  is kept by the insert of a key whose own window does not wrap. Covers removals (a tombstone) as well;
  keys that share the index word of the inserted one can be overwritten, as \<open>Cceh\<close> shows.\<close>

theorem cceh_insert_other:
  assumes "cceh_wf m" and "same_hash T (hash_key T k) (heap m ! seg_of m (hash_key T k)) < 8"
    and "64 < n + local_depth (heap m ! seg_of m (hash_key T k))"
    and "all_placed T m"
  shows "\<exists>old m'. cceh_insert n T check k v m = Some (old, m') \<and> cceh_wf m'
    \<and> (\<forall>k'. proper_key T k' \<and> key_checker T k' \<noteq> key_checker T k \<longrightarrow> cceh_get T check k' m' = cceh_get T check k' m)
    \<and> (proper_key T k \<and> home_loc (hash_key T k) + kWindow \<le> kNumSlot \<longrightarrow> all_placed T m')"
proof -
  let ?h = "hash_key T k"
  let ?P = "\<lambda>m'. all_placed T m' \<and> (\<forall>k'. proper_key T k' \<and> key_checker T k' \<noteq> key_checker T k \<longrightarrow> cceh_get T check k' m' = cceh_get T check k' m)"
  have step: "?P (cceh_split T ?h (seg_of m ?h) (with_segment m (seg_of m ?h) s'))"
    if "?P m" "cceh_wf m" "local_depth (heap m ! seg_of m ?h) < 64"
      "seg_insert T check k v (home_loc ?h) ?h (heap m ! seg_of m ?h) = InsFull s'" for m s'
    using split_round [of m T ?h check k v s'] that by simp
  obtain old m1 s' where ins: "cceh_insert n T check k v m = Some (old, with_segment m1 (seg_of m1 ?h) s')" "cceh_wf m1" "?P m1"
    "seg_insert T check k v (home_loc ?h) ?h (heap m1 ! seg_of m1 ?h) = InsOk old s'"
    using insert_total [OF assms(1-3), of ?P check v] step assms(4) by blast
  note fin = insert_finish [OF ins(2,4)]
  have "all_placed T (with_segment m1 (seg_of m1 ?h) s')" if "proper_key T k" "home_loc ?h + kWindow \<le> kNumSlot"
    using replaced_placed [of T m1 _ check k v ?h s' old] fin(3) ins(3,4) that by simp
  then show ?thesis using ins(1,3) fin(1) replaced_get [OF ins(2), of T check k v _ ?h old s'] ins(4) by auto
qed

section \<open>A map that has to split\<close>

text \<open>A map of depth 1 whose first segment has a full probe window at its start: sixteen pairs of home 0,
  eight of them with the second hash bit set.\<close>

definition full_key :: "nat \<Rightarrow> u64" where
  "full_key i = (if i < 8 then 0 else 0x4000000000000000) + 256 * of_nat (i + 1)"

definition full_segment :: Segment where
  "full_segment = \<lparr>seg_slots = map (\<lambda>i. \<lparr>p_key = full_key i, p_value = of_nat i\<rparr>) [0..<16] @ replicate 1008 empty_pair,
     local_depth = 1, pattern = 0\<rparr>"

definition full_map :: CCEH where
  "full_map = \<lparr>dir_depth = 1, dir_segs = [0, 1],
     heap = [full_segment, \<lparr>seg_slots = replicate kNumSlot empty_pair, local_depth = 1, pattern = 1\<rparr>]\<rparr>"

lemma full_keys:
  assumes "i < 16"
  shows "full_key i \<noteq> INVALID" "full_key i \<noteq> 0" "prefix 1 (full_key i) = 0" "home_loc (full_key i) = 0"
proof -
  have "\<forall>i \<in> set [0..<16]. full_key i \<noteq> INVALID \<and> full_key i \<noteq> 0 \<and> prefix 1 (full_key i) = 0 \<and> home_loc (full_key i) = 0"
    by code_simp
  then show "full_key i \<noteq> INVALID" "full_key i \<noteq> 0" "prefix 1 (full_key i) = 0" "home_loc (full_key i) = 0" using assms by auto
qed

lemma full_slots: "q < 16 \<Longrightarrow> seg_slots full_segment ! q = \<lparr>p_key = full_key q, p_value = of_nat q\<rparr>"
  "16 \<le> q \<Longrightarrow> q < 1024 \<Longrightarrow> seg_slots full_segment ! q = empty_pair" "length (seg_slots full_segment) = kNumSlot"
  by (simp_all add: full_segment_def nth_append kNumSlot_val)

lemma word_keys_simps: "key_checker word_keys w = w" "slot_hash word_keys w = w" "hash_key word_keys w = w" "using_fp word_keys = False"
  by (simp_all add: word_keys_def key_checker_def slot_hash_def)

lemma full_splits: "seg_insert word_keys check 0 v 0 0 full_segment = InsFull full_segment"
proof -
  have "i + n \<le> 16 \<Longrightarrow> insert_loop word_keys check 0 v 1 0 0 INVALID i n (seg_slots full_segment) = (None, seg_slots full_segment)" for i n
  proof (induction n arbitrary: i)
    case (Suc n)
    then have "win 0 i = i" "i < 16" by (simp_all add: kNumSlot_val)
    then show ?case unfolding insert_loop_round using Suc full_keys [of i] by (simp add: full_slots matches_def word_keys_simps)
  qed simp
  from this [of 0 16] show ?thesis by (simp add: seg_insert_def kWindow_val prefix_def) (simp add: full_segment_def)
qed

lemma full_map_wf: "cceh_wf full_map"
  by (auto simp: cceh_wf_def cceh_inv_def seg_ok_def chunked_def full_map_def full_segment_def kNumSlot_val less_2_cases_iff Let_def)

lemma full_map_placed: "all_placed word_keys full_map"
proof -
  have "placed word_keys (seg_slots full_segment)"
    unfolding placed_def
  proof (intro allI impI)
    fix q assume "q < length (seg_slots full_segment)" "p_key (seg_slots full_segment ! q) \<noteq> INVALID"
    then have "q < 16" using full_slots(2) [of q] by (cases "q < 16") (auto simp: full_slots(3) kNumSlot_val empty_pair_def)
    then show "home_loc (slot_hash word_keys (p_key (seg_slots full_segment ! q))) \<le> q
      \<and> q < home_loc (slot_hash word_keys (p_key (seg_slots full_segment ! q))) + kWindow"
      using full_keys(4) by (simp add: full_slots(1) word_keys_simps kWindow_val)
  qed
  then show ?thesis by (auto simp: all_placed_def full_map_def full_slots(3) placed_def empty_pair_def)
qed

lemma full_map_route: "seg_of full_map 0 = 0" "heap full_map ! 0 = full_segment" "seg_of full_map (full_key 8) = 0"
proof -
  show "seg_of full_map (full_key 8) = 0" using full_keys(3) [of 8] by (simp add: full_map_def)
qed (simp_all add: full_map_def prefix_def)

lemma full_map_few: "same_hash word_keys 0 (heap full_map ! seg_of full_map 0) < 8"
proof -
  have "filter (\<lambda>p. p_key p \<noteq> INVALID \<and> slot_hash word_keys (p_key p) = 0) (seg_slots full_segment) = []"
    using full_keys(2) by (auto simp: full_segment_def filter_empty_conv word_keys_simps empty_pair_def INVALID_def)
  then show ?thesis by (simp add: same_hash_def full_map_route)
qed

lemma full_map_get: "cceh_get word_keys check (full_key 8) full_map = 8"
proof -
  have "\<forall>i \<in> set [0..<8]. full_key i \<noteq> full_key 8" by code_simp
  then have "full_key j \<noteq> full_key 8" if "j < 8" for j using that by simp
  then have "first_idx kWindow (\<lambda>i. matches word_keys check (full_key 8) (seg_slots full_segment ! win 0 i)) = Some 8"
    by (auto simp: first_idx_Some_iff matches_def kWindow_val kNumSlot_val full_slots word_keys_simps)
  then show ?thesis using full_keys(4) [of 8]
    by (simp add: cceh_get_def Let_def word_keys_simps full_map_route seg_get_eq full_slots kNumSlot_val)
qed

text \<open>The first round of the insert of key 0 splits the segment; the key then claims a slot of the lower half
  and the key \<open>full_key 8\<close>, which has moved to the upper half, reads as before.\<close>

theorem cceh_insert_get_witness:
  "seg_insert word_keys (\<lambda>_ _. True) 0 5 0 0 full_segment = InsFull full_segment \<and>
   (\<exists>old m'. cceh_insert 65 word_keys (\<lambda>_ _. True) 0 5 full_map = Some (old, m') \<and> cceh_wf m' \<and> cceh_get word_keys (\<lambda>_ _. True) 0 m' = 5)"
  using cceh_insert_get [OF full_map_wf, of word_keys 0 65 5 "\<lambda>_ _. True"] full_map_few full_splits
  by (simp add: word_keys_simps is_tombstone_def INVALID_OFFSET_def)

theorem cceh_insert_other_witness:
  "\<exists>old m'. cceh_insert 65 word_keys (\<lambda>_ _. True) 0 5 full_map = Some (old, m') \<and> cceh_get word_keys (\<lambda>_ _. True) (full_key 8) m' = 8"
  using cceh_insert_other [OF full_map_wf, of word_keys 0 65 "\<lambda>_ _. True" 5] full_map_few full_map_placed
    full_keys(1,2) [of 8] full_map_get [of "\<lambda>_ _. True"]
  by (auto simp: word_keys_simps proper_key_def)

end
