(* ===== verification/Viper_Store.thy ===== *)
theory Viper_Store
  imports Viper_Lock Cceh
begin

text \<open>
  The record store of Viper for fixed-size keys and values (viper.hpp): pages with a version lock,
  a bitset of free slots and an array of records; blocks of pages; clients that own a block and fill
  its pages in turn; the durable high-water mark of used blocks. Operations run one at a time; what
  other threads can do to the lock word is the subject of Viper_Lock. An operation that would spin
  forever (a lock nobody releases, no block left and no resize) has no result (\<open>None\<close>). The index is
  the offset map of Cceh, or, when HiOM owns the index, the resolver functions that HiOM installs.
\<close>

section \<open>Pages, blocks, store, client\<close>

record ('k, 'v) ViperPage =
  version_lock :: u8
  free_slots :: "bool list"
  page_data :: "('k \<times> 'v) list"

record ('k, 'v) Viper =
  v_blocks :: "('k, 'v) ViperPage list list"
  current_block_page :: "nat \<times> nat"
  num_used_blocks :: nat
  current_size :: int
  reclaimable_ops :: nat
  offset_map :: CCEH
  hiom_owns_index :: bool
  hiom_map_skipped :: nat

record VClient =
  v_block_number :: nat
  v_page_number :: nat
  v_block :: "nat option"
  num_v_pages_processed :: nat
  op_count :: nat
  size_delta :: int
  num_reclaimable_ops :: nat
  last_put_offset :: u64

text \<open>Compile-time parameters: pages per block, slots per page, the key type, whether reclamation is
  on, and how many rounds an insert into the offset map is followed.\<close>

record 'k VConfig =
  num_pages :: nat
  num_slots :: nat
  traits :: "'k KeyTraits"
  enable_reclamation :: bool
  map_rounds :: nat

definition page_at :: "('k, 'v) Viper \<Rightarrow> nat \<Rightarrow> nat \<Rightarrow> ('k, 'v) ViperPage" where
  "page_at V b p = v_blocks V ! b ! p"

definition upd_page :: "nat \<Rightarrow> nat \<Rightarrow> (('k, 'v) ViperPage \<Rightarrow> ('k, 'v) ViperPage) \<Rightarrow> ('k, 'v) Viper \<Rightarrow> ('k, 'v) Viper" where
  "upd_page b p f V = V\<lparr>v_blocks := (v_blocks V)[b := (v_blocks V ! b)[p := f (v_blocks V ! b ! p)]]\<rparr>"

definition upd_lock :: "nat \<Rightarrow> nat \<Rightarrow> (u8 \<Rightarrow> u8) \<Rightarrow> ('k, 'v) Viper \<Rightarrow> ('k, 'v) Viper" where
  "upd_lock b p f V = upd_page b p (\<lambda>pg. pg\<lparr>version_lock := f (version_lock pg)\<rparr>) V"

definition page_init :: "nat \<Rightarrow> ('k, 'v) ViperPage \<Rightarrow> ('k, 'v) ViperPage" where
  "page_init n pg = pg\<lparr>version_lock := USED_BIT, free_slots := replicate n True\<rparr>"

definition is_owned :: "('k, 'v) ViperPage list \<Rightarrow> bool" where
  "is_owned blk = is_bit_set (version_lock (blk ! 0)) CLIENT_BIT"

definition is_unused :: "('k, 'v) ViperPage list \<Rightarrow> bool" where
  "is_unused blk = list_all (\<lambda>pg. \<not> is_bit_set (version_lock pg) USED_BIT) blk"

text \<open>The fields of an offset as list indices.\<close>

definition locate :: "u64 \<Rightarrow> nat \<times> nat \<times> nat" where
  "locate off = (case get_offsets off of (b, p, s) \<Rightarrow> (unat b, unat p, unat s))"

definition make_offset :: "nat \<Rightarrow> nat \<Rightarrow> nat \<Rightarrow> u64" where
  "make_offset b p s = KeyValueOffset (of_nat b) (of_nat p) (of_nat s)"

section \<open>Slots per page\<close>

definition PAGE_SIZE :: nat where "PAGE_SIZE = 4096"
definition NUM_DIMMS :: nat where "NUM_DIMMS = 6"
definition BLOCK_SIZE :: nat where "BLOCK_SIZE = NUM_DIMMS * PAGE_SIZE"

function grow_page :: "nat \<Rightarrow> nat \<Rightarrow> nat" where
  "grow_page need sz =
    (if need > sz \<and> sz \<le> BLOCK_SIZE then grow_page need (sz + PAGE_SIZE) else sz)"
  by pat_completeness auto
termination by (relation "measure (\<lambda>(need, sz). Suc BLOCK_SIZE - sz)") (auto simp: BLOCK_SIZE_def NUM_DIMMS_def PAGE_SIZE_def)

declare grow_page.simps [simp del]

fun shrink_slots :: "nat \<Rightarrow> nat \<Rightarrow> nat \<Rightarrow> nat" where
  "shrink_slots entry page 0 = 0"
| "shrink_slots entry page (Suc n) =
    (if Suc n * entry + 2 + (Suc n + 7) div 8 > page then shrink_slots entry page n else Suc n)"

definition get_num_slots_per_page :: "nat \<Rightarrow> nat" where
  "get_num_slots_per_page entry_size =
    (let size1 = grow_page (entry_size + 2) PAGE_SIZE;
         pages = size1 div PAGE_SIZE;
         size2 = (if pages = 4 \<or> pages = 5 then BLOCK_SIZE else size1);
         large = size2 div entry_size;
         start = (if large > 255 then large - 1 else large)
     in shrink_slots entry_size size2 start)"

section \<open>Blocks\<close>

text \<open>\<open>get_new_block\<close>: the next block number, with a page chosen by \<open>rand()\<close> for the one after.\<close>

definition get_new_block :: "'k VConfig \<Rightarrow> nat \<Rightarrow> ('k, 'v) Viper \<Rightarrow> ((nat \<times> nat) \<times> ('k, 'v) Viper) option" where
  "get_new_block cfg rnd V =
    (case current_block_page V of (client_block, client_page) \<Rightarrow>
       if client_block \<ge> length (v_blocks V) then None
       else Some ((client_block, client_page),
                  V\<lparr>current_block_page := (client_block + 1, rnd mod num_pages cfg)\<rparr>))"

definition info_sync :: "'k VConfig \<Rightarrow> bool \<Rightarrow> ('k, 'v) Viper \<Rightarrow> VClient \<Rightarrow> ('k, 'v) Viper \<times> VClient" where
  "info_sync cfg force V C =
    (if force \<or> op_count C + 1 = 10000 then
       (V\<lparr>current_size := current_size V + size_delta C,
          reclaimable_ops := (if enable_reclamation cfg then reclaimable_ops V + num_reclaimable_ops C else reclaimable_ops V)\<rparr>,
        C\<lparr>op_count := 0, size_delta := 0, num_reclaimable_ops := 0\<rparr>)
     else (V, C\<lparr>op_count := op_count C + 1\<rparr>))"

definition drop_owner :: "nat option \<Rightarrow> ('k, 'v) Viper \<Rightarrow> ('k, 'v) Viper" where
  "drop_owner blk V = (case blk of None \<Rightarrow> V | Some b \<Rightarrow> upd_lock b 0 (\<lambda>w. w AND NO_CLIENT_BIT) V)"

text \<open>\<open>get_block_based_access\<close>; \<open>reuse\<close> is what the queue of reclaimed blocks delivered.\<close>

definition take_block :: "'k VConfig \<Rightarrow> nat \<Rightarrow> nat \<Rightarrow> ('k, 'v) Viper \<Rightarrow> VClient \<Rightarrow> ('k, 'v) Viper \<times> VClient" where
  "take_block cfg b p V C =
    (let V1 = drop_owner (v_block C) V;
         V2 = upd_page b p (page_init (num_slots cfg)) V1;
         V3 = upd_lock b 0 (\<lambda>w. w OR CLIENT_BIT) V2;
         V4 = V3\<lparr>num_used_blocks := max (num_used_blocks V3) (b + 1)\<rparr>
     in (V4, C\<lparr>v_block_number := b, v_page_number := p, v_block := Some b, num_v_pages_processed := 0\<rparr>))"

definition get_block_based_access :: "'k VConfig \<Rightarrow> nat option \<Rightarrow> nat \<Rightarrow> ('k, 'v) Viper \<Rightarrow> VClient \<Rightarrow>
    (('k, 'v) Viper \<times> VClient) option" where
  "get_block_based_access cfg reuse rnd V C =
    (case reuse of
       Some b \<Rightarrow> Some (take_block cfg b 0 V C)
     | None \<Rightarrow> (case get_new_block cfg rnd V of
                  None \<Rightarrow> None
                | Some ((b, p), V') \<Rightarrow> Some (take_block cfg b p V' C)))"

definition get_new_access_information :: "'k VConfig \<Rightarrow> nat option \<Rightarrow> nat \<Rightarrow> ('k, 'v) Viper \<Rightarrow> VClient \<Rightarrow>
    (('k, 'v) Viper \<times> VClient) option" where
  "get_new_access_information cfg reuse rnd V C =
    (case info_sync cfg True V C of (V', C') \<Rightarrow> get_block_based_access cfg reuse rnd V' C')"

definition new_client :: VClient where
  "new_client = \<lparr>v_block_number = 0, v_page_number = 0, v_block = None, num_v_pages_processed = 0,
     op_count = 0, size_delta = 0, num_reclaimable_ops = 0, last_put_offset = Tombstone\<rparr>"

definition get_client :: "'k VConfig \<Rightarrow> nat option \<Rightarrow> nat \<Rightarrow> ('k, 'v) Viper \<Rightarrow> (('k, 'v) Viper \<times> VClient) option" where
  "get_client cfg reuse rnd V = get_new_access_information cfg reuse rnd V new_client"

definition end_client :: "'k VConfig \<Rightarrow> ('k, 'v) Viper \<Rightarrow> VClient \<Rightarrow> ('k, 'v) Viper" where
  "end_client cfg V C = drop_owner (v_block C) (fst (info_sync cfg True V C))"

text \<open>\<open>update_access_information\<close> under the block-based strategy, the only one ever set.\<close>

definition update_access_information :: "'k VConfig \<Rightarrow> nat option \<Rightarrow> nat \<Rightarrow> ('k, 'v) Viper \<Rightarrow> VClient \<Rightarrow>
    (('k, 'v) Viper \<times> VClient) option" where
  "update_access_information cfg reuse rnd V C =
    (let C1 = C\<lparr>num_v_pages_processed := num_v_pages_processed C + 1\<rparr>;
         moved = (if num_v_pages_processed C1 = num_pages cfg
                  then get_new_access_information cfg reuse rnd V C1
                  else Some (V, C1\<lparr>v_page_number := (v_page_number C1 + 1) mod num_pages cfg\<rparr>))
     in case moved of
          None \<Rightarrow> None
        | Some (V', C') \<Rightarrow>
            Some (upd_page (the (v_block C')) (v_page_number C') (page_init (num_slots cfg)) V', C'))"

text \<open>New space: \<open>allocate_v_page_blocks\<close> and \<open>add_v_page_blocks\<close> append the zeroed blocks of one mapping.\<close>

definition add_v_page_blocks :: "('k, 'v) ViperPage list list \<Rightarrow> ('k, 'v) Viper \<Rightarrow> ('k, 'v) Viper" where
  "add_v_page_blocks blks V = V\<lparr>v_blocks := v_blocks V @ blks\<rparr>"

section \<open>Reading\<close>

definition slot_free :: "('k, 'v) Viper \<Rightarrow> u64 \<Rightarrow> bool" where
  "slot_free V off = (case locate off of (b, p, s) \<Rightarrow> free_slots (page_at V b p) ! s)"

definition entry_at :: "('k, 'v) Viper \<Rightarrow> u64 \<Rightarrow> 'k \<times> 'v" where
  "entry_at V off = (case locate off of (b, p, s) \<Rightarrow> page_data (page_at V b p) ! s)"

definition lock_at :: "('k, 'v) Viper \<Rightarrow> u64 \<Rightarrow> u8" where
  "lock_at V off = (case locate off of (b, p, s) \<Rightarrow> version_lock (page_at V b p))"

definition check_key_equality :: "('k, 'v) Viper \<Rightarrow> 'k \<Rightarrow> u64 \<Rightarrow> bool" where
  "check_key_equality V key off =
    (if is_tombstone off then False else if slot_free V off then False else fst (entry_at V off) = key)"

datatype ReadStatus = kOk | kTransient | kSlotFree

definition hiom_read_at_offset_status :: "('k, 'v) Viper \<Rightarrow> u64 \<Rightarrow> ReadStatus \<times> ('k \<times> 'v) option" where
  "hiom_read_at_offset_status V off =
    (if slot_free V off then (kSlotFree, None)
     else if IS_LOCKED (lock_at V off) then (kTransient, None)
     else (kOk, Some (entry_at V off)))"

definition hiom_read_at_offset :: "('k, 'v) Viper \<Rightarrow> u64 \<Rightarrow> ('k \<times> 'v) option" where
  "hiom_read_at_offset V off =
    (case hiom_read_at_offset_status V off of (kOk, r) \<Rightarrow> r | _ \<Rightarrow> None)"

definition get_value_from_offset :: "('k, 'v) Viper \<Rightarrow> u64 \<Rightarrow> 'v option" where
  "get_value_from_offset V off = (if IS_LOCKED (lock_at V off) then None else Some (snd (entry_at V off)))"

definition hiom_is_offset_alive :: "('k, 'v) Viper \<Rightarrow> u64 \<Rightarrow> bool" where
  "hiom_is_offset_alive V off =
    (case locate off of (b, p, s) \<Rightarrow> if b \<ge> length (v_blocks V) then False else \<not> free_slots (page_at V b p) ! s)"

definition hiom_get_slot_key :: "('k, 'v) Viper \<Rightarrow> u64 \<Rightarrow> 'k option" where
  "hiom_get_slot_key V off =
    (case locate off of (b, p, s) \<Rightarrow>
       if b \<ge> length (v_blocks V) then None
       else if free_slots (page_at V b p) ! s then None
       else Some (fst (page_data (page_at V b p) ! s)))"

text \<open>The repair of a crash-stale lock on the page of an offset, no intent being registered.\<close>

definition hiom_repair_stale_lock_at :: "u64 \<Rightarrow> ('k, 'v) Viper \<Rightarrow> ('k, 'v) Viper" where
  "hiom_repair_stale_lock_at off V =
    (case locate off of (b, p, s) \<Rightarrow>
       upd_lock b p (\<lambda>w. snd (try_repair_stale_lock 1 (replicate kLockIntentSlots 0) w)) V)"

text \<open>\<open>Client::get\<close>: a locked page is spun on, repaired, and read again.\<close>

definition viper_get :: "'k VConfig \<Rightarrow> 'k \<Rightarrow> ('k, 'v) Viper \<Rightarrow> 'v option \<times> ('k, 'v) Viper" where
  "viper_get cfg key V =
    (let off = cceh_get (traits cfg) (check_key_equality V) key (offset_map V)
     in if is_tombstone off then (None, V)
        else if \<not> check_key_equality V key off then (None, V)
        else case get_value_from_offset V off of
               Some v \<Rightarrow> (Some v, V)
             | None \<Rightarrow> let V' = hiom_repair_stale_lock_at off V in (get_value_from_offset V' off, V'))"

definition hiom_peek_offset :: "'k VConfig \<Rightarrow> ('k \<Rightarrow> u64) \<Rightarrow> 'k \<Rightarrow> ('k, 'v) Viper \<Rightarrow> u64" where
  "hiom_peek_offset cfg resolver key V =
    (if hiom_owns_index V then resolver key
     else cceh_get (traits cfg) (check_key_equality V) key (offset_map V))"

section \<open>Writing\<close>

definition invalidate_record :: "nat \<Rightarrow> nat \<Rightarrow> nat \<Rightarrow> ('k, 'v) Viper \<Rightarrow> ('k, 'v) Viper" where
  "invalidate_record b p s V = upd_page b p (\<lambda>pg. pg\<lparr>free_slots := (free_slots pg)[s := True]\<rparr>) V"

definition map_insert :: "'k VConfig \<Rightarrow> 'k \<Rightarrow> u64 \<Rightarrow> ('k, 'v) Viper \<Rightarrow> (u64 \<times> ('k, 'v) Viper) option" where
  "map_insert cfg key off V =
    (case cceh_insert (map_rounds cfg) (traits cfg) (check_key_equality V) key off (offset_map V) of
       None \<Rightarrow> None
     | Some (old, m) \<Rightarrow> Some (old, V\<lparr>offset_map := m\<rparr>))"

text \<open>Locking the page of an old record: at once when it is free, after the stale-lock repair when a
  crash left it locked (the deadlock queue serves locks that live clients hold).\<close>

definition acquire_word :: "u8 \<Rightarrow> u8" where
  "acquire_word w =
    (case page_lock w of
       Some w' \<Rightarrow> w'
     | None \<Rightarrow> (case page_lock (snd (try_repair_stale_lock 1 (replicate kLockIntentSlots 0) w)) of
                  Some w' \<Rightarrow> w' | None \<Rightarrow> w))"

definition mark_removed :: "'k VConfig \<Rightarrow> bool \<Rightarrow> 'k \<Rightarrow> ('k, 'v) Viper \<Rightarrow> ('k, 'v) Viper option" where
  "mark_removed cfg delete_offset key V =
    (if delete_offset \<and> \<not> hiom_owns_index V
     then map_option snd (map_insert cfg key Tombstone V) else Some V)"

definition free_occupied_slot :: "'k VConfig \<Rightarrow> u64 \<Rightarrow> 'k \<Rightarrow> bool \<Rightarrow> ('k, 'v) Viper \<Rightarrow> VClient \<Rightarrow>
    (('k, 'v) Viper \<times> VClient) option" where
  "free_occupied_slot cfg off key delete_offset V C =
    (case locate off of (b, p, s) \<Rightarrow>
       let C' = C\<lparr>size_delta := size_delta C - 1\<rparr>
       in if v_block_number C = b \<and> v_page_number C = p then
            map_option (\<lambda>V'. (V', C')) (mark_removed cfg delete_offset key (invalidate_record b p s V))
          else
            (let V1 = upd_lock b p acquire_word V;
                 V2 = invalidate_record b p s V1
             in map_option (\<lambda>V3. (upd_lock b p page_unlock V3, C')) (mark_removed cfg delete_offset key V2)))"

text \<open>Which offset the key had before: from the resolver when HiOM owns the index (nothing for a key the
  caller declares new), else from the map, with the resolver as a fallback when one is installed.\<close>

definition old_offset_of :: "'k VConfig \<Rightarrow> (('k, 'v) Viper \<Rightarrow> 'k \<Rightarrow> u64) option \<Rightarrow> 'k \<Rightarrow> u64 \<Rightarrow> bool \<Rightarrow> ('k, 'v) Viper \<Rightarrow>
    (u64 \<times> ('k, 'v) Viper) option" where
  "old_offset_of cfg resolver key kv_offset assume_new V =
    (if hiom_owns_index V then
       let V' = V\<lparr>hiom_map_skipped := hiom_map_skipped V + 1\<rparr>
       in Some (if assume_new then Tombstone else the resolver V' key, V')
     else case map_insert cfg key kv_offset V of
            None \<Rightarrow> None
          | Some (old, V') \<Rightarrow>
              (case resolver of
                 Some r \<Rightarrow> if is_tombstone old \<and> \<not> is_tombstone (r V' key) then Some (r V' key, V') else Some (old, V')
               | None \<Rightarrow> Some (old, V')))"

text \<open>\<open>Client::put\<close>; a full page sends it to the next one, at most \<open>n - 1\<close> times.\<close>

fun put :: "nat \<Rightarrow> 'k VConfig \<Rightarrow> (('k, 'v) Viper \<Rightarrow> 'k \<Rightarrow> u64) option \<Rightarrow> nat option \<Rightarrow> nat \<Rightarrow> 'k \<Rightarrow> 'v \<Rightarrow> bool \<Rightarrow> bool \<Rightarrow>
    ('k, 'v) Viper \<Rightarrow> VClient \<Rightarrow> (bool \<times> ('k, 'v) Viper \<times> VClient) option" where
  "put 0 cfg resolver reuse rnd key value delete_old assume_new V C = None"
| "put (Suc n) cfg resolver reuse rnd key value delete_old assume_new V C =
    (let b = v_block_number C; p = v_page_number C
     in case page_lock (version_lock (page_at V b p)) of
          None \<Rightarrow> None
        | Some w \<Rightarrow>
            (let V1 = upd_lock b p (\<lambda>_. w) V
             in case first_idx (num_slots cfg) (\<lambda>i. free_slots (page_at V1 b p) ! i) of
                  None \<Rightarrow>
                    (case update_access_information cfg reuse rnd (upd_lock b p page_unlock V1) C of
                       None \<Rightarrow> None
                     | Some (V2, C2) \<Rightarrow> put n cfg resolver reuse rnd key value delete_old assume_new V2 C2)
                | Some s \<Rightarrow>
                    (let V2 = upd_page b p (\<lambda>pg. pg\<lparr>page_data := (page_data pg)[s := (key, value)]\<rparr>) V1;
                         V3 = upd_page b p (\<lambda>pg. pg\<lparr>free_slots := (free_slots pg)[s := False]\<rparr>) V2;
                         kv_offset = make_offset b p s;
                         C1 = C\<lparr>last_put_offset := kv_offset\<rparr>
                     in case old_offset_of cfg resolver key kv_offset assume_new V3 of
                          None \<Rightarrow> None
                        | Some (old_offset, V4) \<Rightarrow>
                            (let is_new_item = is_tombstone old_offset;
                                 freed = (if \<not> is_new_item \<and> delete_old
                                          then free_occupied_slot cfg old_offset key False V4 C1 else Some (V4, C1))
                             in case freed of
                                  None \<Rightarrow> None
                                | Some (V5, C2) \<Rightarrow>
                                    (let V6 = upd_lock b p page_unlock V5;
                                         C3 = C2\<lparr>size_delta := size_delta C2 + 1\<rparr>
                                     in case info_sync cfg False V6 C3 of (V7, C4) \<Rightarrow> Some (is_new_item, V7, C4))))))"

definition remove :: "'k VConfig \<Rightarrow> (('k, 'v) Viper \<Rightarrow> 'k \<Rightarrow> u64) option \<Rightarrow> 'k \<Rightarrow> ('k, 'v) Viper \<Rightarrow> VClient \<Rightarrow>
    (bool \<times> ('k, 'v) Viper \<times> VClient) option" where
  "remove cfg resolver key V C =
    (let (off, V1) = (if hiom_owns_index V then
                        let V' = V\<lparr>hiom_map_skipped := hiom_map_skipped V + 1\<rparr> in (the resolver V' key, V')
                      else
                        let o1 = cceh_get (traits cfg) (check_key_equality V) key (offset_map V)
                        in (case resolver of Some r \<Rightarrow> if is_tombstone o1 then r V key else o1 | None \<Rightarrow> o1, V))
     in if is_tombstone off then Some (False, V1, C)
        else case free_occupied_slot cfg off key True V1 C of
               None \<Rightarrow> None
             | Some (V2, C2) \<Rightarrow> Some (True, V2, C2\<lparr>num_reclaimable_ops := num_reclaimable_ops C2 + 1\<rparr>))"

datatype TriState = kApplied | kKeyMismatch | kLockBusy

definition try_at :: "'k \<Rightarrow> ('v \<Rightarrow> 'v) \<Rightarrow> u64 \<Rightarrow> ('k, 'v) Viper \<Rightarrow> TriState \<times> ('k, 'v) Viper" where
  "try_at key update_fn off V =
    (case locate off of (b, p, s) \<Rightarrow>
       if free_slots (page_at V b p) ! s then (kKeyMismatch, V)
       else case page_lock (version_lock (page_at V b p)) of
              None \<Rightarrow> (kLockBusy, V)
            | Some w \<Rightarrow>
                (let V1 = upd_lock b p (\<lambda>_. w) V
                 in if free_slots (page_at V1 b p) ! s \<or> fst (page_data (page_at V1 b p) ! s) \<noteq> key
                    then (kKeyMismatch, upd_lock b p page_unlock V1)
                    else (kApplied,
                          upd_lock b p page_unlock
                            (upd_page b p (\<lambda>pg. pg\<lparr>page_data := (page_data pg)[s := (key, update_fn (snd (page_data pg ! s)))]\<rparr>) V1))))"

text \<open>Spinning on a busy lock ends with its repair, since no live client holds it here.\<close>

definition try_until :: "'k \<Rightarrow> ('v \<Rightarrow> 'v) \<Rightarrow> u64 \<Rightarrow> ('k, 'v) Viper \<Rightarrow> TriState \<times> ('k, 'v) Viper" where
  "try_until key update_fn off V =
    (case try_at key update_fn off V of
       (kLockBusy, V') \<Rightarrow> try_at key update_fn off (hiom_repair_stale_lock_at off V')
     | r \<Rightarrow> r)"

text \<open>\<open>Client::update\<close> when HiOM owns the index: the hot-tier candidate first, then the verified resolver.\<close>

definition update_owned :: "(('k, 'v) Viper \<Rightarrow> 'k \<Rightarrow> u64) \<Rightarrow> (('k, 'v) Viper \<Rightarrow> 'k \<Rightarrow> u64) \<Rightarrow> 'k \<Rightarrow> ('v \<Rightarrow> 'v) \<Rightarrow> ('k, 'v) Viper \<Rightarrow>
    bool \<times> ('k, 'v) Viper" where
  "update_owned hot_only resolver key update_fn V =
    (let V0 = V\<lparr>hiom_map_skipped := hiom_map_skipped V + 1\<rparr>;
         hot_off = hot_only V0 key;
         (r, V1) = (if is_tombstone hot_off then (kKeyMismatch, V0) else try_until key update_fn hot_off V0)
     in if r = kApplied then (True, V1)
        else let cold_off = resolver V1 key
             in if is_tombstone cold_off then (False, V1)
                else case try_until key update_fn cold_off V1 of (r', V2) \<Rightarrow> (r' = kApplied, V2))"

text \<open>\<open>Client::update\<close> through the offset map, which applies the function without comparing keys.\<close>

definition update_mapped :: "'k VConfig \<Rightarrow> (('k, 'v) Viper \<Rightarrow> 'k \<Rightarrow> u64) option \<Rightarrow> 'k \<Rightarrow> ('v \<Rightarrow> 'v) \<Rightarrow> ('k, 'v) Viper \<Rightarrow>
    (bool \<times> ('k, 'v) Viper) option" where
  "update_mapped cfg resolver key update_fn V =
    (let o1 = cceh_get (traits cfg) (check_key_equality V) key (offset_map V);
         o2 = (case resolver of Some r \<Rightarrow> if is_tombstone o1 then r V key else o1 | None \<Rightarrow> o1);
         hydrated = (if is_tombstone o1 \<and> \<not> is_tombstone o2 then map_option snd (map_insert cfg key o2 V) else Some V)
     in case hydrated of
          None \<Rightarrow> None
        | Some V1 \<Rightarrow>
            if is_tombstone o2 then Some (False, V1)
            else case locate o2 of (b, p, s) \<Rightarrow>
              (let V2 = upd_lock b p acquire_word V1;
                   V3 = upd_page b p (\<lambda>pg. pg\<lparr>page_data := (page_data pg)[s := (fst (page_data pg ! s), update_fn (snd (page_data pg ! s)))]\<rparr>) V2
               in Some (True, upd_lock b p page_unlock V3)))"

section \<open>Scans, recovery, reclamation\<close>

text \<open>\<open>hiom_visit_records\<close>: the visited records in order, with their offsets.\<close>

definition visit_page :: "'k VConfig \<Rightarrow> ('k, 'v) Viper \<Rightarrow> nat \<Rightarrow> nat \<Rightarrow> ('k \<times> 'v \<times> u64) list" where
  "visit_page cfg V bn pn =
    (let pg = page_at V bn pn
     in if \<not> is_bit_set (version_lock pg) USED_BIT then []
        else map (\<lambda>sn. (fst (page_data pg ! sn), snd (page_data pg ! sn), make_offset bn pn sn))
               (filter (\<lambda>sn. \<not> free_slots pg ! sn) [0..<num_slots cfg]))"

definition hiom_visit_records :: "'k VConfig \<Rightarrow> nat \<Rightarrow> nat \<Rightarrow> ('k, 'v) Viper \<Rightarrow> ('k \<times> 'v \<times> u64) list" where
  "hiom_visit_records cfg block_lo block_hi V =
    concat (map (\<lambda>bn. concat (map (visit_page cfg V bn) [0..<num_pages cfg])) [block_lo..<min block_hi (length (v_blocks V))])"

definition clear_page_lock :: "nat \<Rightarrow> nat \<Rightarrow> nat \<times> ('k, 'v) Viper \<Rightarrow> nat \<times> ('k, 'v) Viper" where
  "clear_page_lock bn pn cV =
    (case cV of (cleared, V) \<Rightarrow>
       let lv = version_lock (page_at V bn pn)
       in if \<not> is_bit_set lv USED_BIT then (cleared, V)
          else if \<not> IS_LOCKED lv then (cleared, V)
          else (cleared + 1, upd_lock bn pn (\<lambda>_. lv AND UNLOCKED_BIT) V))"

definition hiom_clear_stale_page_locks :: "'k VConfig \<Rightarrow> nat \<Rightarrow> nat \<Rightarrow> ('k, 'v) Viper \<Rightarrow> nat \<times> ('k, 'v) Viper" where
  "hiom_clear_stale_page_locks cfg block_lo block_hi V =
    fold (\<lambda>bn. fold (clear_page_lock bn) [0..<num_pages cfg]) [block_lo..<min block_hi (length (v_blocks V))] (0, V)"

text \<open>The shards of \<open>hiom_clear_all_stale_page_locks\<close>, worked off one after the other.\<close>

definition lock_shards :: "nat \<Rightarrow> nat \<Rightarrow> (nat \<times> nat) list" where
  "lock_shards threads used =
    (let n = max 1 (min threads used); per = (used + n - 1) div n
     in filter (\<lambda>(lo, hi). lo < hi) (map (\<lambda>t. (t * per, min (t * per + per) used)) [0..<n]))"

definition hiom_clear_all_stale_page_locks :: "'k VConfig \<Rightarrow> nat \<Rightarrow> ('k, 'v) Viper \<Rightarrow> nat \<times> ('k, 'v) Viper" where
  "hiom_clear_all_stale_page_locks cfg threads V =
    (let used = fst (current_block_page V)
     in if used = 0 then (0, V)
        else fold (\<lambda>(lo, hi) (c, V). case hiom_clear_stale_page_locks cfg lo hi V of (c', V') \<Rightarrow> (c + c', V'))
               (lock_shards threads used) (0, V))"

text \<open>The block ranges of \<open>recover_database\<close>. \<open>None\<close>: the division by the number of threads faults.\<close>

definition recovery_ranges :: "nat \<Rightarrow> nat \<Rightarrow> (nat \<times> nat) list option" where
  "recovery_ranges used num_recovery_threads =
    (let n = min used num_recovery_threads
     in if n = 0 then None
        else let per = used div n + 1 in Some (map (\<lambda>t. (t * per, min (t * per + per) used)) [0..<n]))"

fun recover_records :: "'k VConfig \<Rightarrow> ('k \<times> 'v \<times> u64) list \<Rightarrow> ('k, 'v) Viper \<Rightarrow> ('k, 'v) Viper option" where
  "recover_records cfg [] V = Some V"
| "recover_records cfg ((k, v, off) # rs) V =
    (case map_insert cfg k off V of
       None \<Rightarrow> None
     | Some (_, V') \<Rightarrow> recover_records cfg rs (V'\<lparr>current_size := current_size V' + 1\<rparr>))"

text \<open>The records of one thread's blocks. Unlike \<open>hiom_visit_records\<close> the loop does not stop at the end of the
  block table: \<open>None\<close> is the access behind it.\<close>

definition recover_range :: "'k VConfig \<Rightarrow> ('k, 'v) Viper \<Rightarrow> nat \<times> nat \<Rightarrow> ('k \<times> 'v \<times> u64) list option" where
  "recover_range cfg V r =
    (case r of (start_block, end_block) \<Rightarrow>
       if start_block < end_block \<and> length (v_blocks V) < end_block then None
       else Some (concat (map (\<lambda>bn. concat (map (visit_page cfg V bn) [0..<num_pages cfg])) [start_block..<end_block])))"

definition recover_database :: "'k VConfig \<Rightarrow> nat \<Rightarrow> ('k, 'v) Viper \<Rightarrow> ('k, 'v) Viper option" where
  "recover_database cfg num_recovery_threads V =
    (case recovery_ranges (num_used_blocks V) num_recovery_threads of
       None \<Rightarrow> None
     | Some rs \<Rightarrow> (case those (map (recover_range cfg V) rs) of
         None \<Rightarrow> None
       | Some ls \<Rightarrow> recover_records cfg (concat ls) V))"

text \<open>The constructor on opened or new mappings: DRAM state is rebuilt, the allocation cursor starts at
  the durable high-water mark.\<close>

definition viper_open :: "'k VConfig \<Rightarrow> nat \<Rightarrow> bool \<Rightarrow> bool \<Rightarrow> nat \<Rightarrow> nat \<Rightarrow> ('k, 'v) ViperPage list list \<Rightarrow>
    ('k, 'v) Viper option" where
  "viper_open cfg cceh_depth is_new_db skip_recovery threads used blks =
    (let V = \<lparr>v_blocks = blks, current_block_page = (0, 0), num_used_blocks = used, current_size = 0,
              reclaimable_ops = 0, offset_map = cceh_new cceh_depth, hiom_owns_index = False, hiom_map_skipped = 0\<rparr>
     in map_option (\<lambda>V'. V'\<lparr>current_block_page := (num_used_blocks V', 0)\<rparr>)
          (if \<not> is_new_db \<and> \<not> skip_recovery then recover_database cfg threads V else Some V))"

text \<open>\<open>compact\<close>: every record of the block is put again and its slot freed, page by page under the lock.\<close>

fun compact_slots :: "'k VConfig \<Rightarrow> nat list \<Rightarrow> nat \<Rightarrow> nat \<Rightarrow> nat list \<Rightarrow> ('k, 'v) Viper \<Rightarrow> VClient \<Rightarrow>
    (('k, 'v) Viper \<times> VClient) option" where
  "compact_slots cfg rnds bn pn [] V C = Some (V, C)"
| "compact_slots cfg rnds bn pn (s # ss) V C =
    (if free_slots (page_at V bn pn) ! s then compact_slots cfg rnds bn pn ss V C
     else case page_data (page_at V bn pn) ! s of (k, v) \<Rightarrow>
       (case put 2 cfg None None (hd rnds) k v False False V C of
          None \<Rightarrow> None
        | Some (_, V', C') \<Rightarrow>
            compact_slots cfg (tl rnds) bn pn ss
              (upd_page bn pn (\<lambda>pg. pg\<lparr>free_slots := (free_slots pg)[s := True]\<rparr>) V') C'))"

fun compact_pages :: "'k VConfig \<Rightarrow> nat list \<Rightarrow> nat \<Rightarrow> nat list \<Rightarrow> ('k, 'v) Viper \<Rightarrow> VClient \<Rightarrow> (('k, 'v) Viper \<times> VClient) option" where
  "compact_pages cfg rnds bn [] V C = Some (V, C)"
| "compact_pages cfg rnds bn (pn # pns) V C =
    (case page_lock (version_lock (page_at V bn pn)) of
       None \<Rightarrow> None
     | Some w \<Rightarrow>
         (case compact_slots cfg rnds bn pn [0..<num_slots cfg] (upd_lock bn pn (\<lambda>_. w) V) C of
            None \<Rightarrow> None
          | Some (V', C') \<Rightarrow> compact_pages cfg (drop (num_slots cfg) rnds) bn pns (upd_lock bn pn page_unlock V') C'))"

text \<open>Whether \<open>reclaim\<close> takes a block, and what it does with it; \<open>free_threshold\<close> is the configured
  percentage of the block's slots.\<close>

definition reclaimable_block :: "nat \<Rightarrow> ('k, 'v) ViperPage list \<Rightarrow> bool" where
  "reclaimable_block free_threshold blk \<longleftrightarrow>
    \<not> (is_owned blk \<or> is_unused blk) \<and> sum_list (map (\<lambda>pg. length (filter (\<lambda>f. f) (free_slots pg))) blk) > free_threshold"

definition reclaim_block :: "'k VConfig \<Rightarrow> nat list \<Rightarrow> nat \<Rightarrow> nat \<Rightarrow> ('k, 'v) Viper \<Rightarrow> VClient \<Rightarrow>
    (nat option \<times> ('k, 'v) Viper \<times> VClient) option" where
  "reclaim_block cfg rnds free_threshold bn V C =
    (if \<not> reclaimable_block free_threshold (v_blocks V ! bn) then Some (None, V, C)
     else case compact_pages cfg rnds bn [0..<num_pages cfg] V C of
            None \<Rightarrow> None
          | Some (V', C') \<Rightarrow> Some (Some bn, upd_lock bn 0 (\<lambda>_. 0) V', C'))"

end
