(* ===== verification/Viper_Store_Props.thy ===== *)
theory Viper_Store_Props
  imports Viper_Store
begin

text \<open>
  What the record store guarantees: the live records as a finite map from (block, page, slot) to
  record, the invariant of a store with several clients, the exact effect of \<open>put\<close>, \<open>remove\<close> and
  in-place \<open>update\<close> on the live records, that scans visit exactly the live records, and that the
  durable high-water mark covers every block that holds one. Two defects of the block ownership mark
  and of the recovery of an empty pool are shown as well.
\<close>

section \<open>Lock words of used pages\<close>

abbreviation used_word :: "u8 \<Rightarrow> bool" where "used_word w \<equiv> is_bit_set w USED_BIT"

lemma used_word_bit: "used_word w \<longleftrightarrow> bit w 6"
proof -
  have u: "USED_BIT = push_bit 6 1" by (simp add: USED_BIT_def)
  have "w AND push_bit 6 1 = (if bit w 6 then push_bit 6 1 else 0)"
    by (rule bit_word_eqI) (auto simp: bit_simps bit_1_iff simp del: push_bit_of_1)
  moreover have "push_bit 6 (1::u8) \<noteq> 0" by simp
  ultimately show ?thesis by (simp only: is_bit_set_def u) simp
qed

lemma locked_bit: "IS_LOCKED w \<longleftrightarrow> bit w 0"
  by (simp add: IS_LOCKED_def and_one_eq bit_0 mod_2_eq_odd)

lemma even_add_or: "\<not> IS_LOCKED w \<Longrightarrow> w + 1 = w OR 1"
  by (rule disjunctive_add) (auto simp: locked_bit bit_1_iff intro: gr0I)

lemma mask_bits: "bit USED_BIT n \<longleftrightarrow> n = 6" "bit CLIENT_BIT n \<longleftrightarrow> n = 7"
  "bit NO_CLIENT_BIT n \<longleftrightarrow> n < 7" "bit UNLOCKED_BIT n \<longleftrightarrow> n \<noteq> 0 \<and> n < 8"
proof -
  have e: "USED_BIT = push_bit 6 1" "CLIENT_BIT = push_bit 7 1" "NO_CLIENT_BIT = mask 7" "UNLOCKED_BIT = NOT 1"
    by (simp_all add: USED_BIT_def CLIENT_BIT_def NO_CLIENT_BIT_def UNLOCKED_BIT_def mask_eq_exp_minus_1)
  show "bit USED_BIT n \<longleftrightarrow> n = 6" "bit CLIENT_BIT n \<longleftrightarrow> n = 7" "bit NO_CLIENT_BIT n \<longleftrightarrow> n < 7"
    "bit UNLOCKED_BIT n \<longleftrightarrow> n \<noteq> 0 \<and> n < 8"
    unfolding e by (auto simp: bit_push_bit_iff bit_1_iff bit_mask_iff bit_not_iff simp del: push_bit_of_1 not_one_eq)
qed

lemma used_locked: "page_lock w = Some w' \<Longrightarrow> used_word w' = used_word w"
  by (auto simp: page_lock_Some even_add_or used_word_bit bit_or_iff bit_1_iff)

lemma used_masks [simp]:
  "used_word (page_unlock w)" "used_word (w AND NO_CLIENT_BIT) = used_word w" "used_word (w OR CLIENT_BIT) = used_word w"
  "used_word (w AND UNLOCKED_BIT) = used_word w" "used_word USED_BIT"
  by (simp_all add: page_unlock_def used_word_bit bit_or_iff bit_and_iff mask_bits)

lemma unlocked_masks [simp]:
  "IS_LOCKED (w AND NO_CLIENT_BIT) = IS_LOCKED w" "IS_LOCKED (w OR CLIENT_BIT) = IS_LOCKED w" "\<not> IS_LOCKED USED_BIT"
  by (simp_all add: locked_bit bit_or_iff bit_and_iff mask_bits)

lemma unlock_free [simp]: "IS_LOCKED w \<Longrightarrow> \<not> IS_LOCKED (page_unlock w)"
  by (rule unlock_unlocks)

lemma page_lock_total: "page_lock w = (if IS_LOCKED w then None else Some (w + 1))"
  using page_lock_Some [of w] by (cases "page_lock w") auto

lemma nobody_registered: "\<not> intent_registered 1 (replicate kLockIntentSlots 0)"
  by (simp add: intent_registered_def first_idx_None_iff del: not_None_eq)

lemma acquire_locked: "IS_LOCKED (acquire_word w)" and acquire_used: "used_word (acquire_word w) = used_word w"
proof -
  have "acquire_word w = (if IS_LOCKED w then (w AND UNLOCKED_BIT) + 1 else w + 1)"
    using nobody_registered
    by (simp add: acquire_word_def page_lock_total try_repair_stale_lock_def cas_word_def)
  then show "IS_LOCKED (acquire_word w)" "used_word (acquire_word w) = used_word w"
    using lock_locks by (auto simp: even_add_or used_word_bit bit_or_iff bit_and_iff bit_1_iff mask_bits)
qed

section \<open>Live records\<close>

type_synonym ('k, 'v) live = "nat \<times> nat \<times> nat \<Rightarrow> ('k \<times> 'v) option"

definition records :: "'k VConfig \<Rightarrow> ('k, 'v) Viper \<Rightarrow> ('k, 'v) live" where
  "records cfg V x =
    (case x of (b, p, s) \<Rightarrow>
       if b < length (v_blocks V) \<and> p < num_pages cfg \<and> s < num_slots cfg
          \<and> used_word (version_lock (page_at V b p)) \<and> \<not> free_slots (page_at V b p) ! s
       then Some (page_data (page_at V b p) ! s) else None)"

definition page_shape :: "'k VConfig \<Rightarrow> ('k, 'v) ViperPage \<Rightarrow> bool" where
  "page_shape cfg pg \<longleftrightarrow> length (free_slots pg) = num_slots cfg \<and> length (page_data pg) = num_slots cfg"

definition store_shape :: "'k VConfig \<Rightarrow> ('k, 'v) Viper \<Rightarrow> bool" where
  "store_shape cfg V \<longleftrightarrow> (\<forall>b < length (v_blocks V). length (v_blocks V ! b) = num_pages cfg
     \<and> (\<forall>p < num_pages cfg. page_shape cfg (page_at V b p)))"

definition in_range :: "'k VConfig \<Rightarrow> ('k, 'v) Viper \<Rightarrow> nat \<Rightarrow> nat \<Rightarrow> bool" where
  "in_range cfg V b p \<longleftrightarrow> b < length (v_blocks V) \<and> p < num_pages cfg"

lemma upd_page_fields [simp]:
  "length (v_blocks (upd_page b p f V)) = length (v_blocks V)"
  "current_block_page (upd_page b p f V) = current_block_page V"
  "num_used_blocks (upd_page b p f V) = num_used_blocks V"
  "hiom_owns_index (upd_page b p f V) = hiom_owns_index V"
  by (simp_all add: upd_page_def)

lemma page_at_upd:
  "store_shape cfg V \<Longrightarrow> in_range cfg V b p \<Longrightarrow>
    page_at (upd_page b p f V) b' p' = (if b' = b \<and> p' = p then f (page_at V b p) else page_at V b' p')"
  by (auto simp: page_at_def upd_page_def store_shape_def in_range_def nth_list_update)

lemma shape_upd:
  assumes "store_shape cfg V" "in_range cfg V b p" "page_shape cfg (f (page_at V b p))"
  shows "store_shape cfg (upd_page b p f V)"
  unfolding store_shape_def
proof (intro allI impI conjI)
  fix b' assume b': "b' < length (v_blocks (upd_page b p f V))"
  show "length (v_blocks (upd_page b p f V) ! b') = num_pages cfg"
    using assms(1,2) b' by (auto simp: upd_page_def store_shape_def in_range_def nth_list_update)
  fix p' assume "p' < num_pages cfg"
  then show "page_shape cfg (page_at (upd_page b p f V) b' p')"
    using assms(1,3) b' page_at_upd [OF assms(1,2)] by (auto simp: store_shape_def)
qed

lemma in_range_upd [simp]: "in_range cfg (upd_page b p f V) b' p' = in_range cfg V b' p'"
  by (simp add: in_range_def)

lemma records_upd:
  assumes "store_shape cfg V" "in_range cfg V b p"
  shows "records cfg (upd_page b p f V) (b', p', s) =
    (if b' = b \<and> p' = p
     then if s < num_slots cfg \<and> used_word (version_lock (f (page_at V b p))) \<and> \<not> free_slots (f (page_at V b p)) ! s
          then Some (page_data (f (page_at V b p)) ! s) else None
     else records cfg V (b', p', s))"
  using assms(2) page_at_upd [OF assms] by (auto simp: records_def in_range_def)

lemma records_cong:
  "v_blocks V = v_blocks V' \<Longrightarrow> records cfg V = records cfg V'"
  by (simp add: records_def page_at_def fun_eq_iff)

section \<open>Effects of the primitive stores\<close>

lemma upd_lock_fields [simp]:
  "length (v_blocks (upd_lock b p f V)) = length (v_blocks V)"
  "current_block_page (upd_lock b p f V) = current_block_page V"
  "num_used_blocks (upd_lock b p f V) = num_used_blocks V"
  "hiom_owns_index (upd_lock b p f V) = hiom_owns_index V"
  "in_range cfg (upd_lock b p f V) b' p' = in_range cfg V b' p'"
  by (simp_all add: upd_lock_def)

lemma shape_page: "store_shape cfg V \<Longrightarrow> in_range cfg V b p \<Longrightarrow> page_shape cfg (page_at V b p)"
  by (simp add: store_shape_def in_range_def)

lemma lock_effect:
  assumes "store_shape cfg V" "in_range cfg V b p"
  shows "store_shape cfg (upd_lock b p f V)"
    and "page_at (upd_lock b p f V) b' p' =
      (if b' = b \<and> p' = p then (page_at V b p)\<lparr>version_lock := f (version_lock (page_at V b p))\<rparr> else page_at V b' p')"
    and "used_word (f (version_lock (page_at V b p))) = used_word (version_lock (page_at V b p)) \<Longrightarrow>
      records cfg (upd_lock b p f V) = records cfg V"
proof -
  have ps: "page_shape cfg (page_at V b p)" using assms by (rule shape_page)
  show "store_shape cfg (upd_lock b p f V)"
    unfolding upd_lock_def by (rule shape_upd [OF assms]) (use ps in \<open>simp add: page_shape_def\<close>)
  show "page_at (upd_lock b p f V) b' p' =
      (if b' = b \<and> p' = p then (page_at V b p)\<lparr>version_lock := f (version_lock (page_at V b p))\<rparr> else page_at V b' p')"
    unfolding upd_lock_def using page_at_upd [OF assms] by simp
  assume "used_word (f (version_lock (page_at V b p))) = used_word (version_lock (page_at V b p))"
  then have "records cfg (upd_lock b p f V) (b', p', s) = records cfg V (b', p', s)" for b' p' s
    unfolding upd_lock_def records_upd [OF assms] using assms(2) by (simp add: records_def in_range_def)
  then show "records cfg (upd_lock b p f V) = records cfg V" by (auto simp: fun_eq_iff)
qed

lemma free_effect:
  assumes "store_shape cfg V" "in_range cfg V b p"
  shows "store_shape cfg (invalidate_record b p s V)"
    and "page_at (invalidate_record b p s V) b' p' =
      (if b' = b \<and> p' = p then (page_at V b p)\<lparr>free_slots := (free_slots (page_at V b p))[s := True]\<rparr> else page_at V b' p')"
    and "records cfg (invalidate_record b p s V) = (records cfg V)((b, p, s) := None)"
proof -
  have ps: "page_shape cfg (page_at V b p)" using assms by (rule shape_page)
  show "store_shape cfg (invalidate_record b p s V)"
    unfolding invalidate_record_def by (rule shape_upd [OF assms]) (use ps in \<open>simp add: page_shape_def\<close>)
  show "page_at (invalidate_record b p s V) b' p' =
      (if b' = b \<and> p' = p then (page_at V b p)\<lparr>free_slots := (free_slots (page_at V b p))[s := True]\<rparr> else page_at V b' p')"
    unfolding invalidate_record_def using page_at_upd [OF assms] by simp
  have "records cfg (invalidate_record b p s V) (b', p', s') = ((records cfg V)((b, p, s) := None)) (b', p', s')" for b' p' s'
    unfolding invalidate_record_def records_upd [OF assms]
    using assms(2) ps by (auto simp: records_def in_range_def page_shape_def nth_list_update)
  then show "records cfg (invalidate_record b p s V) = (records cfg V)((b, p, s) := None)" by (auto simp: fun_eq_iff)
qed

definition write_slot :: "nat \<Rightarrow> nat \<Rightarrow> nat \<Rightarrow> 'k \<times> 'v \<Rightarrow> ('k, 'v) Viper \<Rightarrow> ('k, 'v) Viper" where
  "write_slot b p s kv V =
    upd_page b p (\<lambda>pg. pg\<lparr>free_slots := (free_slots pg)[s := False]\<rparr>)
      (upd_page b p (\<lambda>pg. pg\<lparr>page_data := (page_data pg)[s := kv]\<rparr>) V)"

lemma write_slot_fields [simp]:
  "length (v_blocks (write_slot b p s kv V)) = length (v_blocks V)"
  "current_block_page (write_slot b p s kv V) = current_block_page V"
  "num_used_blocks (write_slot b p s kv V) = num_used_blocks V"
  "hiom_owns_index (write_slot b p s kv V) = hiom_owns_index V"
  "in_range cfg (write_slot b p s kv V) b' p' = in_range cfg V b' p'"
  by (simp_all add: write_slot_def)

lemma invalidate_fields [simp]:
  "length (v_blocks (invalidate_record b p s V)) = length (v_blocks V)"
  "current_block_page (invalidate_record b p s V) = current_block_page V"
  "num_used_blocks (invalidate_record b p s V) = num_used_blocks V"
  "hiom_owns_index (invalidate_record b p s V) = hiom_owns_index V"
  "in_range cfg (invalidate_record b p s V) b' p' = in_range cfg V b' p'"
  by (simp_all add: invalidate_record_def)

lemma write_effect:
  assumes "store_shape cfg V" "in_range cfg V b p" "s < num_slots cfg" "used_word (version_lock (page_at V b p))"
  shows "store_shape cfg (write_slot b p s kv V)"
    and "page_at (write_slot b p s kv V) b' p' =
      (if b' = b \<and> p' = p then (page_at V b p)\<lparr>page_data := (page_data (page_at V b p))[s := kv],
                                              free_slots := (free_slots (page_at V b p))[s := False]\<rparr> else page_at V b' p')"
    and "records cfg (write_slot b p s kv V) = (records cfg V)((b, p, s) \<mapsto> kv)"
proof -
  have ps: "page_shape cfg (page_at V b p)" using assms(1,2) by (rule shape_page)
  let ?V1 = "upd_page b p (\<lambda>pg. pg\<lparr>page_data := (page_data pg)[s := kv]\<rparr>) V"
  have sh1: "store_shape cfg ?V1" by (rule shape_upd [OF assms(1,2)]) (use ps in \<open>simp add: page_shape_def\<close>)
  have r1: "in_range cfg ?V1 b p" using assms(2) by simp
  note p1 = page_at_upd [OF assms(1,2), of "\<lambda>pg. pg\<lparr>page_data := (page_data pg)[s := kv]\<rparr>"]
  show "store_shape cfg (write_slot b p s kv V)"
    unfolding write_slot_def by (rule shape_upd [OF sh1 r1]) (use ps in \<open>simp add: page_shape_def p1\<close>)
  show pg: "page_at (write_slot b p s kv V) b' p' =
      (if b' = b \<and> p' = p then (page_at V b p)\<lparr>page_data := (page_data (page_at V b p))[s := kv],
                                              free_slots := (free_slots (page_at V b p))[s := False]\<rparr> else page_at V b' p')" for b' p'
    unfolding write_slot_def page_at_upd [OF sh1 r1] by (simp add: p1)
  have "records cfg (write_slot b p s kv V) (b', p', s') = ((records cfg V)((b, p, s) \<mapsto> kv)) (b', p', s')" for b' p' s'
    using assms(2-4) ps by (auto simp: records_def pg in_range_def page_shape_def nth_list_update)
  then show "records cfg (write_slot b p s kv V) = (records cfg V)((b, p, s) \<mapsto> kv)" by (auto simp: fun_eq_iff)
qed

section \<open>The invariant of a store and its clients\<close>

definition cfg_ok :: "'k VConfig \<Rightarrow> bool" where
  "cfg_ok cfg \<longleftrightarrow> 0 < num_slots cfg \<and> num_slots cfg < 65536 \<and> 0 < num_pages cfg \<and> num_pages cfg \<le> 6"

text \<open>A page that its client may write: initialised and not locked.\<close>

definition writable :: "('k, 'v) Viper \<Rightarrow> nat \<Rightarrow> nat \<Rightarrow> bool" where
  "writable V b p \<longleftrightarrow> used_word (version_lock (page_at V b p)) \<and> \<not> IS_LOCKED (version_lock (page_at V b p))"

definition store_inv :: "'k VConfig \<Rightarrow> ('k, 'v) Viper \<Rightarrow> bool" where
  "store_inv cfg V \<longleftrightarrow> store_shape cfg V
     \<and> (\<forall>b p s. fst (current_block_page V) \<le> b \<longrightarrow> records cfg V (b, p, s) = None)
     \<and> (\<forall>b p s. records cfg V (b, p, s) \<noteq> None \<longrightarrow> b < num_used_blocks V)
     \<and> snd (current_block_page V) < num_pages cfg \<and> length (v_blocks V) < 2 ^ 45"

lemma store_inv_used: "store_inv cfg V \<Longrightarrow> records cfg V (b, p, s) \<noteq> None \<Longrightarrow> b < num_used_blocks V"
  unfolding store_inv_def by blast

text \<open>A client sits on a writable page of its block, and the pages it has yet to visit are empty.\<close>

definition client_ok :: "'k VConfig \<Rightarrow> ('k, 'v) Viper \<Rightarrow> VClient \<Rightarrow> bool" where
  "client_ok cfg V C \<longleftrightarrow> v_block C = Some (v_block_number C) \<and> in_range cfg V (v_block_number C) (v_page_number C)
     \<and> num_v_pages_processed C < num_pages cfg \<and> writable V (v_block_number C) (v_page_number C)
     \<and> v_block_number C < num_used_blocks V \<and> v_block_number C < fst (current_block_page V)
     \<and> (\<forall>j s. 1 \<le> j \<and> j < num_pages cfg - num_v_pages_processed C \<longrightarrow>
          records cfg V (v_block_number C, (v_page_number C + j) mod num_pages cfg, s) = None)"

definition sys_inv :: "'k VConfig \<Rightarrow> ('k, 'v) Viper \<Rightarrow> VClient list \<Rightarrow> bool" where
  "sys_inv cfg V Cs \<longleftrightarrow> store_inv cfg V \<and> (\<forall>C \<in> set Cs. client_ok cfg V C) \<and> distinct (map v_block_number Cs)"

text \<open>An operation that works in the blocks \<open>B\<close>: elsewhere pages stay writable and no record appears; no page
  becomes unused.\<close>

definition confined :: "'k VConfig \<Rightarrow> nat set \<Rightarrow> ('k, 'v) Viper \<Rightarrow> ('k, 'v) Viper \<Rightarrow> bool" where
  "confined cfg B V V' \<longleftrightarrow> store_shape cfg V' \<and> length (v_blocks V') = length (v_blocks V)
     \<and> fst (current_block_page V) \<le> fst (current_block_page V') \<and> num_used_blocks V \<le> num_used_blocks V'
     \<and> (\<forall>b p. in_range cfg V b p \<longrightarrow> b \<notin> B \<longrightarrow> writable V b p \<longrightarrow> writable V' b p)
     \<and> (\<forall>b p s. b \<notin> B \<longrightarrow> records cfg V (b, p, s) = None \<longrightarrow> records cfg V' (b, p, s) = None)
     \<and> (\<forall>b p. used_word (version_lock (page_at V b p)) \<longrightarrow> used_word (version_lock (page_at V' b p)))"

lemma confined_trans:
  "confined cfg B V V1 \<Longrightarrow> confined cfg B V1 V2 \<Longrightarrow> confined cfg B V V2"
  by (auto simp: confined_def in_range_def)

lemma confined_mono: "confined cfg B V V' \<Longrightarrow> B \<subseteq> B' \<Longrightarrow> confined cfg B' V V'"
  by (auto simp: confined_def)

lemma client_confined:
  assumes "client_ok cfg V D" "confined cfg B V V'" "v_block_number D \<notin> B"
  shows "client_ok cfg V' D"
  using assms by (auto simp: client_ok_def confined_def in_range_def)

lemma confined_lock:
  assumes "store_shape cfg V" "in_range cfg V b p" "b \<in> B"
    and "used_word (f (version_lock (page_at V b p))) = used_word (version_lock (page_at V b p))"
  shows "confined cfg B V (upd_lock b p f V)"
  using lock_effect [OF assms(1,2), of f] assms(3,4) by (auto simp: confined_def writable_def)

lemma confined_write:
  assumes "store_shape cfg V" "in_range cfg V b p" "s < num_slots cfg" "used_word (version_lock (page_at V b p))" "b \<in> B"
  shows "confined cfg B V (write_slot b p s kv V)"
  using write_effect [OF assms(1-4), of kv] assms(5) by (auto simp: confined_def writable_def)

text \<open>Freeing a record: only its slot changes, and its page ends up writable unless it is the client's own.\<close>

lemma free_occupied_effect:
  assumes sh: "store_shape cfg V" and r: "in_range cfg V b2 p2" and u: "used_word (version_lock (page_at V b2 p2))"
    and loc: "locate off = (b2, p2, s2)" and del: "\<not> del \<or> hiom_owns_index V"
  shows "\<exists>V'. free_occupied_slot cfg off key del V C = Some (V', C\<lparr>size_delta := size_delta C - 1\<rparr>)
    \<and> store_shape cfg V' \<and> records cfg V' = (records cfg V)((b2, p2, s2) := None)
    \<and> length (v_blocks V') = length (v_blocks V) \<and> current_block_page V' = current_block_page V
    \<and> num_used_blocks V' = num_used_blocks V \<and> hiom_owns_index V' = hiom_owns_index V
    \<and> version_lock (page_at V' (v_block_number C) (v_page_number C)) = version_lock (page_at V (v_block_number C) (v_page_number C))
    \<and> (\<forall>b p. writable V b p \<longrightarrow> writable V' b p) \<and> (\<forall>b p. used_word (version_lock (page_at V b p)) \<longrightarrow> used_word (version_lock (page_at V' b p)))"
proof (cases "v_block_number C = b2 \<and> v_page_number C = p2")
  case True
  let ?V = "invalidate_record b2 p2 s2 V"
  have "free_occupied_slot cfg off key del V C = Some (?V, C\<lparr>size_delta := size_delta C - 1\<rparr>)"
    using True loc del by (auto simp: free_occupied_slot_def mark_removed_def Let_def)
  then show ?thesis using free_effect [OF sh r, of s2] by (auto simp: writable_def)
next
  case False
  let ?V1 = "upd_lock b2 p2 acquire_word V"
  let ?V2 = "invalidate_record b2 p2 s2 ?V1"
  let ?V3 = "upd_lock b2 p2 page_unlock ?V2"
  note e1 = lock_effect [OF sh r, of acquire_word]
  have r1: "in_range cfg ?V1 b2 p2" "in_range cfg ?V2 b2 p2" using r by simp_all
  note e2 = free_effect [OF e1(1) r1(1), of s2]
  note e3 = lock_effect [OF e2(1) r1(2), of page_unlock]
  have res: "free_occupied_slot cfg off key del V C = Some (?V3, C\<lparr>size_delta := size_delta C - 1\<rparr>)"
    using False loc del by (auto simp: free_occupied_slot_def mark_removed_def Let_def)
  have l2: "version_lock (page_at ?V2 b2 p2) = acquire_word (version_lock (page_at V b2 p2))"
    by (simp add: e2(2) e1(2))
  have rec: "records cfg ?V3 = (records cfg V)((b2, p2, s2) := None)"
    using e1(3) e2(3) e3(3) u by (simp add: l2 acquire_used)
  have "writable ?V3 b p" if "writable V b p" for b p
    using that acquire_locked by (auto simp: writable_def e3(2) e2(2) e1(2))
  then show ?thesis using res rec e3(1,2) False e2(2) e1(2) by (intro exI [of _ ?V3]) auto
qed

section \<open>Moving to another page\<close>

lemma init_effect:
  assumes "store_shape cfg V" "in_range cfg V b p" "\<And>s. records cfg V (b, p, s) = None"
  shows "store_shape cfg (upd_page b p (page_init (num_slots cfg)) V)"
    and "page_at (upd_page b p (page_init (num_slots cfg)) V) b' p' =
      (if b' = b \<and> p' = p then page_init (num_slots cfg) (page_at V b p) else page_at V b' p')"
    and "records cfg (upd_page b p (page_init (num_slots cfg)) V) = records cfg V"
    and "b \<in> B \<Longrightarrow> confined cfg B V (upd_page b p (page_init (num_slots cfg)) V)"
proof -
  let ?V = "upd_page b p (page_init (num_slots cfg)) V"
  have ps: "page_shape cfg (page_at V b p)" using assms(1,2) by (rule shape_page)
  show sh: "store_shape cfg ?V" by (rule shape_upd [OF assms(1,2)]) (use ps in \<open>simp add: page_shape_def page_init_def\<close>)
  show pg: "page_at ?V b' p' = (if b' = b \<and> p' = p then page_init (num_slots cfg) (page_at V b p) else page_at V b' p')" for b' p'
    using page_at_upd [OF assms(1,2)] by simp
  have "records cfg ?V (b', p', s) = records cfg V (b', p', s)" for b' p' s
    unfolding records_upd [OF assms(1,2)] using assms(3) by (auto simp: page_init_def)
  then show rec: "records cfg ?V = records cfg V" by (auto simp: fun_eq_iff)
  show "b \<in> B \<Longrightarrow> confined cfg B V ?V" using sh rec pg by (auto simp: confined_def writable_def page_init_def)
qed

lemma drop_owner_effect:
  assumes "store_shape cfg V" "in_range cfg V b 0" "b \<in> B"
  shows "store_shape cfg (drop_owner (Some b) V)" "records cfg (drop_owner (Some b) V) = records cfg V"
    "confined cfg B V (drop_owner (Some b) V)" "length (v_blocks (drop_owner (Some b) V)) = length (v_blocks V)"
    "current_block_page (drop_owner (Some b) V) = current_block_page V"
    "num_used_blocks (drop_owner (Some b) V) = num_used_blocks V" "hiom_owns_index (drop_owner (Some b) V) = hiom_owns_index V"
  using lock_effect [OF assms(1,2)] confined_lock [OF assms] by (simp_all add: drop_owner_def)

lemma take_block_effect:
  assumes sh: "store_shape cfg V" and r: "in_range cfg V b p" and np: "0 < num_pages cfg"
    and old: "v_block C = Some ob" "in_range cfg V ob 0"
    and fresh: "\<And>p s. records cfg V (b, p, s) = None" and tb: "take_block cfg b p V C = (V', C')"
  shows "store_shape cfg V' \<and> records cfg V' = records cfg V \<and> confined cfg {ob, b} V V' \<and> writable V' b p
    \<and> free_slots (page_at V' b p) = replicate (num_slots cfg) True
    \<and> current_block_page V' = current_block_page V \<and> num_used_blocks V' = max (num_used_blocks V) (b + 1)
    \<and> hiom_owns_index V' = hiom_owns_index V \<and> length (v_blocks V') = length (v_blocks V)
    \<and> C' = C\<lparr>v_block_number := b, v_page_number := p, v_block := Some b, num_v_pages_processed := 0\<rparr>"
proof -
  let ?B = "{ob, b}"
  let ?V1 = "drop_owner (Some ob) V"
  let ?V2 = "upd_page b p (page_init (num_slots cfg)) ?V1"
  let ?V3 = "upd_lock b 0 (\<lambda>w. w OR CLIENT_BIT) ?V2"
  have r0: "in_range cfg V b 0" using r np by (simp add: in_range_def)
  note d = drop_owner_effect [OF sh old(2), of ?B, simplified]
  have r1: "in_range cfg ?V1 b p" "in_range cfg ?V1 b 0" using r r0 d(4) by (simp_all add: in_range_def)
  note i = init_effect [OF d(1) r1(1)]
  have e2: "store_shape cfg ?V2" "records cfg ?V2 = records cfg V" "confined cfg ?B ?V1 ?V2"
    using i(1,3) i(4) [of ?B] fresh d(2) by auto
  have r2: "in_range cfg ?V2 b 0" using r1(2) by simp
  note l = lock_effect [OF e2(1) r2, of "\<lambda>w. w OR CLIENT_BIT"]
  have c3: "confined cfg ?B ?V2 ?V3" by (rule confined_lock [OF e2(1) r2]) simp_all
  have pg2: "page_at ?V2 b p = page_init (num_slots cfg) (page_at ?V1 b p)" using i(2) fresh d(2) by simp
  have w: "writable ?V3 b p" "free_slots (page_at ?V3 b p) = replicate (num_slots cfg) True"
    using pg2 by (auto simp: writable_def l(2) page_init_def)
  have cf: "confined cfg ?B V ?V3" using confined_trans [OF confined_trans [OF d(3) e2(3)] c3] by simp
  have V': "V' = ?V3\<lparr>num_used_blocks := max (num_used_blocks ?V3) (b + 1)\<rparr>"
    and C': "C' = C\<lparr>v_block_number := b, v_page_number := p, v_block := Some b, num_v_pages_processed := 0\<rparr>"
    using tb old(1) by (auto simp: take_block_def Let_def)
  have pa: "page_at V' = page_at ?V3" by (simp add: V' page_at_def fun_eq_iff)
  have rec': "records cfg V' = records cfg ?V3" by (rule records_cong) (simp add: V')
  have sh': "store_shape cfg V'" using l(1) by (simp add: V' store_shape_def page_at_def)
  have "confined cfg ?B ?V3 V'" using sh' rec' pa by (simp add: confined_def V' writable_def)
  then have "confined cfg ?B V V'" using cf confined_trans by blast
  then show ?thesis using sh' rec' l(3) e2(2) w pa d C' V' by (simp add: writable_def)
qed

lemma info_sync_effect:
  assumes "info_sync cfg force V C = (V', C')"
  shows "v_blocks V' = v_blocks V" "current_block_page V' = current_block_page V" "num_used_blocks V' = num_used_blocks V"
    "hiom_owns_index V' = hiom_owns_index V" "v_block C' = v_block C" "v_block_number C' = v_block_number C"
    "v_page_number C' = v_page_number C" "num_v_pages_processed C' = num_v_pages_processed C"
    "last_put_offset C' = last_put_offset C"
  using assms by (auto simp: info_sync_def split: if_splits)

lemma same_blocks:
  assumes "v_blocks V' = v_blocks V"
  shows "page_at V' = page_at V" "records cfg V' = records cfg V" "store_shape cfg V' = store_shape cfg V"
    "in_range cfg V' = in_range cfg V" "writable V' = writable V"
  using assms by (simp_all add: page_at_def fun_eq_iff records_def store_shape_def in_range_def writable_def)

lemma same_blocks_confined:
  "v_blocks V' = v_blocks V \<Longrightarrow> store_shape cfg V \<Longrightarrow> fst (current_block_page V) \<le> fst (current_block_page V') \<Longrightarrow>
    num_used_blocks V \<le> num_used_blocks V' \<Longrightarrow> confined cfg B V V'"
  using same_blocks [of V' V] by (auto simp: confined_def)

text \<open>What \<open>update_access_information\<close> achieves: a fresh page, no record lost.\<close>

definition on_fresh_page :: "'k VConfig \<Rightarrow> ('k, 'v) Viper \<Rightarrow> VClient \<Rightarrow> ('k, 'v) Viper \<Rightarrow> VClient \<Rightarrow> bool" where
  "on_fresh_page cfg V C V' C' \<longleftrightarrow> store_inv cfg V' \<and> client_ok cfg V' C' \<and> records cfg V' = records cfg V
     \<and> free_slots (page_at V' (v_block_number C') (v_page_number C')) = replicate (num_slots cfg) True
     \<and> confined cfg {v_block_number C, fst (current_block_page V)} V V'
     \<and> v_block_number C' \<in> {v_block_number C, fst (current_block_page V)} \<and> hiom_owns_index V' = hiom_owns_index V"

lemma next_page:
  assumes cfg: "cfg_ok cfg" and inv: "store_inv cfg V" and C: "client_ok cfg V C"
    and more: "num_v_pages_processed C + 1 < num_pages cfg"
  defines "p \<equiv> (v_page_number C + 1) mod num_pages cfg"
  shows "on_fresh_page cfg V C (upd_page (v_block_number C) p (page_init (num_slots cfg)) V)
     (C\<lparr>num_v_pages_processed := num_v_pages_processed C + 1, v_page_number := p\<rparr>)"
proof -
  let ?b = "v_block_number C"
  let ?V = "upd_page ?b p (page_init (num_slots cfg)) V"
  have sh: "store_shape cfg V" using inv by (simp add: store_inv_def)
  have np: "0 < num_pages cfg" using cfg by (simp add: cfg_ok_def)
  have r: "in_range cfg V ?b p" using C np by (simp add: client_ok_def in_range_def p_def)
  have unvisited: "records cfg V (?b, (v_page_number C + j) mod num_pages cfg, s) = None"
    if "1 \<le> j" "j < num_pages cfg - num_v_pages_processed C" for j s using C that by (simp add: client_ok_def)
  have "records cfg V (?b, p, s) = None" for s using unvisited [of 1 s] more by (simp add: p_def)
  note i = init_effect [OF sh r this]
  have pg: "page_at ?V ?b p = page_init (num_slots cfg) (page_at V ?b p)" by (simp add: i(2))
  have "records cfg V (?b, (p + j) mod num_pages cfg, s) = None" if "1 \<le> j" "j < num_pages cfg - (num_v_pages_processed C + 1)" for j s
    using unvisited [of "j + 1" s] that more by (simp add: p_def mod_add_left_eq add.assoc)
  then have "client_ok cfg ?V (C\<lparr>num_v_pages_processed := num_v_pages_processed C + 1, v_page_number := p\<rparr>)"
    using C more r i(3) pg by (auto simp: client_ok_def writable_def page_init_def)
  moreover have "store_inv cfg ?V" using inv i(1,3) by (simp add: store_inv_def)
  ultimately show ?thesis using i(3) i(4) [of "{?b, fst (current_block_page V)}"] pg
    by (simp add: on_fresh_page_def page_init_def)
qed

lemma next_block:
  assumes cfg: "cfg_ok cfg" and inv: "store_inv cfg V" and C: "client_ok cfg V C"
    and avail: "fst (current_block_page V) < length (v_blocks V)"
  shows "\<exists>V1 C1. get_new_access_information cfg None rnd V (C\<lparr>num_v_pages_processed := n\<rparr>) = Some (V1, C1)
    \<and> v_block C1 = Some (v_block_number C1) \<and> on_fresh_page cfg V C V1 C1"
proof -
  obtain cb cp where cur: "current_block_page V = (cb, cp)" by force
  obtain V1 C1 where sync: "info_sync cfg True V (C\<lparr>num_v_pages_processed := n\<rparr>) = (V1, C1)" by force
  note s = info_sync_effect [OF sync] and B = same_blocks [OF info_sync_effect(1) [OF sync]]
  define V2 where "V2 = V1\<lparr>current_block_page := (cb + 1, rnd mod num_pages cfg)\<rparr>"
  have b2: "v_blocks V2 = v_blocks V" using s(1) by (simp add: V2_def)
  note B2 = same_blocks [OF b2]
  obtain V3 C3 where tb: "take_block cfg cb cp V2 C1 = (V3, C3)" by force
  have run: "get_new_access_information cfg None rnd V (C\<lparr>num_v_pages_processed := n\<rparr>) = Some (V3, C3)"
    using sync s(1,2) cur avail tb
    by (simp add: get_new_access_information_def get_block_based_access_def get_new_block_def V2_def)
  have sh: "store_shape cfg V2" using inv B2 by (simp add: store_inv_def)
  have np: "0 < num_pages cfg" using cfg by (simp add: cfg_ok_def)
  have r: "in_range cfg V2 cb cp" using inv avail cur B2 by (simp add: store_inv_def in_range_def)
  have ob: "v_block C1 = Some (v_block_number C)" "in_range cfg V2 (v_block_number C) 0"
    using C s(5) np B2 by (auto simp: client_ok_def in_range_def)
  have fresh: "records cfg V2 (cb, p, x) = None" for p x using inv cur B2 by (simp add: store_inv_def)
  note T = take_block_effect [OF sh r np ob fresh tb]
  have rec: "records cfg V3 = records cfg V" using T B2 by simp
  have used: "b < num_used_blocks V" if "records cfg V (b, p, x) \<noteq> None" for b p x using inv that unfolding store_inv_def by blast
  have "store_inv cfg V3"
    using T inv rec s used fresh cur np by (auto simp: store_inv_def V2_def) (metis less_max_iff_disj not_None_eq used)+
  moreover have "client_ok cfg V3 C3"
    using T r fresh rec B2 np by (simp add: client_ok_def V2_def in_range_def)
  moreover have "confined cfg {v_block_number C, cb} V V2"
    by (rule same_blocks_confined [OF b2]) (use inv cur s in \<open>auto simp: store_inv_def V2_def\<close>)
  then have "confined cfg {v_block_number C, cb} V V3" using T confined_trans by blast
  ultimately have "on_fresh_page cfg V C V3 C3"
    using T rec cur s(4) by (auto simp: on_fresh_page_def V2_def)
  then show ?thesis using run T by auto
qed

lemma update_access_effect:
  assumes cfg: "cfg_ok cfg" and inv: "store_inv cfg V" and C: "client_ok cfg V C"
    and avail: "num_v_pages_processed C + 1 = num_pages cfg \<Longrightarrow> fst (current_block_page V) < length (v_blocks V)"
  shows "\<exists>V' C'. update_access_information cfg None rnd V C = Some (V', C') \<and> on_fresh_page cfg V C V' C'"
proof (cases "num_v_pages_processed C + 1 = num_pages cfg")
  case True
  obtain V1 C1 where 1: "get_new_access_information cfg None rnd V (C\<lparr>num_v_pages_processed := num_v_pages_processed C + 1\<rparr>) = Some (V1, C1)"
    "v_block C1 = Some (v_block_number C1)" "on_fresh_page cfg V C V1 C1"
    using next_block [OF cfg inv C avail [OF True]] by blast
  let ?b = "v_block_number C1" and ?p = "v_page_number C1"
  let ?V = "upd_page ?b ?p (page_init (num_slots cfg)) V1"
  have run: "update_access_information cfg None rnd V C = Some (?V, C1)"
    using True 1(1,2) by (simp add: update_access_information_def Let_def)
  have sh: "store_shape cfg V1" and r: "in_range cfg V1 ?b ?p"
    using 1(3) by (simp_all add: on_fresh_page_def store_inv_def client_ok_def)
  have "free_slots (page_at V1 ?b ?p) = replicate (num_slots cfg) True" using 1(3) by (simp add: on_fresh_page_def)
  then have "records cfg V1 (?b, ?p, s) = None" for s by (simp add: records_def)
  note i = init_effect [OF sh r this]
  have "on_fresh_page cfg V C ?V C1"
    using 1(3) i(1,3) confined_trans i(4) [of "{v_block_number C, fst (current_block_page V)}"]
    by (auto simp: on_fresh_page_def store_inv_def client_ok_def i(2) writable_def page_init_def)
  then show ?thesis using run by blast
next
  case False
  then have "num_v_pages_processed C + 1 < num_pages cfg" using C by (simp add: client_ok_def)
  from next_page [OF cfg inv C this] False C show ?thesis
    by (auto simp: update_access_information_def Let_def client_ok_def)
qed

lemma no_block_left:
  assumes "num_v_pages_processed C + 1 = num_pages cfg" "\<not> fst (current_block_page V) < length (v_blocks V)"
  shows "update_access_information cfg None rnd V C = None"
  using assms by (simp add: update_access_information_def get_new_access_information_def info_sync_def
      get_block_based_access_def get_new_block_def Let_def case_prod_unfold)

section \<open>Putting a record\<close>

lemma locate_make:
  assumes "b < 2 ^ 45" "p < 8" "s < 65536"
  shows "locate (make_offset b p s) = (b, p, s)"
proof -
  have u: "unat (of_nat b :: u64) = b" "unat (of_nat p :: u8) = p" "unat (of_nat s :: u16) = s"
    using assms by (simp_all add: unat_of_nat)
  have "unat (take_bit 45 (of_nat b :: u64)) = b" "unat (take_bit 3 (of_nat p :: u8)) = p"
    using assms(1,2) u by (simp_all only: unsigned_take_bit_eq) (simp_all add: take_bit_nat_eq_self)
  then show ?thesis using u by (simp only: locate_def make_offset_def get_offsets_def KeyValueOffset_fields prod.case)
qed

text \<open>An offset that a resolver may return: none, or one into an initialised page of the store.\<close>

definition points_into :: "'k VConfig \<Rightarrow> ('k, 'v) Viper \<Rightarrow> u64 \<Rightarrow> bool" where
  "points_into cfg V off \<longleftrightarrow> is_tombstone off \<or>
    (case locate off of (b, p, s) \<Rightarrow> in_range cfg V b p \<and> s < num_slots cfg \<and> used_word (version_lock (page_at V b p)))"

text \<open>Stores that agree with \<open>V\<close> but for more records and used pages, to which the resolver may be applied.\<close>

definition extends :: "'k VConfig \<Rightarrow> ('k, 'v) Viper \<Rightarrow> ('k, 'v) Viper \<Rightarrow> bool" where
  "extends cfg V V' \<longleftrightarrow> length (v_blocks V') = length (v_blocks V)
     \<and> (\<forall>x. records cfg V x \<noteq> None \<longrightarrow> records cfg V' x = records cfg V x)
     \<and> (\<forall>b p. used_word (version_lock (page_at V b p)) \<longrightarrow> used_word (version_lock (page_at V' b p)))"

lemma extends_trans: "extends cfg V V1 \<Longrightarrow> extends cfg V1 V2 \<Longrightarrow> extends cfg V V2"
  unfolding extends_def by metis

text \<open>The effect of a put by client \<open>C\<close>: a fresh slot of the client's page receives the record, and, with that
  page still locked, the resolver is asked for the old offset, whose slot is then freed.\<close>

definition put_effect :: "'k VConfig \<Rightarrow> (('k, 'v) Viper \<Rightarrow> 'k \<Rightarrow> u64) \<Rightarrow> 'k \<Rightarrow> 'v \<Rightarrow> ('k, 'v) Viper \<Rightarrow> bool \<Rightarrow>
    ('k, 'v) Viper \<Rightarrow> VClient \<Rightarrow> bool" where
  "put_effect cfg resolver k v V is_new V' C' \<longleftrightarrow>
    (\<exists>Vm old s. let new = locate (last_put_offset C') in
       new = (v_block_number C', v_page_number C', s) \<and> s < num_slots cfg \<and> last_put_offset C' = make_offset (v_block_number C') (v_page_number C') s
       \<and> extends cfg V Vm \<and> IS_LOCKED (version_lock (page_at Vm (v_block_number C') (v_page_number C')))
       \<and> old = resolver Vm k \<and> is_new = is_tombstone old \<and> records cfg V new = None
       \<and> records cfg Vm = (records cfg V)(new \<mapsto> (k, v))
       \<and> records cfg V' = (if is_new then records cfg Vm else (records cfg Vm)(locate old := None)))"

text \<open>The client's page locked and the new record stored, up to the index access.\<close>

definition with_record :: "nat \<Rightarrow> nat \<Rightarrow> nat \<Rightarrow> 'k \<times> 'v \<Rightarrow> ('k, 'v) Viper \<Rightarrow> ('k, 'v) Viper" where
  "with_record b p s kv V = write_slot b p s kv (upd_lock b p (\<lambda>_. version_lock (page_at V b p) + 1) V)"

lemma with_record_fields [simp]:
  "length (v_blocks (with_record b p s kv V)) = length (v_blocks V)"
  "current_block_page (with_record b p s kv V) = current_block_page V"
  "num_used_blocks (with_record b p s kv V) = num_used_blocks V"
  "hiom_owns_index (with_record b p s kv V) = hiom_owns_index V"
  "in_range cfg (with_record b p s kv V) b' p' = in_range cfg V b' p'"
  by (simp_all add: with_record_def)

lemma with_record_effect:
  assumes sh: "store_shape cfg V" and r: "in_range cfg V b p" and wr: "writable V b p"
    and s: "s < num_slots cfg" "free_slots (page_at V b p) ! s"
  shows "store_shape cfg (with_record b p s kv V)"
    and "records cfg (with_record b p s kv V) = (records cfg V)((b, p, s) \<mapsto> kv)"
    and "used_word (version_lock (page_at (with_record b p s kv V) b p))" "IS_LOCKED (version_lock (page_at (with_record b p s kv V) b p))"
    and "(b', p') \<noteq> (b, p) \<Longrightarrow> page_at (with_record b p s kv V) b' p' = page_at V b' p'"
    and "extends cfg V (with_record b p s kv V)"
proof -
  let ?w = "version_lock (page_at V b p) + 1"
  have u: "used_word (version_lock (page_at V b p))" and nl: "\<not> IS_LOCKED (version_lock (page_at V b p))"
    using wr by (simp_all add: writable_def)
  have uw: "used_word ?w" "IS_LOCKED ?w" using u nl lock_locks used_locked [of _ ?w] by (simp_all add: page_lock_Some)
  define V1 where "V1 = upd_lock b p (\<lambda>_. ?w) V"
  note e1 = lock_effect [OF sh r, of "\<lambda>_. ?w", folded V1_def]
  have r1: "in_range cfg V1 b p" using r by (simp add: V1_def)
  have u1: "used_word (version_lock (page_at V1 b p))" using uw by (simp add: e1(2))
  note e3 = write_effect [OF e1(1) r1 s(1) u1, of kv]
  have W: "with_record b p s kv V = write_slot b p s kv V1" by (simp add: with_record_def V1_def)
  have new: "records cfg V (b, p, s) = None" using s(2) by (simp add: records_def)
  show "store_shape cfg (with_record b p s kv V)" using e3(1) W by simp
  show rec: "records cfg (with_record b p s kv V) = (records cfg V)((b, p, s) \<mapsto> kv)"
    unfolding W e3(3) using e1(3) uw(1) u by simp
  show u3: "used_word (version_lock (page_at (with_record b p s kv V) b p))"
    "IS_LOCKED (version_lock (page_at (with_record b p s kv V) b p))" unfolding W using uw by (simp_all add: e3(2) e1(2))
  show other: "(b', p') \<noteq> (b, p) \<Longrightarrow> page_at (with_record b p s kv V) b' p' = page_at V b' p'" for b' p'
    unfolding W by (auto simp: e3(2) e1(2))
  have "used_word (version_lock (page_at (with_record b p s kv V) b' p'))" if "used_word (version_lock (page_at V b' p'))" for b' p'
    using that u3(1) other [of b' p'] by (cases "(b', p') = (b, p)") auto
  then show "extends cfg V (with_record b p s kv V)"
    using new rec by (auto simp: extends_def)
qed

lemma free_old:
  assumes sh: "store_shape cfg V" and pi: "points_into cfg V old"
  shows "\<exists>V' d. (if \<not> is_tombstone old \<and> True then free_occupied_slot cfg old k False V C else Some (V, C)) = Some (V', C\<lparr>size_delta := d\<rparr>)
    \<and> store_shape cfg V' \<and> records cfg V' = (if is_tombstone old then records cfg V else (records cfg V)(locate old := None))
    \<and> length (v_blocks V') = length (v_blocks V) \<and> current_block_page V' = current_block_page V
    \<and> num_used_blocks V' = num_used_blocks V \<and> hiom_owns_index V' = hiom_owns_index V
    \<and> version_lock (page_at V' (v_block_number C) (v_page_number C)) = version_lock (page_at V (v_block_number C) (v_page_number C))
    \<and> (\<forall>b p. writable V b p \<longrightarrow> writable V' b p) \<and> (\<forall>b p. used_word (version_lock (page_at V b p)) \<longrightarrow> used_word (version_lock (page_at V' b p)))"
proof (cases "is_tombstone old")
  case True
  then show ?thesis using sh by (intro exI [of _ V] exI [of _ "size_delta C"]) simp
next
  case False
  obtain b p s where l: "locate old = (b, p, s)" by (cases "locate old")
  then have "in_range cfg V b p" "used_word (version_lock (page_at V b p))" using pi False by (auto simp: points_into_def)
  from free_occupied_effect [OF sh this l, of False k C] show ?thesis using False l by fastforce
qed

text \<open>Unlocking the client's page and leaving the put.\<close>

lemma put_tail:
  assumes sh: "store_shape cfg V" and r: "in_range cfg V b p" and l: "used_word (version_lock (page_at V b p))"
    "IS_LOCKED (version_lock (page_at V b p))" and sync: "info_sync cfg False (upd_lock b p page_unlock V) C = (V', C')"
  shows "store_shape cfg V'" "records cfg V' = records cfg V" "writable V' b p"
    "(b', p') \<noteq> (b, p) \<Longrightarrow> page_at V' b' p' = page_at V b' p'" "length (v_blocks V') = length (v_blocks V)"
    "current_block_page V' = current_block_page V" "num_used_blocks V' = num_used_blocks V" "hiom_owns_index V' = hiom_owns_index V"
proof -
  note e = lock_effect [OF sh r, of page_unlock] and S = info_sync_effect [OF sync]
  note B = same_blocks [OF S(1)]
  show "store_shape cfg V'" "records cfg V' = records cfg V" using e(1,3) l B by simp_all
  show "writable V' b p" using l B by (simp add: writable_def e(2))
  show "(b', p') \<noteq> (b, p) \<Longrightarrow> page_at V' b' p' = page_at V b' p'" using B by (auto simp: e(2))
  show "length (v_blocks V') = length (v_blocks V)" "current_block_page V' = current_block_page V"
    "num_used_blocks V' = num_used_blocks V" "hiom_owns_index V' = hiom_owns_index V" using S by simp_all
qed

text \<open>What holds after a put that went into block \<open>b\<close>.\<close>

definition put_done :: "'k VConfig \<Rightarrow> (('k, 'v) Viper \<Rightarrow> 'k \<Rightarrow> u64) \<Rightarrow> 'k \<Rightarrow> 'v \<Rightarrow> ('k, 'v) Viper \<Rightarrow> nat set \<Rightarrow>
    bool \<Rightarrow> ('k, 'v) Viper \<Rightarrow> VClient \<Rightarrow> bool" where
  "put_done cfg resolver k v V B is_new V' C' \<longleftrightarrow> put_effect cfg resolver k v V is_new V' C' \<and> store_inv cfg V' \<and> client_ok cfg V' C'
     \<and> confined cfg B V V' \<and> v_block_number C' \<in> B \<and> hiom_owns_index V'
     \<and> fst (locate (last_put_offset C')) < num_used_blocks V'"

lemma later_page:
  assumes "p < n" "1 \<le> j" "j < n"
  shows "(p + j) mod n \<noteq> (p :: nat)"
proof
  assume "(p + j) mod n = p"
  then have "(p + j) mod n = p mod n" using assms(1) by simp
  then have "n dvd j" by (metis add.commute add_diff_cancel_right' le_add2 mod_eq_dvd_iff_nat)
  then show False using assms(2,3) by (auto dest: dvd_imp_le)
qed

lemma put_here:
  assumes cfg: "cfg_ok cfg" and inv: "store_inv cfg V" and C: "client_ok cfg V C" and own: "hiom_owns_index V"
    and res: "\<And>V'. extends cfg V V' \<Longrightarrow> points_into cfg V' (resolver V' k)"
    and room: "first_idx (num_slots cfg) (\<lambda>i. free_slots (page_at V (v_block_number C) (v_page_number C)) ! i) = Some s"
  shows "\<exists>is_new V' C'. put (Suc n) cfg (Some resolver) None rnd k v True False V C = Some (is_new, V', C')
    \<and> put_done cfg resolver k v V {v_block_number C} is_new V' C'
    \<and> v_block_number C' = v_block_number C \<and> v_page_number C' = v_page_number C
    \<and> last_put_offset C' = make_offset (v_block_number C) (v_page_number C) s"
proof -
  let ?b = "v_block_number C" and ?p = "v_page_number C"
  let ?new = "(?b, ?p, s)" and ?off = "make_offset ?b ?p s"
  have sh: "store_shape cfg V" using inv by (simp add: store_inv_def)
  have r: "in_range cfg V ?b ?p" and wr: "writable V ?b ?p" using C by (simp_all add: client_ok_def)
  have s: "s < num_slots cfg" "free_slots (page_at V ?b ?p) ! s" using first_idx_SomeD [OF room] by auto
  have newfree: "records cfg V ?new = None" using s(2) by (simp add: records_def)
  define V3 where "V3 = with_record ?b ?p s (k, v) V"
  note W = with_record_effect [OF sh r wr s, where kv = "(k, v)", folded V3_def]
  define V4 where "V4 = V3\<lparr>hiom_map_skipped := hiom_map_skipped V3 + 1\<rparr>"
  have b4: "v_blocks V4 = v_blocks V3" by (simp add: V4_def)
  note B4 = same_blocks [OF b4]
  have f4: "length (v_blocks V4) = length (v_blocks V)" "current_block_page V4 = current_block_page V"
    "num_used_blocks V4 = num_used_blocks V" "hiom_owns_index V4"
    using own by (simp_all add: V4_def V3_def)
  have loc: "locate ?off = ?new"
    by (rule locate_make) (use cfg inv r s in \<open>auto simp: cfg_ok_def store_inv_def in_range_def\<close>)
  let ?old = "resolver V4 k" and ?C1 = "C\<lparr>last_put_offset := ?off\<rparr>"
  have ext4: "extends cfg V V4" using W(6) B4 b4 by (simp add: extends_def)
  then have pi: "points_into cfg V4 ?old" by (rule res)
  have sh4: "store_shape cfg V4" using W(1) B4 by simp
  obtain V5 d where F: "(if \<not> is_tombstone ?old \<and> True then free_occupied_slot cfg ?old k False V4 ?C1 else Some (V4, ?C1)) = Some (V5, ?C1\<lparr>size_delta := d\<rparr>)"
    "store_shape cfg V5" "records cfg V5 = (if is_tombstone ?old then records cfg V4 else (records cfg V4)(locate ?old := None))"
    "length (v_blocks V5) = length (v_blocks V4)" "current_block_page V5 = current_block_page V4"
    "num_used_blocks V5 = num_used_blocks V4" "hiom_owns_index V5 = hiom_owns_index V4"
    "version_lock (page_at V5 ?b ?p) = version_lock (page_at V4 ?b ?p)" "\<forall>b p. writable V4 b p \<longrightarrow> writable V5 b p"
    "\<forall>b p. used_word (version_lock (page_at V4 b p)) \<longrightarrow> used_word (version_lock (page_at V5 b p))"
    using free_old [OF sh4 pi, of k ?C1] by auto
  obtain V7 C4 where sync: "info_sync cfg False (upd_lock ?b ?p page_unlock V5) (?C1\<lparr>size_delta := d + 1\<rparr>) = (V7, C4)" by force
  have lk5: "used_word (version_lock (page_at V5 ?b ?p))" "IS_LOCKED (version_lock (page_at V5 ?b ?p))"
    using F(8) B4(1) W(3,4) by simp_all
  have r5: "in_range cfg V5 ?b ?p" using r F(4) f4(1) by (simp add: in_range_def)
  note T = put_tail [OF F(2) r5 lk5 sync] and S = info_sync_effect [OF sync]
  have lock: "page_lock (version_lock (page_at V ?b ?p)) = Some (version_lock (page_at V ?b ?p) + 1)"
    using wr by (simp add: page_lock_total writable_def)
  have free1: "free_slots (page_at (upd_lock ?b ?p f V) ?b ?p) = free_slots (page_at V ?b ?p)" for f
    by (simp add: lock_effect(2) [OF sh r])
  have idx: "old_offset_of cfg (Some resolver) k ?off False V3 = Some (?old, V4)"
    using own by (simp add: old_offset_of_def V4_def V3_def Let_def)
  have run: "put (Suc n) cfg (Some resolver) None rnd k v True False V C = Some (is_tombstone ?old, V7, C4)"
    using room idx F(1) sync
    by (simp add: Let_def lock free1 V3_def with_record_def write_slot_def split: if_splits)
  have rec7: "records cfg V7 = (if is_tombstone ?old then (records cfg V)(?new \<mapsto> (k, v)) else ((records cfg V)(?new \<mapsto> (k, v)))(locate ?old := None))"
    using T(2) F(3) B4 W(2) by simp
  have eff: "put_effect cfg resolver k v V (is_tombstone ?old) V7 C4"
    unfolding put_effect_def using W(2,4) newfree B4 rec7 S loc ext4 s(1)
    by (intro exI [of _ V4] exI [of _ ?old] exI [of _ s]) (simp add: Let_def)
  have none: "records cfg V x = None \<Longrightarrow> x \<noteq> ?new \<Longrightarrow> records cfg V7 x = None" for x using rec7 by simp
  have bu: "?b < num_used_blocks V" "?b < fst (current_block_page V)" using C by (simp_all add: client_ok_def)
  have dom: "records cfg V7 x \<noteq> None \<Longrightarrow> x = ?new \<or> records cfg V x \<noteq> None" for x
    using none [of x] by (cases "x = ?new"; cases "records cfg V x = None"; simp)
  have sinv: "store_inv cfg V7" unfolding store_inv_def
  proof (intro conjI allI impI)
    show "records cfg V7 (b, p, x) = None" if "fst (current_block_page V7) \<le> b" for b p x
      using that none [of "(b, p, x)"] inv bu(2) T(6) F(5) f4 by (auto simp: store_inv_def)
    show "b < num_used_blocks V7" if "records cfg V7 (b, p, x) \<noteq> None" for b p x
      using dom [OF that] store_inv_used [OF inv, of b p x] bu(1) T(7) F(6) f4 by (elim disjE) simp_all
  qed (use inv T F f4 in \<open>auto simp: store_inv_def\<close>)
  have wr7: "writable V7 b p" if "writable V b p" "(b, p) \<noteq> (?b, ?p)" for b p
    using that F(9) B4(1) W(5) [OF that(2)] T(4) [OF that(2)] by (simp add: writable_def)
  have used7: "used_word (version_lock (page_at V7 b p))" if "used_word (version_lock (page_at V b p))" for b p
  proof (cases "(b, p) = (?b, ?p)")
    case True then show ?thesis using T(3) by (simp add: writable_def)
  next
    case False then show ?thesis using that F(10) B4(1) W(5) [OF False] T(4) [OF False] by simp
  qed
  have conf: "confined cfg {?b} V V7"
    using T F f4 none wr7 used7 by (auto simp: confined_def)
  have pn: "?p < num_pages cfg" using r by (simp add: in_range_def)
  have "records cfg V7 (?b, (?p + j) mod num_pages cfg, x) = None" if "1 \<le> j" "j < num_pages cfg - num_v_pages_processed C" for j x
    using none [of "(?b, (?p + j) mod num_pages cfg, x)"] later_page [OF pn, of j] that C by (simp add: client_ok_def)
  then have cok: "client_ok cfg V7 C4"
    using C S r T F f4 bu by (simp add: client_ok_def in_range_def)
  have "put_done cfg resolver k v V {?b} (is_tombstone ?old) V7 C4"
    unfolding put_done_def using eff sinv cok conf S T(8) F(7) f4 loc bu T(7) F(6) by simp
  then show ?thesis using run S(6,7,9) by simp
qed

lemma fresh_page_room:
  "0 < n \<Longrightarrow> free_slots pg = replicate n True \<Longrightarrow> first_idx n (\<lambda>i. free_slots pg ! i) = Some 0"
  by (simp add: first_idx_Some_iff)

lemma put_total:
  assumes cfg: "cfg_ok cfg" and inv: "store_inv cfg V" and C: "client_ok cfg V C" and own: "hiom_owns_index V"
    and res: "\<forall>V'. extends cfg V V' \<longrightarrow> points_into cfg V' (resolver V' k)"
    and avail: "fst (current_block_page V) < length (v_blocks V) \<or> put 2 cfg (Some resolver) None rnd k v True False V C \<noteq> None"
  shows "\<exists>is_new V' C'. put 2 cfg (Some resolver) None rnd k v True False V C = Some (is_new, V', C')
    \<and> put_done cfg resolver k v V {v_block_number C, fst (current_block_page V)} is_new V' C'"
proof -
  let ?b = "v_block_number C" and ?p = "v_page_number C"
  let ?B = "{?b, fst (current_block_page V)}"
  have two: "put 2 = put (Suc 1)" by (simp add: numeral_2_eq_2)
  have sh: "store_shape cfg V" and r: "in_range cfg V ?b ?p" and wr: "writable V ?b ?p"
    using inv C by (simp_all add: store_inv_def client_ok_def)
  show ?thesis
  proof (cases "first_idx (num_slots cfg) (\<lambda>i. free_slots (page_at V ?b ?p) ! i)")
    case (Some s)
    from put_here [where resolver = resolver and k = k, OF cfg inv C own _ Some, of 1 rnd v] res show ?thesis
      unfolding two by (auto simp: put_done_def intro: confined_mono)
  next
    case None
    let ?w = "version_lock (page_at V ?b ?p) + 1"
    let ?V1 = "upd_lock ?b ?p (\<lambda>_. ?w) V"
    let ?V2 = "upd_lock ?b ?p page_unlock ?V1"
    have nl: "\<not> IS_LOCKED (version_lock (page_at V ?b ?p))" "used_word (version_lock (page_at V ?b ?p))"
      using wr by (simp_all add: writable_def)
    have lock: "page_lock (version_lock (page_at V ?b ?p)) = Some ?w" using nl by (simp add: page_lock_total)
    note e1 = lock_effect [OF sh r, of "\<lambda>_. ?w"]
    have r1: "in_range cfg ?V1 ?b ?p" using r by simp
    note e2 = lock_effect [OF e1(1) r1, of page_unlock]
    have uw: "used_word ?w" "IS_LOCKED ?w" using used_locked [OF lock] nl lock_locks by simp_all
    have rec2: "records cfg ?V2 = records cfg V" using e1(3) e2(3) uw nl by (simp add: e1(2))
    have pg2: "page_at ?V2 b p = (if b = ?b \<and> p = ?p then (page_at V ?b ?p)\<lparr>version_lock := page_unlock ?w\<rparr> else page_at V b p)" for b p
      by (simp add: e2(2) e1(2))
    have inv2: "store_inv cfg ?V2" using inv rec2 e2(1) by (simp add: store_inv_def)
    have C2: "client_ok cfg ?V2 C" using C rec2 uw(2) by (simp add: client_ok_def writable_def pg2)
    have c2: "confined cfg ?B V ?V2" using e2(1) rec2 pg2 uw(2) by (auto simp: confined_def writable_def)
    have "fst (current_block_page ?V2) < length (v_blocks ?V2)" if "num_v_pages_processed C + 1 = num_pages cfg"
      using avail no_block_left [OF that, of ?V2 rnd] None unfolding two by (fastforce simp: Let_def lock e1(2))
    then obtain V3 C3 where 3: "update_access_information cfg None rnd ?V2 C = Some (V3, C3)" "on_fresh_page cfg ?V2 C V3 C3"
      using update_access_effect [OF cfg inv2 C2, of rnd] by auto
    have o3: "store_inv cfg V3" "client_ok cfg V3 C3" "records cfg V3 = records cfg V" "confined cfg ?B ?V2 V3"
      "v_block_number C3 \<in> ?B" "hiom_owns_index V3"
      "free_slots (page_at V3 (v_block_number C3) (v_page_number C3)) = replicate (num_slots cfg) True"
      using 3(2) rec2 own by (auto simp: on_fresh_page_def)
    have len3: "length (v_blocks V3) = length (v_blocks V)" using o3(4) by (simp add: confined_def)
    have used3: "used_word (version_lock (page_at V b p)) \<longrightarrow> used_word (version_lock (page_at V3 b p))" for b p
      using c2 o3(4) by (simp add: confined_def)
    have ext3: "extends cfg V V3" using len3 o3(3) used3 by (simp add: extends_def)
    have "points_into cfg V' (resolver V' k)" if "extends cfg V3 V'" for V' using res extends_trans [OF ext3 that] by blast
    from put_here [where resolver = resolver and k = k, OF cfg o3(1,2,6) this fresh_page_room [OF _ o3(7)], of 0 rnd v] cfg
    obtain is_new V' C' where P: "put 1 cfg (Some resolver) None rnd k v True False V3 C3 = Some (is_new, V', C')"
      "put_done cfg resolver k v V3 {v_block_number C3} is_new V' C'" by (auto simp: cfg_ok_def)
    have run: "put 2 cfg (Some resolver) None rnd k v True False V C = Some (is_new, V', C')"
      unfolding two using None P(1) 3(1) by (simp add: Let_def lock e1(2))
    have "confined cfg ?B V V'"
      using confined_trans [OF confined_trans [OF c2 o3(4)]] P(2) confined_mono [of cfg "{v_block_number C3}" V3 V' ?B] o3(5)
      by (auto simp: put_done_def)
    moreover have "extends cfg V Vm" if "extends cfg V3 Vm" for Vm
      using extends_trans [OF ext3 that] .
    ultimately have "put_done cfg resolver k v V ?B is_new V' C'"
      using P(2) o3(3,5) unfolding put_done_def put_effect_def Let_def by fastforce
    then show ?thesis using run by blast
  qed
qed

lemma put_correct:
  assumes cfg: "cfg_ok cfg" and inv: "sys_inv cfg V Cs" and i: "i < length Cs" and own: "hiom_owns_index V"
    and res: "\<forall>V'. extends cfg V V' \<longrightarrow> points_into cfg V' (resolver V' k)"
    and avail: "fst (current_block_page V) < length (v_blocks V) \<or> put 2 cfg (Some resolver) None rnd k v True False V (Cs ! i) \<noteq> None"
  shows "\<exists>is_new V' C'. put 2 cfg (Some resolver) None rnd k v True False V (Cs ! i) = Some (is_new, V', C')
    \<and> put_effect cfg resolver k v V is_new V' C' \<and> sys_inv cfg V' (Cs[i := C']) \<and> hiom_owns_index V'
    \<and> fst (locate (last_put_offset C')) < num_used_blocks V' \<and> length (v_blocks V') = length (v_blocks V)
    \<and> (\<forall>off. points_into cfg V off \<longrightarrow> points_into cfg V' off)"
proof -
  have sinv: "store_inv cfg V" and Ci: "client_ok cfg V (Cs ! i)" and dist: "distinct (map v_block_number Cs)"
    using inv i by (auto simp: sys_inv_def)
  obtain is_new V' C' where P: "put 2 cfg (Some resolver) None rnd k v True False V (Cs ! i) = Some (is_new, V', C')"
    "put_done cfg resolver k v V {v_block_number (Cs ! i), fst (current_block_page V)} is_new V' C'"
    using put_total [where resolver = resolver and k = k, OF cfg sinv Ci own res avail] by blast
  have other: "v_block_number (Cs ! j) \<notin> {v_block_number (Cs ! i), fst (current_block_page V)}" if "j < length Cs" "j \<noteq> i" for j
  proof -
    have "client_ok cfg V (Cs ! j)" using inv that by (simp add: sys_inv_def)
    then show ?thesis using dist that i by (auto simp: distinct_conv_nth client_ok_def)
  qed
  have "client_ok cfg V' (Cs[i := C'] ! j)" if "j < length Cs" for j
    using that P(2) other [OF that] inv client_confined [of cfg V "Cs ! j" _ V']
    by (cases "j = i") (auto simp: put_done_def sys_inv_def)
  moreover have "distinct (map v_block_number (Cs[i := C']))"
    using P(2) other dist i unfolding distinct_conv_nth put_done_def
    by (auto simp: nth_list_update distinct_conv_nth)
  ultimately have "sys_inv cfg V' (Cs[i := C'])"
    using P(2) by (auto simp: sys_inv_def put_done_def in_set_conv_nth)
  moreover have "points_into cfg V off \<longrightarrow> points_into cfg V' off" for off
    using P(2) by (auto simp: put_done_def confined_def points_into_def in_range_def)
  ultimately show ?thesis using P by (auto simp: put_done_def confined_def)
qed

text \<open>A put takes at most one new block.\<close>

lemma access_block_cost:
  "update_access_information cfg None rnd V C = Some (V', C') \<Longrightarrow> fst (current_block_page V') \<le> fst (current_block_page V) + 1"
  by (auto simp: update_access_information_def get_new_access_information_def info_sync_def get_block_based_access_def get_new_block_def
      take_block_def drop_owner_def upd_lock_def Let_def split: if_splits prod.splits option.splits)

lemma current_upd_lock [simp]: "current_block_page (upd_lock b p f V) = current_block_page V"
  by (simp add: upd_lock_def)

lemma put_step_current:
  assumes "put (Suc n) cfg res None rnd k v d a V C = Some (r, V', C')"
  shows "current_block_page V' = current_block_page V
    \<or> (\<exists>V1 V2 C2. current_block_page V1 = current_block_page V \<and> update_access_information cfg None rnd V1 C = Some (V2, C2)
         \<and> put n cfg res None rnd k v d a V2 C2 = Some (r, V', C'))"
proof -
  let ?b = "v_block_number C" and ?p = "v_page_number C"
  obtain w where w: "page_lock (version_lock (page_at V ?b ?p)) = Some w" using assms by (auto simp: Let_def split: option.splits)
  let ?V1 = "upd_lock ?b ?p (\<lambda>_. w) V"
  show ?thesis
  proof (cases "first_idx (num_slots cfg) (\<lambda>i. free_slots (page_at ?V1 ?b ?p) ! i)")
    case None
    then obtain V2 C2 where "update_access_information cfg None rnd (upd_lock ?b ?p page_unlock ?V1) C = Some (V2, C2)"
      "put n cfg res None rnd k v d a V2 C2 = Some (r, V', C')" using assms w by (auto simp: Let_def split: option.splits)
    moreover have "current_block_page (upd_lock ?b ?p page_unlock ?V1) = current_block_page V" by simp
    ultimately show ?thesis by blast
  next
    case (Some s)
    have map: "map_insert cfg k x W = Some (y, W') \<Longrightarrow> current_block_page W' = current_block_page W" for x y and W W' :: "('a, 'b) Viper"
      by (auto simp: map_insert_def split: option.splits)
    have old: "old_offset_of cfg res k x a W = Some (y, W') \<Longrightarrow> current_block_page W' = current_block_page W" for x y and W W' :: "('a, 'b) Viper"
      by (auto simp: old_offset_of_def Let_def dest: map split: option.splits if_splits)
    have fr: "free_occupied_slot cfg x k False W D = Some (W', D') \<Longrightarrow> current_block_page W' = current_block_page W" for x D D' and W W' :: "('a, 'b) Viper"
      by (auto simp: free_occupied_slot_def mark_removed_def invalidate_record_def Let_def split: prod.splits if_splits)
    have sy: "info_sync cfg False W D = (W', D') \<Longrightarrow> current_block_page W' = current_block_page W" for D D' and W W' :: "('a, 'b) Viper"
      by (auto simp: info_sync_def split: if_splits)
    show ?thesis using assms w Some by (auto simp: Let_def dest!: old fr sy split: option.splits prod.splits if_splits)
  qed
qed

lemma put_block_cost:
  "put (Suc n) cfg res None rnd k v d a V C = Some (r, V', C') \<Longrightarrow> fst (current_block_page V') \<le> fst (current_block_page V) + n"
proof (induction n arbitrary: V C)
  case 0 then show ?case using put_step_current [OF 0] by auto
next
  case (Suc n)
  from put_step_current [OF Suc.prems] show ?case
  proof (elim disjE exE conjE)
    fix V1 V2 C2 assume a: "current_block_page V1 = current_block_page V" "update_access_information cfg None rnd V1 C = Some (V2, C2)"
      "put (Suc n) cfg res None rnd k v d a V2 C2 = Some (r, V', C')"
    then show ?case using Suc.IH [OF a(3)] access_block_cost [OF a(2)] by simp
  qed simp
qed

text \<open>C8. Putting a record. In a store whose clients satisfy the invariant, with HiOM owning the index
  and a resolver that reports only offsets into initialised pages, a put by any client returns when
  one more block can be allocated. It stores the record in a slot that held none, frees the slot the
  resolver reported (unless the key is new), changes no other record, keeps the invariant of the
  store and of all clients, and the durable high-water mark covers the block of the new record.\<close>

theorem viper_put_correct:
  assumes cfg: "cfg_ok cfg" and inv: "sys_inv cfg V Cs" and i: "i < length Cs" and own: "hiom_owns_index V"
    and res: "\<forall>V'. extends cfg V V' \<longrightarrow> points_into cfg V' (resolver V' k)"
    and avail: "fst (current_block_page V) < length (v_blocks V)"
  shows "\<exists>is_new V' C'. put 2 cfg (Some resolver) None rnd k v True False V (Cs ! i) = Some (is_new, V', C')
    \<and> put_effect cfg resolver k v V is_new V' C' \<and> sys_inv cfg V' (Cs[i := C']) \<and> hiom_owns_index V'
    \<and> fst (locate (last_put_offset C')) < num_used_blocks V'"
  using put_correct [where resolver = resolver and k = k, OF cfg inv i own res] avail by (metis (no_types, lifting))

section \<open>Removing and updating\<close>

lemma store_inv_fewer:
  assumes "store_inv cfg V" "store_shape cfg V'" "length (v_blocks V') = length (v_blocks V)"
    "current_block_page V' = current_block_page V" "num_used_blocks V' = num_used_blocks V"
    "\<And>x. records cfg V x = None \<Longrightarrow> records cfg V' x = None"
  shows "store_inv cfg V'"
proof -
  have "b < num_used_blocks V'" if "records cfg V' (b, p, s) \<noteq> None" for b p s
    using that assms(5,6) store_inv_used [OF assms(1), of b p s] by metis
  then show ?thesis using assms by (simp add: store_inv_def)
qed

lemma client_fewer:
  assumes "client_ok cfg V C" "length (v_blocks V') = length (v_blocks V)"
    "current_block_page V' = current_block_page V" "num_used_blocks V' = num_used_blocks V"
    "\<And>x. records cfg V x = None \<Longrightarrow> records cfg V' x = None" "\<And>b p. writable V b p \<Longrightarrow> writable V' b p"
  shows "client_ok cfg V' C"
  using assms by (simp add: client_ok_def in_range_def)

lemma client_same_place:
  "client_ok cfg V C \<Longrightarrow> client_ok cfg V (C\<lparr>size_delta := d, num_reclaimable_ops := n\<rparr>)"
  by (simp add: client_ok_def)

lemma remove_effect:
  assumes inv: "sys_inv cfg V Cs" and i: "i < length Cs" and own: "hiom_owns_index V"
    and res: "\<forall>V'. extends cfg V V' \<longrightarrow> points_into cfg V' (resolver V' k)"
  shows "\<exists>V' C'. remove cfg (Some resolver) k V (Cs ! i) =
      Some (\<not> is_tombstone (resolver (V\<lparr>hiom_map_skipped := hiom_map_skipped V + 1\<rparr>) k), V', C')
    \<and> records cfg V' = (let off = resolver (V\<lparr>hiom_map_skipped := hiom_map_skipped V + 1\<rparr>) k
                        in if is_tombstone off then records cfg V else (records cfg V)(locate off := None))
    \<and> sys_inv cfg V' (Cs[i := C']) \<and> length (v_blocks V') = length (v_blocks V)
    \<and> (\<forall>b p. used_word (version_lock (page_at V b p)) \<longrightarrow> used_word (version_lock (page_at V' b p)))"
proof -
  define V1 where "V1 = V\<lparr>hiom_map_skipped := hiom_map_skipped V + 1\<rparr>"
  have b1: "v_blocks V1 = v_blocks V" by (simp add: V1_def)
  note B = same_blocks [OF b1]
  have "extends cfg V V1" using B b1 by (simp add: extends_def)
  then have pi: "points_into cfg V1 (resolver V1 k)" using res by blast
  have inv1: "sys_inv cfg V1 Cs"
    using inv B b1 by (simp add: sys_inv_def store_inv_def client_ok_def V1_def)
  have rem1: "remove cfg (Some resolver) k V C = (if is_tombstone (resolver V1 k) then Some (False, V1, C)
      else case free_occupied_slot cfg (resolver V1 k) k True V1 C of None \<Rightarrow> None
           | Some (V2, C2) \<Rightarrow> Some (True, V2, C2\<lparr>num_reclaimable_ops := num_reclaimable_ops C2 + 1\<rparr>))" for C
    using own by (simp add: remove_def V1_def Let_def)
  show ?thesis unfolding V1_def [symmetric]
  proof (cases "is_tombstone (resolver V1 k)")
    case True
    then show "\<exists>V' C'. remove cfg (Some resolver) k V (Cs ! i) = Some (\<not> is_tombstone (resolver V1 k), V', C')
      \<and> records cfg V' = (let off = resolver V1 k in if is_tombstone off then records cfg V else (records cfg V)(locate off := None))
      \<and> sys_inv cfg V' (Cs[i := C']) \<and> length (v_blocks V') = length (v_blocks V)
      \<and> (\<forall>b p. used_word (version_lock (page_at V b p)) \<longrightarrow> used_word (version_lock (page_at V' b p)))"
      using own inv1 B b1 by (intro exI [of _ V1] exI [of _ "Cs ! i"]) (simp add: rem1)
  next
    case False
    obtain b p s where l: "locate (resolver V1 k) = (b, p, s)" by (cases "locate (resolver V1 k)")
    have r: "in_range cfg V1 b p" "used_word (version_lock (page_at V1 b p))" using pi False l by (auto simp: points_into_def)
    have sh: "store_shape cfg V1" using inv1 by (simp add: sys_inv_def store_inv_def)
    have own1: "hiom_owns_index V1" using own by (simp add: V1_def)
    let ?C = "Cs ! i"
    obtain V' where F: "free_occupied_slot cfg (resolver V1 k) k True V1 ?C = Some (V', ?C\<lparr>size_delta := size_delta ?C - 1\<rparr>)"
      "store_shape cfg V'" "records cfg V' = (records cfg V1)((b, p, s) := None)" "length (v_blocks V') = length (v_blocks V1)"
      "current_block_page V' = current_block_page V1" "num_used_blocks V' = num_used_blocks V1"
      "\<forall>b p. writable V1 b p \<longrightarrow> writable V' b p" "\<forall>b p. used_word (version_lock (page_at V1 b p)) \<longrightarrow> used_word (version_lock (page_at V' b p))"
      using free_occupied_effect [OF sh r l, of True k ?C] own1 by auto
    let ?C' = "?C\<lparr>size_delta := size_delta ?C - 1, num_reclaimable_ops := num_reclaimable_ops ?C + 1\<rparr>"
    have rem: "remove cfg (Some resolver) k V ?C = Some (True, V', ?C')"
      using False F(1) by (simp add: rem1)
    have fewer: "records cfg V1 x = None \<Longrightarrow> records cfg V' x = None" for x using F(3) by simp
    have si: "store_inv cfg V'" using inv1 F fewer by (auto simp: sys_inv_def intro: store_inv_fewer)
    have co: "client_ok cfg V' D" if "client_ok cfg V1 D" for D
      by (rule client_fewer [OF that F(4,5,6) fewer]) (use F(7) in auto)
    have "v_block_number ?C' = v_block_number ?C" by simp
    then have "map v_block_number (Cs[i := ?C']) = map v_block_number Cs"
      using i by (auto intro!: nth_equalityI simp: nth_list_update)
    moreover have "client_ok cfg V' D" if "D \<in> set (Cs[i := ?C'])" for D
    proof -
      have "client_ok cfg V1 ?C'" by (rule client_same_place) (use inv1 i in \<open>simp add: sys_inv_def\<close>)
      then show ?thesis using that inv1 co set_update_subset_insert [of Cs i ?C'] by (auto simp: sys_inv_def)
    qed
    ultimately have "sys_inv cfg V' (Cs[i := ?C'])" using si inv1 by (simp add: sys_inv_def)
    then show "\<exists>V' C'. remove cfg (Some resolver) k V (Cs ! i) = Some (\<not> is_tombstone (resolver V1 k), V', C')
      \<and> records cfg V' = (let off = resolver V1 k in if is_tombstone off then records cfg V else (records cfg V)(locate off := None))
      \<and> sys_inv cfg V' (Cs[i := C']) \<and> length (v_blocks V') = length (v_blocks V)
      \<and> (\<forall>b p. used_word (version_lock (page_at V b p)) \<longrightarrow> used_word (version_lock (page_at V' b p)))"
      using rem False F(3,4,8) l B b1 by (intro exI [of _ V'] exI [of _ ?C']) (simp add: V1_def)
  qed
qed

text \<open>C31. Removing a key when HiOM owns the index: a key the resolver does not know is reported absent
  and nothing changes; otherwise exactly the slot it reported is freed. The invariant of the store and
  of all clients is kept.\<close>

theorem viper_remove_correct:
  assumes inv: "sys_inv cfg V Cs" and i: "i < length Cs" and own: "hiom_owns_index V"
    and res: "\<forall>V'. extends cfg V V' \<longrightarrow> points_into cfg V' (resolver V' k)"
  shows "\<exists>V' C'. remove cfg (Some resolver) k V (Cs ! i) =
      Some (\<not> is_tombstone (resolver (V\<lparr>hiom_map_skipped := hiom_map_skipped V + 1\<rparr>) k), V', C')
    \<and> records cfg V' = (let off = resolver (V\<lparr>hiom_map_skipped := hiom_map_skipped V + 1\<rparr>) k
                        in if is_tombstone off then records cfg V else (records cfg V)(locate off := None))
    \<and> sys_inv cfg V' (Cs[i := C'])"
  using remove_effect [where resolver = resolver and k = k, OF assms] by (metis (no_types, lifting))

text \<open>The outcome of \<open>try_at\<close> and of its retry loop on the offset of slot \<open>x\<close>.\<close>

definition update_effect :: "'k VConfig \<Rightarrow> 'k \<Rightarrow> ('v \<Rightarrow> 'v) \<Rightarrow> nat \<times> nat \<times> nat \<Rightarrow> ('k, 'v) Viper \<Rightarrow> TriState \<Rightarrow> ('k, 'v) Viper \<Rightarrow> bool" where
  "update_effect cfg k f x V r V' \<longleftrightarrow> store_shape cfg V' \<and> length (v_blocks V') = length (v_blocks V)
     \<and> current_block_page V' = current_block_page V \<and> num_used_blocks V' = num_used_blocks V
     \<and> hiom_owns_index V' = hiom_owns_index V \<and> (\<forall>b p. writable V b p \<longrightarrow> writable V' b p)
     \<and> (\<forall>b p. used_word (version_lock (page_at V b p)) \<longrightarrow> used_word (version_lock (page_at V' b p)))
     \<and> (if r = kApplied then \<exists>v. records cfg V x = Some (k, v) \<and> records cfg V' = (records cfg V)(x \<mapsto> (k, f v))
        else records cfg V' = records cfg V)"

lemma set_data_effect:
  assumes "store_shape cfg V" "in_range cfg V b p" "s < num_slots cfg" "used_word (version_lock (page_at V b p))"
    "\<not> free_slots (page_at V b p) ! s"
    and V': "V' = upd_page b p (\<lambda>pg. pg\<lparr>page_data := (page_data pg)[s := g pg]\<rparr>) V"
  shows "store_shape cfg V'" and "records cfg V' = (records cfg V)((b, p, s) \<mapsto> g (page_at V b p))"
    and "version_lock (page_at V' b' p') = version_lock (page_at V b' p')"
proof -
  have ps: "page_shape cfg (page_at V b p)" using assms(1,2) by (rule shape_page)
  show "store_shape cfg V'" unfolding V' by (rule shape_upd [OF assms(1,2)]) (use ps in \<open>simp add: page_shape_def\<close>)
  show "version_lock (page_at V' b' p') = version_lock (page_at V b' p')" unfolding V' using page_at_upd [OF assms(1,2)] by simp
  have "records cfg V' (b', p', s') = ((records cfg V)((b, p, s) \<mapsto> g (page_at V b p))) (b', p', s')" for b' p' s'
    unfolding V' records_upd [OF assms(1,2)]
    using assms(1-5) ps by (auto simp: records_def in_range_def page_shape_def nth_list_update)
  then show "records cfg V' = (records cfg V)((b, p, s) \<mapsto> g (page_at V b p))" by (auto simp: fun_eq_iff)
qed

lemma lock_unlock_writable:
  assumes sh: "store_shape cfg V" and r: "in_range cfg V b p"
    and V2: "store_shape cfg V2" "in_range cfg V2 b p"
      "\<And>b' p'. version_lock (page_at V2 b' p') = version_lock (page_at (upd_lock b p (\<lambda>_. w) V) b' p')"
    and w: "IS_LOCKED w" and wr: "writable V b' p'"
  shows "writable (upd_lock b p page_unlock V2) b' p'"
  using lock_effect(2) [OF V2(1,2)] lock_effect(2) [OF sh r] V2(3) [of b' p'] V2(3) [of b p] w wr
  by (auto simp: writable_def)

lemma try_at_effect:
  assumes sh: "store_shape cfg V" and r: "in_range cfg V b p" and s: "s < num_slots cfg"
    and u: "used_word (version_lock (page_at V b p))" and l: "locate off = (b, p, s)"
    and t: "try_at k f off V = (res, V')"
  shows "update_effect cfg k f (b, p, s) V res V'"
    and "res = kLockBusy \<longleftrightarrow> \<not> free_slots (page_at V b p) ! s \<and> IS_LOCKED (version_lock (page_at V b p))"
    and "res = kLockBusy \<Longrightarrow> V' = V"
    and "res = kKeyMismatch \<Longrightarrow> \<nexists>v. records cfg V (b, p, s) = Some (k, v)"
proof -
  let ?w = "version_lock (page_at V b p) + 1"
  let ?V1 = "upd_lock b p (\<lambda>_. ?w) V"
  let ?g = "\<lambda>pg. (k, f (snd (page_data pg ! s)))"
  let ?V2 = "upd_page b p (\<lambda>pg. pg\<lparr>page_data := (page_data pg)[s := ?g pg]\<rparr>) ?V1"
  have e1: "store_shape cfg ?V1" "page_at ?V1 b p = (page_at V b p)\<lparr>version_lock := ?w\<rparr>" "in_range cfg ?V1 b p"
    using lock_effect [OF sh r, of "\<lambda>_. ?w"] r by simp_all
  have live: "records cfg V (b, p, s) = (if free_slots (page_at V b p) ! s then None else Some (page_data (page_at V b p) ! s))"
    using r s u by (simp add: records_def in_range_def)
  consider (free) "free_slots (page_at V b p) ! s" "res = kKeyMismatch" "V' = V"
    | (busy) "\<not> free_slots (page_at V b p) ! s" "IS_LOCKED (version_lock (page_at V b p))" "res = kLockBusy" "V' = V"
    | (other) "\<not> free_slots (page_at V b p) ! s" "\<not> IS_LOCKED (version_lock (page_at V b p))"
        "fst (page_data (page_at V b p) ! s) \<noteq> k" "res = kKeyMismatch" "V' = upd_lock b p page_unlock ?V1"
    | (hit) "\<not> free_slots (page_at V b p) ! s" "\<not> IS_LOCKED (version_lock (page_at V b p))"
        "fst (page_data (page_at V b p) ! s) = k" "res = kApplied" "V' = upd_lock b p page_unlock ?V2"
    using t l e1(2) by (auto simp: try_at_def page_lock_total Let_def split: if_splits)
  note outcome = this
  show "res = kLockBusy \<longleftrightarrow> \<not> free_slots (page_at V b p) ! s \<and> IS_LOCKED (version_lock (page_at V b p))"
    "res = kLockBusy \<Longrightarrow> V' = V" "res = kKeyMismatch \<Longrightarrow> \<nexists>v. records cfg V (b, p, s) = Some (k, v)"
    by (rule outcome; simp add: live; auto)+
  have lk: "IS_LOCKED ?w" "used_word ?w" if "\<not> IS_LOCKED (version_lock (page_at V b p))"
    using that u lock_locks used_locked [of "version_lock (page_at V b p)" ?w] by (auto simp: page_lock_total)
  show "update_effect cfg k f (b, p, s) V res V'"
  proof (rule outcome)
    assume A: "\<not> free_slots (page_at V b p) ! s" "\<not> IS_LOCKED (version_lock (page_at V b p))"
      "fst (page_data (page_at V b p) ! s) \<noteq> k" "res = kKeyMismatch" "V' = upd_lock b p page_unlock ?V1"
    have "records cfg V' = records cfg V"
      using A lock_effect(3) [OF e1(1,3), of page_unlock] lock_effect(3) [OF sh r, of "\<lambda>_. ?w"] e1(2) lk u by simp
    moreover have "writable V' b' p'" if "writable V b' p'" for b' p'
      unfolding A(5) using lock_unlock_writable [OF sh r e1(1,3) _ lk(1) [OF A(2)] that] by simp
    moreover have "used_word (version_lock (page_at V' b' p'))" if "used_word (version_lock (page_at V b' p'))" for b' p'
      unfolding A(5) using that lock_effect(2) [OF e1(1,3)] lock_effect(2) [OF sh r] by simp
    ultimately show ?thesis using A lock_effect(1) [OF e1(1,3)] by (simp add: update_effect_def)
  next
    assume A: "\<not> free_slots (page_at V b p) ! s" "\<not> IS_LOCKED (version_lock (page_at V b p))"
      "fst (page_data (page_at V b p) ! s) = k" "res = kApplied" "V' = upd_lock b p page_unlock ?V2"
    have e2: "store_shape cfg ?V2" "records cfg ?V2 = (records cfg ?V1)((b, p, s) \<mapsto> ?g (page_at ?V1 b p))"
      "version_lock (page_at ?V2 b' p') = version_lock (page_at ?V1 b' p')" for b' p'
      using set_data_effect [OF e1(1,3) s _ _ refl, of ?g] e1(2) lk A(1,2) by simp_all
    have r2: "in_range cfg ?V2 b p" using r by simp
    have "records cfg V' = records cfg ?V2"
      unfolding A(5) by (rule lock_effect(3) [OF e2(1) r2]) (use e1(2) e2(3) lk A(2) in simp)
    also have "\<dots> = (records cfg V)((b, p, s) \<mapsto> (k, f (snd (page_data (page_at V b p) ! s))))"
      using e2(2) lock_effect(3) [OF sh r, of "\<lambda>_. ?w"] e1(2) lk A(2) u by simp
    finally have "\<exists>v. records cfg V (b, p, s) = Some (k, v) \<and> records cfg V' = (records cfg V)((b, p, s) \<mapsto> (k, f v))"
      using A(1,3) live by (intro exI [of _ "snd (page_data (page_at V b p) ! s)"]) (auto simp: prod_eq_iff)
    moreover have "writable V' b' p'" if "writable V b' p'" for b' p'
      unfolding A(5) by (rule lock_unlock_writable [OF sh r e2(1) r2 e2(3) lk(1) [OF A(2)] that])
    moreover have "used_word (version_lock (page_at V' b' p'))" if "used_word (version_lock (page_at V b' p'))" for b' p'
      unfolding A(5) using that e2(3) [of b' p'] lock_effect(2) [OF e2(1) r2] lock_effect(2) [OF sh r] by simp
    ultimately show ?thesis using A lock_effect(1) [OF e2(1) r2] by (simp add: update_effect_def)
  qed (use sh in \<open>auto simp: update_effect_def\<close>)
qed

lemma update_effect_same:
  "update_effect cfg k f x V1 r V2 \<Longrightarrow> update_effect cfg k f y V r' V1 \<Longrightarrow> r' \<noteq> kApplied \<Longrightarrow> update_effect cfg k f x V r V2"
  by (auto simp: update_effect_def)

lemma update_applied:
  "update_effect cfg k f x V kApplied V' \<Longrightarrow> \<exists>x v. records cfg V x = Some (k, v) \<and> records cfg V' = (records cfg V)(x \<mapsto> (k, f v))"
  unfolding update_effect_def by (simp only: simp_thms if_True) blast

text \<open>The retry after a repair never finds the lock busy.\<close>

lemma try_until_effect:
  assumes sh: "store_shape cfg V" and pi: "points_into cfg V off" and nt: "\<not> is_tombstone off"
    and t: "try_until k f off V = (res, V')"
  shows "update_effect cfg k f (locate off) V res V'" and "res \<noteq> kLockBusy"
    and "res = kKeyMismatch \<Longrightarrow> \<nexists>v. records cfg V (locate off) = Some (k, v)"
proof -
  obtain b p s where l: "locate off = (b, p, s)" by (cases "locate off")
  have r: "in_range cfg V b p" "s < num_slots cfg" "used_word (version_lock (page_at V b p))"
    using pi nt l by (auto simp: points_into_def)
  obtain r1 V1 where t1: "try_at k f off V = (r1, V1)" by (cases "try_at k f off V")
  note E1 = try_at_effect [OF sh r l t1]
  have "update_effect cfg k f (b, p, s) V res V' \<and> res \<noteq> kLockBusy
    \<and> (res = kKeyMismatch \<longrightarrow> (\<nexists>v. records cfg V (b, p, s) = Some (k, v)))"
  proof (cases "r1 = kLockBusy")
    case False
    then have "res = r1" "V' = V1" using t t1 by (auto simp: try_until_def split: TriState.splits)
    then show ?thesis using E1 False by auto
  next
    case True
    let ?h = "\<lambda>w. snd (try_repair_stale_lock 1 (replicate kLockIntentSlots 0) w)"
    let ?V = "upd_lock b p ?h V"
    have busy: "IS_LOCKED (version_lock (page_at V b p))" and V1: "V1 = V" using E1(2,3) True by auto
    have h: "?h (version_lock (page_at V b p)) = version_lock (page_at V b p) AND UNLOCKED_BIT"
      using nobody_registered busy by (simp add: try_repair_stale_lock_def cas_word_def)
    note e = lock_effect [OF sh r(1), of ?h]
    have un: "\<not> IS_LOCKED (version_lock (page_at V b p) AND UNLOCKED_BIT)"
      by (simp add: locked_bit bit_and_iff mask_bits)
    have same: "records cfg ?V = records cfg V" using e(3) h r(3) by simp
    have wr: "writable ?V b' p'" if "writable V b' p'" for b' p' using that e(2) h un r(3) by (auto simp: writable_def)
    have t2: "try_at k f off ?V = (res, V')"
      using t t1 True V1 l by (simp add: try_until_def hiom_repair_stale_lock_at_def)
    have r2: "in_range cfg ?V b p" "used_word (version_lock (page_at ?V b p))" using r e(2) h by simp_all
    note E2 = try_at_effect [OF e(1) r2(1) r(2) r2(2) l t2]
    have "used_word (version_lock (page_at ?V b' p'))" if "used_word (version_lock (page_at V b' p'))" for b' p' using that e(2) h by auto
    then have "update_effect cfg k f (b, p, s) V kKeyMismatch ?V" using e(1) same wr by (simp add: update_effect_def)
    then have "update_effect cfg k f (b, p, s) V res V'" using update_effect_same [OF E2(1)] by simp
    moreover have "res \<noteq> kLockBusy" using E2(2) e(2) h un by simp
    ultimately show ?thesis using E2(4) same by simp
  qed
  then show "update_effect cfg k f (locate off) V res V'" "res \<noteq> kLockBusy"
    "res = kKeyMismatch \<Longrightarrow> \<nexists>v. records cfg V (locate off) = Some (k, v)"
    using l by auto
qed

lemma update_owned_hot:
  assumes "V0 = V\<lparr>hiom_map_skipped := hiom_map_skipped V + 1\<rparr>"
    "(if is_tombstone (hot V0 k) then (kKeyMismatch, V0) else try_until k f (hot V0 k) V0) = (r, V1)"
  shows "update_owned hot resolver k f V =
    (if r = kApplied then (True, V1)
     else if is_tombstone (resolver V1 k) then (False, V1)
     else case try_until k f (resolver V1 k) V1 of (r', V2) \<Rightarrow> (r' = kApplied, V2))"
  unfolding update_owned_def Let_def assms(1) [symmetric] assms(2) by simp

lemma update_effect_inv:
  assumes "sys_inv cfg V Cs" "update_effect cfg k f x V r V'"
  shows "sys_inv cfg V' Cs"
proof -
  have fewer: "records cfg V' y = None" if "records cfg V y = None" for y
    using assms(2) that by (auto simp: update_effect_def split: if_splits)
  have "store_inv cfg V'" using assms fewer
    by (intro store_inv_fewer [of cfg V V']) (auto simp: update_effect_def sys_inv_def)
  moreover have "client_ok cfg V' C" if "C \<in> set Cs" for C
    using assms fewer that by (intro client_fewer [of cfg V C V']) (auto simp: update_effect_def sys_inv_def)
  ultimately show ?thesis using assms(1) by (simp add: sys_inv_def)
qed

text \<open>The resolvers may look at the store, but report only offsets into initialised pages of any store with the
  records of \<open>V\<close>.\<close>

definition resolver_ok :: "'k VConfig \<Rightarrow> ('k, 'v) Viper \<Rightarrow> (('k, 'v) Viper \<Rightarrow> 'k \<Rightarrow> u64) \<Rightarrow> bool" where
  "resolver_ok cfg V resolver \<longleftrightarrow>
    (\<forall>V' k. length (v_blocks V') = length (v_blocks V) \<and> records cfg V' = records cfg V \<longrightarrow> points_into cfg V' (resolver V' k))"

text \<open>C32. Updating in place when HiOM owns the index. Whatever the two resolvers report, an update that
  returns true has applied the function to exactly one live record, which has the given key, and one
  that returns false has changed no record and the store holds no record of the key at the place the
  resolver last reported. Stale locks on the way are repaired; the invariant of the store and of all
  clients is kept.\<close>

theorem viper_update_correct:
  assumes inv: "sys_inv cfg V Cs" and hot: "resolver_ok cfg V hot" and res: "resolver_ok cfg V resolver"
    and up: "update_owned hot resolver k f V = (ok, V')"
  shows "sys_inv cfg V' Cs \<and>
    (if ok then \<exists>x v. records cfg V x = Some (k, v) \<and> records cfg V' = (records cfg V)(x \<mapsto> (k, f v))
     else records cfg V' = records cfg V
       \<and> (\<exists>V1. records cfg V1 = records cfg V
            \<and> (is_tombstone (resolver V1 k) \<or> (\<nexists>v. records cfg V (locate (resolver V1 k)) = Some (k, v)))))"
proof -
  define V0 where "V0 = V\<lparr>hiom_map_skipped := hiom_map_skipped V + 1\<rparr>"
  have b0: "v_blocks V0 = v_blocks V" by (simp add: V0_def)
  note B = same_blocks [OF b0]
  have inv0: "sys_inv cfg V0 Cs" using inv B b0 by (simp add: sys_inv_def store_inv_def client_ok_def V0_def)
  have sh0: "store_shape cfg V0" using inv0 by (simp add: sys_inv_def store_inv_def)
  obtain r V1 where t1: "(if is_tombstone (hot V0 k) then (kKeyMismatch, V0) else try_until k f (hot V0 k) V0) = (r, V1)"
    by fastforce
  note U = update_owned_hot [where hot = hot and resolver = resolver, OF V0_def t1]
  have E1: "update_effect cfg k f (locate (hot V0 k)) V0 r V1"
  proof (cases "is_tombstone (hot V0 k)")
    case True then show ?thesis using t1 sh0 by (auto simp: update_effect_def)
  next
    case False
    moreover have "points_into cfg V0 (hot V0 k)" using hot B b0 by (simp add: resolver_ok_def)
    ultimately show ?thesis using t1 try_until_effect(1) [OF sh0] by auto
  qed
  have r0: "records cfg V0 = records cfg V" using B by simp
  show ?thesis
  proof (cases "r = kApplied")
    case True
    then have "ok" "V' = V1" using up U by auto
    then show ?thesis using update_applied [of cfg k f _ V0 V1] E1 True update_effect_inv [OF inv0 E1] r0 by simp
  next
    case False
    have inv1: "sys_inv cfg V1 Cs" by (rule update_effect_inv [OF inv0 E1])
    have r1: "records cfg V1 = records cfg V" "length (v_blocks V1) = length (v_blocks V)" "store_shape cfg V1"
      using E1 False r0 b0 by (auto simp: update_effect_def)
    show ?thesis
    proof (cases "is_tombstone (resolver V1 k)")
      case True
      then have "\<not> ok" "V' = V1" using up U False by auto
      then show ?thesis using inv1 r1 True by auto
    next
      case live: False
      obtain r' V2 where t2: "try_until k f (resolver V1 k) V1 = (r', V2)" by fastforce
      have "points_into cfg V1 (resolver V1 k)" using res r1 by (simp add: resolver_ok_def)
      note E2 = try_until_effect [OF r1(3) this live t2]
      have "ok \<longleftrightarrow> r' = kApplied" "V' = V2" using up U False live t2 by auto
      then show ?thesis using E2 update_applied [of cfg k f _ V1 V2] update_effect_inv [OF inv1 E2(1)] r1(1)
        by (cases r') (simp_all, auto simp: update_effect_def)
    qed
  qed
qed

section \<open>A store with one client\<close>

text \<open>Two blocks of one page with two slots; the client owns block 0, whose first slot holds key 5.\<close>

definition small_cfg :: "u64 VConfig" where
  "small_cfg = \<lparr>num_pages = 1, num_slots = 2, traits = word_keys, enable_reclamation = False, map_rounds = 1\<rparr>"

definition small_store :: "(u64, nat) Viper" where
  "small_store = \<lparr>v_blocks = [[\<lparr>version_lock = 192, free_slots = [False, True], page_data = [(5, 50), (0, 0)]\<rparr>],
                               [\<lparr>version_lock = 0, free_slots = [False, False], page_data = [(0, 0), (0, 0)]\<rparr>]],
     current_block_page = (1, 0), num_used_blocks = 1, current_size = 1, reclaimable_ops = 0,
     offset_map = cceh_new 1, hiom_owns_index = True, hiom_map_skipped = 0\<rparr>"

definition small_client :: VClient where
  "small_client = new_client\<lparr>v_block := Some 0\<rparr>"

definition small_resolver :: "(u64, nat) Viper \<Rightarrow> u64 \<Rightarrow> u64" where
  "small_resolver V k = (if k = 5 then make_offset 0 0 0 else Tombstone)"

lemma small_records: "records small_cfg small_store x = (if x = (0, 0, 0) then Some (5, 50) else None)"
  by (cases x) (auto simp: records_def small_cfg_def small_store_def page_at_def used_word_bit less_Suc_eq numeral_2_eq_2 nth_Cons')

lemma small_inv: "sys_inv small_cfg small_store [small_client]"
proof -
  have "store_shape small_cfg small_store"
    by (auto simp: store_shape_def page_shape_def small_cfg_def small_store_def page_at_def less_Suc_eq numeral_2_eq_2)
  then have "store_inv small_cfg small_store"
    by (simp add: store_inv_def small_records) (simp add: small_store_def small_cfg_def)
  moreover have "client_ok small_cfg small_store small_client"
    by (simp add: client_ok_def small_records)
      (simp add: small_client_def new_client_def small_store_def small_cfg_def in_range_def writable_def page_at_def used_word_bit locked_bit)
  ultimately show ?thesis by (simp add: sys_inv_def)
qed

lemma small_live:
  assumes "records small_cfg V (0, 0, 0) \<noteq> None"
  shows "points_into small_cfg V (small_resolver V' k)"
proof -
  have l: "locate (make_offset 0 0 0) = (0, 0, 0)" by (rule locate_make) simp_all
  show ?thesis using assms l
    by (auto simp: small_resolver_def points_into_def records_def in_range_def is_tombstone_def Tombstone_def split: if_splits)
qed

lemma small_resolver_ok: "resolver_ok small_cfg small_store small_resolver"
  unfolding resolver_ok_def by (auto intro!: small_live simp: small_records)

lemma small_res: "\<forall>V'. extends small_cfg small_store V' \<longrightarrow> points_into small_cfg V' (small_resolver V' k)"
  unfolding extends_def by (auto intro!: small_live simp: small_records)

theorem viper_put_correct_witness:
  "\<exists>is_new V' C'. put 2 small_cfg (Some small_resolver) None 0 5 51 True False small_store small_client = Some (is_new, V', C')
     \<and> put_effect small_cfg small_resolver 5 51 small_store is_new V' C'"
proof -
  have "cfg_ok small_cfg" "hiom_owns_index small_store" "fst (current_block_page small_store) < length (v_blocks small_store)"
    by (simp_all add: cfg_ok_def small_cfg_def small_store_def)
  then show ?thesis
    using viper_put_correct [where i = 0 and rnd = 0 and k = 5 and v = 51 and resolver = small_resolver, OF _ small_inv] small_res
    by fastforce
qed

theorem viper_remove_correct_witness:
  "\<exists>V' C'. remove small_cfg (Some small_resolver) 5 small_store small_client = Some (True, V', C') \<and> records small_cfg V' = (\<lambda>_. None)"
proof -
  have "locate (make_offset 0 0 0) = (0, 0, 0)" by (rule locate_make) simp_all
  moreover have "\<not> is_tombstone (make_offset 0 0 0)" by (simp add: make_offset_def is_tombstone_def KeyValueOffset_def INVALID_OFFSET_def)
  moreover have "hiom_owns_index small_store" by (simp add: small_store_def)
  ultimately show ?thesis
    using viper_remove_correct [where i = 0 and k = 5 and resolver = small_resolver, OF small_inv _ _ small_res]
    by (fastforce simp: small_resolver_def small_records fun_eq_iff)
qed

theorem viper_update_correct_witness:
  "\<exists>ok V'. update_owned small_resolver small_resolver 5 (\<lambda>v. v + 1) small_store = (ok, V') \<and> sys_inv small_cfg V' [small_client]"
proof -
  obtain ok V' where "update_owned small_resolver small_resolver 5 (\<lambda>v. v + 1) small_store = (ok, V')" by fastforce
  then show ?thesis
    using viper_update_correct [where k = 5 and f = "\<lambda>v. v + 1", OF small_inv small_resolver_ok small_resolver_ok] by blast
qed

end
