(* ===== verification/Viper_Recovery.thy ===== *)
theory Viper_Recovery
  imports Viper_Store_Props
begin

text \<open>
  Scans over the record store: what the visit of a block range delivers, how the recovery threads
  partition the used blocks, and the ownership mark of a block, which is lost when its client wraps to page 0.
\<close>

section \<open>Visiting records\<close>

lemma visit_page_exact:
  assumes "b < length (v_blocks V)" "p < num_pages cfg"
  shows "x \<in> set (visit_page cfg V b p) \<longleftrightarrow> (\<exists>k v s. x = (k, v, make_offset b p s) \<and> records cfg V (b, p, s) = Some (k, v))"
    (is "?l \<longleftrightarrow> ?r")
proof
  let ?d = "page_data (page_at V b p)"
  assume ?l
  then obtain s where "records cfg V (b, p, s) = Some (?d ! s)" "x = (fst (?d ! s), snd (?d ! s), make_offset b p s)"
    using assms by (auto simp: visit_page_def Let_def records_def split: if_splits)
  then show ?r by (intro exI [of _ "fst (?d ! s)"] exI [of _ "snd (?d ! s)"] exI [of _ s]) simp
next
  assume ?r
  then show ?l using assms by (force simp: visit_page_def Let_def records_def split: if_splits)
qed

lemma visit_records_exact:
  "x \<in> set (hiom_visit_records cfg lo hi V) \<longleftrightarrow>
    (\<exists>k v b p s. x = (k, v, make_offset b p s) \<and> lo \<le> b \<and> b < hi \<and> records cfg V (b, p, s) = Some (k, v))" (is "?l \<longleftrightarrow> ?r")
proof
  assume ?l
  then obtain b p where "lo \<le> b" "b < hi" "b < length (v_blocks V)" "p < num_pages cfg" "x \<in> set (visit_page cfg V b p)"
    by (auto simp: hiom_visit_records_def)
  then show ?r using visit_page_exact [of b V p cfg x] by blast
next
  assume ?r
  then obtain k v b p s where x: "x = (k, v, make_offset b p s)" "lo \<le> b" "b < hi" "records cfg V (b, p, s) = Some (k, v)" by blast
  then have r: "b < length (v_blocks V)" "p < num_pages cfg" by (auto simp: records_def split: if_splits)
  have "x \<in> set (visit_page cfg V b p)" using r x visit_page_exact [of b V p cfg x] by blast
  then have v: "x \<in> set (concat (map (visit_page cfg V b) [0..<num_pages cfg]))" using r by auto
  have b: "b \<in> set [lo..<min hi (length (v_blocks V))]" using x r by simp
  show ?l unfolding hiom_visit_records_def set_concat [of "map _ [lo..<_]"] set_map
    by (rule UN_I, rule imageI, rule b, rule v)
qed

text \<open>Consecutive ranges of equal width, cut off at the end, tile an interval.\<close>

lemma upt_tiles:
  "concat (map (\<lambda>t. [s + t * per..<min (min (s + t * per + per) used) len]) [0..<n]) = [s..<min (min (s + n * per) used) len]"
proof (induction n)
  case (Suc n)
  have "[s..<min (min (s + n * per) used) len] @ [s + n * per..<min (min (s + n * per + per) used) len] = [s..<min (min (s + Suc n * per) used) len]"
  proof (cases "s + n * per \<le> min used len")
    case True
    then have e: "min (min (s + n * per) used) len = s + n * per" by simp
    have "s + n * per \<le> min (min (s + n * per + per) used) len" using True by simp
    then have "[s..<s + n * per] @ [s + n * per..<min (min (s + n * per + per) used) len] = [s..<min (min (s + n * per + per) used) len]"
      using upt_add_eq_append [of s "s + n * per" "min (min (s + n * per + per) used) len - (s + n * per)"] by simp
    then show ?thesis unfolding e by (simp add: ac_simps)
  next
    case False
    then have "min (min (s + n * per + per) used) len \<le> s + n * per" "min (min (s + n * per) used) len = min used len"
      "min (min (s + Suc n * per) used) len = min used len" by auto
    then show ?thesis by simp
  qed
  then show ?case using Suc by simp
qed simp

lemma visit_tiles:
  assumes "used \<le> s + n * per"
  shows "concat (map (\<lambda>t. hiom_visit_records cfg (s + t * per) (min (s + t * per + per) used) V) [0..<n]) = hiom_visit_records cfg s used V"
proof -
  let ?g = "\<lambda>bn. concat (map (visit_page cfg V bn) [0..<num_pages cfg])"
  have "concat (map (\<lambda>t. concat (map ?g (h t))) ts) = concat (map ?g (concat (map h ts)))" for h and ts :: "nat list"
    by (induction ts) simp_all
  from this [of "\<lambda>t. [s + t * per..<min (min (s + t * per + per) used) (length (v_blocks V))]" "[0..<n]"]
  show ?thesis unfolding upt_tiles using assms by (simp add: hiom_visit_records_def)
qed

lemma recover_range_visit:
  assumes "hi \<le> length (v_blocks V) \<or> hi \<le> lo"
  shows "recover_range cfg V (lo, hi) = Some (hiom_visit_records cfg lo hi V)"
proof (cases "hi \<le> lo")
  case False
  then have "min hi (length (v_blocks V)) = hi" using assms by simp
  then show ?thesis using False assms by (auto simp: recover_range_def hiom_visit_records_def)
qed (simp add: recover_range_def hiom_visit_records_def)

lemma those_Some: "(\<And>x. x \<in> set xs \<Longrightarrow> f x = Some (g x)) \<Longrightarrow> those (map f xs) = Some (map g xs)"
  by (induction xs) auto

lemma recover_ranges_visit:
  assumes "recovery_ranges used threads = Some rs" "used \<le> length (v_blocks V)"
  shows "those (map (recover_range cfg V) rs) = Some (map (\<lambda>(lo, hi). hiom_visit_records cfg lo hi V) rs)"
proof (rule those_Some)
  fix x assume "x \<in> set rs"
  moreover obtain lo hi where "x = (lo, hi)" by (cases x)
  ultimately have "hi \<le> used" "x = (lo, hi)" using assms(1) by (auto simp: recovery_ranges_def Let_def split: if_splits)
  then show "recover_range cfg V x = Some (case x of (lo, hi) \<Rightarrow> hiom_visit_records cfg lo hi V)" using assms(2) by (simp add: recover_range_visit)
qed

text \<open>C33. Recovery misses nothing. For a non-empty pool and any number of recovery threads, the block
  ranges of the threads, one after the other, visit the used blocks in order, each once, and a scan of
  the used blocks delivers exactly the live records of the store, each with the offset of its slot:
  the durable high-water mark hides no record. For an empty pool no range is computed, because the
  number of blocks is divided by a thread count of zero. As long as the high-water mark is within the
  block table, \<open>recover_database\<close> inserts exactly these records.\<close>

theorem recovery_visits_live_records:
  assumes "store_inv cfg V" "0 < threads"
  shows "(case recovery_ranges (num_used_blocks V) threads of
      None \<Rightarrow> num_used_blocks V = 0
    | Some rs \<Rightarrow> concat (map (\<lambda>(lo, hi). hiom_visit_records cfg lo hi V) rs) = hiom_visit_records cfg 0 (num_used_blocks V) V
        \<and> (num_used_blocks V \<le> length (v_blocks V) \<longrightarrow>
           recover_database cfg threads V = recover_records cfg (hiom_visit_records cfg 0 (num_used_blocks V) V) V))
    \<and> set (hiom_visit_records cfg 0 (num_used_blocks V) V) =
        {(k, v, make_offset b p s) | k v b p s. records cfg V (b, p, s) = Some (k, v)}"
proof
  let ?used = "num_used_blocks V" and ?n = "min (num_used_blocks V) threads"
  have tiles: "case recovery_ranges ?used threads of None \<Rightarrow> ?used = 0
    | Some rs \<Rightarrow> concat (map (\<lambda>(lo, hi). hiom_visit_records cfg lo hi V) rs) = hiom_visit_records cfg 0 ?used V"
  proof (cases "?n = 0")
    case True then show ?thesis using assms(2) by (simp add: recovery_ranges_def min_def split: if_splits)
  next
    case False
    have "?used \<le> ?n * (?used div ?n + 1)"
      using False mult_div_mod_eq [of ?n ?used] mod_less_divisor [of ?n ?used] by (simp only: distrib_left mult_1_right) linarith
    then have "?used \<le> 0 + ?n * (?used div ?n + 1)" by simp
    from visit_tiles [OF this] show ?thesis using False by (simp add: recovery_ranges_def Let_def comp_def)
  qed
  then show "case recovery_ranges ?used threads of None \<Rightarrow> ?used = 0
    | Some rs \<Rightarrow> concat (map (\<lambda>(lo, hi). hiom_visit_records cfg lo hi V) rs) = hiom_visit_records cfg 0 ?used V
        \<and> (?used \<le> length (v_blocks V) \<longrightarrow> recover_database cfg threads V = recover_records cfg (hiom_visit_records cfg 0 ?used V) V)"
    using recover_ranges_visit [of ?used threads _ V cfg] by (auto simp: recover_database_def split: option.splits)
  show "set (hiom_visit_records cfg 0 ?used V) = {(k, v, make_offset b p s) | k v b p s. records cfg V (b, p, s) = Some (k, v)}"
    proof (intro set_eqI)
    fix x
    show "x \<in> set (hiom_visit_records cfg 0 ?used V) \<longleftrightarrow> x \<in> {(k, v, make_offset b p s) | k v b p s. records cfg V (b, p, s) = Some (k, v)}"
      using store_inv_used [OF assms(1)] visit_records_exact [of x cfg 0 ?used V] by fastforce
  qed
qed

theorem recovery_visits_live_records_witness:
  "set (hiom_visit_records small_cfg 0 (num_used_blocks small_store) small_store) =
    {(k, v, make_offset b p s) | k v b p s. records small_cfg small_store (b, p, s) = Some (k, v)}"
  using recovery_visits_live_records [of small_cfg small_store 36] small_inv by (simp add: sys_inv_def)

section \<open>The ownership mark of a block\<close>

text \<open>The mark that keeps the reclaimer away from a block in use is the client bit in the lock word
  of its page 0. When a client moves on to page 0 of its block, initialising that page overwrites
  the mark, so the block counts as not owned although the client goes on writing into it.\<close>

theorem page_wrap_drops_ownership:
  assumes "store_shape cfg V" "client_ok cfg V C" "num_v_pages_processed C + 1 < num_pages cfg"
    and "v_page_number C + 1 = num_pages cfg"
  shows "\<exists>V' C'. update_access_information cfg reuse rnd V C = Some (V', C') \<and> v_block C' = Some (v_block_number C)
    \<and> v_page_number C' = 0 \<and> \<not> is_owned (v_blocks V' ! v_block_number C)"
proof -
  have r: "in_range cfg V (v_block_number C) 0" "v_block C = Some (v_block_number C)"
    using assms(2,3) by (auto simp: client_ok_def in_range_def)
  have "page_at (upd_page (v_block_number C) 0 (page_init (num_slots cfg)) V) (v_block_number C) 0 =
      page_init (num_slots cfg) (page_at V (v_block_number C) 0)"
    using page_at_upd [OF assms(1) r(1)] by simp
  then have "\<not> is_owned (v_blocks (upd_page (v_block_number C) 0 (page_init (num_slots cfg)) V) ! v_block_number C)"
    by (simp add: is_owned_def page_at_def page_init_def is_bit_set_def USED_BIT_def CLIENT_BIT_def)
  then show ?thesis using assms(3,4) r(2) by (simp add: update_access_information_def Let_def)
qed

text \<open>A client on the last of two pages, with one page of its block left.\<close>

theorem page_wrap_drops_ownership_witness:
  "\<exists>V' C'. update_access_information (small_cfg\<lparr>num_pages := 2\<rparr>) None 0
       (small_store\<lparr>v_blocks := [[\<lparr>version_lock = 128, free_slots = [True, True], page_data = [(0, 0), (0, 0)]\<rparr>,
                                  \<lparr>version_lock = 64, free_slots = [False, False], page_data = [(5, 50), (6, 60)]\<rparr>]]\<rparr>)
       (small_client\<lparr>v_page_number := 1\<rparr>) = Some (V', C') \<and> \<not> is_owned (v_blocks V' ! 0)"
proof -
  let ?cfg = "small_cfg\<lparr>num_pages := 2\<rparr>" and ?C = "small_client\<lparr>v_page_number := 1\<rparr>"
  let ?V = "small_store\<lparr>v_blocks := [[\<lparr>version_lock = 128, free_slots = [True, True], page_data = [(0, 0), (0, 0)]\<rparr>,
                                  \<lparr>version_lock = 64, free_slots = [False, False], page_data = [(5, 50), (6, 60)]\<rparr>]]\<rparr>"
  have "store_shape ?cfg ?V"
    by (auto simp: store_shape_def page_shape_def small_cfg_def page_at_def less_Suc_eq numeral_2_eq_2)
  moreover have "client_ok ?cfg ?V ?C"
    by (auto simp: client_ok_def small_client_def new_client_def small_store_def small_cfg_def in_range_def writable_def page_at_def
        used_word_bit locked_bit records_def numeral_2_eq_2 less_Suc_eq)
  moreover have "num_v_pages_processed ?C + 1 < num_pages ?cfg" "v_page_number ?C + 1 = num_pages ?cfg" "v_block_number ?C = 0"
    by (simp_all add: small_client_def new_client_def small_cfg_def)
  ultimately show ?thesis using page_wrap_drops_ownership [of ?cfg ?V ?C None 0] by fastforce
qed

end
