(* ===== verification/Viper_Pool.thy ===== *)
theory Viper_Pool
  imports Viper_Recovery
begin

text \<open>
  The pool behind the record store (viper.hpp): how the metadata page and the chunks of a DRAM, DAX or
  file pool are laid out, created, opened and extended, how the mapped chunks are cut into blocks, and
  which pages the two prefaulting schemes touch. What the operating system answers (does the file open,
  at which address is a chunk mapped) is a parameter; sizes and addresses are natural numbers. A pool
  in file mode is a directory with one data file per chunk, a DAX or DRAM pool one contiguous mapping.
\<close>

section \<open>Metadata, mappings, errors\<close>

record ViperFileMetadata =
  block_offset :: nat
  block_size :: nat
  alloc_size :: nat
  used_blocks :: nat
  num_allocated_blocks :: nat
  total_mapped_size :: nat

record ViperFileMapping =
  mapped_size :: nat
  start_addr :: nat

datatype pool_error = NonEmptyDirectory | IoError | NotChunked | PoolTooSmall | BadDatabase | NoMapping | BadAccess

text \<open>The answers of the operating system: whether the directory of a new file pool already has entries;
  opening, truncating and mapping the metadata file or the device; per data file opening and
  \<open>fallocate\<close>; the address of the one mapping of a device or DRAM pool and of each single chunk.\<close>

record PoolIO =
  io_dir_used :: bool
  io_meta_open :: bool
  io_meta_trunc :: bool
  io_meta_map :: bool
  io_data_open :: "nat \<Rightarrow> bool"
  io_data_alloc :: "nat \<Rightarrow> bool"
  io_base :: "nat option"
  io_home :: "nat \<Rightarrow> nat option"

section \<open>Creating and opening\<close>

text \<open>One mapping per chunk of a contiguous pool; the first one starts behind the metadata page.\<close>

definition contiguous_mappings :: "nat \<Rightarrow> nat \<Rightarrow> nat \<Rightarrow> nat \<Rightarrow> ViperFileMapping list" where
  "contiguous_mappings base off alloc n =
    \<lparr>mapped_size = alloc - off, start_addr = base + off\<rparr> #
    map (\<lambda>c. \<lparr>mapped_size = alloc, start_addr = base + c * alloc\<rparr>) [1..<n]"

definition contiguous_blocks :: "nat \<Rightarrow> nat \<Rightarrow> nat \<Rightarrow> nat \<Rightarrow> nat" where
  "contiguous_blocks off alloc bs n = (alloc - off) div bs + (n - 1) * (alloc div bs)"

definition new_metadata :: "nat \<Rightarrow> nat \<Rightarrow> nat \<Rightarrow> nat \<Rightarrow> ViperFileMetadata" where
  "new_metadata bs alloc blocks sz = \<lparr>block_offset = PAGE_SIZE, block_size = bs, alloc_size = alloc,
     used_blocks = 0, num_allocated_blocks = blocks, total_mapped_size = sz\<rparr>"

definition init_dram_pool :: "PoolIO \<Rightarrow> nat \<Rightarrow> nat \<Rightarrow> nat \<Rightarrow> pool_error + ViperFileMetadata \<times> ViperFileMapping list" where
  "init_dram_pool io fs_alignment pool_size bs =
    (let n = pool_size div fs_alignment
     in if n = 0 then Inl PoolTooSmall
        else case io_base io of
               None \<Rightarrow> Inl IoError
             | Some base \<Rightarrow>
                 (let md = new_metadata bs fs_alignment 0 pool_size
                  in Inr (md\<lparr>num_allocated_blocks := contiguous_blocks (block_offset md) fs_alignment bs n\<rparr>,
                          contiguous_mappings base (block_offset md) fs_alignment n)))"

text \<open>The result of mapping the metadata is compared with the null pointer only, so a failed mapping is
  dereferenced. A device without a database is treated as new.\<close>

definition init_devdax_pool :: "PoolIO \<Rightarrow> nat \<Rightarrow> ViperFileMetadata \<Rightarrow> nat \<Rightarrow> bool \<Rightarrow> nat \<Rightarrow>
    pool_error + ViperFileMetadata \<times> ViperFileMapping list" where
  "init_devdax_pool io dax_alignment stored pool_size is_new_pool bs =
    (if \<not> io_meta_open io then Inl IoError
     else if \<not> is_new_pool \<and> \<not> io_meta_map io then Inl BadAccess
     else
       let found = (\<not> is_new_pool \<and> num_allocated_blocks stored > 0 \<and> block_size stored > 0);
           sz = (if found then total_mapped_size stored else pool_size);
           alloc = (if found then alloc_size stored else dax_alignment);
           n = sz div alloc
       in if sz mod alloc \<noteq> 0 then Inl NotChunked
          else if n = 0 then Inl PoolTooSmall
          else case io_base io of
                 None \<Rightarrow> Inl IoError
               | Some base \<Rightarrow>
                   (let md = (if found then stored else new_metadata bs alloc 0 sz)
                    in Inr (md\<lparr>num_allocated_blocks := contiguous_blocks (block_offset md) alloc bs n\<rparr>,
                            contiguous_mappings base (block_offset md) alloc n)))"

fun map_data_files :: "PoolIO \<Rightarrow> nat \<Rightarrow> bool \<Rightarrow> nat list \<Rightarrow> pool_error + ViperFileMapping list" where
  "map_data_files io alloc is_new_pool [] = Inr []"
| "map_data_files io alloc is_new_pool (c # cs) =
    (if \<not> io_data_open io c then Inl IoError
     else if is_new_pool \<and> \<not> io_data_alloc io c then Inl IoError
     else case io_home io c of
            None \<Rightarrow> Inl IoError
          | Some a \<Rightarrow> (case map_data_files io alloc is_new_pool cs of
                        Inl e \<Rightarrow> Inl e
                      | Inr ms \<Rightarrow> Inr (\<lparr>mapped_size = alloc, start_addr = a\<rparr> # ms)))"

definition init_file_pool :: "PoolIO \<Rightarrow> nat \<Rightarrow> ViperFileMetadata \<Rightarrow> nat \<Rightarrow> bool \<Rightarrow> nat \<Rightarrow>
    pool_error + ViperFileMetadata \<times> ViperFileMapping list" where
  "init_file_pool io fs_alignment stored pool_size is_new_pool bs =
    (if is_new_pool \<and> io_dir_used io then Inl NonEmptyDirectory
     else if \<not> io_meta_open io then Inl IoError
     else if is_new_pool \<and> \<not> io_meta_trunc io then Inl IoError
     else if \<not> is_new_pool \<and> \<not> io_meta_map io then Inl IoError
     else if \<not> is_new_pool \<and> \<not> (num_allocated_blocks stored > 0 \<and> block_size stored > 0) then Inl BadDatabase
     else
       let sz = (if is_new_pool then pool_size else total_mapped_size stored);
           alloc = (if is_new_pool then fs_alignment else alloc_size stored);
           n = sz div alloc
       in if sz mod alloc \<noteq> 0 then Inl NotChunked
          else if n = 0 then Inl PoolTooSmall
          else case map_data_files io alloc is_new_pool [0..<n] of
                 Inl e \<Rightarrow> Inl e
               | Inr ms \<Rightarrow>
                   if is_new_pool \<and> \<not> io_meta_map io then Inl IoError
                   else Inr (if is_new_pool then new_metadata bs alloc (n * (alloc div bs)) sz else stored, ms))"

text \<open>\<open>init_pool\<close> chooses by the path (and the build); the constructor cuts the mappings into blocks.\<close>

datatype pool_kind = DramPool | DaxPool | FilePool

definition init_pool :: "pool_kind \<Rightarrow> PoolIO \<Rightarrow> nat \<Rightarrow> ViperFileMetadata \<Rightarrow> nat \<Rightarrow> bool \<Rightarrow> nat \<Rightarrow>
    pool_error + ViperFileMetadata \<times> ViperFileMapping list" where
  "init_pool kind io alignment stored pool_size is_new_pool bs =
    (case kind of
       DramPool \<Rightarrow> init_dram_pool io alignment pool_size bs
     | DaxPool \<Rightarrow> init_devdax_pool io alignment stored pool_size is_new_pool bs
     | FilePool \<Rightarrow> init_file_pool io alignment stored pool_size is_new_pool bs)"

record Pool =
  v_metadata :: ViperFileMetadata
  v_mappings :: "ViperFileMapping list"
  block_addrs :: "nat list"

definition mapping_blocks :: "nat \<Rightarrow> ViperFileMapping \<Rightarrow> nat list" where
  "mapping_blocks bs m = map (\<lambda>i. start_addr m + i * bs) [0..<mapped_size m div bs]"

definition pool_construct :: "nat \<Rightarrow> ViperFileMetadata \<times> ViperFileMapping list \<Rightarrow> pool_error + Pool" where
  "pool_construct bs = (\<lambda>(md, ms).
    if ms = [] then Inl NoMapping
    else Inr \<lparr>v_metadata = md, v_mappings = ms, block_addrs = concat (map (mapping_blocks bs) ms)\<rparr>)"

definition open_pool :: "pool_kind \<Rightarrow> PoolIO \<Rightarrow> nat \<Rightarrow> ViperFileMetadata \<Rightarrow> nat \<Rightarrow> bool \<Rightarrow> nat \<Rightarrow> pool_error + Pool" where
  "open_pool kind io alignment stored pool_size is_new_pool bs =
    (case init_pool kind io alignment stored pool_size is_new_pool bs of
       Inl e \<Rightarrow> Inl e | Inr r \<Rightarrow> pool_construct bs r)"

text \<open>\<open>trigger_resize\<close>: one more chunk is allocated, mapped, entered in the metadata and cut into blocks.\<close>

definition allocate_v_page_blocks :: "pool_kind \<Rightarrow> PoolIO \<Rightarrow> nat \<Rightarrow> Pool \<Rightarrow> pool_error + ViperFileMapping \<times> Pool" where
  "allocate_v_page_blocks kind io bs P =
    (let md = v_metadata P; alloc = alloc_size md; c = total_mapped_size md div alloc
     in if kind = FilePool \<and> \<not> (io_data_open io c \<and> io_data_alloc io c) then Inl IoError
        else case io_home io c of
               None \<Rightarrow> Inl IoError
             | Some a \<Rightarrow>
                 (let md' = md\<lparr>num_allocated_blocks := num_allocated_blocks md + alloc div bs,
                               total_mapped_size := total_mapped_size md + alloc\<rparr>;
                      m = \<lparr>mapped_size = alloc, start_addr = a\<rparr>
                  in Inr (m, P\<lparr>v_metadata := md', v_mappings := v_mappings P @ [m]\<rparr>)))"

definition trigger_resize :: "pool_kind \<Rightarrow> PoolIO \<Rightarrow> nat \<Rightarrow> Pool \<Rightarrow> pool_error + Pool" where
  "trigger_resize kind io bs P =
    (case allocate_v_page_blocks kind io bs P of
       Inl e \<Rightarrow> Inl e
     | Inr (m, P') \<Rightarrow> Inr (P'\<lparr>block_addrs := block_addrs P' @ mapping_blocks bs m\<rparr>))"

fun resizes :: "nat \<Rightarrow> pool_kind \<Rightarrow> PoolIO \<Rightarrow> nat \<Rightarrow> Pool \<Rightarrow> pool_error + Pool" where
  "resizes 0 kind io bs P = Inr P"
| "resizes (Suc r) kind io bs P =
    (case trigger_resize kind io bs P of Inl e \<Rightarrow> Inl e | Inr P' \<Rightarrow> resizes r kind io bs P')"

section \<open>Prefaulting new mappings\<close>

text \<open>How many bytes of a mapping \<open>add_v_page_blocks\<close> touches: nothing of space that is not new or that
  the background runway serves, else the whole mapping or what is left of the configured bound.\<close>

record PrefaultConfig =
  prefault_new_mappings :: bool
  prefault_bytes :: nat
  background_prefault :: bool

definition prefault_now :: "PrefaultConfig \<Rightarrow> bool \<Rightarrow> nat \<Rightarrow> nat \<Rightarrow> nat \<times> nat" where
  "prefault_now cfg is_new_space done mapped =
    (if prefault_new_mappings cfg \<and> \<not> background_prefault cfg \<and> is_new_space then
       if prefault_bytes cfg > 0 then
         let now = (if done \<ge> prefault_bytes cfg then 0 else min mapped (prefault_bytes cfg - done))
         in (now, done + now)
       else (mapped, done)
     else (0, done))"

text \<open>The pages thread \<open>t\<close> of \<open>nt\<close> touches.\<close>

function stripe :: "nat \<Rightarrow> nat \<Rightarrow> nat \<Rightarrow> nat list" where
  "stripe nt i pages = (if 0 < nt \<and> i < pages then i # stripe nt (i + nt) pages else [])"
  by pat_completeness auto
termination by (relation "measure (\<lambda>(nt, i, pages). pages - i)") auto

declare stripe.simps [simp del]

definition prefault_pages :: "nat \<Rightarrow> nat list" where
  "prefault_pages pages = concat (map (\<lambda>t. stripe 8 t pages) [0..<8])"

fun prefault_mappings :: "PrefaultConfig \<Rightarrow> bool \<Rightarrow> nat \<Rightarrow> ViperFileMapping list \<Rightarrow> nat list \<times> nat" where
  "prefault_mappings cfg is_new_space done [] = ([], done)"
| "prefault_mappings cfg is_new_space done (m # ms) =
    (case prefault_now cfg is_new_space done (mapped_size m) of (now, done') \<Rightarrow>
     case prefault_mappings cfg is_new_space done' ms of (as, done'') \<Rightarrow>
       (map (\<lambda>i. start_addr m + i * PAGE_SIZE) (prefault_pages (now div PAGE_SIZE)) @ as, done''))"

section \<open>The prefault runway\<close>

text \<open>Length of the run of adjacent blocks from position \<open>b\<close>.\<close>

function run_length :: "nat \<Rightarrow> nat list \<Rightarrow> nat \<Rightarrow> nat \<Rightarrow> nat \<Rightarrow> nat" where
  "run_length bs ptrs b hh run =
    (if b + run < hh \<and> ptrs ! (b + run) = ptrs ! b + run * bs then run_length bs ptrs b hh (run + 1) else run)"
  by pat_completeness auto
termination by (relation "measure (\<lambda>(bs, ptrs, b, hh, run). hh - (b + run))") auto

declare run_length.simps [simp del]

lemma run_length_ge: "run \<le> run_length bs ptrs b hh run"
proof (induction bs ptrs b hh run rule: run_length.induct)
  case (1 bs ptrs b hh run)
  show ?case
  proof (cases "b + run < hh \<and> ptrs ! (b + run) = ptrs ! b + run * bs")
    case True
    with 1 have "run + 1 \<le> run_length bs ptrs b hh (run + 1)" by simp
    then show ?thesis using True run_length.simps [of bs ptrs b hh run] by simp
  qed (simp add: run_length.simps)
qed

text \<open>\<open>populate_slice\<close>: the \<open>madvise\<close> calls, each a start address and a number of blocks.\<close>

function populate_slice :: "nat \<Rightarrow> nat list \<Rightarrow> nat \<Rightarrow> nat \<Rightarrow> (nat \<times> nat) list" where
  "populate_slice bs ptrs b hh =
    (if b < hh then let run = run_length bs ptrs b hh 1 in (ptrs ! b, run) # populate_slice bs ptrs (b + run) hh else [])"
  by pat_completeness auto
termination
proof (relation "measure (\<lambda>(bs, ptrs, b, hh). hh - b)")
  fix bs ptrs b hh run
  assume "b < hh" "run = run_length bs ptrs b hh 1"
  then show "((bs, ptrs, b + run, hh), bs, ptrs, b, hh) \<in> measure (\<lambda>(bs, ptrs, b, hh). hh - b)"
    using run_length_ge [of 1 bs ptrs b hh] by simp
qed simp

declare populate_slice.simps [simp del]

definition runway_slices :: "nat \<Rightarrow> nat \<Rightarrow> (nat \<times> nat) list" where
  "runway_slices nthreads n =
    (if nthreads = 1 \<or> n < nthreads then [(0, n)]
     else let per = (n + nthreads - 1) div nthreads
          in (0, min per n) #
             filter (\<lambda>(lo, hh). lo < hh)
               (map (\<lambda>t. let lo = min (t * per) n in (lo, min (lo + per) n)) [1..<nthreads]))"

text \<open>One round of \<open>prefault_runway\<close>: no work while the runway is long enough, else the calls and the new
  upper end.\<close>

definition runway_round :: "nat \<Rightarrow> nat \<Rightarrow> nat \<Rightarrow> nat list \<Rightarrow> nat \<Rightarrow> nat \<Rightarrow> ((nat \<times> nat) list \<times> nat) option" where
  "runway_round bs runway threads blocks cur hi =
    (let nthreads = max 1 threads; avail = length blocks;
         want = min (cur + runway) avail;
         lookahead = (if hi > cur then hi - cur else 0)
     in if hi \<ge> avail \<or> lookahead \<ge> runway div 2 then None
        else let n = want - hi; ptrs = map (\<lambda>i. blocks ! (hi + i)) [0..<n]
             in Some (concat (map (\<lambda>(lo, hh). populate_slice bs ptrs lo hh) (runway_slices nthreads n)), want))"

section \<open>Where a block lies in the pool\<close>

text \<open>The position of every block as chunk number and byte offset in the chunk, in the order of the
  block numbers. In a contiguous pool chunk 0 starts with the metadata page.\<close>

definition first_offset :: "pool_kind \<Rightarrow> nat" where
  "first_offset kind = (if kind = FilePool then 0 else PAGE_SIZE)"

definition chunk_layout :: "nat \<Rightarrow> nat \<Rightarrow> nat \<Rightarrow> nat \<Rightarrow> (nat \<times> nat) list" where
  "chunk_layout off alloc bs c =
    (let o0 = (if c = 0 then off else 0) in map (\<lambda>i. (c, o0 + i * bs)) [0..<(alloc - o0) div bs])"

definition pool_layout :: "nat \<Rightarrow> nat \<Rightarrow> nat \<Rightarrow> nat \<Rightarrow> (nat \<times> nat) list" where
  "pool_layout off alloc bs n = concat (map (chunk_layout off alloc bs) [0..<n])"

text \<open>The address of a chunk in the process that created or opened the pool with \<open>n\<close> chunks.\<close>

definition chunk_addr :: "pool_kind \<Rightarrow> PoolIO \<Rightarrow> nat \<Rightarrow> nat \<Rightarrow> nat \<Rightarrow> nat" where
  "chunk_addr kind io alloc n c =
    (if kind = FilePool \<or> n \<le> c then the (io_home io c) else the (io_base io) + c * alloc)"

definition placed :: "pool_kind \<Rightarrow> PoolIO \<Rightarrow> nat \<Rightarrow> nat \<Rightarrow> (nat \<times> nat) \<Rightarrow> nat" where
  "placed kind io alloc n = (\<lambda>(c, o0). chunk_addr kind io alloc n c + o0)"

lemma pool_layout_Suc: "pool_layout off alloc bs (Suc n) = pool_layout off alloc bs n @ chunk_layout off alloc bs n"
  by (simp add: pool_layout_def)

lemma length_pool_layout:
  "0 < n \<Longrightarrow> length (pool_layout off alloc bs n) = contiguous_blocks off alloc bs n"
proof (induction n)
  case (Suc n)
  show ?case
  proof (cases "n = 0")
    case False
    have "(n - 1) * (alloc div bs) + alloc div bs = n * (alloc div bs)" using False by (simp add: mult_eq_if)
    with False Suc show ?thesis
      by (simp add: pool_layout_Suc contiguous_blocks_def chunk_layout_def Let_def)
  qed (simp add: pool_layout_def contiguous_blocks_def chunk_layout_def Let_def)
qed simp

lemma chunk_layout_room:
  assumes "(c', x) \<in> set (chunk_layout off alloc bs c)" "off \<le> alloc" "0 < bs"
  shows "c' = c \<and> x + bs \<le> alloc"
proof -
  define o0 where "o0 = (if c = 0 then off else 0)"
  obtain i where i: "i < (alloc - o0) div bs" "c' = c" "x = o0 + i * bs"
    using assms(1) by (auto simp: chunk_layout_def Let_def o0_def [symmetric])
  have "(i + 1) * bs \<le> (alloc - o0) div bs * bs" by (rule mult_le_mono1) (use i(1) in simp)
  also have "\<dots> \<le> alloc - o0" by simp
  finally show ?thesis using i assms(2) by (auto simp: o0_def split: if_splits)
qed

definition apart :: "nat \<Rightarrow> nat \<times> nat \<Rightarrow> nat \<times> nat \<Rightarrow> bool" where
  "apart bs = (\<lambda>(c, x) (c', x'). c < c' \<or> c = c' \<and> x + bs \<le> x')"

lemma chunk_layout_apart: "sorted_wrt (apart bs) (chunk_layout off alloc bs c)"
proof -
  have "i * bs + bs \<le> j * bs" if "i < j" for i j
    using mult_le_mono1 [of "Suc i" j bs] that by simp
  then show ?thesis
    by (auto simp: chunk_layout_def Let_def sorted_wrt_map apart_def intro!: sorted_wrt_mono_rel [OF _ sorted_wrt_upt])
qed

lemma pool_layout_apart:
  assumes "off \<le> alloc" "0 < bs"
  shows "sorted_wrt (apart bs) (pool_layout off alloc bs n) \<and> (\<forall>(c, x) \<in> set (pool_layout off alloc bs n). c < n \<and> x + bs \<le> alloc)"
proof (induction n)
  case (Suc n)
  have "c' = n \<and> x + bs \<le> alloc" if "(c', x) \<in> set (chunk_layout off alloc bs n)" for c' x
    by (rule chunk_layout_room [OF that assms])
  with Suc chunk_layout_apart [of bs off alloc n] show ?case
    by (fastforce simp: pool_layout_Suc sorted_wrt_append apart_def)
qed (simp add: pool_layout_def)

lemma mapping_blocks_chunk:
  assumes "off' = (if c = 0 then off else 0)"
  shows "mapping_blocks bs \<lparr>mapped_size = alloc - off', start_addr = h + off'\<rparr> =
    map (\<lambda>(c', x). h + x) (chunk_layout off alloc bs c)"
  using assms by (simp add: mapping_blocks_def chunk_layout_def Let_def add.assoc)


text \<open>The state of a pool that was created or opened with \<open>n0\<close> chunks and has \<open>n\<close> now.\<close>

definition pool_ok :: "pool_kind \<Rightarrow> PoolIO \<Rightarrow> nat \<Rightarrow> nat \<Rightarrow> nat \<Rightarrow> nat \<Rightarrow> Pool \<Rightarrow> bool" where
  "pool_ok kind io alloc bs n0 n P \<longleftrightarrow>
     0 < n0 \<and> n0 \<le> n
     \<and> block_offset (v_metadata P) = PAGE_SIZE \<and> block_size (v_metadata P) = bs \<and> alloc_size (v_metadata P) = alloc
     \<and> total_mapped_size (v_metadata P) = n * alloc
     \<and> num_allocated_blocks (v_metadata P) = contiguous_blocks (first_offset kind) alloc bs n
     \<and> block_addrs P = map (placed kind io alloc n0) (pool_layout (first_offset kind) alloc bs n)"

lemma contiguous_placed:
  assumes "kind \<noteq> FilePool" "io_base io = Some base" "0 < m" "m \<le> n"
  shows "concat (map (mapping_blocks bs) (contiguous_mappings base off alloc m)) =
    map (placed kind io alloc n) (pool_layout off alloc bs m)"
  using assms(3,4)
proof (induction m)
  case (Suc m)
  have one: "mapping_blocks bs \<lparr>mapped_size = alloc - (if m = 0 then off else 0), start_addr = base + m * alloc + (if m = 0 then off else 0)\<rparr> =
      map (placed kind io alloc n) (chunk_layout off alloc bs m)"
    using Suc.prems assms(1,2) unfolding mapping_blocks_chunk [OF refl]
    by (auto simp: placed_def chunk_addr_def chunk_layout_def Let_def)
  show ?case
  proof (cases "m = 0")
    case True
    then show ?thesis using one by (simp add: contiguous_mappings_def pool_layout_def)
  next
    case False
    then show ?thesis using one Suc by (simp add: contiguous_mappings_def pool_layout_Suc)
  qed
qed simp

lemma data_files_placed:
  assumes "map_data_files io alloc is_new cs = Inr ms"
  shows "concat (map (mapping_blocks bs) ms) = concat (map (\<lambda>c. map (placed FilePool io alloc n) (chunk_layout 0 alloc bs c)) cs)"
  using assms
proof (induction cs arbitrary: ms)
  case (Cons c cs)
  then obtain a ms' where a: "io_home io c = Some a" "map_data_files io alloc is_new cs = Inr ms'"
    "ms = \<lparr>mapped_size = alloc, start_addr = a\<rparr> # ms'"
    by (auto split: if_splits option.splits sum.splits)
  have "mapping_blocks bs \<lparr>mapped_size = alloc, start_addr = a\<rparr> = map (placed FilePool io alloc n) (chunk_layout 0 alloc bs c)"
    using mapping_blocks_chunk [of 0 c 0 bs alloc a] a(1)
    by (auto simp: placed_def chunk_addr_def chunk_layout_def Let_def)
  then show ?case using Cons.IH [OF a(2)] a(3) by simp
qed simp

lemma contiguous_blocks_flat: "0 < n \<Longrightarrow> contiguous_blocks 0 alloc bs n = n * (alloc div bs)"
  by (cases n) (simp_all add: contiguous_blocks_def)

lemma create_pool_ok:
  assumes "kind \<noteq> DramPool" "0 < bs" "open_pool kind io alloc stored sz True bs = Inr P"
  shows "pool_ok kind io alloc bs (sz div alloc) (sz div alloc) P \<and> sz = sz div alloc * alloc"
proof (cases kind)
  case DaxPool
  then show ?thesis using assms(3) contiguous_placed [of kind io _ "sz div alloc" "sz div alloc" bs PAGE_SIZE alloc]
    by (auto simp: open_pool_def init_pool_def init_devdax_pool_def pool_construct_def Let_def pool_ok_def
        new_metadata_def first_offset_def split: if_splits option.splits)
next
  case FilePool
  then show ?thesis using assms(3) data_files_placed [of io alloc True "[0..<sz div alloc]" _ bs "sz div alloc"]
    by (auto simp: open_pool_def init_pool_def init_file_pool_def pool_construct_def Let_def pool_ok_def
        new_metadata_def first_offset_def contiguous_blocks_flat pool_layout_def map_concat comp_def split: if_splits sum.splits)
qed (use assms(1) in simp)

lemma reopen_pool_ok:
  assumes P: "pool_ok kind io alloc bs n0 n P" and "kind \<noteq> DramPool" "0 < bs" "0 < alloc"
    and Q: "open_pool kind io' al ((v_metadata P)\<lparr>used_blocks := u\<rparr>) 0 False bs = Inr Q"
  shows "pool_ok kind io' alloc bs n n Q \<and> v_metadata Q = (v_metadata P)\<lparr>used_blocks := u\<rparr>"
proof (cases kind)
  case DaxPool
  have n: "0 < n" "n * alloc div alloc = n" using P assms(4) by (auto simp: pool_ok_def)
  show ?thesis using Q P DaxPool n contiguous_placed [of kind io' _ n n bs PAGE_SIZE alloc]
    by (auto simp: open_pool_def init_pool_def init_devdax_pool_def pool_construct_def Let_def pool_ok_def
        new_metadata_def first_offset_def split: if_splits option.splits)
next
  case FilePool
  have n: "0 < n" "n * alloc div alloc = n" using P assms(4) by (auto simp: pool_ok_def)
  show ?thesis using Q P FilePool n data_files_placed [of io' alloc False "[0..<n]" _ bs n]
    by (auto simp: open_pool_def init_pool_def init_file_pool_def pool_construct_def Let_def pool_ok_def
        first_offset_def contiguous_blocks_flat pool_layout_def map_concat comp_def split: if_splits sum.splits)
qed (use assms(2) in simp)

lemma resize_pool_ok:
  assumes P: "pool_ok kind io alloc bs n0 n P" and "0 < alloc" and "trigger_resize kind io bs P = Inr P'"
  shows "pool_ok kind io alloc bs n0 (Suc n) P'"
proof -
  have n: "0 < n" "n * alloc div alloc = n" "n0 \<le> n" using P assms(2) by (auto simp: pool_ok_def)
  obtain a where a: "io_home io n = Some a" and P': "P' = P\<lparr>v_metadata := (v_metadata P)\<lparr>num_allocated_blocks :=
        num_allocated_blocks (v_metadata P) + alloc div bs, total_mapped_size := total_mapped_size (v_metadata P) + alloc\<rparr>,
      v_mappings := v_mappings P @ [\<lparr>mapped_size = alloc, start_addr = a\<rparr>],
      block_addrs := block_addrs P @ mapping_blocks bs \<lparr>mapped_size = alloc, start_addr = a\<rparr>\<rparr>"
    using assms(3) P n
    by (auto simp: trigger_resize_def allocate_v_page_blocks_def Let_def pool_ok_def split: if_splits option.splits)
  have "mapping_blocks bs \<lparr>mapped_size = alloc, start_addr = a\<rparr> = map (placed kind io alloc n0) (chunk_layout (first_offset kind) alloc bs n)"
    using mapping_blocks_chunk [of 0 n "first_offset kind" bs alloc a] a n
    by (auto simp: placed_def chunk_addr_def chunk_layout_def Let_def)
  moreover have "contiguous_blocks off alloc bs n + alloc div bs = contiguous_blocks off alloc bs (Suc n)" for off
    using n(1) by (cases n) (simp_all add: contiguous_blocks_def)
  ultimately show ?thesis using P by (simp add: P' pool_ok_def pool_layout_Suc)
qed

lemma resizes_pool_ok:
  "pool_ok kind io alloc bs n0 n P \<Longrightarrow> 0 < alloc \<Longrightarrow> resizes r kind io bs P = Inr P' \<Longrightarrow> pool_ok kind io alloc bs n0 (n + r) P'"
proof (induction r arbitrary: n P)
  case (Suc r)
  then obtain P1 where "trigger_resize kind io bs P = Inr P1" "resizes r kind io bs P1 = Inr P'" by (auto split: sum.splits)
  with Suc show ?case using resize_pool_ok [OF Suc.prems(1,2)] by fastforce
qed simp

text \<open>C39. Block numbers keep their meaning. After a DAX or file pool was created, extended any number of times
  and opened again by a process that maps its chunks elsewhere, block number \<open>b\<close> is the same chunk and
  the same byte of that chunk as before; the metadata is what the first process left and counts exactly
  the blocks there are; no two blocks overlap and every block lies inside its chunk. (Record offsets in
  the index and in the checkpoints are block numbers, so they stay valid.)\<close>

theorem reopened_pool_same_blocks:
  assumes "kind \<noteq> DramPool" "0 < bs" "0 < alloc" "first_offset kind \<le> alloc"
    and "open_pool kind io alloc stored sz True bs = Inr P0" "resizes r kind io bs P0 = Inr P"
    and "open_pool kind io' al ((v_metadata P)\<lparr>used_blocks := u\<rparr>) 0 False bs = Inr Q"
    and "n = sz div alloc + r" "layout_of_pool = pool_layout (first_offset kind) alloc bs n"
  shows "block_addrs P = map (placed kind io alloc (sz div alloc)) layout_of_pool
    \<and> block_addrs Q = map (placed kind io' alloc n) layout_of_pool
    \<and> v_metadata Q = (v_metadata P)\<lparr>used_blocks := u\<rparr>
    \<and> num_allocated_blocks (v_metadata Q) = length (block_addrs Q)
    \<and> sorted_wrt (apart bs) layout_of_pool \<and> (\<forall>(c, x) \<in> set layout_of_pool. c < n \<and> x + bs \<le> alloc)"
proof -
  have P: "pool_ok kind io alloc bs (sz div alloc) n P"
    using resizes_pool_ok [OF conjunct1 [OF create_pool_ok [OF assms(1,2,5)]] assms(3,6)] assms(8) by simp
  note Q = reopen_pool_ok [OF P assms(1,2,3,7)]
  show ?thesis using P Q pool_layout_apart [OF assms(4,2), of n] assms(9) by (simp add: pool_ok_def length_pool_layout)
qed

definition steady_io :: "nat \<Rightarrow> PoolIO" where
  "steady_io start = \<lparr>io_dir_used = False, io_meta_open = True, io_meta_trunc = True, io_meta_map = True,
     io_data_open = (\<lambda>_. True), io_data_alloc = (\<lambda>_. True), io_base = Some start, io_home = (\<lambda>c. Some (start + 100 * c))\<rparr>"

definition unused_metadata :: ViperFileMetadata where
  "unused_metadata = new_metadata 0 0 0 0"

theorem reopened_pool_same_blocks_witness:
  "\<exists>P0 P Q. open_pool FilePool (steady_io 1000) 8 unused_metadata 16 True 4 = Inr P0 \<and> resizes 1 FilePool (steady_io 1000) 4 P0 = Inr P
    \<and> open_pool FilePool (steady_io 5000) 0 ((v_metadata P)\<lparr>used_blocks := 3\<rparr>) 0 False 4 = Inr Q
    \<and> block_addrs P = map (placed FilePool (steady_io 1000) 8 2) (pool_layout 0 8 4 3)
    \<and> block_addrs Q = map (placed FilePool (steady_io 5000) 8 3) (pool_layout 0 8 4 3)"
proof -
  have c: "[0..<3] = [0, 1, 2 :: nat]" by (simp add: upt_rec)
  obtain P0 where P0: "open_pool FilePool (steady_io 1000) 8 unused_metadata 16 True 4 = Inr P0"
    by (simp add: open_pool_def init_pool_def init_file_pool_def steady_io_def pool_construct_def Let_def numeral_2_eq_2)
  then obtain P where P: "resizes 1 FilePool (steady_io 1000) 4 P0 = Inr P"
    by (simp add: trigger_resize_def allocate_v_page_blocks_def steady_io_def Let_def)
  have K: "pool_ok FilePool (steady_io 1000) 8 4 2 3 P"
    using resizes_pool_ok [OF conjunct1 [OF create_pool_ok [OF _ _ P0]] _ P] by simp
  then obtain Q where Q: "open_pool FilePool (steady_io 5000) 0 ((v_metadata P)\<lparr>used_blocks := 3\<rparr>) 0 False 4 = Inr Q"
    by (simp add: pool_ok_def open_pool_def init_pool_def init_file_pool_def steady_io_def pool_construct_def Let_def c
        contiguous_blocks_def first_offset_def)
  show ?thesis
    using reopened_pool_same_blocks [OF _ _ _ _ P0 P Q refl refl] P0 P Q by (simp add: first_offset_def)
qed

section \<open>What prefaulting touches\<close>

lemma stripe_set: "0 < nt \<Longrightarrow> set (stripe nt i pages) = {j. i \<le> j \<and> j < pages \<and> j mod nt = i mod nt} \<and> distinct (stripe nt i pages)"
proof (induction nt i pages rule: stripe.induct)
  case (1 nt i pages)
  show ?case
  proof (cases "i < pages")
    case True
    have "j = i \<or> i + nt \<le> j" if "i \<le> j" "j mod nt = i mod nt" for j
    proof -
      have "nt dvd j - i" using that by (simp add: mod_eq_dvd_iff_nat)
      then show ?thesis using that(1) by (auto dest: dvd_imp_le)
    qed
    then have "{j. i \<le> j \<and> j < pages \<and> j mod nt = i mod nt} = insert i {j. i + nt \<le> j \<and> j < pages \<and> j mod nt = (i + nt) mod nt}"
      using True by auto
    then show ?thesis using 1 True stripe.simps [of nt i pages] by auto
  qed (auto simp: stripe.simps)
qed

lemma prefault_pages_exact: "mset (prefault_pages pages) = mset [0..<pages]"
proof -
  have same: "x = y" if "x < 8" "y < 8" "stripe 8 x pages = stripe 8 y pages" "[] \<noteq> stripe 8 y pages" for x y
  proof -
    note h = that
    obtain j where "j \<in> set (stripe 8 x pages)" "j \<in> set (stripe 8 y pages)" using h(3,4) by (metis last_in_set)
    then show ?thesis using h(1,2) by (simp add: stripe_set)
  qed
  have "distinct (prefault_pages pages) \<and> set (prefault_pages pages) = {0..<pages}"
    unfolding prefault_pages_def
  proof
    show "distinct (concat (map (\<lambda>t. stripe 8 t pages) [0..<8]))"
      by (auto simp: distinct_concat_iff removeAll_filter_not_eq filter_map comp_def stripe_set distinct_map inj_on_def same)
    show "set (concat (map (\<lambda>t. stripe 8 t pages) [0..<8])) = {0..<pages}"
      by (auto simp: stripe_set intro: exI)
  qed
  then show ?thesis using set_eq_iff_mset_eq_distinct [of "prefault_pages pages" "[0..<pages]"] by simp
qed

definition mapping_pages :: "ViperFileMapping \<Rightarrow> nat list" where
  "mapping_pages m = map (\<lambda>i. start_addr m + i * PAGE_SIZE) [0..<mapped_size m div PAGE_SIZE]"

lemma prefault_step:
  assumes "prefault_now cfg is_new_space done (mapped_size m) = (now, done')"
  shows "now \<le> mapped_size m \<and> (prefault_bytes cfg > 0 \<longrightarrow> done' = done + now \<and> (done' \<le> prefault_bytes cfg \<or> now = 0))
    \<and> (\<not> (prefault_new_mappings cfg \<and> \<not> background_prefault cfg \<and> is_new_space) \<longrightarrow> now = 0)
    \<and> (prefault_new_mappings cfg \<and> \<not> background_prefault cfg \<and> is_new_space \<and> prefault_bytes cfg = 0 \<longrightarrow> now = mapped_size m)"
  using assms by (auto simp: prefault_now_def Let_def split: if_splits)

text \<open>Prefaulting writes only where it may. It touches nothing when it is off, when the background runway is
  on, or in a pool that was opened (whose pages hold records); every touched address is the first byte of
  a page inside one of the new mappings; with a bound configured at most that many bytes are touched over
  all mappings together; without one every page of every mapping is touched exactly once.\<close>

theorem prefault_touches:
  assumes "prefault_mappings cfg is_new_space done ms = (touched, done')"
  shows "(\<not> (prefault_new_mappings cfg \<and> \<not> background_prefault cfg \<and> is_new_space) \<longrightarrow> touched = [])
    \<and> set touched \<subseteq> (\<Union>m \<in> set ms. set (mapping_pages m))
    \<and> (prefault_bytes cfg > 0 \<and> done \<le> prefault_bytes cfg \<longrightarrow> length touched * PAGE_SIZE + done \<le> done' \<and> done' \<le> prefault_bytes cfg)
    \<and> (prefault_new_mappings cfg \<and> \<not> background_prefault cfg \<and> is_new_space \<and> prefault_bytes cfg = 0 \<longrightarrow>
        mset touched = mset (concat (map mapping_pages ms)))"
  using assms
proof (induction ms arbitrary: "done" touched)
  case (Cons m ms)
  let ?new = "prefault_new_mappings cfg \<and> \<not> background_prefault cfg \<and> is_new_space"
  obtain now d rest where now: "prefault_now cfg is_new_space done (mapped_size m) = (now, d)"
    and rest: "prefault_mappings cfg is_new_space d ms = (rest, done')"
    and t: "touched = map (\<lambda>i. start_addr m + i * PAGE_SIZE) (prefault_pages (now div PAGE_SIZE)) @ rest"
    using Cons.prems by (auto split: prod.splits)
  note N = prefault_step [OF now] and IH = Cons.IH [OF rest] and E = prefault_pages_exact [of "now div PAGE_SIZE"]
  have len: "length (prefault_pages (now div PAGE_SIZE)) = now div PAGE_SIZE" using arg_cong [OF E, of size] by simp
  have pages: "set (prefault_pages (now div PAGE_SIZE)) = {0..<now div PAGE_SIZE}" using arg_cong [OF E, of set_mset] by simp
  have "now div PAGE_SIZE \<le> mapped_size m div PAGE_SIZE" using N by (simp add: div_le_mono)
  then have sub: "set touched \<subseteq> (\<Union>m' \<in> set (m # ms). set (mapping_pages m'))"
    using IH by (auto simp: t mapping_pages_def pages)
  have off: "\<not> ?new \<longrightarrow> touched = []"
    using N IH len by (auto simp: t)
  have bound: "length touched * PAGE_SIZE + done \<le> done' \<and> done' \<le> prefault_bytes cfg"
    if "prefault_bytes cfg > 0" "done \<le> prefault_bytes cfg"
  proof -
    have d: "d = done + now" "d \<le> prefault_bytes cfg" using N that by auto
    then have "length rest * PAGE_SIZE + d \<le> done' \<and> done' \<le> prefault_bytes cfg" using IH that by blast
    moreover have "now div PAGE_SIZE * PAGE_SIZE \<le> now" by simp
    moreover have "length touched * PAGE_SIZE = now div PAGE_SIZE * PAGE_SIZE + length rest * PAGE_SIZE"
      by (simp only: t length_append length_map len add_mult_distrib)
    ultimately show ?thesis using d(1) by linarith
  qed
  have all: "mset touched = mset (concat (map mapping_pages (m # ms)))" if "?new \<and> prefault_bytes cfg = 0"
  proof -
    have "now = mapped_size m" using N that by blast
    then have "mset (map (\<lambda>i. start_addr m + i * PAGE_SIZE) (prefault_pages (now div PAGE_SIZE))) = mset (mapping_pages m)"
      using E by (simp add: mapping_pages_def)
    then show ?thesis using IH that by (simp add: t)
  qed
  show ?case by (use off sub bound all in blast)
qed simp

theorem prefault_touches_witness:
  "set (fst (prefault_mappings \<lparr>prefault_new_mappings = True, prefault_bytes = 8192, background_prefault = False\<rparr> True 0
      [\<lparr>mapped_size = 12288, start_addr = 0\<rparr>])) \<subseteq> set (mapping_pages \<lparr>mapped_size = 12288, start_addr = 0\<rparr>)"
  using prefault_touches [OF prod.collapse [symmetric],
      of "\<lparr>prefault_new_mappings = True, prefault_bytes = 8192, background_prefault = False\<rparr>" True 0 "[\<lparr>mapped_size = 12288, start_addr = 0\<rparr>]"]
  by auto

lemma run_length_spec:
  "b + run \<le> hh \<Longrightarrow> (\<forall>i < run. ptrs ! (b + i) = ptrs ! b + i * bs) \<Longrightarrow>
   b + run_length bs ptrs b hh run \<le> hh \<and> (\<forall>i < run_length bs ptrs b hh run. ptrs ! (b + i) = ptrs ! b + i * bs)"
proof (induction bs ptrs b hh run rule: run_length.induct)
  case (1 bs ptrs b hh run)
  show ?case
  proof (cases "b + run < hh \<and> ptrs ! (b + run) = ptrs ! b + run * bs")
    case True
    have "\<forall>i < run + 1. ptrs ! (b + i) = ptrs ! b + i * bs" using True 1(3) by (simp add: less_Suc_eq)
    then show ?thesis using 1(1) [OF True] True run_length.simps [of bs ptrs b hh run] by simp
  next
    case False
    then have "run_length bs ptrs b hh run = run" using run_length.simps [of bs ptrs b hh run] by argo
    then show ?thesis using 1(2,3) by simp
  qed
qed

text \<open>The blocks a list of \<open>madvise\<close> calls covers.\<close>

definition covered :: "nat \<Rightarrow> (nat \<times> nat) list \<Rightarrow> nat list" where
  "covered bs calls = concat (map (\<lambda>(a, run). map (\<lambda>i. a + i * bs) [0..<run]) calls)"

lemma populate_slice_covers: "covered bs (populate_slice bs ptrs b hh) = map ((!) ptrs) [b..<hh]"
proof (induction bs ptrs b hh rule: populate_slice.induct)
  case (1 bs ptrs b hh)
  show ?case
  proof (cases "b < hh")
    case True
    let ?r = "run_length bs ptrs b hh 1"
    have r: "b + ?r \<le> hh" "\<forall>i < ?r. ptrs ! (b + i) = ptrs ! b + i * bs"
      using run_length_spec [of b 1 hh ptrs bs] True by simp_all
    have "map (\<lambda>i. ptrs ! b + i * bs) [0..<?r] = map ((!) ptrs) [b..<b + ?r]"
      using r(2) by (intro nth_equalityI) (simp_all add: add.commute)
    moreover have "[b..<hh] = [b..<b + ?r] @ [b + ?r..<hh]" using r(1) upt_add_eq_append [of b "b + ?r" "hh - (b + ?r)"] by simp
    ultimately show ?thesis
      using 1(1) [OF True refl] True by (simp add: covered_def populate_slice.simps [of bs ptrs b hh] Let_def)
  qed (simp add: populate_slice.simps covered_def)
qed

lemma concat_map_filter: "(\<And>x. x \<in> set xs \<Longrightarrow> \<not> P x \<Longrightarrow> f x = []) \<Longrightarrow> concat (map f (filter P xs)) = concat (map f xs)"
  by (induction xs) auto

lemma runway_slices_tile:
  assumes "1 \<le> nthreads"
  shows "concat (map (\<lambda>(lo, hh). [lo..<hh]) (runway_slices nthreads n)) = [0..<n]"
proof (cases "nthreads = 1 \<or> n < nthreads")
  case False
  let ?p = "(n + nthreads - 1) div nthreads"
  have "n \<le> nthreads * ?p"
  proof -
    have "n + nthreads - 1 < nthreads * ?p + nthreads"
      using mult_div_mod_eq [of nthreads "n + nthreads - 1"] mod_less_divisor [of nthreads "n + nthreads - 1"] assms by linarith
    then show ?thesis by linarith
  qed
  then have "[0..<n] = concat (map (\<lambda>t. [t * ?p..<min (min (t * ?p + ?p) n) n]) [0..<nthreads])"
    using upt_tiles [of 0 ?p n n nthreads] by simp
  also have "\<dots> = concat (map (\<lambda>t. [min (t * ?p) n..<min (min (t * ?p) n + ?p) n]) [0..<nthreads])"
    by (intro arg_cong [where f = concat] map_cong refl) (auto simp: min_def)
  also have "[0..<nthreads] = 0 # [1..<nthreads]" using assms by (simp add: upt_conv_Cons)
  finally show ?thesis using False
    by (simp add: runway_slices_def Let_def concat_map_filter case_prod_unfold comp_def)
qed (simp add: runway_slices_def)

text \<open>A round of the prefault runway populates exactly the blocks between the old and the new end of the
  runway, each once and in order, whatever the number of threads and wherever the chunks are mapped, and
  never a block beyond the pool.\<close>

theorem runway_round_exact:
  assumes "runway_round bs runway threads blocks cur hi = Some (calls, hi')"
  shows "covered bs calls = map ((!) blocks) [hi..<hi'] \<and> hi < hi' \<and> hi' \<le> length blocks \<and> hi' \<le> cur + runway"
proof -
  define n where "n = min (cur + runway) (length blocks) - hi"
  define ptrs where "ptrs = map (\<lambda>i. blocks ! (hi + i)) [0..<n]"
  have c: "calls = concat (map (\<lambda>(lo, hh). populate_slice bs ptrs lo hh) (runway_slices (max 1 threads) n))"
    and hi': "hi' = min (cur + runway) (length blocks)" and low: "hi < length blocks" "hi - cur < runway div 2 \<or> hi \<le> cur \<and> 0 < runway div 2"
    using assms by (auto simp: runway_round_def Let_def n_def ptrs_def split: if_splits)
  have "hi < cur + runway" using low(2) by linarith
  then have hh: "hi < hi'" using low(1) hi' by simp
  have "covered bs (concat (map f xs)) = concat (map (\<lambda>x. covered bs (f x)) xs)" for f :: "nat \<times> nat \<Rightarrow> _" and xs
    by (induction xs) (simp_all add: covered_def)
  then have "covered bs calls = concat (map (\<lambda>(lo, hh). map ((!) ptrs) [lo..<hh]) (runway_slices (max 1 threads) n))"
    by (simp add: c case_prod_unfold populate_slice_covers)
  also have "\<dots> = map ((!) ptrs) (concat (map (\<lambda>(lo, hh). [lo..<hh]) (runway_slices (max 1 threads) n)))"
    by (simp add: map_concat case_prod_unfold comp_def)
  also have "\<dots> = map ((!) ptrs) [0..<n]" by (simp add: runway_slices_tile)
  also have "\<dots> = map ((!) blocks) [hi..<hi']"
  proof -
    have "n = hi' - hi" by (simp add: n_def hi')
    then show ?thesis using hh by (intro nth_equalityI) (simp_all add: ptrs_def)
  qed
  finally show ?thesis using hh hi' by simp
qed

theorem runway_round_exact_witness:
  "\<exists>calls. runway_round 4 4 2 [0, 4, 8, 100, 104] 0 0 = Some (calls, 4) \<and> covered 4 calls = [0, 4, 8, 100]"
proof -
  obtain calls where c: "runway_round 4 4 2 [0, 4, 8, 100, 104] 0 0 = Some (calls, 4)" by (simp add: runway_round_def Let_def)
  then show ?thesis using runway_round_exact [OF c] by (simp add: upt_rec numeral_eq_Suc)
qed

text \<open>Opening a DAX device that holds no database always fails: it is taken for a new pool, but of the
  size zero that \<open>open\<close> passes.\<close>

lemma open_empty_device:
  assumes "io_meta_open io" "io_meta_map io" "num_allocated_blocks stored = 0"
  shows "open_pool DaxPool io alignment stored 0 False bs = Inl PoolTooSmall"
  using assms by (simp add: open_pool_def init_pool_def init_devdax_pool_def Let_def)

end
