(* ===== verification/Viper_Strings.thy ===== *)
theory Viper_Strings
  imports Viper_Store_Props
begin

text \<open>
  Viper with string keys and values (the \<open>std::string\<close> specialisations of viper.hpp). A page is a heap
  of bytes that is filled from the front: a record is a four-byte header with the sizes of key and
  value, the key and the value; a record whose value does not fit keeps its key on one page and
  its value at the start of the next page of the block. The model works on the bytes of the pages, with
  the offset map of Cceh as index. One operation at a time. Results are values or faults: an
  operation that spins forever, an access outside the page or the block, an exhausted bound of map rounds.
\<close>

type_synonym bytes = "u8 list"

datatype sfault = Spins | PageOverrun | MapRounds

section \<open>Entry headers\<close>

record VarSizeEntry =
  ve_set :: bool
  key_size :: u16
  value_size :: u16

text \<open>The constructor truncates both sizes to 16 bits, the bit field the key size to 15.\<close>

definition new_entry :: "nat \<Rightarrow> nat \<Rightarrow> VarSizeEntry" where
  "new_entry ks vs = \<lparr>ve_set = True, key_size = take_bit 15 (of_nat ks), value_size = of_nat vs\<rparr>"

definition size_info :: "VarSizeEntry \<Rightarrow> u32" where
  "size_info e = of_bool (ve_set e) OR push_bit 1 (take_bit 15 (ucast (key_size e))) OR push_bit 16 (ucast (value_size e))"

definition entry_of_info :: "u32 \<Rightarrow> VarSizeEntry" where
  "entry_of_info w = \<lparr>ve_set = bit w 0, key_size = take_bit 15 (ucast (drop_bit 1 w)), value_size = ucast (drop_bit 16 w)\<rparr>"

definition le32 :: "u32 \<Rightarrow> bytes" where
  "le32 w = [ucast w, ucast (drop_bit 8 w), ucast (drop_bit 16 w), ucast (drop_bit 24 w)]"

definition of_le32 :: "bytes \<Rightarrow> u32" where
  "of_le32 bs = ucast (bs ! 0) OR push_bit 8 (ucast (bs ! 1)) OR push_bit 16 (ucast (bs ! 2)) OR push_bit 24 (ucast (bs ! 3))"

definition header :: "VarSizeEntry \<Rightarrow> bytes" where
  "header e = le32 (size_info e)"

section \<open>Pages and store\<close>

definition METADATA_SIZE :: nat where "METADATA_SIZE = 1 + 2 + 1"
definition DATA_SIZE :: nat where "DATA_SIZE = PAGE_SIZE - METADATA_SIZE"
definition meta_size :: nat where "meta_size = 4"

record SPage =
  next_insert_offset :: u16
  sp_lock :: u8
  modified_percentage :: u8
  sp_data :: bytes

record SStore =
  s_blocks :: "SPage list list"
  s_cursor :: nat
  s_used :: nat
  s_size :: int
  s_map :: CCEH

definition s_page :: "SStore \<Rightarrow> nat \<Rightarrow> nat \<Rightarrow> SPage" where
  "s_page V b p = s_blocks V ! b ! p"

definition s_upd :: "nat \<Rightarrow> nat \<Rightarrow> (SPage \<Rightarrow> SPage) \<Rightarrow> SStore \<Rightarrow> SStore" where
  "s_upd b p f V = V\<lparr>s_blocks := (s_blocks V)[b := (s_blocks V ! b)[p := f (s_blocks V ! b ! p)]]\<rparr>"

definition s_init :: "SPage \<Rightarrow> SPage" where
  "s_init pg = pg\<lparr>sp_lock := USED_BIT, next_insert_offset := 0, modified_percentage := 0\<rparr>"

definition set_lock :: "(u8 \<Rightarrow> u8) \<Rightarrow> SPage \<Rightarrow> SPage" where
  "set_lock f pg = pg\<lparr>sp_lock := f (sp_lock pg)\<rparr>"

definition slice :: "bytes \<Rightarrow> nat \<Rightarrow> nat \<Rightarrow> bytes" where
  "slice d i n = take n (drop i d)"

definition poke :: "nat \<Rightarrow> bytes \<Rightarrow> bytes \<Rightarrow> bytes" where
  "poke i bs d = take i d @ bs @ drop (i + length bs) d"

definition poke_page :: "nat \<Rightarrow> bytes \<Rightarrow> SPage \<Rightarrow> SPage" where
  "poke_page i bs pg = pg\<lparr>sp_data := poke i bs (sp_data pg)\<rparr>"

definition bump :: "nat \<Rightarrow> SPage \<Rightarrow> SPage" where
  "bump n pg = pg\<lparr>next_insert_offset := next_insert_offset pg + of_nat n\<rparr>"

definition fill_page :: "SPage \<Rightarrow> SPage" where
  "fill_page pg = pg\<lparr>next_insert_offset := of_nat DATA_SIZE\<rparr>"

text \<open>\<open>VarEntryAccessor\<close> on one piece of raw data: the header, and the bytes of key and value behind it.\<close>

definition header_at :: "bytes \<Rightarrow> nat \<Rightarrow> VarSizeEntry" where
  "header_at d i = entry_of_info (of_le32 (slice d i meta_size))"

definition raw_key :: "bytes \<Rightarrow> nat \<Rightarrow> bytes" where
  "raw_key d i = slice d (i + meta_size) (unat (key_size (header_at d i)))"

definition raw_value :: "bytes \<Rightarrow> nat \<Rightarrow> bytes" where
  "raw_value d i = slice d (i + meta_size + unat (key_size (header_at d i))) (unat (value_size (header_at d i)))"

text \<open>The accessor for a value on the next page reads it behind the header only.\<close>

definition next_page_value :: "bytes \<Rightarrow> bytes" where
  "next_page_value d = slice d meta_size (unat (value_size (header_at d 0)))"

section \<open>Blocks and clients\<close>

definition s_drop_owner :: "nat option \<Rightarrow> SStore \<Rightarrow> SStore" where
  "s_drop_owner blk V = (case blk of None \<Rightarrow> V | Some b \<Rightarrow> s_upd b 0 (set_lock (\<lambda>w. w AND NO_CLIENT_BIT)) V)"

definition s_info_sync :: "bool \<Rightarrow> SStore \<Rightarrow> VClient \<Rightarrow> SStore \<times> VClient" where
  "s_info_sync force V C =
    (if force \<or> op_count C + 1 = 10000
     then (V\<lparr>s_size := s_size V + size_delta C\<rparr>, C\<lparr>op_count := 0, size_delta := 0, num_reclaimable_ops := 0\<rparr>)
     else (V, C\<lparr>op_count := op_count C + 1\<rparr>))"

text \<open>A new block for string keys always starts at page 0; \<open>reuse\<close> is a block the reclaimer handed back.\<close>

definition s_get_new_block :: "SStore \<Rightarrow> (nat \<times> SStore) option" where
  "s_get_new_block V = (if s_cursor V \<ge> length (s_blocks V) then None else Some (s_cursor V, V\<lparr>s_cursor := s_cursor V + 1\<rparr>))"

definition s_take_block :: "nat \<Rightarrow> SStore \<Rightarrow> VClient \<Rightarrow> SStore \<times> VClient" where
  "s_take_block b V C =
    (let V1 = s_drop_owner (v_block C) V;
         V2 = s_upd b 0 (set_lock (\<lambda>w. w OR CLIENT_BIT)) (s_upd b 0 s_init V1)
     in (V2\<lparr>s_used := max (s_used V2) (b + 1)\<rparr>,
         C\<lparr>v_block_number := b, v_page_number := 0, v_block := Some b, num_v_pages_processed := 0\<rparr>))"

definition s_get_access :: "nat option \<Rightarrow> SStore \<Rightarrow> VClient \<Rightarrow> sfault + SStore \<times> VClient" where
  "s_get_access reuse V C =
    (case s_info_sync True V C of (V1, C1) \<Rightarrow>
     case reuse of
       Some b \<Rightarrow> Inr (s_take_block b V1 C1)
     | None \<Rightarrow> (case s_get_new_block V1 of None \<Rightarrow> Inl Spins | Some (b, V2) \<Rightarrow> Inr (s_take_block b V2 C1)))"

definition get_new_var_size_access_information :: "nat option \<Rightarrow> SStore \<Rightarrow> VClient \<Rightarrow> sfault + SStore \<times> VClient" where
  "get_new_var_size_access_information reuse V C =
    (case s_get_access reuse V C of
       Inl f \<Rightarrow> Inl f
     | Inr (V', C') \<Rightarrow>
         (let V2 = s_upd (v_block_number C') (v_page_number C') (\<lambda>pg. pg\<lparr>next_insert_offset := 0\<rparr>) V'
          in Inr (V2\<lparr>s_used := max (s_used V2) (v_block_number C' + 1)\<rparr>, C')))"

definition s_get_client :: "nat option \<Rightarrow> SStore \<Rightarrow> sfault + SStore \<times> VClient" where
  "s_get_client reuse V = get_new_var_size_access_information reuse V new_client"

definition update_var_size_page_information :: "nat option \<Rightarrow> SStore \<Rightarrow> VClient \<Rightarrow> sfault + SStore \<times> VClient" where
  "update_var_size_page_information reuse V C =
    (let C1 = C\<lparr>num_v_pages_processed := num_v_pages_processed C + 1\<rparr>;
         moved = (if num_v_pages_processed C1 = NUM_DIMMS then s_get_access reuse V C1
                  else Inr (V, C1\<lparr>v_page_number := (v_page_number C1 + 1) mod NUM_DIMMS\<rparr>))
     in case moved of
          Inl f \<Rightarrow> Inl f
        | Inr (V', C') \<Rightarrow>
            Inr (s_upd (v_block_number C') (v_page_number C') (\<lambda>pg. (s_init pg)\<lparr>next_insert_offset := 0\<rparr>) V', C'))"

section \<open>Reading\<close>

text \<open>\<open>get_const_entry_from_offset\<close>: a value of size zero is taken to be on the next page; there is none
  (\<open>None\<close>) behind the last page of the block, where the code reads past the block.\<close>

definition s_entry :: "SStore \<Rightarrow> u64 \<Rightarrow> bytes \<times> bytes option" where
  "s_entry V off =
    (case locate off of (b, p, i) \<Rightarrow>
       let d = sp_data (s_page V b p)
       in (raw_key d i,
           if value_size (header_at d i) = 0
           then (if p + 1 < NUM_DIMMS then Some (next_page_value (sp_data (s_page V b (p + 1)))) else None)
           else Some (raw_value d i)))"

definition s_check :: "SStore \<Rightarrow> bytes \<Rightarrow> u64 \<Rightarrow> bool" where
  "s_check V key off \<longleftrightarrow> \<not> is_tombstone off \<and> fst (s_entry V off) = key"

text \<open>\<open>get_value_from_offset\<close>: no result on a locked page (and, running alone, always one on an unlocked).\<close>

definition s_value_from_offset :: "SStore \<Rightarrow> u64 \<Rightarrow> bytes option option" where
  "s_value_from_offset V off =
    (case locate off of (b, p, i) \<Rightarrow>
       if IS_LOCKED (sp_lock (s_page V b p)) then None else Some (snd (s_entry V off)))"

text \<open>\<open>get\<close>; a locked page is never repaired in string mode, so the reader spins.\<close>

definition s_get :: "bytes KeyTraits \<Rightarrow> bytes \<Rightarrow> SStore \<Rightarrow> sfault + bytes option" where
  "s_get T key V =
    (let off = cceh_get T (s_check V) key (s_map V)
     in if is_tombstone off then Inr None
        else if \<not> s_check V key off then Inr None
        else case s_value_from_offset V off of
               None \<Rightarrow> Inl Spins
             | Some None \<Rightarrow> Inl PageOverrun
             | Some (Some v) \<Rightarrow> Inr (Some v))"

section \<open>Writing\<close>

text \<open>\<open>invalidate_record\<close>: the set bit of the header, and the estimate of how much of the page is stale.\<close>

definition s_invalidate :: "nat \<Rightarrow> nat \<Rightarrow> nat \<Rightarrow> SStore \<Rightarrow> SStore" where
  "s_invalidate b p i V =
    s_upd b p (\<lambda>pg.
      let e = header_at (sp_data pg) i;
          entry_size = unat (key_size e) + unat (value_size e) + meta_size
      in (poke_page i (header (e\<lparr>ve_set := False\<rparr>)) pg)
           \<lparr>modified_percentage := modified_percentage pg + of_nat (entry_size * 100 div DATA_SIZE)\<rparr>) V"

definition s_mark_removed :: "nat \<Rightarrow> bytes KeyTraits \<Rightarrow> bool \<Rightarrow> bytes \<Rightarrow> SStore \<Rightarrow> sfault + SStore" where
  "s_mark_removed rounds T delete_offset key V =
    (if delete_offset then
       case cceh_insert rounds T (s_check V) key Tombstone (s_map V) of
         None \<Rightarrow> Inl MapRounds | Some (_, m) \<Rightarrow> Inr (V\<lparr>s_map := m\<rparr>)
     else Inr V)"

definition s_free :: "nat \<Rightarrow> bytes KeyTraits \<Rightarrow> u64 \<Rightarrow> bytes \<Rightarrow> bool \<Rightarrow> SStore \<Rightarrow> VClient \<Rightarrow> sfault + SStore \<times> VClient" where
  "s_free rounds T off key delete_offset V C =
    (case locate off of (b, p, i) \<Rightarrow>
       let C' = C\<lparr>size_delta := size_delta C - 1\<rparr>
       in if v_block_number C = b \<and> v_page_number C = p then
            (case s_mark_removed rounds T delete_offset key (s_invalidate b p i V) of Inl f \<Rightarrow> Inl f | Inr V' \<Rightarrow> Inr (V', C'))
          else case page_lock (sp_lock (s_page V b p)) of
                 None \<Rightarrow> Inl Spins
               | Some w \<Rightarrow>
                   (case s_mark_removed rounds T delete_offset key (s_invalidate b p i (s_upd b p (set_lock (\<lambda>_. w)) V)) of
                      Inl f \<Rightarrow> Inl f
                    | Inr V' \<Rightarrow> Inr (s_upd b p (set_lock page_unlock) V', C')))"

text \<open>Where \<open>put\<close> writes the record: behind the last one, with the value on the next page of the block, or
  as a whole on the next page. Sizes are those of the entry, so an over-long string is cut.\<close>

definition s_place :: "nat option \<Rightarrow> bytes \<Rightarrow> bytes \<Rightarrow> SStore \<Rightarrow> VClient \<Rightarrow> sfault + u64 \<times> SStore \<times> VClient" where
  "s_place reuse key val V C =
    (let b = v_block_number C; p = v_page_number C;
         e = new_entry (length key) (length val);
         ks = unat (key_size e); vs = unat (value_size e);
         i = unat (next_insert_offset (s_page V b p));
         offset_in_page = METADATA_SIZE + i;
         record = header e @ take ks key @ take vs val
     in if offset_in_page + meta_size + (ks + vs) > PAGE_SIZE then
          (case update_var_size_page_information reuse V C of
             Inl f \<Rightarrow> Inl f
           | Inr (V1, C1) \<Rightarrow>
               (let b1 = v_block_number C1; p1 = v_page_number C1
                in if offset_in_page + meta_size + ks \<le> PAGE_SIZE \<and> b1 = b then
                     if meta_size + vs > DATA_SIZE then Inl PageOverrun
                     else
                       let V2 = s_upd b1 p1 (poke_page 0 (header (new_entry 0 (length val)) @ take vs val)) V1;
                           V3 = s_upd b p (poke_page i (header (e\<lparr>value_size := 0\<rparr>) @ take ks key)) V2;
                           V4 = s_upd b p fill_page V3
                       in Inr (make_offset b p i, s_upd b1 p1 (bump (meta_size + vs)) V4, C1)
                   else
                     let V2 = (if offset_in_page + meta_size \<le> PAGE_SIZE
                               then s_upd b p (poke_page i (header (new_entry 0 0))) V1 else V1);
                         V3 = s_upd b p fill_page V2
                     in if meta_size + (ks + vs) > DATA_SIZE then Inl PageOverrun
                        else Inr (make_offset b1 p1 0,
                                  s_upd b1 p1 (bump (meta_size + (ks + vs))) (s_upd b1 p1 (poke_page 0 record) V3), C1)))
        else Inr (make_offset b p i, s_upd b p (bump (meta_size + (ks + vs))) (s_upd b p (poke_page i record) V), C))"

definition s_put :: "nat \<Rightarrow> bytes KeyTraits \<Rightarrow> nat option \<Rightarrow> bytes \<Rightarrow> bytes \<Rightarrow> bool \<Rightarrow> SStore \<Rightarrow> VClient \<Rightarrow>
    sfault + bool \<times> SStore \<times> VClient" where
  "s_put rounds T reuse key val delete_old V C =
    (let b = v_block_number C; p = v_page_number C
     in case page_lock (sp_lock (s_page V b p)) of
          None \<Rightarrow> Inl Spins
        | Some w \<Rightarrow>
            (case s_place reuse key val (s_upd b p (set_lock (\<lambda>_. w)) V) C of
               Inl f \<Rightarrow> Inl f
             | Inr (off, V1, C1) \<Rightarrow>
                 (case cceh_insert rounds T (s_check V1) key off (s_map V1) of
                    None \<Rightarrow> Inl MapRounds
                  | Some (old, m) \<Rightarrow>
                      (let is_new_item = is_tombstone old;
                           C2 = C1\<lparr>size_delta := size_delta C1 + 1\<rparr>;
                           V2 = s_upd b p (set_lock page_unlock) (V1\<lparr>s_map := m\<rparr>);
                           freed = (if \<not> is_new_item \<and> delete_old then s_free rounds T old key False V2 C2 else Inr (V2, C2))
                       in case freed of
                            Inl f \<Rightarrow> Inl f
                          | Inr (V3, C3) \<Rightarrow> (case s_info_sync False V3 C3 of (V4, C4) \<Rightarrow> Inr (is_new_item, V4, C4))))))"

definition s_remove :: "nat \<Rightarrow> bytes KeyTraits \<Rightarrow> bytes \<Rightarrow> SStore \<Rightarrow> VClient \<Rightarrow> sfault + bool \<times> SStore \<times> VClient" where
  "s_remove rounds T key V C =
    (let off = cceh_get T (s_check V) key (s_map V)
     in if is_tombstone off then Inr (False, V, C)
        else case s_free rounds T off key True V C of
               Inl f \<Rightarrow> Inl f
             | Inr (V', C') \<Rightarrow> Inr (True, V', C'\<lparr>num_reclaimable_ops := num_reclaimable_ops C' + 1\<rparr>))"

section \<open>Reclaiming blocks\<close>

text \<open>
  The walk of \<open>compact\<close> over the pages of a block: \<open>p\<close> is the current (locked) page, \<open>i\<close> the position,
  \<open>nio\<close> the insert offset read when the page was locked. Records that are set and whose key is still
  in the map are put again; the set bit that is cleared afterwards is one of a local copy.
\<close>

function s_compact_walk :: "nat \<Rightarrow> bytes KeyTraits \<Rightarrow> nat \<Rightarrow> nat \<Rightarrow> nat \<Rightarrow> nat \<Rightarrow> SStore \<Rightarrow> VClient \<Rightarrow> sfault + SStore \<times> VClient" where
  "s_compact_walk rounds T bn p i nio V C =
    (let d = sp_data (s_page V bn p); e = header_at d i;
         leave = s_upd bn p (set_lock page_unlock) V;
         skip = meta_size + unat (key_size e) + unat (value_size e);
         end_of_page = METADATA_SIZE + i + meta_size > PAGE_SIZE
     in if nio \<noteq> DATA_SIZE \<and> i = nio then Inr (leave, C)
        else if end_of_page \<or> key_size e = 0 \<and> value_size e = 0 then
          if p + 1 \<ge> NUM_DIMMS then Inr (leave, C)
          else (case page_lock (sp_lock (s_page leave bn (p + 1))) of
                  None \<Rightarrow> Inl Spins
                | Some w \<Rightarrow>
                    (let V' = s_upd bn (p + 1) (set_lock (\<lambda>_. w)) leave
                     in s_compact_walk rounds T bn (p + 1) 0 (unat (next_insert_offset (s_page V' bn (p + 1)))) V' C))
        else if value_size e = 0 then
          if p + 1 \<ge> NUM_DIMMS then Inr (leave, C)
          else (case page_lock (sp_lock (s_page leave bn (p + 1))) of
                  None \<Rightarrow> Inl Spins
                | Some w \<Rightarrow>
                    (let V' = s_upd bn (p + 1) (set_lock (\<lambda>_. w)) leave;
                         d' = sp_data (s_page V' bn (p + 1));
                         nio' = unat (next_insert_offset (s_page V' bn (p + 1)));
                         i' = meta_size + unat (value_size (header_at d' 0));
                         key = raw_key d i
                     in if ve_set e \<and> \<not> is_tombstone (cceh_get T (s_check V') key (s_map V')) then
                          (case s_put rounds T None key (next_page_value d') False V' C of
                             Inl f \<Rightarrow> Inl f
                           | Inr (_, V2, C2) \<Rightarrow> s_compact_walk rounds T bn (p + 1) i' nio' V2 C2)
                        else s_compact_walk rounds T bn (p + 1) i' nio' V' C))
        else
          let key = raw_key d i
          in if ve_set e \<and> \<not> is_tombstone (cceh_get T (s_check V) key (s_map V)) then
               (case s_put rounds T None key (raw_value d i) False V C of
                  Inl f \<Rightarrow> Inl f
                | Inr (_, V2, C2) \<Rightarrow> s_compact_walk rounds T bn p (i + skip) nio V2 C2)
             else s_compact_walk rounds T bn p (i + skip) nio V C)"
  by pat_completeness auto
termination
  by (relation "measure (\<lambda>(rounds, T, bn, p, i, nio, V, C). (NUM_DIMMS - p) * 10000 + (PAGE_SIZE - i))")
     (auto simp: NUM_DIMMS_def PAGE_SIZE_def METADATA_SIZE_def meta_size_def)

declare s_compact_walk.simps [simp del]

definition s_compact :: "nat \<Rightarrow> bytes KeyTraits \<Rightarrow> nat \<Rightarrow> SStore \<Rightarrow> VClient \<Rightarrow> sfault + SStore \<times> VClient" where
  "s_compact rounds T bn V C =
    (case page_lock (sp_lock (s_page V bn 0)) of
       None \<Rightarrow> Inl Spins
     | Some w \<Rightarrow>
         s_compact_walk rounds T bn 0 0 (unat (next_insert_offset (s_page V bn 0))) (s_upd bn 0 (set_lock (\<lambda>_. w)) V) C)"

definition s_is_owned :: "SPage list \<Rightarrow> bool" where
  "s_is_owned blk = is_bit_set (sp_lock (blk ! 0)) CLIENT_BIT"

definition s_is_unused :: "SPage list \<Rightarrow> bool" where
  "s_is_unused blk = list_all (\<lambda>pg. \<not> is_bit_set (sp_lock pg) USED_BIT) blk"

text \<open>Whether the stale estimates of the completed pages exceed the threshold, given as the sum of percent
  over the pages of a block.\<close>

fun stale_enough :: "nat \<Rightarrow> nat \<Rightarrow> SPage list \<Rightarrow> bool" where
  "stale_enough limit acc [] = False"
| "stale_enough limit acc (pg # pgs) =
    (let acc' = acc + unat (modified_percentage pg)
     in if acc' > limit then True
        else if unat (next_insert_offset pg) \<noteq> DATA_SIZE then False else stale_enough limit acc' pgs)"

fun s_reclaim :: "nat \<Rightarrow> bytes KeyTraits \<Rightarrow> nat \<Rightarrow> nat list \<Rightarrow> SStore \<Rightarrow> VClient \<Rightarrow> sfault + nat list \<times> SStore \<times> VClient" where
  "s_reclaim rounds T limit [] V C = Inr ([], V, C)"
| "s_reclaim rounds T limit (bn # bns) V C =
    (let blk = s_blocks V ! bn
     in if s_is_owned blk \<or> s_is_unused blk \<or> \<not> stale_enough limit 0 blk then s_reclaim rounds T limit bns V C
        else case s_compact rounds T bn V C of
               Inl f \<Rightarrow> Inl f
             | Inr (V1, C1) \<Rightarrow>
                 (case s_reclaim rounds T limit bns (s_upd bn 0 (set_lock (\<lambda>_. 0)) V1) C1 of
                    Inl f \<Rightarrow> Inl f | Inr (freed, V2, C2) \<Rightarrow> Inr (bn # freed, V2, C2)))"

section \<open>Bytes\<close>

lemma of_le32_le32: "of_le32 (le32 w) = w"
proof (rule bit_word_eqI)
  fix n assume "n < LENGTH(32)"
  then consider "n < 8" | "8 \<le> n" "n < 16" | "16 \<le> n" "n < 24" | "24 \<le> n" "n < 32" by fastforce
  then show "bit (of_le32 (le32 w)) n = bit w n"
    by cases (auto simp: of_le32_def le32_def bit_simps nth_Cons')
qed

lemma bit_shifted: "bit (x * 2 :: u32) n \<longleftrightarrow> 0 < n \<and> n < 32 \<and> bit x (n - 1)"
proof -
  have "x * 2 = push_bit 1 x" by (simp add: push_bit_eq_mult)
  then show ?thesis by (simp only: bit_push_bit_iff) auto
qed

lemma entry_of_size_info:
  "entry_of_info (size_info e) = e\<lparr>key_size := take_bit 15 (key_size e)\<rparr>"
proof (cases e)
  case (fields s k v)
  have "take_bit 15 (ucast (drop_bit 1 (size_info e)) :: u16) = take_bit 15 k"
    by (intro bit_word_eqI) (auto simp: fields size_info_def bit_simps bit_shifted)
  moreover have "(ucast (drop_bit 16 (size_info e)) :: u16) = v"
    by (intro bit_word_eqI) (auto simp: fields size_info_def bit_simps bit_shifted)
  moreover have "bit (size_info e) 0 = s" by (auto simp: fields size_info_def bit_simps bit_shifted)
  ultimately show ?thesis unfolding fields entry_of_info_def by simp
qed

lemma length_header [simp]: "length (header e) = meta_size"
  by (simp add: header_def le32_def meta_size_def)

lemma length_poke [simp]: "i + length bs \<le> length d \<Longrightarrow> length (poke i bs d) = length d"
  by (simp add: poke_def)

lemma poke_nth:
  "i + length bs \<le> length d \<Longrightarrow> j < length d \<Longrightarrow> poke i bs d ! j = (if i \<le> j \<and> j < i + length bs then bs ! (j - i) else d ! j)"
  by (auto simp: poke_def nth_append)

lemma length_slice: "i + n \<le> length d \<Longrightarrow> length (slice d i n) = n"
  by (simp add: slice_def)

lemma slice_nth: "i + n \<le> length d \<Longrightarrow> j < n \<Longrightarrow> slice d i n ! j = d ! (i + j)"
  by (simp add: slice_def)

lemma slice_cong:
  "i + n \<le> length d \<Longrightarrow> i + n \<le> length d' \<Longrightarrow> (\<And>j. i \<le> j \<Longrightarrow> j < i + n \<Longrightarrow> d ! j = d' ! j) \<Longrightarrow> slice d i n = slice d' i n"
  by (intro nth_equalityI) (simp_all add: length_slice slice_nth)

lemma slice_poke:
  "i + length bs \<le> length d \<Longrightarrow> j + n \<le> length bs \<Longrightarrow> slice (poke i bs d) (i + j) n = slice bs j n"
  by (intro nth_equalityI) (simp_all add: length_slice slice_nth poke_nth)

lemma slice_append1: "length xs = n \<Longrightarrow> slice (xs @ ys) 0 n = xs" by (simp add: slice_def)

lemma slice_append2: "length xs = i \<Longrightarrow> slice (xs @ ys) i n = take n ys" by (simp add: slice_def)

lemma header_at_poke:
  assumes "i + length bs \<le> length d" "bs = header e @ rest"
  shows "header_at (poke i bs d) i = e\<lparr>key_size := take_bit 15 (key_size e)\<rparr>"
proof -
  have "slice (poke i bs d) i meta_size = header e"
    using slice_poke [OF assms(1), of 0 meta_size] by (simp add: assms(2) slice_append1)
  then show ?thesis by (simp add: header_at_def header_def of_le32_le32 entry_of_size_info)
qed

lemma header_at_cong:
  "i + meta_size \<le> length d \<Longrightarrow> i + meta_size \<le> length d' \<Longrightarrow> (\<And>j. i \<le> j \<Longrightarrow> j < i + meta_size \<Longrightarrow> d ! j = d' ! j) \<Longrightarrow>
   header_at d i = header_at d' i"
  unfolding header_at_def by (metis slice_cong)

lemma new_entry_sizes:
  assumes "ks < 2 ^ 15" "vs < 2 ^ 16"
  shows "unat (key_size (new_entry ks vs)) = ks" "unat (value_size (new_entry ks vs)) = vs"
    "take_bit 15 (key_size (new_entry ks vs)) = key_size (new_entry ks vs)"
  using assms by (simp_all add: new_entry_def unat_of_nat unsigned_take_bit_eq take_bit_nat_eq_self)

end
