(* ===== verification/Viper_Strings_Props.thy ===== *)
theory Viper_Strings_Props
  imports Viper_Strings Cceh_Props
begin

text \<open>
  Correctness of the string store: the records on the pages, the invariant that relates them to the
  clients and to the offset map, and what a put does to them. A record occupies a set of byte positions,
  its extent; extents of different records are disjoint and lie below the insert offsets of their pages.
\<close>

section \<open>Records on pages\<close>

type_synonym loc = "nat \<times> nat \<times> nat"
type_synonym srec = "bytes \<times> bytes \<times> bool"

lemma DATA_SIZE_val: "DATA_SIZE = 4092" and meta_size_val: "meta_size = 4"
  and PAGE_SIZE_val: "PAGE_SIZE = 4096" and METADATA_SIZE_val: "METADATA_SIZE = 4" and NUM_DIMMS_val: "NUM_DIMMS = 6"
  by (simp_all add: DATA_SIZE_def meta_size_def PAGE_SIZE_def METADATA_SIZE_def NUM_DIMMS_def)

lemmas sizes = DATA_SIZE_val meta_size_val PAGE_SIZE_val METADATA_SIZE_val NUM_DIMMS_val

definition page_ok :: "SPage \<Rightarrow> bool" where
  "page_ok pg \<longleftrightarrow> length (sp_data pg) = DATA_SIZE \<and> unat (next_insert_offset pg) \<le> DATA_SIZE"

definition s_shape :: "SStore \<Rightarrow> bool" where
  "s_shape V \<longleftrightarrow> length (s_blocks V) < 2 ^ 45 \<and>
    (\<forall>b < length (s_blocks V). length (s_blocks V ! b) = NUM_DIMMS \<and> (\<forall>p < NUM_DIMMS. page_ok (s_page V b p)))"

definition on_page :: "SStore \<Rightarrow> nat \<Rightarrow> nat \<Rightarrow> bool" where
  "on_page V b p \<longleftrightarrow> b < length (s_blocks V) \<and> p < NUM_DIMMS"

definition byte :: "SStore \<Rightarrow> loc \<Rightarrow> u8" where
  "byte V x = (case x of (b, p, j) \<Rightarrow> sp_data (s_page V b p) ! j)"

definition written :: "SStore \<Rightarrow> loc \<Rightarrow> bool" where
  "written V x = (case x of (b, p, j) \<Rightarrow> on_page V b p \<and> j < unat (next_insert_offset (s_page V b p)))"

fun extent :: "loc \<Rightarrow> srec \<Rightarrow> loc set" where
  "extent (b, p, i) (k, v, split) =
    (if split then {(b, p, j) | j. i \<le> j \<and> j < i + meta_size + length k} \<union> {(b, p + 1, j) | j. j < meta_size + length v}
     else {(b, p, j) | j. i \<le> j \<and> j < i + meta_size + length k + length v})"

fun holds_at :: "SStore \<Rightarrow> loc \<Rightarrow> srec \<Rightarrow> bool" where
  "holds_at V (b, p, i) (k, v, split) \<longleftrightarrow>
    (let d = sp_data (s_page V b p); d' = sp_data (s_page V b (p + 1)); h = header_at d i
     in on_page V b p \<and> unat (key_size h) = length k \<and> slice d (i + meta_size) (length k) = k \<and> 0 < length v
        \<and> (if split then value_size h = 0 \<and> on_page V b (p + 1) \<and> unat (value_size (header_at d' 0)) = length v
             \<and> slice d' meta_size (length v) = v
           else unat (value_size h) = length v \<and> slice d (i + meta_size + length k) (length v) = v))"

lemma s_page_upd:
  "s_shape V \<Longrightarrow> on_page V b p \<Longrightarrow> s_page (s_upd b p f V) b' p' = (if b' = b \<and> p' = p then f (s_page V b p) else s_page V b' p')"
  by (auto simp: s_page_def s_upd_def on_page_def s_shape_def nth_list_update)

lemma s_upd_fields [simp]:
  "length (s_blocks (s_upd b p f V)) = length (s_blocks V)" "s_cursor (s_upd b p f V) = s_cursor V"
  "s_map (s_upd b p f V) = s_map V" "on_page (s_upd b p f V) = on_page V"
  by (auto simp: s_upd_def on_page_def fun_eq_iff)

lemma s_upd_shape:
  assumes "s_shape V" "on_page V b p" "page_ok (f (s_page V b p))"
  shows "s_shape (s_upd b p f V)"
proof -
  have "length (s_blocks (s_upd b p f V) ! b') = length (s_blocks V ! b')" for b'
    using assms(2) by (auto simp: s_upd_def on_page_def nth_list_update)
  then show ?thesis using assms by (simp add: s_shape_def s_page_upd [OF assms(1,2)])
qed

lemma sshape_page: "s_shape V \<Longrightarrow> on_page V b p \<Longrightarrow> page_ok (s_page V b p)"
  by (simp add: s_shape_def on_page_def)

lemma extent_bounds:
  assumes "s_shape V" "\<And>x. x \<in> extent (b, p, i) (k, v, split) \<Longrightarrow> written V x"
  shows "i + meta_size + length k + (if split then 0 else length v) \<le> DATA_SIZE
    \<and> (split \<longrightarrow> meta_size + length v \<le> DATA_SIZE)"
proof -
  let ?n = "i + meta_size + length k + (if split then 0 else length v)"
  have "(b, p, ?n - 1) \<in> extent (b, p, i) (k, v, split)" by (auto simp: sizes)
  from assms(2) [OF this] have 1: "?n - 1 < DATA_SIZE"
    using assms(1) by (auto simp: written_def page_ok_def dest!: sshape_page)
  have 2: "meta_size + length v - 1 < DATA_SIZE" if split
  proof -
    have "(b, p + 1, meta_size + length v - 1) \<in> extent (b, p, i) (k, v, split)" using that by (auto simp: sizes)
    from assms(2) [OF this] show ?thesis using assms(1) by (auto simp: written_def page_ok_def dest!: sshape_page)
  qed
  show ?thesis using 1 2 by (auto simp: sizes)
qed

text \<open>What is read at a position depends on the bytes of the extent only.\<close>

lemma holds_at_cong:
  assumes h: "holds_at V loc r" and sh: "s_shape V" "s_shape V'"
    and same: "\<And>x. x \<in> extent loc r \<Longrightarrow> written V x \<and> written V' x \<and> byte V' x = byte V x"
  shows "holds_at V' loc r"
proof -
  obtain b p i k v split where lr: "loc = (b, p, i)" "r = (k, v, split)" by (cases loc, cases r) auto
  let ?d = "sp_data (s_page V b p)" and ?d' = "sp_data (s_page V' b p)"
  let ?e = "sp_data (s_page V b (p + 1))" and ?e' = "sp_data (s_page V' b (p + 1))"
  let ?n = "meta_size + length k + (if split then 0 else length v)"
  have bd: "i + ?n \<le> DATA_SIZE" "split \<longrightarrow> meta_size + length v \<le> DATA_SIZE"
    using extent_bounds [OF sh(1), of b p i k v split] same lr by (auto simp: add.assoc)
  have on: "on_page V b p" "on_page V' b p" using same [of "(b, p, i)"] lr by (auto simp: written_def sizes)
  have on2: "on_page V b (p + 1)" "on_page V' b (p + 1)" if split
    using same [of "(b, p + 1, 0)"] lr that by (auto simp: written_def sizes)
  have len: "length ?d = DATA_SIZE" "length ?d' = DATA_SIZE"
    using sshape_page [OF sh(1) on(1)] sshape_page [OF sh(2) on(2)] by (simp_all add: page_ok_def)
  have len2: "length ?e = DATA_SIZE" "length ?e' = DATA_SIZE" if split
    using sshape_page [OF sh(1) on2(1)] sshape_page [OF sh(2) on2(2)] that by (simp_all add: page_ok_def)
  have d: "?d' ! j = ?d ! j" if "i \<le> j" "j < i + ?n" for j
    using same [of "(b, p, j)"] lr that by (cases split) (auto simp: byte_def)
  have e: "?e' ! j = ?e ! j" if split "j < meta_size + length v" for j
    using same [of "(b, p + 1, j)"] lr that by (auto simp: byte_def)
  have hd: "header_at ?d' i = header_at ?d i" using bd d len by (intro header_at_cong) (auto simp: sizes)
  have sd: "slice ?d' (i + x) n = slice ?d (i + x) n" if "x + n \<le> ?n" for x n
    using that bd d len by (intro slice_cong) (auto simp: sizes)
  have he: "header_at ?e' 0 = header_at ?e 0" if split using bd e len2 that by (intro header_at_cong) (auto simp: sizes)
  have se: "slice ?e' meta_size (length v) = slice ?e meta_size (length v)" if split
    using bd e len2 that by (intro slice_cong) (auto simp: sizes)
  show ?thesis
    using h lr on on2 hd he se sd [of meta_size "length k"] sd [of "meta_size + length k" "length v"]
    by (cases split) (simp_all add: Let_def add.assoc)
qed

lemma holds_read:
  assumes "holds_at V (b, p, i) (k, v, split)" "s_shape V" "i < 65536"
  shows "s_entry V (make_offset b p i) = (k, Some v)" "locate (make_offset b p i) = (b, p, i)" "\<not> is_tombstone (make_offset b p i)"
proof -
  have on: "on_page V b p" using assms(1) by (simp add: Let_def)
  then show l: "locate (make_offset b p i) = (b, p, i)"
    using assms(2,3) by (intro locate_make) (auto simp: on_page_def s_shape_def sizes)
  show "\<not> is_tombstone (make_offset b p i)"
  proof
    assume "is_tombstone (make_offset b p i)"
    then have "make_offset b p i = INVALID_OFFSET" by (simp add: is_tombstone_def)
    then have "p = 7" using l by (simp add: locate_def get_offsets_def page_number_def INVALID_OFFSET_def)
    then show False using on by (simp add: on_page_def sizes)
  qed
  show "s_entry V (make_offset b p i) = (k, Some v)"
  proof (cases split)
    case True
    then show ?thesis using assms(1)
      by (simp add: s_entry_def l Let_def raw_key_def next_page_value_def on_page_def)
  next
    case False
    then have "value_size (header_at (sp_data (s_page V b p)) i) \<noteq> 0" using assms(1) by (auto simp: Let_def)
    with False assms(1) show ?thesis by (simp add: s_entry_def l Let_def raw_key_def raw_value_def)
  qed
qed

section \<open>Clients and the invariant\<close>

definition s_client :: "SStore \<Rightarrow> VClient \<Rightarrow> bool" where
  "s_client V C \<longleftrightarrow> v_block C = Some (v_block_number C) \<and> on_page V (v_block_number C) (v_page_number C)
    \<and> v_block_number C < s_cursor V \<and> num_v_pages_processed C = v_page_number C"

text \<open>Positions that a client has not yet reached in its block, and blocks nobody has claimed, hold nothing.\<close>

definition behind :: "VClient \<Rightarrow> loc \<Rightarrow> bool" where
  "behind C x \<longleftrightarrow> (fst x = v_block_number C \<longrightarrow> fst (snd x) \<le> v_page_number C)"

definition settled :: "SStore \<Rightarrow> VClient \<Rightarrow> loc \<Rightarrow> bool" where
  "settled V C x \<longleftrightarrow> written V x \<and> fst x < s_cursor V \<and> behind C x"

definition keeps_settled :: "VClient \<Rightarrow> SStore \<Rightarrow> SStore \<Rightarrow> bool" where
  "keeps_settled C V V' \<longleftrightarrow> (\<forall>x. settled V C x \<longrightarrow> written V' x \<and> byte V' x = byte V x)"

text \<open>The offset map: every entry names a record.\<close>

definition cceh_values :: "CCEH \<Rightarrow> u64 set" where
  "cceh_values m = (\<Union>s \<in> set (heap m). p_value ` set (seg_slots s))"

definition offset_of :: "loc \<Rightarrow> u64" where
  "offset_of x = (case x of (b, p, i) \<Rightarrow> make_offset b p i)"

definition string_ok :: "SStore \<Rightarrow> VClient list \<Rightarrow> (loc \<rightharpoonup> srec) \<Rightarrow> bool" where
  "string_ok V Cs R \<longleftrightarrow>
     s_shape V \<and> cceh_wf (s_map V) \<and> distinct (map v_block_number Cs) \<and> (\<forall>C \<in> set Cs. s_client V C)
     \<and> (\<forall>loc r. R loc = Some r \<longrightarrow> holds_at V loc r \<and> (\<forall>x \<in> extent loc r. \<forall>C \<in> set Cs. settled V C x))
     \<and> (\<forall>loc loc' r r'. R loc = Some r \<longrightarrow> R loc' = Some r' \<longrightarrow> loc \<noteq> loc' \<longrightarrow> extent loc r \<inter> extent loc' r' = {})
     \<and> cceh_values (s_map V) \<subseteq> insert Tombstone (offset_of ` dom R)"

lemma string_okD:
  assumes "string_ok V Cs R"
  shows "s_shape V" "cceh_wf (s_map V)" "distinct (map v_block_number Cs)" "C \<in> set Cs \<Longrightarrow> s_client V C"
    "R loc = Some r \<Longrightarrow> holds_at V loc r" "R loc = Some r \<Longrightarrow> x \<in> extent loc r \<Longrightarrow> C \<in> set Cs \<Longrightarrow> settled V C x"
    "R loc = Some r \<Longrightarrow> R loc' = Some r' \<Longrightarrow> loc \<noteq> loc' \<Longrightarrow> extent loc r \<inter> extent loc' r' = {}"
    "cceh_values (s_map V) \<subseteq> insert Tombstone (offset_of ` dom R)"
  using assms unfolding string_ok_def by blast+

lemma string_okI:
  assumes "s_shape V" "cceh_wf (s_map V)" "distinct (map v_block_number Cs)" "\<And>C. C \<in> set Cs \<Longrightarrow> s_client V C"
    and "\<And>loc r. R loc = Some r \<Longrightarrow> holds_at V loc r"
    and "\<And>loc r x C. R loc = Some r \<Longrightarrow> x \<in> extent loc r \<Longrightarrow> C \<in> set Cs \<Longrightarrow> settled V C x"
    and "\<And>loc loc' r r'. R loc = Some r \<Longrightarrow> R loc' = Some r' \<Longrightarrow> loc \<noteq> loc' \<Longrightarrow> extent loc r \<inter> extent loc' r' = {}"
    and "cceh_values (s_map V) \<subseteq> insert Tombstone (offset_of ` dom R)"
  shows "string_ok V Cs R"
  using assms unfolding string_ok_def by blast

section \<open>Moving to the next page\<close>

lemma page_ok_simps [simp]:
  "page_ok (set_lock f pg) = page_ok pg" "page_ok pg \<Longrightarrow> page_ok (s_init pg)"
  "page_ok (fill_page pg) \<longleftrightarrow> length (sp_data pg) = DATA_SIZE"
  "sp_data (set_lock f pg) = sp_data pg" "next_insert_offset (set_lock f pg) = next_insert_offset pg"
  "sp_data (s_init pg) = sp_data pg" "next_insert_offset (s_init pg) = 0" "sp_lock (s_init pg) = USED_BIT"
  "sp_lock (set_lock f pg) = f (sp_lock pg)"
  by (simp_all add: page_ok_def set_lock_def s_init_def fill_page_def sizes)

text \<open>Pages a client may still have in front of it, or in unclaimed blocks.\<close>

definition fresh_page :: "SStore \<Rightarrow> VClient \<Rightarrow> nat \<Rightarrow> nat \<Rightarrow> bool" where
  "fresh_page V C b p \<longleftrightarrow> s_cursor V \<le> b \<or> b = v_block_number C \<and> v_page_number C < p"

definition no_new_locks :: "SStore \<Rightarrow> SStore \<Rightarrow> bool" where
  "no_new_locks V V' \<longleftrightarrow>
    (\<forall>b p. on_page V b p \<longrightarrow> IS_LOCKED (sp_lock (s_page V' b p)) \<longrightarrow> IS_LOCKED (sp_lock (s_page V b p)))"

definition moved :: "SStore \<Rightarrow> VClient \<Rightarrow> SStore \<Rightarrow> VClient \<Rightarrow> bool" where
  "moved V C V1 C1 \<longleftrightarrow>
     s_shape V1 \<and> length (s_blocks V1) = length (s_blocks V) \<and> s_map V1 = s_map V \<and> s_cursor V \<le> s_cursor V1
     \<and> s_client V1 C1 \<and> fresh_page V C (v_block_number C1) (v_page_number C1)
     \<and> (v_block_number C1 = v_block_number C \<and> v_page_number C1 = v_page_number C + 1
        \<or> v_block_number C1 = s_cursor V)
     \<and> sp_lock (s_page V1 (v_block_number C1) (v_page_number C1)) = USED_BIT
     \<and> next_insert_offset (s_page V1 (v_block_number C1) (v_page_number C1)) = 0 \<and> no_new_locks V V1
     \<and> sp_lock (s_page V1 (v_block_number C) (v_page_number C)) = sp_lock (s_page V (v_block_number C) (v_page_number C))
     \<and> (\<forall>b p. (b, p) \<noteq> (v_block_number C1, v_page_number C1) \<longrightarrow>
          sp_data (s_page V1 b p) = sp_data (s_page V b p) \<and> next_insert_offset (s_page V1 b p) = next_insert_offset (s_page V b p))"

lemma update_var_effect:
  assumes sh: "s_shape V" and C: "s_client V C" and run: "update_var_size_page_information None V C = Inr (V1, C1)"
  shows "moved V C V1 C1"
proof (cases "num_v_pages_processed C + 1 = NUM_DIMMS")
  case False
  let ?b = "v_block_number C" and ?p = "v_page_number C + 1"
  have on: "on_page V ?b ?p" "?p < NUM_DIMMS" using C False by (auto simp: s_client_def on_page_def)
  then have C1: "C1 = C\<lparr>num_v_pages_processed := ?p, v_page_number := ?p\<rparr>" and V1: "V1 = s_upd ?b ?p (\<lambda>pg. (s_init pg)\<lparr>next_insert_offset := 0\<rparr>) V"
    using run False C by (auto simp: update_var_size_page_information_def Let_def s_client_def)
  have "page_ok ((s_init (s_page V ?b ?p))\<lparr>next_insert_offset := 0\<rparr>)" using sshape_page [OF sh on(1)] by (simp add: page_ok_def)
  then have "s_shape V1" unfolding V1 by (rule s_upd_shape [OF sh on(1)])
  then show ?thesis using C on by (auto simp: moved_def no_new_locks_def C1 V1 s_client_def fresh_page_def s_page_upd [OF sh on(1) [unfolded Suc_eq_plus1 [symmetric]]])
next
  case True
  let ?b = "s_cursor V" and ?own = "v_block_number C"
  have cur: "?b < length (s_blocks V)" "C1 = C\<lparr>num_v_pages_processed := 0, v_page_number := 0, v_block_number := ?b, v_block := Some ?b,
      op_count := 0, size_delta := 0, num_reclaimable_ops := 0\<rparr>"
    using run True by (auto simp: update_var_size_page_information_def Let_def s_get_access_def s_info_sync_def
        s_get_new_block_def s_take_block_def split: if_splits)
  define Va where "Va = V\<lparr>s_size := s_size V + size_delta C, s_cursor := ?b + 1\<rparr>"
  define Vb where "Vb = s_upd ?own 0 (set_lock (\<lambda>w. w AND NO_CLIENT_BIT)) Va"
  define Vc where "Vc = s_upd ?b 0 s_init Vb"
  define Vd where "Vd = s_upd ?b 0 (set_lock (\<lambda>w. w OR CLIENT_BIT)) Vc"
  define Ve where "Ve = Vd\<lparr>s_used := max (s_used Vd) (?b + 1)\<rparr>"
  have V1: "V1 = s_upd ?b 0 (\<lambda>pg. (s_init pg)\<lparr>next_insert_offset := 0\<rparr>) Ve"
    using run True cur C by (auto simp: update_var_size_page_information_def Let_def s_get_access_def s_info_sync_def
        s_get_new_block_def s_take_block_def s_drop_owner_def s_client_def Va_def Vb_def Vc_def Vd_def Ve_def split: if_splits)
  have a: "s_shape Va" "s_page Va = s_page V" using sh by (auto simp: Va_def s_shape_def s_page_def fun_eq_iff)
  have on: "on_page Va ?own 0" "on_page Va ?b 0" using C cur(1) by (auto simp: Va_def s_client_def on_page_def sizes)
  have b: "s_shape Vb" unfolding Vb_def using sshape_page [OF a(1) on(1)] by (intro s_upd_shape [OF a(1) on(1)]) simp
  have onb: "on_page Vb ?b 0" using on(2) by (simp add: Vb_def)
  have c: "s_shape Vc" unfolding Vc_def using sshape_page [OF b onb] by (intro s_upd_shape [OF b onb]) simp
  have onc: "on_page Vc ?b 0" using onb by (simp add: Vc_def)
  have d: "s_shape Vd" unfolding Vd_def using sshape_page [OF c onc] by (intro s_upd_shape [OF c onc]) simp
  have e: "s_shape Ve" "s_page Ve = s_page Vd" "on_page Ve ?b 0"
    using d onc by (auto simp: Ve_def Vd_def s_shape_def s_page_def fun_eq_iff on_page_def)
  have f: "s_shape V1" unfolding V1
    using sshape_page [OF e(1,3)] by (intro s_upd_shape [OF e(1,3)]) (simp add: page_ok_def)
  have pg: "s_page V1 b' p' = (if b' = ?b \<and> p' = 0 then (s_init (s_page Ve ?b 0))\<lparr>next_insert_offset := 0\<rparr>
      else if b' = ?own \<and> p' = 0 then set_lock (\<lambda>w. w AND NO_CLIENT_BIT) (s_page V b' p') else s_page V b' p')" for b' p'
  proof -
    have "s_page Vd b' p' = (if b' = ?b \<and> p' = 0 then set_lock (\<lambda>w. w OR CLIENT_BIT) (s_page Vc ?b 0) else s_page Vc b' p')"
      "s_page Vc b' p' = (if b' = ?b \<and> p' = 0 then s_init (s_page Vb ?b 0) else s_page Vb b' p')"
      "s_page Vb b' p' = (if b' = ?own \<and> p' = 0 then set_lock (\<lambda>w. w AND NO_CLIENT_BIT) (s_page V ?own 0) else s_page V b' p')"
      using s_page_upd [OF c onc] s_page_upd [OF b onb] s_page_upd [OF a(1) on(1)] by (simp_all add: Vd_def Vc_def Vb_def a(2))
    then show ?thesis using C unfolding V1 s_page_upd [OF e(1,3)] e(2) by (auto simp: s_client_def)
  qed
  have "v_page_number C \<noteq> 0" using True C by (auto simp: s_client_def sizes)
  moreover have "length (s_blocks V1) = length (s_blocks V)" "s_map V1 = s_map V" "s_cursor V1 = ?b + 1"
    by (simp_all add: V1 Ve_def Vd_def Vc_def Vb_def Va_def)
  ultimately show ?thesis using f C cur
    by (auto simp: moved_def no_new_locks_def pg s_client_def fresh_page_def on_page_def sizes)
qed

lemma moved_keeps:
  assumes "moved V C V1 C1" "s_client V C"
  shows "keeps_settled C V V1"
proof -
  have "(b, p) \<noteq> (v_block_number C1, v_page_number C1)" if "settled V C (b, p, j)" for b p j
    using that assms by (auto simp: moved_def settled_def fresh_page_def behind_def)
  then show ?thesis using assms(1) by (auto simp: keeps_settled_def settled_def written_def byte_def moved_def on_page_def)
qed

section \<open>Placing a record\<close>

lemma s_upd_upd:
  "s_shape V \<Longrightarrow> on_page V b p \<Longrightarrow> s_upd b p g (s_upd b p f V) = s_upd b p (\<lambda>pg. g (f pg)) V"
  by (auto simp: s_upd_def on_page_def s_shape_def)

lemma poke_page_simps [simp]:
  "sp_data (poke_page i bs pg) = poke i bs (sp_data pg)" "next_insert_offset (poke_page i bs pg) = next_insert_offset pg"
  "sp_lock (poke_page i bs pg) = sp_lock pg" "sp_data (bump n pg) = sp_data pg" "sp_lock (bump n pg) = sp_lock pg"
  "next_insert_offset (bump n pg) = next_insert_offset pg + of_nat n"
  "sp_data (fill_page pg) = sp_data pg" "sp_lock (fill_page pg) = sp_lock pg"
  "unat (next_insert_offset (fill_page pg)) = DATA_SIZE"
  by (simp_all add: poke_page_def bump_def fill_page_def sizes)

lemma unat_bump:
  "unat w + n \<le> DATA_SIZE \<Longrightarrow> unat (w + of_nat n :: u16) = unat w + n"
  by (simp add: unat_word_ariths unat_of_nat sizes)

text \<open>A record written as a whole, and one in two pieces, read back.\<close>

lemma poke_nth_above: "i + length bs \<le> length d \<Longrightarrow> j < i \<Longrightarrow> poke i bs d ! j = d ! j"
  by (simp add: poke_nth)

lemma whole_record:
  assumes "i + length bs \<le> length d" "bs = header (new_entry (length k) (length v)) @ k @ v"
    and "length k < 2 ^ 15" "length v < 2 ^ 16"
  shows "unat (key_size (header_at (poke i bs d) i)) = length k" "unat (value_size (header_at (poke i bs d) i)) = length v"
    "slice (poke i bs d) (i + meta_size) (length k) = k" "slice (poke i bs d) (i + meta_size + length k) (length v) = v"
proof -
  note n = new_entry_sizes [OF assms(3,4)]
  show "unat (key_size (header_at (poke i bs d) i)) = length k" "unat (value_size (header_at (poke i bs d) i)) = length v"
    using header_at_poke [OF assms(1,2)] n by simp_all
  have "length bs = meta_size + length k + length v" by (simp add: assms(2))
  then show "slice (poke i bs d) (i + meta_size) (length k) = k" "slice (poke i bs d) (i + meta_size + length k) (length v) = v"
    using slice_poke [OF assms(1), of meta_size "length k"] slice_poke [OF assms(1), of "meta_size + length k" "length v"]
    by (simp_all add: assms(2) slice_append2 add.assoc slice_def)
qed

definition place_done :: "SStore \<Rightarrow> VClient \<Rightarrow> bytes \<Rightarrow> bytes \<Rightarrow> u64 \<Rightarrow> SStore \<Rightarrow> VClient \<Rightarrow> loc \<Rightarrow> bool \<Rightarrow> bool" where
  "place_done V C key val off V' C' loc split \<longleftrightarrow>
     off = offset_of loc \<and> snd (snd loc) < 65536
     \<and> s_shape V' \<and> length (s_blocks V') = length (s_blocks V) \<and> s_map V' = s_map V \<and> s_cursor V \<le> s_cursor V'
     \<and> s_client V' C' \<and> keeps_settled C V V' \<and> holds_at V' loc (key, val, split)
     \<and> (\<forall>x \<in> extent loc (key, val, split). \<not> settled V C x \<and> settled V' C' x \<and> (fst x = v_block_number C \<or> fst x = s_cursor V))
     \<and> (v_block_number C' = v_block_number C \<and> v_page_number C \<le> v_page_number C' \<or> v_block_number C' = s_cursor V)
     \<and> sp_lock (s_page V' (v_block_number C) (v_page_number C)) = sp_lock (s_page V (v_block_number C) (v_page_number C))
     \<and> no_new_locks V V'"

lemma place_here:
  fixes key val :: bytes
  assumes sh: "s_shape V" and C: "s_client V C"
    and i: "i = unat (next_insert_offset (s_page V (v_block_number C) (v_page_number C)))"
    and fit: "i + (meta_size + (length key + length val)) \<le> DATA_SIZE" and ne: "0 < length val"
  shows "place_done V C key val (make_offset (v_block_number C) (v_page_number C) i)
    (s_upd (v_block_number C) (v_page_number C) (bump (meta_size + (length key + length val)))
      (s_upd (v_block_number C) (v_page_number C) (poke_page i (header (new_entry (length key) (length val)) @ key @ val)) V)) C
    (v_block_number C, v_page_number C, i) False"
proof -
  let ?b = "v_block_number C" and ?p = "v_page_number C" and ?bs = "header (new_entry (length key) (length val)) @ key @ val"
  let ?n = "meta_size + (length key + length val)" and ?pg = "s_page V ?b ?p"
  let ?g = "\<lambda>pg. bump ?n (poke_page i ?bs pg)" and ?V = "s_upd ?b ?p (\<lambda>pg. bump ?n (poke_page i ?bs pg)) V"
  have on: "on_page V ?b ?p" using C by (simp add: s_client_def)
  have ok: "length (sp_data ?pg) = DATA_SIZE" using sshape_page [OF sh on] by (simp add: page_ok_def)
  have nx: "unat (next_insert_offset (?g ?pg)) = i + ?n" using unat_bump [of "next_insert_offset ?pg" ?n] fit i by simp
  have len: "i + length ?bs \<le> length (sp_data ?pg)" using fit ok by simp
  have sh': "s_shape ?V" using len fit ok nx by (intro s_upd_shape [OF sh on]) (simp add: page_ok_def)
  note pg = s_page_upd [OF sh on, of ?g]
  have keep: "keeps_settled C V ?V"
    using nx len ok by (auto simp: keeps_settled_def settled_def written_def byte_def pg poke_nth_above i [symmetric])
  have k: "length key < 2 ^ 15" "length val < 2 ^ 16" using fit by (simp_all add: sizes)
  have "holds_at ?V (?b, ?p, i) (key, val, False)"
    using whole_record [OF len refl k] ne on by (simp add: Let_def pg)
  moreover have "\<not> settled V C x \<and> settled ?V C x \<and> fst x = ?b" if "x \<in> extent (?b, ?p, i) (key, val, False)" for x
    using that nx on C by (auto simp: settled_def written_def behind_def pg s_client_def i [symmetric])
  moreover have "s_client ?V C" using C by (simp add: s_client_def)
  moreover have "i < 65536" using fit by (simp add: sizes)
  ultimately show ?thesis
    using sh' keep by (auto simp: place_done_def no_new_locks_def offset_of_def s_upd_upd [OF sh on] pg)
qed

text \<open>A write that fills the old page from its insert offset on and starts the new one.\<close>

lemma two_pages:
  assumes sh: "s_shape V" and C: "s_client V C" and mv: "moved V C V1 C1"
    and b: "b = v_block_number C" and p: "p = v_page_number C" and b1: "b1 = v_block_number C1" and p1: "p1 = v_page_number C1"
    and i: "i = unat (next_insert_offset (s_page V b p))"
    and A: "length (sp_data (f (s_page V1 b p))) = DATA_SIZE" "unat (next_insert_offset (f (s_page V1 b p))) = DATA_SIZE"
      "\<And>j. j < i \<Longrightarrow> sp_data (f (s_page V1 b p)) ! j = sp_data (s_page V b p) ! j" "sp_lock (f (s_page V1 b p)) = sp_lock (s_page V1 b p)"
    and B: "page_ok (g (s_page V1 b1 p1))" "sp_lock (g (s_page V1 b1 p1)) = sp_lock (s_page V1 b1 p1)"
    and V': "V' = s_upd b1 p1 g (s_upd b p f V1)"
  shows "s_shape V'" "keeps_settled C V V'" "s_client V' C1" "length (s_blocks V') = length (s_blocks V)" "s_map V' = s_map V"
    "s_cursor V' = s_cursor V1" "s_page V' b p = f (s_page V1 b p)" "s_page V' b1 p1 = g (s_page V1 b1 p1)" "(b1, p1) \<noteq> (b, p)"
    "on_page V' b p" "on_page V' b1 p1" "\<And>j. \<not> settled V C (b1, p1, j)" "\<And>j. i \<le> j \<Longrightarrow> \<not> settled V C (b, p, j)"
    "sp_lock (s_page V' b p) = sp_lock (s_page V b p)" "no_new_locks V V'"
proof -
  have sh1: "s_shape V1" and on: "on_page V1 b p" "on_page V1 b1 p1"
    using mv C by (auto simp: moved_def s_client_def b p b1 p1 on_page_def)
  show ne: "(b1, p1) \<noteq> (b, p)" using mv C by (auto simp: moved_def fresh_page_def s_client_def b p b1 p1)
  have sh2: "s_shape (s_upd b p f V1)" using A by (intro s_upd_shape [OF sh1 on(1)]) (simp add: page_ok_def)
  have on2: "on_page (s_upd b p f V1) b1 p1" using on(2) by simp
  have pg: "s_page V' b' p' = (if b' = b1 \<and> p' = p1 then g (s_page V1 b1 p1) else if b' = b \<and> p' = p then f (s_page V1 b p) else s_page V1 b' p')" for b' p'
    using ne unfolding V' s_page_upd [OF sh2 on2] s_page_upd [OF sh1 on(1)] by auto
  show "s_shape V'" unfolding V' using B(1) ne by (intro s_upd_shape [OF sh2 on2]) (auto simp: s_page_upd [OF sh1 on(1)])
  show flds: "length (s_blocks V') = length (s_blocks V)" "s_map V' = s_map V" "s_cursor V' = s_cursor V1"
    using mv by (simp_all add: V' moved_def)
  show "s_page V' b p = f (s_page V1 b p)" "s_page V' b1 p1 = g (s_page V1 b1 p1)" using ne by (auto simp: pg)
  show "on_page V' b p" "on_page V' b1 p1" using on flds(1) mv by (simp_all add: on_page_def moved_def)
  show ns: "\<not> settled V C (b1, p1, j)" for j
    using mv C by (auto simp: moved_def fresh_page_def settled_def behind_def s_client_def b1 p1)
  show "\<not> settled V C (b, p, j)" if "i \<le> j" for j using that by (simp add: settled_def written_def i [symmetric])
  show "s_client V' C1" using mv flds by (simp add: moved_def s_client_def on_page_def)
  show "sp_lock (s_page V' b p) = sp_lock (s_page V b p)" using mv ne A(4) by (auto simp: pg moved_def b p)
  show "no_new_locks V V'" using mv A(4) B(2) by (auto simp: no_new_locks_def pg moved_def)
  have same: "sp_data (s_page V1 b' p') = sp_data (s_page V b' p') \<and> next_insert_offset (s_page V1 b' p') = next_insert_offset (s_page V b' p')"
    if "(b', p') \<noteq> (b1, p1)" for b' p' using mv that by (auto simp: moved_def b1 p1)
  show "keeps_settled C V V'"
    unfolding keeps_settled_def
  proof (intro allI impI)
    fix x assume x: "settled V C x"
    obtain b' p' j where x': "x = (b', p', j)" by (cases x)
    have n1: "(b', p') \<noteq> (b1, p1)" using x ns x' by blast
    have j: "j < unat (next_insert_offset (s_page V b' p'))" "on_page V b' p'" using x by (auto simp: x' settled_def written_def)
    have oV: "on_page V' b' p'" using j(2) flds(1) by (simp add: on_page_def)
    show "written V' x \<and> byte V' x = byte V x"
    proof (cases "(b', p') = (b, p)")
      case True
      have "j < DATA_SIZE" using j sshape_page [OF sh j(2)] by (simp add: page_ok_def)
      then show ?thesis using True j(1) oV A(2,3) n1 by (auto simp: x' written_def byte_def pg i)
    next
      case False
      then show ?thesis using n1 j(1) oV same [OF n1] by (auto simp: x' written_def byte_def pg)
    qed
  qed
qed

lemma s_upd_commute:
  assumes "(b1, p1) \<noteq> (b, p)"
  shows "s_upd b p f (s_upd b1 p1 g V) = s_upd b1 p1 g (s_upd b p f V)"
proof (cases "b1 = b")
  case True
  then have "p1 \<noteq> p" using assms by simp
  have "(s_blocks V)[b := X, b := Y] = (s_blocks V)[b := Y]" for X Y by simp
  with True \<open>p1 \<noteq> p\<close> show ?thesis
    by (cases "b < length (s_blocks V)") (simp_all add: s_upd_def list_update_swap list_update_beyond)
qed (simp add: s_upd_def list_update_swap)

lemma piece_record:
  assumes "i + length bs \<le> length d" "bs = header e @ xs" "take_bit 15 (key_size e) = key_size e"
  shows "header_at (poke i bs d) i = e" "slice (poke i bs d) (i + meta_size) (length xs) = xs"
  using header_at_poke [OF assms(1,2)] slice_poke [OF assms(1), of meta_size "length xs"] assms(2,3)
  by (simp_all add: slice_append2)

lemma place_split:
  fixes key val :: bytes
  assumes sh: "s_shape V" and C: "s_client V C" and mv: "moved V C V1 C1"
    and b: "b = v_block_number C" and p: "p = v_page_number C" and b1: "b1 = v_block_number C1" and p1: "p1 = v_page_number C1"
    and i: "i = unat (next_insert_offset (s_page V b p))"
    and fit: "i + (meta_size + length key) \<le> DATA_SIZE" "meta_size + length val \<le> DATA_SIZE" and ne: "0 < length val" and same: "b1 = b"
    and V': "V' = s_upd b1 p1 (bump (meta_size + length val)) (s_upd b p fill_page
      (s_upd b p (poke_page i (header ((new_entry (length key) (length val))\<lparr>value_size := 0\<rparr>) @ key))
        (s_upd b1 p1 (poke_page 0 (header (new_entry 0 (length val)) @ val)) V1)))"
  shows "place_done V C key val (make_offset b p i) V' C1 (b, p, i) True"
proof -
  let ?e = "(new_entry (length key) (length val))\<lparr>value_size := 0\<rparr>" and ?e' = "new_entry 0 (length val)"
  let ?f = "\<lambda>pg. fill_page (poke_page i (header ?e @ key) pg)" and ?g = "\<lambda>pg. bump (meta_size + length val) (poke_page 0 (header ?e' @ val) pg)"
  have sh1: "s_shape V1" and on: "on_page V1 b p" "on_page V1 b1 p1" and p1': "p1 = p + 1"
    using mv C same by (auto simp: moved_def s_client_def b p b1 p1 on_page_def)
  have nx1: "next_insert_offset (s_page V1 b1 p1) = 0" and d1: "sp_data (s_page V1 b p) = sp_data (s_page V b p)"
    using mv p1' by (auto simp: moved_def b p b1 p1)
  have len: "length (sp_data (s_page V1 b p)) = DATA_SIZE" "length (sp_data (s_page V1 b1 p1)) = DATA_SIZE"
    using sshape_page [OF sh1 on(1)] sshape_page [OF sh1 on(2)] by (simp_all add: page_ok_def)
  have bs: "i + length (header ?e @ key) \<le> length (sp_data (s_page V1 b p))" "0 + length (header ?e' @ val) \<le> length (sp_data (s_page V1 b1 p1))"
    using fit len by simp_all
  have nx: "unat (next_insert_offset (?g (s_page V1 b1 p1))) = meta_size + length val"
    using unat_bump [of 0 "meta_size + length val"] fit(2) by (simp add: nx1)
  have sw: "V' = s_upd b1 p1 ?g (s_upd b p ?f V1)"
  proof -
    have n: "(b1, p1) \<noteq> (b, p)" using p1' by simp
    have s: "s_shape (s_upd b p ?f V1)" "on_page (s_upd b p ?f V1) b1 p1"
      using on len bs(1) by (auto intro!: s_upd_shape [OF sh1 on(1)])
    show ?thesis unfolding V' s_upd_commute [OF n] s_upd_upd [OF sh1 on(1)] s_upd_upd [OF s] ..
  qed
  have k: "length key < 2 ^ 15" "length val < 2 ^ 16" using fit by (simp_all add: sizes)
  note T = two_pages [OF sh C mv b p b1 p1 i, where f = ?f and g = ?g, OF _ _ _ _ _ _ sw, simplified]
  have T1: "length (poke i (header ?e @ key) (sp_data (s_page V1 b p))) = DATA_SIZE" using bs len by simp
  have T2: "poke i (header ?e @ key) (sp_data (s_page V1 b p)) ! j = sp_data (s_page V b p) ! j" if "j < i" for j
    using poke_nth_above [OF bs(1) that] by (simp add: d1)
  have T3: "page_ok (?g (s_page V1 b1 p1))" using bs len nx fit(2) by (simp add: page_ok_def)
  note T = T [OF T1 T2 T3]
  note k1 = piece_record [OF bs(1) refl] and v1 = piece_record [OF bs(2) refl]
  have tb: "take_bit 15 (key_size ?e) = key_size ?e" "take_bit 15 (key_size ?e') = key_size ?e'"
    "unat (key_size ?e) = length key" "unat (value_size ?e') = length val"
    using new_entry_sizes [OF k] new_entry_sizes [of 0 "length val"] k by simp_all
  have h: "holds_at V' (b, p, i) (key, val, True)"
    using k1 v1 tb ne T(7,8,10,11) same p1' by (simp add: Let_def)
  have "\<not> settled V C x \<and> settled V' C1 x \<and> fst x = b" if x: "x \<in> extent (b, p, i) (key, val, True)" for x
  proof -
    obtain q j where x': "x = (b, q, j)" "q = p \<and> i \<le> j \<and> j < i + meta_size + length key \<or> q = p1 \<and> j < meta_size + length val"
      using x p1' by auto
    have "written V' x" using x' T(7,8,10,11) nx fit(1) same by (auto simp: written_def)
    moreover have "b < s_cursor V'" "behind C1 x" using T(3) x' same p1' by (auto simp: s_client_def behind_def b1 p1)
    ultimately show ?thesis using x' T(12,13) same by (auto simp: settled_def)
  qed
  moreover have "i < 65536" using fit by (simp add: sizes)
  ultimately show ?thesis
    using T(1-6,14,15) h mv p1' same by (auto simp: place_done_def offset_of_def moved_def b p b1 p1)
qed

lemma place_next:
  fixes key val :: bytes
  assumes sh: "s_shape V" and C: "s_client V C" and mv: "moved V C V1 C1"
    and b: "b = v_block_number C" and p: "p = v_page_number C" and b1: "b1 = v_block_number C1" and p1: "p1 = v_page_number C1"
    and i: "i = unat (next_insert_offset (s_page V b p))"
    and fit: "meta_size + (length key + length val) \<le> DATA_SIZE" and ne: "0 < length val"
    and V2: "V2 = (if i + meta_size \<le> DATA_SIZE then s_upd b p (poke_page i (header (new_entry 0 0))) V1 else V1)"
    and V': "V' = s_upd b1 p1 (bump (meta_size + (length key + length val)))
      (s_upd b1 p1 (poke_page 0 (header (new_entry (length key) (length val)) @ key @ val)) (s_upd b p fill_page V2))"
  shows "place_done V C key val (make_offset b1 p1 0) V' C1 (b1, p1, 0) False"
proof -
  let ?bs = "header (new_entry (length key) (length val)) @ key @ val" and ?n = "meta_size + (length key + length val)"
  let ?f = "\<lambda>pg. fill_page (if i + meta_size \<le> DATA_SIZE then poke_page i (header (new_entry 0 0)) pg else pg)"
  let ?g = "\<lambda>pg. bump ?n (poke_page 0 ?bs pg)"
  have sh1: "s_shape V1" and on: "on_page V1 b p" "on_page V1 b1 p1" and n: "(b1, p1) \<noteq> (b, p)"
    using mv C by (auto simp: moved_def s_client_def b p b1 p1 on_page_def fresh_page_def)
  have nx1: "next_insert_offset (s_page V1 b1 p1) = 0" and d1: "sp_data (s_page V1 b p) = sp_data (s_page V b p)"
    using mv n by (auto simp: moved_def b p b1 p1)
  have len: "length (sp_data (s_page V1 b p)) = DATA_SIZE" "length (sp_data (s_page V1 b1 p1)) = DATA_SIZE"
    using sshape_page [OF sh1 on(1)] sshape_page [OF sh1 on(2)] by (simp_all add: page_ok_def)
  have bs: "0 + length ?bs \<le> length (sp_data (s_page V1 b1 p1))" using fit len by simp
  have nx: "unat (next_insert_offset (?g (s_page V1 b1 p1))) = ?n" using unat_bump [of 0 ?n] fit by (simp add: nx1)
  have T1: "length (sp_data (?f (s_page V1 b p))) = DATA_SIZE" using len by simp
  have T2: "sp_data (?f (s_page V1 b p)) ! j = sp_data (s_page V b p) ! j" if "j < i" for j
    using poke_nth_above [of i "header (new_entry 0 0)"] that len by (simp add: d1)
  have T3: "page_ok (?g (s_page V1 b1 p1))" using bs len nx fit by (simp add: page_ok_def)
  have sw: "V' = s_upd b1 p1 ?g (s_upd b p ?f V1)"
  proof -
    have s: "s_shape (s_upd b p ?f V1)" "on_page (s_upd b p ?f V1) b1 p1"
      using on len T1 by (auto intro!: s_upd_shape [OF sh1 on(1)])
    have "s_upd b p fill_page V2 = s_upd b p ?f V1" unfolding V2 by (simp add: s_upd_upd [OF sh1 on(1)])
    then show ?thesis unfolding V' by (simp only: s_upd_upd [OF s])
  qed
  note T = two_pages [OF sh C mv b p b1 p1 i T1 _ T2 _ T3 _ sw]
  have T4: "unat (next_insert_offset (?f (s_page V1 b p))) = DATA_SIZE" "sp_lock (?f (s_page V1 b p)) = sp_lock (s_page V1 b p)"
    "sp_lock (?g (s_page V1 b1 p1)) = sp_lock (s_page V1 b1 p1)" by simp_all
  note T = T [OF T4(1) _ T4(2,3)]
  have k: "length key < 2 ^ 15" "length val < 2 ^ 16" using fit by (simp_all add: sizes)
  have h: "holds_at V' (b1, p1, 0) (key, val, False)"
    using whole_record [OF bs refl k] ne T(8,11) by (simp add: Let_def)
  have "\<not> settled V C x \<and> settled V' C1 x \<and> (fst x = v_block_number C \<or> fst x = s_cursor V)"
    if x: "x \<in> extent (b1, p1, 0) (key, val, False)" for x
  proof -
    obtain j where x': "x = (b1, p1, j)" "j < ?n" using x by auto
    have "written V' x" using x' T(8,11) nx by (simp add: written_def)
    moreover have "b1 < s_cursor V'" "behind C1 x" using T(3) x' by (auto simp: s_client_def behind_def b1 p1)
    ultimately show ?thesis using x' T(12) mv by (auto simp: settled_def moved_def b1)
  qed
  then show ?thesis
    using T(1-6,14,15) h mv by (auto simp: place_done_def offset_of_def moved_def b p b1 p1)
qed

text \<open>Whichever way it goes, a put that fits a page leaves one more readable record and touches none of
  the others.\<close>

lemma place_effect:
  fixes key val :: bytes
  assumes sh: "s_shape V" and C: "s_client V C" and fit: "meta_size + (length key + length val) \<le> DATA_SIZE" and ne: "0 < length val"
    and run: "s_place None key val V C = Inr (off, V', C')"
  shows "\<exists>loc split. place_done V C key val off V' C' loc split"
proof -
  define b where "b = v_block_number C"
  define p where "p = v_page_number C"
  define i where "i = unat (next_insert_offset (s_page V b p))"
  have k: "length key < 2 ^ 15" "length val < 2 ^ 16" using fit by (simp_all add: sizes)
  note n = new_entry_sizes [OF k]
  have big: "METADATA_SIZE + i + meta_size + x > PAGE_SIZE \<longleftrightarrow> \<not> i + (meta_size + x) \<le> DATA_SIZE" for x by (auto simp: sizes)
  have small: "METADATA_SIZE + i + meta_size + x \<le> PAGE_SIZE \<longleftrightarrow> i + (meta_size + x) \<le> DATA_SIZE"
    "METADATA_SIZE + i + meta_size \<le> PAGE_SIZE \<longleftrightarrow> i + meta_size \<le> DATA_SIZE" for x by (auto simp: sizes)
  show ?thesis
  proof (cases "i + (meta_size + (length key + length val)) \<le> DATA_SIZE")
    case True
    from place_here [OF sh C _ True ne] show ?thesis
      using run True by (auto simp: s_place_def Let_def n big b_def [symmetric] p_def [symmetric] i_def [symmetric])
  next
    case False
    then obtain V1 C1 where mv: "update_var_size_page_information None V C = Inr (V1, C1)"
      using run by (auto simp: s_place_def Let_def n big b_def [symmetric] p_def [symmetric] i_def [symmetric] split: sum.splits)
    note M = update_var_effect [OF sh C mv]
    show ?thesis
    proof (cases "i + (meta_size + length key) \<le> DATA_SIZE \<and> v_block_number C1 = b")
      case True
      have "off = make_offset b p i \<and> C' = C1 \<and> meta_size + length val \<le> DATA_SIZE \<and>
          V' = s_upd (v_block_number C1) (v_page_number C1) (bump (meta_size + length val)) (s_upd b p fill_page
            (s_upd b p (poke_page i (header ((new_entry (length key) (length val))\<lparr>value_size := 0\<rparr>) @ key))
              (s_upd (v_block_number C1) (v_page_number C1) (poke_page 0 (header (new_entry 0 (length val)) @ val)) V1)))"
        using run False True mv
        by (auto simp: s_place_def Let_def n big small b_def [symmetric] p_def [symmetric] i_def [symmetric] split: if_splits)
      with place_split [OF sh C M b_def p_def refl refl i_def _ _ ne, of key V'] True show ?thesis by blast
    next
      case False2: False
      let ?V2 = "if i + meta_size \<le> DATA_SIZE then s_upd b p (poke_page i (header (new_entry 0 0))) V1 else V1"
      have "off = make_offset (v_block_number C1) (v_page_number C1) 0 \<and> C' = C1 \<and>
          V' = s_upd (v_block_number C1) (v_page_number C1) (bump (meta_size + (length key + length val)))
            (s_upd (v_block_number C1) (v_page_number C1) (poke_page 0 (header (new_entry (length key) (length val)) @ key @ val))
              (s_upd b p fill_page ?V2))"
        using run False False2 mv
        by (auto simp: s_place_def Let_def n big small b_def [symmetric] p_def [symmetric] i_def [symmetric] split: if_splits)
      with place_next [OF sh C M b_def p_def refl refl i_def fit ne refl, of V'] show ?thesis by blast
    qed
  qed
qed

section \<open>The offsets in the map\<close>

lemma update_values: "p_value ` set qs \<subseteq> W \<Longrightarrow> p_value q \<in> W \<Longrightarrow> p_value ` set (qs[j := q]) \<subseteq> W"
  using set_update_subset_insert [of qs j q] by blast

lemma insert_loop_values:
  assumes "insert_loop T check k v ld pat loc lk i n ps = (r, ps')" "length ps = kNumSlot"
    and "p_value ` set ps \<subseteq> W" "v \<in> W" "Tombstone \<in> W"
  shows "p_value ` set ps' \<subseteq> W \<and> (\<forall>old. r = Some old \<longrightarrow> old \<in> W)"
  using assms
proof (induction n arbitrary: lk i ps)
  case (Suc n)
  define slot where "slot = (loc + i) mod kNumSlot"
  define ps1 where "ps1 = (if p_key (ps ! slot) \<noteq> INVALID \<and> prefix ld (slot_hash T (p_key (ps ! slot))) \<noteq> pat then ps[slot := empty_pair] else ps)"
  have sl: "slot < length ps1" "length ps1 = kNumSlot" using Suc.prems(2) by (simp_all add: slot_def ps1_def kNumSlot_val)
  have w1: "p_value ` set ps1 \<subseteq> W" using update_values [OF Suc.prems(3), of empty_pair slot] Suc.prems(3,5) by (auto simp: ps1_def empty_pair_def)
  have cur: "p_value (ps1 ! slot) \<in> W" using w1 sl(1) by (meson image_subset_iff nth_mem)
  note step = insert_loop_round [of T check k v ld pat loc lk i n ps, folded slot_def, folded ps1_def]
  have new: "p_value q \<in> W" if "q \<in> set (ps1[slot := \<lparr>p_key = x, p_value = v\<rparr>])" for q x
    using update_values [OF w1, of "\<lparr>p_key = x, p_value = v\<rparr>" slot] that Suc.prems(4) by auto
  show ?case using Suc.prems(1) Suc.IH [OF _ sl(2) w1 Suc.prems(4,5)] cur unfolding step
    by (auto split: if_splits dest: new)
qed auto

lemma seg_insert_values:
  assumes "length (seg_slots s) = kNumSlot" "p_value ` set (seg_slots s) \<subseteq> W" "v \<in> W" "Tombstone \<in> W"
  shows "seg_insert T check k v loc hsh s = InsOk old s' \<Longrightarrow> old \<in> W \<and> p_value ` set (seg_slots s') \<subseteq> W"
    and "seg_insert T check k v loc hsh s = InsFull s' \<Longrightarrow> p_value ` set (seg_slots s') \<subseteq> W"
  using insert_loop_values [OF _ assms(1,2,3,4), of T check k "local_depth s" "pattern s" loc INVALID 0 kWindow]
  by (fastforce simp: seg_insert_def split: if_splits option.splits prod.splits)+

lemma split_values:
  assumes "p_value ` set qs \<subseteq> W" "p_value ` set ps \<subseteq> W"
  shows "p_value ` set (fold (split_slot T ld) qs ps) \<subseteq> W"
  using assms
proof (induction qs arbitrary: ps)
  case (Cons q qs)
  have "p_value ` set (split_slot T ld q ps) \<subseteq> W"
    using Cons.prems update_values [OF Cons.prems(2), of "\<lparr>p_key = p_key q, p_value = p_value q\<rparr>"]
    by (simp add: split_slot_def Let_def insert4split_def split: option.split)
  then show ?case using Cons by simp
qed simp

lemma seg_slots_pattern: "seg_slots (s\<lparr>pattern := x\<rparr>) = seg_slots s"
  by simp

lemma heap_values: "cceh_values m \<subseteq> W \<longleftrightarrow> (\<forall>s \<in> set (heap m). p_value ` set (seg_slots s) \<subseteq> W)"
  by (auto simp: cceh_values_def)

lemma cceh_split_values:
  assumes "cceh_values m \<subseteq> W" "Tombstone \<in> W" "target < length (heap m)"
  shows "cceh_values (cceh_split T hsh target m) \<subseteq> W"
proof -
  have t: "p_value ` set (seg_slots (heap m ! target)) \<subseteq> W" using assms(1,3) by (auto simp: heap_values)
  have "p_value ` set (seg_slots (snd (seg_split T (heap m ! target)))) \<subseteq> W"
    using split_values [OF t, of "replicate kNumSlot empty_pair" T] assms(2) by (auto simp: seg_split_def empty_pair_def)
  with t assms(1) seg_split_fields(3) [of T "heap m ! target"] show ?thesis
    using set_update_subset_insert [of "heap m" target]
    by (simp add: heap_values cceh_split_def Let_def case_prod_unfold) (metis insertE seg_slots_pattern subsetD)
qed

lemma cceh_insert_values:
  assumes wf: "cceh_wf m" and few: "same_hash T (hash_key T k) (heap m ! seg_of m (hash_key T k)) < 8" and n: "64 \<le> n"
    and W: "cceh_values m \<subseteq> W" "v \<in> W" "Tombstone \<in> W" and v: "\<not> is_tombstone v" "using_fp T \<Longrightarrow> check k v"
  shows "\<exists>old m'. cceh_insert n T check k v m = Some (old, m') \<and> old \<in> W \<and> cceh_values m' \<subseteq> W \<and> cceh_wf m' \<and> cceh_get T check k m' = v"
proof -
  let ?h = "hash_key T k"
  have wfD: "cceh_inv m" "dir_depth m \<le> 64" if "cceh_wf m" for m using that by (simp_all add: cceh_wf_def)
  note R = routed_segment(1,2) [OF wfD refl, of _ ?h]
  have seg: "p_value ` set (seg_slots (heap m ! seg_of m ?h)) \<subseteq> W" if "cceh_wf m" "cceh_values m \<subseteq> W" for m
    using that(2) R(1) [OF that(1,1)] by (auto simp: heap_values)
  have put: "cceh_values (with_segment m t s') \<subseteq> W" if "cceh_values m \<subseteq> W" "p_value ` set (seg_slots s') \<subseteq> W" for m t s'
    using that by (auto simp: heap_values dest!: set_update_subset_insert [THEN subsetD])
  have step: "cceh_values (cceh_split T ?h (seg_of m ?h) (with_segment m (seg_of m ?h) s')) \<subseteq> W"
    if "cceh_values m \<subseteq> W" "cceh_wf m" "seg_insert T check k v (home_loc ?h) ?h (heap m ! seg_of m ?h) = InsFull s'" for m s'
    by (rule cceh_split_values)
      (use put [OF that(1)] seg_insert_values(2) [OF R(2) [OF that(2,2)] seg [OF that(2,1)] W(2,3) that(3)] R(1) [OF that(2,2)] W(3) in simp_all)
  have "1 \<le> local_depth (heap m ! seg_of m ?h)" by (rule cceh_invD(2) [OF wfD(1) [OF wf] prefix_less [OF wfD(2) [OF wf]]])
  then have "64 < n + local_depth (heap m ! seg_of m ?h)" using n by simp
  from insert_total [OF wf few this, of "\<lambda>m. cceh_values m \<subseteq> W" check v] W(1) step
  obtain old m1 s' where ins: "cceh_insert n T check k v m = Some (old, with_segment m1 (seg_of m1 ?h) s')" "cceh_wf m1" "cceh_values m1 \<subseteq> W"
    "seg_insert T check k v (home_loc ?h) ?h (heap m1 ! seg_of m1 ?h) = InsOk old s'" by auto
  note fin = insert_finish [OF ins(2,4)] and S = seg_insert_values(1) [OF R(2) [OF ins(2,2)] seg [OF ins(2,3)] W(2,3) ins(4)]
  have "cceh_get T check k (with_segment m1 (seg_of m1 ?h) s') = v"
    using seg_insert_get [OF ins(4) fin(2) v] fin(3) by (simp add: cceh_get_def Let_def)
  then show ?thesis using ins(1) fin(1) S put [OF ins(3)] by blast
qed

text \<open>A lookup consults the check function on offsets in the map only.\<close>

lemma cceh_get_cong:
  assumes "cceh_inv m" "dir_depth m \<le> 64" "\<And>off. off \<in> cceh_values m \<Longrightarrow> check k off = check' k off"
  shows "cceh_get T check k m = cceh_get T check' k m"
proof -
  let ?h = "hash_key T k"
  let ?s = "heap m ! (dir_segs m ! prefix (dir_depth m) ?h)"
  note R = routed_segment [OF assms(1,2) refl, where hsh = ?h]
  have "check k (p_value (seg_slots ?s ! ((home_loc ?h + i) mod kNumSlot))) = check' k (p_value (seg_slots ?s ! ((home_loc ?h + i) mod kNumSlot)))" for i
  proof -
    have "(home_loc ?h + i) mod kNumSlot < length (seg_slots ?s)" using R(2) by (simp add: kNumSlot_val)
    then have "p_value (seg_slots ?s ! ((home_loc ?h + i) mod kNumSlot)) \<in> cceh_values m"
      unfolding cceh_values_def using R(1) by (intro UN_I [of ?s]) simp_all
    then show ?thesis by (rule assms(3))
  qed
  then show ?thesis by (simp add: cceh_get_def seg_get_def Let_def)
qed

section \<open>Putting a record\<close>

declare extent.simps [simp del] holds_at.simps [simp del]

text \<open>Changes that leave data and insert offsets alone.\<close>

definition same_bytes :: "SStore \<Rightarrow> SStore \<Rightarrow> bool" where
  "same_bytes V V' \<longleftrightarrow> length (s_blocks V') = length (s_blocks V) \<and> s_shape V' \<and> s_cursor V' = s_cursor V \<and> s_map V' = s_map V
     \<and> (\<forall>b p. sp_data (s_page V' b p) = sp_data (s_page V b p) \<and> next_insert_offset (s_page V' b p) = next_insert_offset (s_page V b p))"

definition same_place :: "VClient \<Rightarrow> VClient \<Rightarrow> bool" where
  "same_place C C' \<longleftrightarrow> v_block_number C' = v_block_number C \<and> v_page_number C' = v_page_number C \<and> v_block C' = v_block C
     \<and> num_v_pages_processed C' = num_v_pages_processed C"

lemma same_bytes_facts:
  assumes "same_bytes V V'"
  shows "written V' x = written V x" "byte V' x = byte V x" "settled V' C x = settled V C x" "on_page V' = on_page V"
    "holds_at V' loc r = holds_at V loc r" "s_client V' C = s_client V C"
proof -
  show on: "on_page V' = on_page V" using assms by (auto simp: on_page_def same_bytes_def fun_eq_iff)
  show "written V' x = written V x" "byte V' x = byte V x" "settled V' C x = settled V C x" "s_client V' C = s_client V C"
    using assms on by (auto simp: written_def byte_def settled_def same_bytes_def s_client_def split: prod.splits)
  show "holds_at V' loc r = holds_at V loc r"
    using assms on by (cases "(V, loc, r)" rule: holds_at.cases) (simp add: same_bytes_def Let_def holds_at.simps)
qed

lemma same_bytes_ok:
  assumes ok: "string_ok V Cs R" and same: "same_bytes V V'"
  shows "string_ok V' Cs R"
  using string_okD [OF ok] same same_bytes_facts [OF same] by (intro string_okI) (auto simp: same_bytes_def)

lemma set_lock_same: "s_shape V \<Longrightarrow> on_page V b p \<Longrightarrow> same_bytes V (s_upd b p (set_lock f) V)"
  using sshape_page [of V b p] by (auto simp: same_bytes_def s_page_upd intro!: s_upd_shape)

lemma same_place_ok:
  assumes "string_ok V Cs R" "i < length Cs" "same_place (Cs ! i) C'"
  shows "string_ok V (Cs[i := C']) R"
proof -
  have n: "map v_block_number (Cs[i := C']) = map v_block_number Cs"
    using assms(2,3) by (simp add: map_update list_update_same_conv same_place_def)
  have "Cs ! i \<in> set Cs" using assms(2) by simp
  then have c: "s_client V C'" "\<And>loc r x. R loc = Some r \<Longrightarrow> x \<in> extent loc r \<Longrightarrow> settled V C' x"
    using string_okD(4) [OF assms(1), of "Cs ! i"] string_okD(6) [OF assms(1), of _ _ _ "Cs ! i"] assms(3) by (auto simp: s_client_def same_place_def settled_def behind_def)
  show ?thesis
  proof (rule string_okI)
    show "distinct (map v_block_number (Cs[i := C']))" unfolding n by (rule string_okD(3) [OF assms(1)])
    show "s_client V C" if "C \<in> set (Cs[i := C'])" for C
      using that c(1) string_okD(4) [OF assms(1)] set_update_subset_insert [of Cs i C'] by blast
    show "settled V C x" if "R loc = Some r" "x \<in> extent loc r" "C \<in> set (Cs[i := C'])" for loc r x C
      using that c(2) string_okD(6) [OF assms(1)] set_update_subset_insert [of Cs i C'] by blast
  qed (use string_okD [OF assms(1)] in blast)+
qed

lemma extent_start: "loc \<in> extent loc r"
  by (cases loc, cases r) (auto simp: sizes extent.simps)

lemma place_ok:
  assumes ok: "string_ok V Cs R" and i: "i < length Cs" and pd: "place_done V (Cs ! i) key val off V1 C1 loc split"
  shows "string_ok V1 (Cs[i := C1]) (R(loc \<mapsto> (key, val, split)))" "R loc = None"
proof -
  let ?C = "Cs ! i" and ?r = "(key, val, split)"
  have Ci: "?C \<in> set Cs" using i by simp
  have new: "\<not> settled V ?C x" "settled V1 C1 x" "fst x = v_block_number ?C \<or> fst x = s_cursor V" if "x \<in> extent loc ?r" for x
    using pd that by (auto simp: place_done_def)
  have old: "settled V ?C x" if "R l = Some r" "x \<in> extent l r" for l r x using string_okD(6) [OF ok that Ci] .
  have ks: "written V1 x \<and> byte V1 x = byte V x \<and> s_cursor V \<le> s_cursor V1" if "settled V ?C x" for x
    using pd that unfolding place_done_def keeps_settled_def by blast
  show no: "R loc = None"
    using new(1) [OF extent_start] old [OF _ extent_start] by (cases "R loc") auto
  have cl: "s_client V1 C" if "C \<in> set Cs" for C
    using string_okD(4) [OF ok that] pd by (auto simp: place_done_def s_client_def on_page_def)
  have apart: "v_block_number C \<noteq> v_block_number ?C \<and> v_block_number C \<noteq> s_cursor V" if "C \<in> set Cs" "C \<noteq> ?C" for C
  proof -
    have "v_block_number C \<noteq> v_block_number ?C" using string_okD(3) [OF ok] that Ci by (auto simp: distinct_map inj_on_def)
    moreover have "v_block_number C < s_cursor V" using string_okD(4) [OF ok that(1)] by (simp add: s_client_def)
    ultimately show ?thesis by simp
  qed
  have diff: "Cs ! j \<noteq> ?C" if "j < length Cs" "j \<noteq> i" for j
    using nth_eq_iff_index_eq [OF string_okD(3) [OF ok], of j i] that i by auto
  have dist: "distinct (map v_block_number (Cs[i := C1]))"
  proof -
    have "v_block_number C1 \<noteq> v_block_number (Cs ! j)" if "j < length Cs" "j \<noteq> i" for j
    proof -
      show ?thesis using diff [OF that] apart [of "Cs ! j"] that(1) pd by (auto simp: place_done_def)
    qed
    then show ?thesis using string_okD(3) [OF ok] i unfolding distinct_conv_nth
      by (simp add: nth_list_update) (metis nth_list_update)
  qed
  have set_new: "C = C1 \<or> C \<in> set Cs \<and> C \<noteq> ?C" if "C \<in> set (Cs[i := C1])" for C
  proof -
    obtain j where j: "j < length Cs" "C = Cs[i := C1] ! j" using \<open>C \<in> _\<close> by (auto simp: in_set_conv_nth)
    then show ?thesis using diff [OF j(1)] i by (cases "j = i") auto
  qed
  have moved_on: "settled V1 C x" if C: "C \<in> set (Cs[i := C1])" and x: "settled V ?C x" "\<And>C. C \<in> set Cs \<Longrightarrow> settled V C x" for C x
  proof -
    have w: "written V1 x" "fst x < s_cursor V1" using ks [OF x(1)] x(1) by (simp_all add: settled_def)
    have "behind C x"
      using set_new [OF C]
    proof
      assume "C = C1"
      moreover have "v_block_number C1 = v_block_number ?C \<and> v_page_number ?C \<le> v_page_number C1 \<or> v_block_number C1 = s_cursor V"
        using pd unfolding place_done_def by blast
      ultimately show ?thesis using x(1) by (auto simp: settled_def behind_def)
    qed (use x(2) in \<open>auto simp: settled_def\<close>)
    then show ?thesis using w by (simp add: settled_def)
  qed
  have fresh_others: "settled V1 C x" if "C \<in> set (Cs[i := C1])" "x \<in> extent loc ?r" for C x
    using set_new [OF that(1)] new(2,3) [OF that(2)] apart [of C] by (auto simp: settled_def behind_def)
  have sh: "s_shape V" "s_shape V1" using string_okD(1) [OF ok] pd by (simp_all add: place_done_def)
  have holds: "holds_at V1 l r" if "R l = Some r" for l r
  proof (rule holds_at_cong [OF _ sh])
    show "holds_at V l r" by (rule string_okD(5) [OF ok that])
    show "written V x \<and> written V1 x \<and> byte V1 x = byte V x" if "x \<in> extent l r" for x
      using old [OF \<open>R l = Some r\<close> that] ks by (simp add: settled_def)
  qed
  have clash: "extent loc ?r \<inter> extent l r = {}" if "R l = Some r" for l r using new(1) old that by blast
  show "string_ok V1 (Cs[i := C1]) (R(loc \<mapsto> ?r))"
  proof (rule string_okI)
    show "holds_at V1 l r" if "(R(loc \<mapsto> ?r)) l = Some r" for l r
      using that holds pd by (cases "l = loc") (auto simp: place_done_def)
    show "settled V1 C x" if "(R(loc \<mapsto> ?r)) l = Some r" "x \<in> extent l r" "C \<in> set (Cs[i := C1])" for l r x C
      using that fresh_others moved_on [OF that(3)] old string_okD(6) [OF ok] by (cases "l = loc") auto
    show "extent l r \<inter> extent l' r' = {}"
      if "(R(loc \<mapsto> ?r)) l = Some r" "(R(loc \<mapsto> ?r)) l' = Some r'" "l \<noteq> l'" for l l' r r'
      using that clash [of l r] clash [of l' r'] string_okD(7) [OF ok, of l r l' r'] by (auto split: if_splits)
    show "cceh_values (s_map V1) \<subseteq> insert Tombstone (offset_of ` dom (R(loc \<mapsto> ?r)))" "cceh_wf (s_map V1)"
      using string_okD(2,8) [OF ok] pd by (auto simp: place_done_def)
    show "s_client V1 C" if "C \<in> set (Cs[i := C1])" for C using set_new [OF that] cl pd by (auto simp: place_done_def)
  qed (use sh dist in auto)
qed

text \<open>Clearing the set bit of a record keeps every record readable.\<close>

lemma header_key_bits: "take_bit 15 (key_size (header_at d i)) = key_size (header_at d i)"
  by (simp add: header_at_def entry_of_info_def)

lemma invalidate_ok:
  assumes ok: "string_ok V Cs R" and rec: "R (b, p, i) = Some r" and ne: "Cs \<noteq> []"
  shows "string_ok (s_invalidate b p i V) Cs R" "\<And>b' p'. sp_lock (s_page (s_invalidate b p i V) b' p') = sp_lock (s_page V b' p')"
    "s_map (s_invalidate b p i V) = s_map V" "on_page (s_invalidate b p i V) = on_page V"
proof -
  let ?V = "s_invalidate b p i V" and ?pg = "s_page V b p"
  let ?e = "header_at (sp_data ?pg) i"
  define h where "h = header (?e\<lparr>ve_set := False\<rparr>)"
  obtain k v sp where r: "r = (k, v, sp)" by (cases r)
  have sh: "s_shape V" by (rule string_okD(1) [OF ok])
  have ext: "settled V (hd Cs) x" if "x \<in> extent (b, p, i) r" for x using string_okD(6) [OF ok rec that, of "hd Cs"] ne by simp
  have hold: "holds_at V (b, p, i) (k, v, sp)" using string_okD(5) [OF ok rec] r by simp
  have on: "on_page V b p" using hold by (simp add: holds_at.simps Let_def)
  have sub: "(b, p, j) \<in> extent (b, p, i) r" if "i \<le> j" "j < i + meta_size" for j using that by (auto simp: r extent.simps)
  have len: "length (sp_data ?pg) = DATA_SIZE" using sshape_page [OF sh on] by (simp add: page_ok_def)
  have "i + 3 < DATA_SIZE" using ext [OF sub [of "i + 3"]] sshape_page [OF sh on] by (simp add: settled_def written_def page_ok_def sizes)
  then have bs: "i + length h \<le> length (sp_data ?pg)" using len by (simp add: h_def sizes)
  define f where "f pg = (poke_page i (header ((header_at (sp_data pg) i)\<lparr>ve_set := False\<rparr>)) pg)
      \<lparr>modified_percentage := modified_percentage pg +
         of_nat ((unat (key_size (header_at (sp_data pg) i)) + unat (value_size (header_at (sp_data pg) i)) + meta_size) * 100 div DATA_SIZE)\<rparr>" for pg
  have f: "?V = s_upd b p f V" "sp_data (f ?pg) = poke i h (sp_data ?pg)"
    "next_insert_offset (f ?pg) = next_insert_offset ?pg" "sp_lock (f ?pg) = sp_lock ?pg"
    by (simp_all add: s_invalidate_def Let_def f_def [abs_def] h_def poke_page_def)
  have sh': "s_shape ?V" unfolding f(1)
    using f(2,3) bs len sshape_page [OF sh on] by (intro s_upd_shape [OF sh on]) (simp add: page_ok_def)
  note pg = s_page_upd [OF sh on, of f]
  have wr: "written ?V x = written V x" for x using f(3) by (auto simp: f(1) written_def pg split: prod.splits)
  have bsame: "byte ?V x = byte V x" if "written V x" "x \<notin> extent (b, p, i) r" for x
  proof -
    obtain b' p' j where x: "x = (b', p', j)" by (cases x)
    have "j < DATA_SIZE" using that(1) sshape_page [OF sh, of b' p'] by (simp add: x written_def page_ok_def)
    moreover have "\<not> (i \<le> j \<and> j < i + meta_size)" if "b' = b" "p' = p" using sub [of j] \<open>x \<notin> _\<close> that x by blast
    ultimately show ?thesis using poke_nth [OF bs, of j] len by (auto simp: x byte_def f(1) pg f(2) h_def)
  qed
  show locks: "sp_lock (s_page ?V b' p') = sp_lock (s_page V b' p')" for b' p' using f(4) by (simp add: f(1) pg)
  show fields: "s_map ?V = s_map V" "on_page ?V = on_page V" by (simp_all add: f(1))
  have cur: "s_cursor ?V = s_cursor V" by (simp add: f(1))
  have st: "settled ?V C x = settled V C x" for C x by (simp add: settled_def wr cur)
  have self: "holds_at ?V (b, p, i) (k, v, sp)"
  proof -
    have hd: "header_at (sp_data (s_page ?V b p)) i = ?e\<lparr>ve_set := False\<rparr>"
      using header_at_poke [OF bs [unfolded h_def], of "?e\<lparr>ve_set := False\<rparr>" "[]"] header_key_bits [of "sp_data ?pg" i]
      by (simp add: f(1,2) pg h_def)
    have sl: "slice (sp_data (s_page ?V b p)) (i + meta_size + x) n = slice (sp_data ?pg) (i + meta_size + x) n" if "i + meta_size + x + n \<le> DATA_SIZE" for x n
      using that len bs by (intro slice_cong) (auto simp: f(1,2) pg poke_nth h_def)
    have other: "s_page ?V b (p + 1) = s_page V b (p + 1)" by (simp add: f(1) pg)
    have bd: "i + meta_size + length k + (if sp then 0 else length v) \<le> DATA_SIZE"
      using extent_bounds [OF sh, of b p i k v sp] ext by (simp add: r settled_def)
    show ?thesis using hold hd sl [of 0 "length k"] sl [of "length k" "length v"] bd other fields(2)
      by (cases sp) (simp_all add: holds_at.simps Let_def)
  qed
  show "string_ok ?V Cs R"
  proof (rule string_okI)
    show "holds_at ?V l q" if l: "R l = Some q" for l q
    proof (cases "l = (b, p, i)")
      case True then show ?thesis using self l rec r by simp
    next
      case False
      show ?thesis
      proof (rule holds_at_cong [OF string_okD(5) [OF ok l] sh sh'])
        fix x assume x: "x \<in> extent l q"
        have "written V x" using string_okD(6) [OF ok l x, of "hd Cs"] ne by (simp add: settled_def)
        moreover have "x \<notin> extent (b, p, i) r" using string_okD(7) [OF ok l rec False] x by blast
        ultimately show "written V x \<and> written ?V x \<and> byte ?V x = byte V x" using bsame wr by simp
      qed
    qed
    show "s_client ?V C" if "C \<in> set Cs" for C using string_okD(4) [OF ok that] fields(2) cur by (simp add: s_client_def)
  qed (use string_okD [OF ok] sh' fields st in auto)
qed

definition all_unlocked :: "SStore \<Rightarrow> bool" where
  "all_unlocked V \<longleftrightarrow> (\<forall>b p. on_page V b p \<longrightarrow> \<not> IS_LOCKED (sp_lock (s_page V b p)))"

lemma record_read:
  assumes ok: "string_ok V Cs R" and ne: "Cs \<noteq> []" and l: "R l = Some (k, v, sp)"
  shows "s_entry V (offset_of l) = (k, Some v)" "locate (offset_of l) = l" "\<not> is_tombstone (offset_of l)"
    "on_page V (fst l) (fst (snd l))" "s_check V key (offset_of l) \<longleftrightarrow> key = k"
proof -
  obtain b p i where bpi: "l = (b, p, i)" by (cases l)
  have w: "written V l" using string_okD(6) [OF ok l extent_start, of "hd Cs"] ne by (simp add: settled_def)
  have "i < 65536" using w sshape_page [OF string_okD(1) [OF ok], of b p] by (simp add: bpi written_def page_ok_def sizes)
  note H = holds_read [OF string_okD(5) [OF ok l, unfolded bpi] string_okD(1) [OF ok] this]
  show "s_entry V (offset_of l) = (k, Some v)" "locate (offset_of l) = l" "\<not> is_tombstone (offset_of l)"
    "on_page V (fst l) (fst (snd l))" "s_check V key (offset_of l) \<longleftrightarrow> key = k"
    using H w by (auto simp: bpi offset_of_def written_def s_check_def)
qed

lemma lock_step:
  assumes "string_ok V Cs R" "on_page V b p"
  shows "string_ok (s_upd b p (set_lock f) V) Cs R"
    "sp_lock (s_page (s_upd b p (set_lock f) V) b' p') = (if b' = b \<and> p' = p then f (sp_lock (s_page V b p)) else sp_lock (s_page V b' p'))"
  using same_bytes_ok [OF assms(1) set_lock_same [OF string_okD(1) [OF assms(1)] assms(2)]]
    s_page_upd [OF string_okD(1) [OF assms(1)] assms(2)] by auto

lemma free_ok:
  assumes ok: "string_ok V Cs R" and ne: "Cs \<noteq> []" and l: "R l = Some r" and un: "all_unlocked V"
  shows "\<exists>V'. s_free rounds T (offset_of l) key False V C = Inr (V', C\<lparr>size_delta := size_delta C - 1\<rparr>)
    \<and> string_ok V' Cs R \<and> all_unlocked V' \<and> s_map V' = s_map V"
proof -
  obtain b p i k v sp where bpi: "l = (b, p, i)" and r: "r = (k, v, sp)" by (cases l, cases r) auto
  note rd = record_read [OF ok ne l [unfolded r]]
  have on: "on_page V b p" using rd(4) by (simp add: bpi)
  have loc: "locate (offset_of l) = (b, p, i)" using rd(2) bpi by simp
  have l': "R (b, p, i) = Some r" using l bpi by simp
  show ?thesis
  proof (cases "v_block_number C = b \<and> v_page_number C = p")
    case True
    then show ?thesis using loc invalidate_ok [OF ok l' ne] un by (simp add: s_free_def s_mark_removed_def all_unlocked_def)
  next
    case False
    let ?w = "sp_lock (s_page V b p) + 1"
    have nl: "\<not> IS_LOCKED (sp_lock (s_page V b p))" using un on by (simp add: all_unlocked_def)
    let ?V1 = "s_upd b p (set_lock (\<lambda>_. ?w)) V"
    let ?V2 = "s_invalidate b p i ?V1"
    note 1 = lock_step [OF ok on, of "\<lambda>_. ?w"]
    note 2 = invalidate_ok [OF 1(1) l' ne]
    have on2: "on_page ?V2 b p" using on 2(4) by simp
    note 3 = lock_step [OF 2(1) on2, of page_unlock]
    have run: "s_free rounds T (offset_of l) key False V C = Inr (s_upd b p (set_lock page_unlock) ?V2, C\<lparr>size_delta := size_delta C - 1\<rparr>)"
      using loc False nl by (auto simp: s_free_def s_mark_removed_def page_lock_total Let_def)
    have "all_unlocked (s_upd b p (set_lock page_unlock) ?V2)"
      using un nl lock_locks by (auto simp: all_unlocked_def 3(2) 2(2,4) 1(2))
    then show ?thesis using run 3(1) 2(3) by auto
  qed
qed

lemma update_var_total:
  "s_cursor V < length (s_blocks V) \<Longrightarrow> \<exists>V1 C1. update_var_size_page_information None V C = Inr (V1, C1)"
  by (simp add: update_var_size_page_information_def s_get_access_def s_info_sync_def s_get_new_block_def Let_def case_prod_unfold)

lemma place_total:
  assumes "s_client V C" "s_cursor V < length (s_blocks V)" "meta_size + (length key + length val) \<le> DATA_SIZE"
  shows "\<exists>r. s_place None key val V C = Inr r"
proof -
  have k: "length key < 2 ^ 15" "length val < 2 ^ 16" using assms(3) by (simp_all add: sizes)
  show ?thesis using update_var_total [OF assms(2), of C] assms(3) new_entry_sizes [OF k] by (auto simp: s_place_def Let_def)
qed

lemma sync_ok:
  assumes "string_ok V Cs R" "all_unlocked V" "i < length Cs" "same_place (Cs ! i) C" "s_info_sync False V C = (V', C')"
  shows "string_ok V' (Cs[i := C']) R" "all_unlocked V'" "s_map V' = s_map V"
proof -
  have V': "s_blocks V' = s_blocks V" "s_cursor V' = s_cursor V" "s_map V' = s_map V" and C': "same_place (Cs ! i) C'"
    using assms(4,5) by (auto simp: s_info_sync_def same_place_def split: if_splits)
  have "same_bytes V V'" using string_okD(1) [OF assms(1)] V' by (simp add: same_bytes_def s_page_def s_shape_def)
  then show "string_ok V' (Cs[i := C']) R" using same_place_ok [OF same_bytes_ok [OF assms(1)] assms(3) C'] by blast
  show "all_unlocked V'" "s_map V' = s_map V" using assms(2) V' by (auto simp: all_unlocked_def on_page_def s_page_def)
qed

lemma map_ok:
  assumes ok: "string_ok V Cs R" and ne: "Cs \<noteq> []" and l: "R l = Some (key, v, sp)"
    and few: "same_hash T (hash_key T key) (heap (s_map V) ! seg_of (s_map V) (hash_key T key)) < 8" and n: "64 \<le> rounds"
  shows "\<exists>old m. cceh_insert rounds T (s_check V) key (offset_of l) (s_map V) = Some (old, m) \<and> string_ok (V\<lparr>s_map := m\<rparr>) Cs R
    \<and> cceh_get T (s_check V) key m = offset_of l \<and> (old = Tombstone \<or> old \<in> offset_of ` dom R) \<and> cceh_wf m"
proof -
  note rd = record_read [OF ok ne l]
  have in_dom: "offset_of l \<in> insert Tombstone (offset_of ` dom R)" using l by auto
  have "s_check V key (offset_of l)" using rd(5) by simp
  from cceh_insert_values [where check = "s_check V" and k = key, OF string_okD(2) [OF ok] few n string_okD(8) [OF ok] in_dom insertI1 rd(3) this]
  obtain old m where ins: "cceh_insert rounds T (s_check V) key (offset_of l) (s_map V) = Some (old, m)"
    and vals: "old \<in> insert Tombstone (offset_of ` dom R)" "cceh_values m \<subseteq> insert Tombstone (offset_of ` dom R)"
    and cm: "cceh_wf m" and get: "cceh_get T (s_check V) key m = offset_of l" by blast
  have pg: "s_page (V\<lparr>s_map := m\<rparr>) = s_page V" "s_cursor (V\<lparr>s_map := m\<rparr>) = s_cursor V" "on_page (V\<lparr>s_map := m\<rparr>) = on_page V"
    by (auto simp: s_page_def on_page_def fun_eq_iff)
  have st: "settled (V\<lparr>s_map := m\<rparr>) C x = settled V C x" "s_client (V\<lparr>s_map := m\<rparr>) C = s_client V C"
    "s_shape (V\<lparr>s_map := m\<rparr>) = s_shape V" for C x
    unfolding settled_def written_def s_client_def s_shape_def pg by simp_all
  have hd: "holds_at (V\<lparr>s_map := m\<rparr>) lc r = holds_at V lc r" for lc r
    by (cases lc, cases r) (simp only: holds_at.simps pg)
  have "string_ok (V\<lparr>s_map := m\<rparr>) Cs R"
    using string_okD [OF ok] cm vals(2) by (intro string_okI) (auto simp: st hd)
  then show ?thesis using ins vals(1) cm get by blast
qed

text \<open>C36. The string store works as a map for records that fit a page. With one more block available, a put of a
  non-empty value by any client returns: when fewer than eight pairs of the key's segment in the offset map share its
  hash, 64 rounds of its insert loop are enough. Then the key reads the new value, every record that was stored before still reads its key and its value, and
  the invariant holds again with the new record added, whichever way the put went: into the current page, split over two
  pages, or into a new page or block.\<close>

theorem string_put_get:
  assumes ok: "string_ok V Cs R" and un: "all_unlocked V" and i: "i < length Cs" and blk: "s_cursor V < length (s_blocks V)"
    and few: "same_hash T (hash_key T key) (heap (s_map V) ! seg_of (s_map V) (hash_key T key)) < 8" and n: "64 \<le> rounds"
    and ne: "0 < length val" and fit: "meta_size + (length key + length val) \<le> DATA_SIZE"
  shows "\<exists>is_new V' C' loc split. s_put rounds T None key val delete_old V (Cs ! i) = Inr (is_new, V', C')
      \<and> s_get T key V' = Inr (Some val)
      \<and> (\<forall>l k v sp. R l = Some (k, v, sp) \<longrightarrow> s_entry V' (offset_of l) = (k, Some v))
      \<and> R loc = None \<and> string_ok V' (Cs[i := C']) (R(loc \<mapsto> (key, val, split))) \<and> all_unlocked V'"
proof -
  let ?C = "Cs ! i" and ?b = "v_block_number (Cs ! i)" and ?p = "v_page_number (Cs ! i)"
  let ?w = "sp_lock (s_page V ?b ?p) + 1"
  let ?V0 = "s_upd ?b ?p (set_lock (\<lambda>_. ?w)) V"
  have cl: "s_client V ?C" using string_okD(4) [OF ok, of ?C] i by simp
  have on: "on_page V ?b ?p" using cl by (simp add: s_client_def)
  have nl: "\<not> IS_LOCKED (sp_lock (s_page V ?b ?p))" using un on by (simp add: all_unlocked_def)
  have lock: "page_lock (sp_lock (s_page V ?b ?p)) = Some ?w" using nl by (simp add: page_lock_total)
  note 0 = lock_step [OF ok on, of "\<lambda>_. ?w"]
  have cl0: "s_client ?V0 ?C" using string_okD(4) [OF 0(1), of ?C] i by simp
  obtain off V1 C1 where place: "s_place None key val ?V0 ?C = Inr (off, V1, C1)"
    using place_total [OF cl0 _ fit] blk by (auto simp del: split_paired_Ex)
  obtain loc split where pd: "place_done ?V0 ?C key val off V1 C1 loc split"
    using place_effect [OF string_okD(1) [OF 0(1)] cl0 fit ne place] by blast
  let ?R = "R(loc \<mapsto> (key, val, split))" and ?Cs = "Cs[i := C1]"
  note 1 = place_ok [OF 0(1) i pd] and ok1 = place_ok(1) [OF 0(1) i pd]
  have nec: "?Cs \<noteq> []" using i by auto
  have off: "off = offset_of loc" and map1: "s_map V1 = s_map V" using pd by (simp_all add: place_done_def)
  have R1: "?R loc = Some (key, val, split)" by simp
  obtain old m where ins: "cceh_insert rounds T (s_check V1) key (offset_of loc) (s_map V1) = Some (old, m)"
    and 2: "string_ok (V1\<lparr>s_map := m\<rparr>) ?Cs ?R" "cceh_get T (s_check V1) key m = offset_of loc" "old = Tombstone \<or> old \<in> offset_of ` dom ?R" "cceh_wf m"
    using map_ok [OF 1(1) nec R1 few [folded map1] n] by blast
  let ?V2 = "s_upd ?b ?p (set_lock page_unlock) (V1\<lparr>s_map := m\<rparr>)" and ?C2 = "C1\<lparr>size_delta := size_delta C1 + 1\<rparr>"
  have on1: "on_page (V1\<lparr>s_map := m\<rparr>) ?b ?p" using on pd by (simp add: on_page_def place_done_def)
  note 3 = lock_step [OF 2(1) on1, of page_unlock]
  have lk1: "sp_lock (s_page V1 ?b ?p) = ?w" using pd 0(2) by (simp add: place_done_def)
  have un1: "\<not> IS_LOCKED (sp_lock (s_page V1 b p))" if "on_page V1 b p" "(b, p) \<noteq> (?b, ?p)" for b p
  proof -
    have "on_page V b p" using that(1) pd by (simp add: on_page_def place_done_def)
    moreover have "no_new_locks ?V0 V1" using pd by (simp add: place_done_def)
    ultimately have "IS_LOCKED (sp_lock (s_page V1 b p)) \<Longrightarrow> IS_LOCKED (sp_lock (s_page ?V0 b p))" by (simp add: no_new_locks_def)
    moreover have "\<not> IS_LOCKED (sp_lock (s_page ?V0 b p))" unfolding 0(2) using \<open>on_page V b p\<close> that(2) un by (auto simp: all_unlocked_def)
    ultimately show ?thesis by blast
  qed
  have un2: "all_unlocked ?V2"
    unfolding all_unlocked_def 3(2) using un1 lk1 lock_locks [OF nl] by (auto simp: s_page_def on_page_def)
  obtain V3 C3 where free: "(if \<not> is_tombstone old \<and> delete_old then s_free rounds T old key False ?V2 ?C2 else Inr (?V2, ?C2)) = Inr (V3, C3)"
    and 4: "string_ok V3 ?Cs ?R" "all_unlocked V3" "s_map V3 = m" "same_place C1 C3"
  proof (cases "\<not> is_tombstone old \<and> delete_old")
    case True
    then have "old \<in> offset_of ` dom ?R" using 2(3) unfolding is_tombstone_def Tombstone_def by auto
    then obtain l r where l: "?R l = Some r" "old = offset_of l" by blast
    obtain V' where V': "s_free rounds T old key False ?V2 ?C2 = Inr (V', ?C2\<lparr>size_delta := size_delta ?C2 - 1\<rparr>)"
      "string_ok V' ?Cs ?R" "all_unlocked V'" "s_map V' = s_map ?V2"
      using free_ok [OF 3(1) nec l(1) un2, of rounds T key ?C2, folded l(2)] by blast
    show ?thesis by (rule that [OF _ V'(2,3)]) (use True V' in \<open>simp_all add: same_place_def\<close>)
  qed (use 3(1) un2 in \<open>auto intro!: that simp: same_place_def\<close>)
  obtain V4 C4 where sync: "s_info_sync False V3 C3 = (V4, C4)" by fastforce
  have "i < length ?Cs" "same_place (?Cs ! i) C3" using i 4(4) by simp_all
  note 5 = sync_ok [OF 4(1,2) this sync]
  have run: "s_put rounds T None key val delete_old V ?C = Inr (is_tombstone old, V4, C4)"
    using lock place ins off free sync by (simp add: s_put_def Let_def)
  have ok4: "string_ok V4 (Cs[i := C4]) ?R" using 5(1) by simp
  have nec4: "Cs[i := C4] \<noteq> []" using i by auto
  note rd = record_read [OF ok4 nec4 R1]
  have "s_check V1 key x = s_check V4 key x" if "x \<in> cceh_values m" for x
  proof -
    have "x \<in> insert Tombstone (offset_of ` dom ?R)" using string_okD(8) [OF 2(1)] that by auto
    then consider "x = Tombstone" | l r where "x = offset_of l" "?R l = Some r" by blast
    then show ?thesis
    proof cases
      case 1
      then show ?thesis by (simp add: s_check_def is_tombstone_def Tombstone_def)
    next
      case (2 l r)
      obtain k v sp where r: "r = (k, v, sp)" by (cases r)
      show ?thesis using record_read(5) [OF ok1 nec 2(2) [unfolded r]] record_read(5) [OF ok4 nec4 2(2) [unfolded r]] 2(1) by simp
    qed
  qed
  moreover have cm: "cceh_inv m" "dir_depth m \<le> 64" using 2(4) by (simp_all add: cceh_wf_def)
  ultimately have "cceh_get T (s_check V4) key m = offset_of loc"
    using cceh_get_cong [OF cm, of "s_check V1" key "s_check V4" T] 2(2) by simp
  moreover have "s_map V4 = m" using 5(3) 4(3) by simp
  ultimately have "s_get T key V4 = Inr (Some val)"
    using rd 5(2) by (cases loc) (simp add: s_get_def s_value_from_offset_def Let_def all_unlocked_def)
  moreover have "s_entry V4 (offset_of l) = (k, Some v)" if "R l = Some (k, v, sp)" for l k v sp
  proof -
    have "?R l = Some (k, v, sp)" using that 1(2) by auto
    then show ?thesis by (rule record_read(1) [OF ok4 nec4])
  qed
  ultimately show ?thesis using run ok4 5(2) 1(2) by blast
qed

section \<open>A small store\<close>

definition blank_page :: SPage where
  "blank_page = \<lparr>next_insert_offset = 0, sp_lock = USED_BIT, modified_percentage = 0, sp_data = replicate DATA_SIZE 0\<rparr>"

definition string_store :: SStore where
  "string_store = \<lparr>s_blocks = replicate 2 (replicate NUM_DIMMS blank_page), s_cursor = 1, s_used = 1, s_size = 0, s_map = cceh_new 1\<rparr>"

definition string_client :: VClient where
  "string_client = new_client\<lparr>v_block := Some 0\<rparr>"

definition string_keys :: "bytes KeyTraits" where
  "string_keys = \<lparr>using_fp = True, hash_key = (\<lambda>k. of_nat (length k)), key_word = (\<lambda>_. 0), hash_word = (\<lambda>w. w)\<rparr>"

lemma string_store_page: "b < 2 \<Longrightarrow> p < NUM_DIMMS \<Longrightarrow> s_page string_store b p = blank_page"
  by (simp add: s_page_def string_store_def)

lemma string_store_ok: "string_ok string_store [string_client] Map.empty \<and> all_unlocked string_store"
proof -
  have ok: "page_ok blank_page" "\<not> IS_LOCKED (sp_lock blank_page)" by (simp_all add: page_ok_def blank_page_def)
  have "length (s_blocks string_store) = 2" "\<forall>b < 2. length (s_blocks string_store ! b) = NUM_DIMMS"
    by (simp_all add: string_store_def)
  moreover have "cceh_values (cceh_new 1) \<subseteq> {Tombstone}" by (auto simp: cceh_values_def cceh_new_def empty_pair_def)
  ultimately show ?thesis using ok string_store_page cceh_new_wf [of 1]
    by (auto simp: string_ok_def s_shape_def s_client_def on_page_def string_client_def new_client_def all_unlocked_def sizes)
       (auto simp: string_store_def)
qed

theorem string_put_get_witness:
  "\<exists>is_new V' C'. s_put 64 string_keys None [7] [1, 2, 3] True string_store string_client = Inr (is_new, V', C')
     \<and> s_get string_keys [7] V' = Inr (Some [1, 2, 3])"
proof -
  have "hash_key string_keys [7] = 1" "prefix 1 1 = 0" by (simp_all add: string_keys_def prefix_def drop_bit_eq_div)
  then have "same_hash string_keys (hash_key string_keys [7]) (heap (s_map string_store) ! seg_of (s_map string_store) (hash_key string_keys [7])) < 8"
    by (simp add: string_store_def cceh_new_def same_hash_def empty_pair_def)
  moreover have "s_cursor string_store < length (s_blocks string_store)" by (simp add: string_store_def)
  ultimately show ?thesis
    using string_put_get [where V = string_store and Cs = "[string_client]" and R = Map.empty and i = 0 and rounds = 64 and T = string_keys
        and val = "[1, 2, 3]" and key = "[7]" and delete_old = True] string_store_ok
    by (fastforce simp: sizes)
qed

section \<open>Sizes the page format does not provide for\<close>

text \<open>C38. An empty value cannot be read back. A value of size zero is the mark of a record whose value is on the next
  page, so after a put of an empty value that fits the page the entry at its offset has the right
  key, and as value whatever the next page starts with, or an access past the block when the record
  is on the last page.\<close>

theorem empty_value_misread:
  fixes key :: bytes
  assumes sh: "s_shape V" and C: "s_client V C" and b: "b = v_block_number C" and p: "p = v_page_number C"
    and i: "i = unat (next_insert_offset (s_page V b p))" and fit: "i + meta_size + length key \<le> DATA_SIZE"
  shows "\<exists>V'. s_place None key [] V C = Inr (make_offset b p i, V', C)
    \<and> s_entry V' (make_offset b p i) =
        (key, if p + 1 < NUM_DIMMS then Some (next_page_value (sp_data (s_page V b (p + 1)))) else None)"
proof -
  let ?bs = "header (new_entry (length key) 0) @ key" and ?pg = "s_page V b p"
  let ?V = "s_upd b p (bump (meta_size + length key)) (s_upd b p (poke_page i ?bs) V)"
  have k: "length key < 2 ^ 15" "(0 :: nat) < 2 ^ 16" using fit by (simp_all add: sizes)
  note n = new_entry_sizes [OF k]
  have on: "on_page V b p" using C by (simp add: s_client_def b p)
  have len: "i + length ?bs \<le> length (sp_data ?pg)" using fit sshape_page [OF sh on] by (simp add: page_ok_def)
  have pg: "s_page ?V b' p' = (if b' = b \<and> p' = p then bump (meta_size + length key) (poke_page i ?bs ?pg) else s_page V b' p')" for b' p'
    unfolding s_upd_upd [OF sh on] by (rule s_page_upd [OF sh on])
  have run: "s_place None key [] V C = Inr (make_offset b p i, ?V, C)"
    using fit n by (auto simp: s_place_def Let_def b [symmetric] p [symmetric] i [symmetric] sizes)
  have loc: "locate (make_offset b p i) = (b, p, i)"
    using on sh fit by (intro locate_make) (auto simp: on_page_def s_shape_def sizes)
  have w: "unat (key_size (header_at (poke i ?bs (sp_data ?pg)) i)) = length key" "unat (value_size (header_at (poke i ?bs (sp_data ?pg)) i)) = 0"
    "slice (poke i ?bs (sp_data ?pg)) (i + meta_size) (length key) = key"
    using whole_record [OF len, of key "[]"] k(1) by simp_all
  have "value_size (header_at (poke i ?bs (sp_data ?pg)) i) = 0" using w(2) by (simp add: unat_eq_zero)
  then have "s_entry ?V (make_offset b p i) =
      (key, if p + 1 < NUM_DIMMS then Some (next_page_value (sp_data (s_page V b (p + 1)))) else None)"
    using w unfolding s_entry_def loc Let_def raw_key_def pg by simp
  then show ?thesis using run by blast
qed

theorem empty_value_misread_witness:
  "\<exists>V'. s_place None [7] [] string_store string_client = Inr (make_offset 0 0 0, V', string_client)
    \<and> s_entry V' (make_offset 0 0 0) = ([7], Some (next_page_value (sp_data (s_page string_store 0 1))))"
proof -
  have "s_client string_store string_client" "s_shape string_store" using string_okD(1,4) [OF conjunct1 [OF string_store_ok]] by simp_all
  moreover have "v_block_number string_client = 0" "v_page_number string_client = 0" by (simp_all add: string_client_def new_client_def)
  moreover have "unat (next_insert_offset (s_page string_store 0 0)) = 0" by (simp add: string_store_page sizes blank_page_def)
  ultimately show ?thesis
    using empty_value_misread [of string_store string_client 0 0 0 "[7]"] by (simp add: sizes)
qed

text \<open>C37. No size is checked. With a block available, a put writes past the end of a page exactly when the record is
  larger than the data area of a page and cannot be split, that is, unless its key still fits the
  current page, this is not the last page of the block, and the value alone fits a page.\<close>

theorem oversized_record_overruns:
  fixes key val :: bytes
  assumes sh: "s_shape V" and C: "s_client V C" and blk: "s_cursor V < length (s_blocks V)"
    and k: "length key < 2 ^ 15" "length val < 2 ^ 16" and i: "i = unat (next_insert_offset (s_page V (v_block_number C) (v_page_number C)))"
  shows "s_place None key val V C = Inl PageOverrun \<longleftrightarrow>
    meta_size + length key + length val > DATA_SIZE
    \<and> \<not> (i + meta_size + length key \<le> DATA_SIZE \<and> meta_size + length val \<le> DATA_SIZE \<and> v_page_number C + 1 < NUM_DIMMS)"
proof -
  note n = new_entry_sizes [OF k]
  have big: "METADATA_SIZE + i + meta_size + x > PAGE_SIZE \<longleftrightarrow> \<not> i + meta_size + x \<le> DATA_SIZE"
    "METADATA_SIZE + i + meta_size + x \<le> PAGE_SIZE \<longleftrightarrow> i + meta_size + x \<le> DATA_SIZE" for x by (auto simp: sizes)
  show ?thesis
  proof (cases "i + meta_size + (length key + length val) \<le> DATA_SIZE")
    case True
    then show ?thesis using n by (auto simp: s_place_def Let_def i [symmetric] big)
  next
    case False
    obtain V1 C1 where u: "update_var_size_page_information None V C = Inr (V1, C1)"
      using update_var_total [OF blk] by blast
    have same: "v_block_number C1 = v_block_number C \<longleftrightarrow> v_page_number C + 1 < NUM_DIMMS"
    proof (cases "v_page_number C + 1 = NUM_DIMMS")
      case True
      then have "v_block_number C1 = s_cursor V"
        using u C blk by (auto simp: update_var_size_page_information_def s_get_access_def s_info_sync_def s_get_new_block_def
            s_take_block_def Let_def s_client_def)
      then show ?thesis using C True by (simp add: s_client_def)
    next
      case False
      then show ?thesis using u C by (auto simp: update_var_size_page_information_def Let_def s_client_def on_page_def)
    qed
    show ?thesis using False n same u by (auto simp: s_place_def Let_def i [symmetric] big)
  qed
qed

theorem oversized_record_overruns_witness:
  "s_place None (replicate 3000 0) (replicate 3000 0) string_store (string_client\<lparr>v_page_number := 5, num_v_pages_processed := 5\<rparr>) = Inl PageOverrun"
proof -
  let ?C = "string_client\<lparr>v_page_number := 5, num_v_pages_processed := 5\<rparr>"
  have "s_client string_store ?C" by (simp add: s_client_def string_client_def new_client_def on_page_def string_store_def sizes)
  moreover have "s_shape string_store" using string_okD(1) [OF conjunct1 [OF string_store_ok]] .
  moreover have "s_cursor string_store < length (s_blocks string_store)" by (simp add: string_store_def)
  ultimately show ?thesis
    using oversized_record_overruns [of string_store ?C "replicate 3000 0" "replicate 3000 0", OF _ _ _ _ _ refl] by (simp add: sizes)
qed

end
