(* ===== verification/Pending_Ring.thy ===== *)
theory Pending_Ring
  imports Hiom_Prelude
begin

text \<open>
  Bookkeeping of the durable frontier in hiom.hpp: the ring of pending blocks (a tagged slot per
  residue, one 64-bit word with the block number in its upper half and a count in its lower half) and
  the table of client slots. The ring is a multiset of blocks with at most one block per residue.
  Every call is one compare-exchange on its slot; a call that finds the slot tagged by another block
  waits and tries again, which is the outcome \<open>RingStall\<close>; the aborts are \<open>RingFatal\<close>.
\<close>

section \<open>The ring\<close>

definition kWindow_ring :: nat where "kWindow_ring = 65536"
definition kMask_ring :: u64 where "kMask_ring = mask 16"
definition kCountMask :: u64 where "kCountMask = mask 32"
definition kNoActiveBlock :: u64 where "kNoActiveBlock = 0xFFFFFFFFFFFFFFFF"

definition ring_pack :: "u64 \<Rightarrow> u64 \<Rightarrow> u64" where "ring_pack b c = push_bit 32 b OR c"
definition block_of :: "u64 \<Rightarrow> u64" where "block_of s = drop_bit 32 s"
definition count_of :: "u64 \<Rightarrow> u64" where "count_of s = s AND kCountMask"

definition ring_idx :: "u64 \<Rightarrow> nat" where "ring_idx b = unat (b AND kMask_ring)"

datatype ring_result = RingOk "u64 list" | RingStall | RingFatal

definition pending_register :: "u64 \<Rightarrow> u64 list \<Rightarrow> ring_result" where
  "pending_register b ring =
    (if b > kCountMask then RingFatal
     else let i = ring_idx b; cur = ring ! i
          in if count_of cur = 0 then RingOk (ring[i := ring_pack b 1])
             else if block_of cur = b then
               (if count_of cur = kCountMask then RingFatal else RingOk (ring[i := cur + 1]))
             else RingStall)"

definition pending_retire :: "u64 \<Rightarrow> u64 list \<Rightarrow> ring_result" where
  "pending_retire b ring =
    (let i = ring_idx b; cur = ring ! i
     in if block_of cur \<noteq> b \<or> count_of cur = 0 then RingFatal else RingOk (ring[i := cur - 1]))"

definition earliest_pending_block :: "u64 list \<Rightarrow> u64" where
  "earliest_pending_block ring =
    fold (\<lambda>s m. if count_of s = 0 then m else if block_of s < m then block_of s else m) ring kNoActiveBlock"

definition pending_new :: "u64 list" where
  "pending_new = replicate kWindow_ring 0"

section \<open>Packed words\<close>

lemma kCountMask_val: "kCountMask = 2 ^ 32 - 1"
  by (simp add: kCountMask_def mask_eq_exp_minus_1)

lemma u64_less: "unat (w :: u64) < 2 ^ 64"
  using unsigned_less [of w] by simp

lemma unat_count: "unat (count_of s) = unat s mod 2 ^ 32"
  by (simp add: count_of_def kCountMask_def flip: take_bit_eq_mask) (simp add: unsigned_take_bit_eq take_bit_nat_def)

lemma unat_block: "unat (block_of s) = unat s div 2 ^ 32"
  by (simp only: block_of_def unsigned_drop_bit_eq)
    (use u64_less [of s] in \<open>simp add: drop_bit_nat_def take_bit_nat_eq_self\<close>)

lemma word_split: "unat s = unat (block_of s) * 2 ^ 32 + unat (count_of s)"
  unfolding unat_count unat_block by (simp only: div_mult_mod_eq)

lemma count_less: "unat (count_of s) < 2 ^ 32"
  unfolding unat_count by simp

lemma ring_idx_mod: "ring_idx b = unat b mod kWindow_ring"
  unfolding ring_idx_def kMask_ring_def
  by (simp flip: take_bit_eq_mask) (simp add: unsigned_take_bit_eq take_bit_nat_def kWindow_ring_def)

lemma ring_idx_less: "ring_idx b < kWindow_ring"
  by (simp add: ring_idx_mod kWindow_ring_def)

lemma le_count_mask: "b \<le> kCountMask \<longleftrightarrow> unat b < 2 ^ 32"
  unfolding kCountMask_val word_le_nat_alt by (simp add: unat_arith_simps) linarith

lemma ring_pack_1:
  assumes "b \<le> kCountMask"
  shows "block_of (ring_pack b 1) = b" "count_of (ring_pack b 1) = 1"
proof -
  have "unat b < 2 ^ 32" using assms by (simp add: le_count_mask)
  then have "unat (push_bit 32 b) = unat b * 2 ^ 32"
    by (simp add: push_bit_eq_mult unat_word_ariths)
  moreover have "ring_pack b 1 = push_bit 32 b + 1"
    unfolding ring_pack_def by (rule disjunctive_add [symmetric]) (auto simp: bit_push_bit_iff bit_1_iff)
  ultimately have u: "unat (ring_pack b 1) = unat b * 2 ^ 32 + 1"
    using \<open>unat b < 2 ^ 32\<close> by (simp add: unat_word_ariths)
  have "unat (block_of (ring_pack b 1)) = unat b" "unat (count_of (ring_pack b 1)) = 1"
    unfolding unat_block unat_count u by (simp_all add: mod_Suc)
  then show "block_of (ring_pack b 1) = b" "count_of (ring_pack b 1) = 1"
    by (simp_all add: word_unat_eq_iff)
qed

lemma ring_step:
  assumes "count_of s \<noteq> kCountMask"
  shows "block_of (s + 1) = block_of s" "unat (count_of (s + 1)) = unat (count_of s) + 1"
proof -
  have "unat (count_of s) \<noteq> 2 ^ 32 - 1"
    using assms by (simp add: word_unat_eq_iff [of "count_of s"] kCountMask_val)
  then have c: "unat (count_of s) + 1 < 2 ^ 32" using count_less [of s] by linarith
  then have "unat s + 1 < 2 ^ 64"
  proof -
    have "unat (block_of s) < 2 ^ 32" unfolding unat_block by (rule less_mult_imp_div_less) (use u64_less [of s] in simp)
    then have "unat (block_of s) * 2 ^ 32 + 2 ^ 32 \<le> (2 ^ 64 :: nat)" by simp
    then show ?thesis using word_split [of s] c by linarith
  qed
  then have u: "unat (s + 1) = unat (block_of s) * 2 ^ 32 + (unat (count_of s) + 1)"
    using word_split [of s] by (simp add: unat_word_ariths)
  show "unat (count_of (s + 1)) = unat (count_of s) + 1" unfolding unat_count [of "s + 1"] u using c by simp
  have "unat (block_of (s + 1)) = unat (block_of s)" unfolding unat_block [of "s + 1"] u using c by simp
  then show "block_of (s + 1) = block_of s" by (simp add: word_unat_eq_iff)
qed

lemma ring_back:
  assumes "count_of s \<noteq> 0"
  shows "block_of (s - 1) = block_of s" "unat (count_of (s - 1)) = unat (count_of s) - 1"
proof -
  have c: "0 < unat (count_of s)" using assms by (simp add: word_unat_eq_iff)
  then have "0 < unat s" using word_split [of s] by linarith
  then have u: "unat (s - 1) = unat (block_of s) * 2 ^ 32 + (unat (count_of s) - 1)"
    using word_split [of s] c by (simp add: unat_minus_one word_unat_eq_iff)
  have l: "unat (count_of s) - 1 < 2 ^ 32" using count_less [of s] by linarith
  show "unat (count_of (s - 1)) = unat (count_of s) - 1" unfolding unat_count [of "s - 1"] u using l by simp
  have "unat (block_of (s - 1)) = unat (block_of s)" unfolding unat_block [of "s - 1"] u using l by simp
  then show "block_of (s - 1) = block_of s" by (simp add: word_unat_eq_iff)
qed

section \<open>The ring as a multiset\<close>

text \<open>How often block \<open>b\<close> is registered; a slot in use sits at the residue of its block.\<close>

definition pending_count :: "u64 list \<Rightarrow> u64 \<Rightarrow> nat" where
  "pending_count ring b = (if block_of (ring ! ring_idx b) = b then unat (count_of (ring ! ring_idx b)) else 0)"

definition ring_inv :: "u64 list \<Rightarrow> bool" where
  "ring_inv ring \<longleftrightarrow> length ring = kWindow_ring \<and>
     (\<forall>i < kWindow_ring. count_of (ring ! i) \<noteq> 0 \<longrightarrow> ring_idx (block_of (ring ! i)) = i)"

text \<open>The contract of a bag of pending blocks, as the frontier computation relies on it.\<close>

datatype 'b pend_op = Reg 'b | Ret 'b

locale pending_bag =
  fixes inv :: "'s \<Rightarrow> bool"
    and cnt :: "'s \<Rightarrow> 'b::linorder \<Rightarrow> nat"
    and reg :: "'b \<Rightarrow> 's \<Rightarrow> 's option"
    and ret :: "'b \<Rightarrow> 's \<Rightarrow> 's option"
    and least :: "'s \<Rightarrow> 'b option"
  assumes reg: "inv s \<Longrightarrow> reg b s = Some s' \<Longrightarrow> inv s' \<and> cnt s' = (cnt s)(b := cnt s b + 1)"
    and ret: "inv s \<Longrightarrow> ret b s = Some s' \<Longrightarrow> inv s' \<and> cnt s' = (cnt s)(b := cnt s b - 1)"
    and ret_ok: "inv s \<Longrightarrow> ret b s = None \<longleftrightarrow> cnt s b = 0"
    and least_None: "inv s \<Longrightarrow> least s = None \<Longrightarrow> cnt s b = 0"
    and least_Some: "inv s \<Longrightarrow> least s = Some m \<Longrightarrow> 0 < cnt s m \<and> (0 < cnt s b \<longrightarrow> m \<le> b)"
begin

fun prun :: "'b pend_op list \<Rightarrow> 's \<Rightarrow> 's option" where
  "prun [] s = Some s"
| "prun (Reg b # ops) s = (case reg b s of None \<Rightarrow> None | Some s' \<Rightarrow> prun ops s')"
| "prun (Ret b # ops) s = (case ret b s of None \<Rightarrow> None | Some s' \<Rightarrow> prun ops s')"

lemma prun_exact:
  assumes "inv s" "prun ops s = Some s'"
  shows "inv s' \<and> cnt s' b + count_list ops (Ret b) = cnt s b + count_list ops (Reg b)"
  using assms
proof (induction ops s rule: prun.induct)
  case (2 c ops s)
  then obtain s1 where s1: "reg c s = Some s1" "prun ops s1 = Some s'" by (auto split: option.splits)
  have "inv s1" "cnt s1 = (cnt s)(c := cnt s c + 1)" using reg [OF "2.prems"(1) s1(1)] by simp_all
  then show ?case using "2.IH" [OF s1(1) _ s1(2)] by (cases "b = c") auto
next
  case (3 c ops s)
  then obtain s1 where s1: "ret c s = Some s1" "prun ops s1 = Some s'" by (auto split: option.splits)
  have "inv s1" "cnt s1 = (cnt s)(c := cnt s c - 1)" "0 < cnt s c"
    using ret [OF "3.prems"(1) s1(1)] ret_ok [OF "3.prems"(1), of c] s1(1) by auto
  then show ?case using "3.IH" [OF s1(1) _ s1(2)] by (cases "b = c") auto
qed simp

lemma least_exact:
  assumes "inv s" "prun ops s = Some s'"
  shows "(case least s' of None \<Rightarrow> \<forall>b. cnt s' b = 0 | Some m \<Rightarrow> 0 < cnt s' m \<and> (\<forall>b. 0 < cnt s' b \<longrightarrow> m \<le> b))"
  using prun_exact [OF assms] least_None [of s'] least_Some [of s'] by (auto split: option.splits)

end

definition ring_opt :: "ring_result \<Rightarrow> u64 list option" where
  "ring_opt r = (case r of RingOk ring \<Rightarrow> Some ring | RingStall \<Rightarrow> None | RingFatal \<Rightarrow> None)"

definition ring_least :: "u64 list \<Rightarrow> u64 option" where
  "ring_least ring = (if earliest_pending_block ring = kNoActiveBlock then None else Some (earliest_pending_block ring))"

lemma block_small: "block_of s \<noteq> kNoActiveBlock" "block_of s \<le> kCountMask"
proof -
  have "unat (block_of s) < 2 ^ 32" unfolding unat_block by (rule less_mult_imp_div_less) (use u64_less [of s] in simp)
  then show "block_of s \<noteq> kNoActiveBlock" "block_of s \<le> kCountMask"
    by (auto simp: kNoActiveBlock_def le_count_mask word_unat_eq_iff)
qed

lemma earliest_fold:
  defines "f \<equiv> \<lambda>s m. if count_of s = 0 then m else if block_of s < m then block_of s else m"
  shows "fold f xs m \<le> m \<and> (\<forall>s \<in> set xs. count_of s \<noteq> 0 \<longrightarrow> fold f xs m \<le> block_of s)
    \<and> (fold f xs m = m \<or> (\<exists>s \<in> set xs. count_of s \<noteq> 0 \<and> fold f xs m = block_of s))"
proof (induction xs arbitrary: m)
  case (Cons s xs)
  have "f s m \<le> m" "count_of s \<noteq> 0 \<longrightarrow> f s m \<le> block_of s" "f s m = m \<or> count_of s \<noteq> 0 \<and> f s m = block_of s"
    by (auto simp: f_def)
  then show ?case using Cons [of "f s m"] by (auto intro: order_trans)
qed simp

lemma pending_in_slot:
  assumes "ring_inv ring" "i < kWindow_ring" "count_of (ring ! i) \<noteq> 0"
  shows "0 < pending_count ring (block_of (ring ! i))"
  using assms by (auto simp: pending_count_def ring_inv_def word_unat_eq_iff)

lemma pending_slot_of:
  assumes "ring_inv ring" "0 < pending_count ring b"
  shows "ring ! ring_idx b \<in> set ring" "block_of (ring ! ring_idx b) = b" "count_of (ring ! ring_idx b) \<noteq> 0"
  using assms ring_idx_less [of b] by (auto simp: pending_count_def ring_inv_def word_unat_eq_iff split: if_splits)

lemma ring_least_correct:
  assumes "ring_inv ring"
  shows "ring_least ring = None \<Longrightarrow> pending_count ring b = 0"
    and "ring_least ring = Some m \<Longrightarrow> 0 < pending_count ring m \<and> (0 < pending_count ring b \<longrightarrow> m \<le> b)"
proof -
  note E = earliest_fold [of ring kNoActiveBlock, folded earliest_pending_block_def]
  have le: "earliest_pending_block ring \<le> b" if "0 < pending_count ring b" for b
    using E pending_slot_of [OF assms that] by auto
  have mem: "\<exists>i < kWindow_ring. count_of (ring ! i) \<noteq> 0 \<and> block_of (ring ! i) = earliest_pending_block ring"
    if "earliest_pending_block ring \<noteq> kNoActiveBlock"
    using E that assms by (auto simp: in_set_conv_nth ring_inv_def)
  show "pending_count ring b = 0" if n: "ring_least ring = None"
  proof (rule ccontr)
    assume "pending_count ring b \<noteq> 0"
    then have "earliest_pending_block ring \<le> block_of (ring ! ring_idx b)"
      using le [of b] pending_slot_of [OF assms, of b] by simp
    moreover have "earliest_pending_block ring = kNoActiveBlock" using n by (auto simp: ring_least_def split: if_splits)
    ultimately have "block_of (ring ! ring_idx b) = kNoActiveBlock"
      using word_le_nat_alt [of kNoActiveBlock] u64_less [of "block_of (ring ! ring_idx b)"]
      by (simp add: kNoActiveBlock_def word_unat_eq_iff)
    then show False using block_small(1) by blast
  qed
  show "0 < pending_count ring m \<and> (0 < pending_count ring b \<longrightarrow> m \<le> b)" if s: "ring_least ring = Some m"
  proof -
    have m: "m = earliest_pending_block ring" "m \<noteq> kNoActiveBlock" using s by (auto simp: ring_least_def split: if_splits)
    then obtain i where "i < kWindow_ring" "count_of (ring ! i) \<noteq> 0" "block_of (ring ! i) = m" using mem by auto
    then have "0 < pending_count ring m" using pending_in_slot [OF assms] by blast
    then show ?thesis using le [of b] m by simp
  qed
qed

lemma register_correct:
  assumes "ring_inv ring" "pending_register b ring = RingOk ring'"
  shows "ring_inv ring' \<and> pending_count ring' = (pending_count ring)(b := pending_count ring b + 1)"
proof -
  let ?i = "ring_idx b"
  have len: "length ring = kWindow_ring" and i: "?i < length ring"
    using assms(1) ring_idx_less by (simp_all add: ring_inv_def)
  have b: "b \<le> kCountMask" using assms(2) by (auto simp: pending_register_def split: if_splits)
  obtain w where w: "ring' = ring[?i := w]" "block_of w = b" "unat (count_of w) = pending_count ring b + 1"
    "count_of (ring ! ?i) \<noteq> 0 \<longrightarrow> block_of (ring ! ?i) = b"
  proof (cases "count_of (ring ! ?i) = 0")
    case True
    then have "ring' = ring[?i := ring_pack b 1]" "pending_count ring b = 0"
      using assms(2) leD [OF b] by (auto simp: pending_register_def pending_count_def Let_def)
    then show ?thesis using True that [of "ring_pack b 1"] ring_pack_1 [OF b] by simp
  next
    case False
    then have "block_of (ring ! ?i) = b" "count_of (ring ! ?i) \<noteq> kCountMask" "ring' = ring[?i := ring ! ?i + 1]"
      using assms(2) b by (auto simp: pending_register_def Let_def split: if_splits)
    then show ?thesis using that [of "ring ! ?i + 1"] ring_step [of "ring ! ?i"] by (simp add: pending_count_def)
  qed
  have "ring_inv ring'" using assms(1) w(1,2) i by (auto simp: ring_inv_def nth_list_update)
  moreover have "pending_count ring' c = ((pending_count ring)(b := pending_count ring b + 1)) c" for c
  proof (cases "c = b")
    case True then show ?thesis using w(1-3) i by (simp add: pending_count_def)
  next
    case False
    then have "pending_count ring c = 0" if "ring_idx c = ?i" using that w(4) by (auto simp: pending_count_def)
    then show ?thesis using False w(1,2) i by (cases "ring_idx c = ?i") (auto simp: pending_count_def)
  qed
  ultimately show ?thesis by auto
qed

lemma retire_correct:
  assumes "ring_inv ring"
  shows "pending_retire b ring = RingOk ring' \<Longrightarrow>
      ring_inv ring' \<and> pending_count ring' = (pending_count ring)(b := pending_count ring b - 1)"
    and "ring_opt (pending_retire b ring) = None \<longleftrightarrow> pending_count ring b = 0"
proof -
  let ?i = "ring_idx b"
  have i: "?i < length ring" using assms ring_idx_less by (simp add: ring_inv_def)
  show "ring_opt (pending_retire b ring) = None \<longleftrightarrow> pending_count ring b = 0"
    by (auto simp: ring_opt_def pending_retire_def pending_count_def Let_def word_unat_eq_iff)
  assume "pending_retire b ring = RingOk ring'"
  then have r: "ring' = ring[?i := ring ! ?i - 1]" "block_of (ring ! ?i) = b" "count_of (ring ! ?i) \<noteq> 0"
    by (auto simp: pending_retire_def Let_def split: if_splits)
  note w = ring_back [OF r(3)]
  have "ring_inv ring'" using assms r w i by (auto simp: ring_inv_def nth_list_update)
  moreover have "pending_count ring' c = ((pending_count ring)(b := pending_count ring b - 1)) c" for c
    using r w i by (cases "c = b"; cases "ring_idx c = ?i") (auto simp: pending_count_def)
  ultimately show "ring_inv ring' \<and> pending_count ring' = (pending_count ring)(b := pending_count ring b - 1)" by auto
qed

interpretation ring: pending_bag ring_inv pending_count "\<lambda>b r. ring_opt (pending_register b r)"
  "\<lambda>b r. ring_opt (pending_retire b r)" ring_least
proof unfold_locales
  show "ring_inv s' \<and> pending_count s' = (pending_count s)(b := pending_count s b + 1)"
    if "ring_inv s" "ring_opt (pending_register b s) = Some s'" for s b s'
    using that register_correct by (auto simp: ring_opt_def split: ring_result.splits)
  show "ring_inv s' \<and> pending_count s' = (pending_count s)(b := pending_count s b - 1)"
    if "ring_inv s" "ring_opt (pending_retire b s) = Some s'" for s b s'
    using that retire_correct(1) by (auto simp: ring_opt_def split: ring_result.splits)
qed (rule retire_correct(2) ring_least_correct, assumption+)+

lemma pending_new_inv: "ring_inv pending_new" "pending_count pending_new b = 0"
proof -
  have z: "pending_new ! ring_idx b = 0" for b using ring_idx_less [of b] by (simp add: pending_new_def)
  show "ring_inv pending_new" by (simp add: ring_inv_def pending_new_def count_of_def)
  show "pending_count pending_new b = 0" unfolding pending_count_def z by (simp add: count_of_def)
qed

text \<open>When a register waits, and when it aborts.\<close>

lemma register_outcome:
  assumes "ring_inv ring"
  shows "pending_register b ring = RingStall \<longleftrightarrow>
      b \<le> kCountMask \<and> (\<exists>c. c \<noteq> b \<and> ring_idx c = ring_idx b \<and> 0 < pending_count ring c)"
    and "pending_register b ring = RingFatal \<longleftrightarrow> kCountMask < b \<or> pending_count ring b = 2 ^ 32 - 1"
proof -
  let ?s = "ring ! ring_idx b"
  have idx: "ring_idx (block_of ?s) = ring_idx b" if "count_of ?s \<noteq> 0"
    using assms ring_idx_less [of b] that by (simp add: ring_inv_def)
  show "pending_register b ring = RingStall \<longleftrightarrow>
      b \<le> kCountMask \<and> (\<exists>c. c \<noteq> b \<and> ring_idx c = ring_idx b \<and> 0 < pending_count ring c)"
  proof
    assume "pending_register b ring = RingStall"
    then have "b \<le> kCountMask" "count_of ?s \<noteq> 0" "block_of ?s \<noteq> b"
      by (auto simp: pending_register_def Let_def split: if_splits)
    then show "b \<le> kCountMask \<and> (\<exists>c. c \<noteq> b \<and> ring_idx c = ring_idx b \<and> 0 < pending_count ring c)"
      using idx pending_in_slot [OF assms ring_idx_less, of b] by (intro conjI exI [of _ "block_of ?s"]) auto
  next
    assume "b \<le> kCountMask \<and> (\<exists>c. c \<noteq> b \<and> ring_idx c = ring_idx b \<and> 0 < pending_count ring c)"
    then obtain c where c: "b \<le> kCountMask" "c \<noteq> b" "ring_idx c = ring_idx b" "0 < pending_count ring c" by blast
    then have "block_of ?s \<noteq> b" "count_of ?s \<noteq> 0" using pending_slot_of [OF assms c(4)] by auto
    then show "pending_register b ring = RingStall" using leD [OF c(1)] by (simp add: pending_register_def Let_def)
  qed
  have "count_of ?s = kCountMask \<longleftrightarrow> unat (count_of ?s) = 2 ^ 32 - 1"
    by (simp add: word_unat_eq_iff kCountMask_val)
  then show "pending_register b ring = RingFatal \<longleftrightarrow> kCountMask < b \<or> pending_count ring b = 2 ^ 32 - 1"
    using block_small(2) [of ?s] by (auto simp: pending_register_def pending_count_def Let_def not_le kCountMask_val split: if_splits)
qed

text \<open>C14. The ring of pending blocks is an exact multiset. After any sequence of registers and retires
  that runs through, each block is counted as often as it was registered less the times it was
  retired, the earliest pending block is the least block with a positive count (or none), a retire
  is refused exactly for a block that is not pending, a register waits exactly when another block of
  the same residue is pending, and aborts exactly beyond the 32-bit tag or count range.\<close>

theorem pending_ring_bag:
  assumes "ring.prun ops pending_new = Some r"
  shows "pending_count r b + count_list ops (Ret b) = count_list ops (Reg b)
    \<and> (case ring_least r of None \<Rightarrow> \<forall>c. pending_count r c = 0
        | Some m \<Rightarrow> 0 < pending_count r m \<and> (\<forall>c. 0 < pending_count r c \<longrightarrow> m \<le> c))
    \<and> (ring_opt (pending_retire b r) = None \<longleftrightarrow> pending_count r b = 0)
    \<and> (pending_register b r = RingStall \<longleftrightarrow>
        b \<le> kCountMask \<and> (\<exists>c. c \<noteq> b \<and> ring_idx c = ring_idx b \<and> 0 < pending_count r c))
    \<and> (pending_register b r = RingFatal \<longleftrightarrow> kCountMask < b \<or> pending_count r b = 2 ^ 32 - 1)"
  using ring.prun_exact [OF pending_new_inv(1) assms, of b] ring.least_exact [OF pending_new_inv(1) assms]
    pending_new_inv(2) [of b] retire_correct(2) [of r b] register_outcome [of r b]
  by simp

lemma register_free:
  "b \<le> kCountMask \<Longrightarrow> ring ! ring_idx b = 0 \<Longrightarrow> pending_register b ring = RingOk (ring[ring_idx b := ring_pack b 1])"
  by (simp add: pending_register_def Let_def count_of_def leD)

theorem pending_ring_bag_witness:
  "\<exists>r. ring.prun [Reg 7, Reg 9, Ret 7] pending_new = Some r \<and> pending_count r 9 = 1 \<and> pending_count r 7 = 0"
proof -
  have l: "(7::u64) \<le> kCountMask" "(9::u64) \<le> kCountMask" by (simp_all add: kCountMask_val)
  have i: "ring_idx 7 = 7" "ring_idx 9 = 9" by (simp_all add: ring_idx_mod kWindow_ring_def)
  have z: "pending_new ! n = 0" if "n < 65536" for n using that by (simp add: pending_new_def kWindow_ring_def)
  have len: "length pending_new = 65536" by (simp add: pending_new_def kWindow_ring_def)
  have r1: "pending_register 7 pending_new = RingOk (pending_new[7 := ring_pack 7 1])"
    using register_free [OF l(1), of pending_new] i z by simp
  have r2: "pending_register 9 (pending_new[7 := ring_pack 7 1]) = RingOk (pending_new[7 := ring_pack 7 1, 9 := ring_pack 9 1])"
    using register_free [OF l(2), of "pending_new[7 := ring_pack 7 1]"] i z by simp
  let ?r = "pending_new[7 := ring_pack 7 1, 9 := ring_pack 9 1]"
  have "ring_opt (pending_retire 7 ?r) \<noteq> None"
    using i len ring_pack_1 [OF l(1)] by (simp add: pending_retire_def ring_opt_def Let_def)
  then obtain r where "ring_opt (pending_retire 7 ?r) = Some r" by auto
  moreover have ok: "ring_opt (RingOk x) = Some x" for x by (simp add: ring_opt_def)
  ultimately have run: "ring.prun [Reg 7, Reg 9, Ret 7] pending_new = Some r" using ok r1 r2 by simp
  show ?thesis using pending_ring_bag [OF run, of 9] pending_ring_bag [OF run, of 7] run by simp
qed

section \<open>Client slots\<close>

definition kMaxClientSlots :: nat where "kMaxClientSlots = 256"

record ClientSlot =
  last_block :: u64
  inflight_block :: u64
  active :: bool

definition empty_slot :: ClientSlot where
  "empty_slot = \<lparr>last_block = kNoActiveBlock, inflight_block = kNoActiveBlock, active = False\<rparr>"

definition reserve_client_slot :: "ClientSlot list \<Rightarrow> nat option \<times> ClientSlot list" where
  "reserve_client_slot slots =
    (case first_idx kMaxClientSlots (\<lambda>i. \<not> active (slots ! i)) of
       None \<Rightarrow> (None, slots)
     | Some i \<Rightarrow> (Some i, slots[i := \<lparr>last_block = kNoActiveBlock, inflight_block = kNoActiveBlock, active = True\<rparr>]))"

definition release_client_slot :: "nat \<Rightarrow> ClientSlot list \<Rightarrow> ClientSlot list" where
  "release_client_slot idx slots = (if idx \<ge> kMaxClientSlots then slots else slots[idx := (slots ! idx)\<lparr>active := False\<rparr>])"

definition note_client_block :: "nat \<Rightarrow> u64 \<Rightarrow> ClientSlot list \<Rightarrow> ClientSlot list" where
  "note_client_block idx b slots = (if idx \<ge> kMaxClientSlots then slots else slots[idx := (slots ! idx)\<lparr>last_block := b\<rparr>])"

definition note_inflight_block :: "nat \<Rightarrow> u64 \<Rightarrow> ClientSlot list \<Rightarrow> ClientSlot list" where
  "note_inflight_block idx b slots = (if idx \<ge> kMaxClientSlots then slots else slots[idx := (slots ! idx)\<lparr>inflight_block := b\<rparr>])"

definition min_active_writer_block :: "ClientSlot list \<Rightarrow> u64" where
  "min_active_writer_block slots =
    fold (\<lambda>s m. if \<not> active s then m
              else let b = min (last_block s) (inflight_block s) in if b < m then b else m) slots kNoActiveBlock"

lemma min_active_writer_bound:
  "s \<in> set slots \<Longrightarrow> active s \<Longrightarrow> min_active_writer_block slots \<le> last_block s \<and> min_active_writer_block slots \<le> inflight_block s"
proof -
  let ?f = "\<lambda>s m. if \<not> active s then m else let b = min (last_block s) (inflight_block s) in if b < m then b else m"
  have "fold ?f xs m \<le> m \<and> (\<forall>s \<in> set xs. active s \<longrightarrow> fold ?f xs m \<le> min (last_block s) (inflight_block s))" for xs m
  proof (induction xs arbitrary: m)
    case (Cons s xs)
    have "?f s m \<le> m" "active s \<longrightarrow> ?f s m \<le> min (last_block s) (inflight_block s)"
      by (auto simp: Let_def not_less simp del: min_less_iff_conj min.bounded_iff)
    then show ?case using Cons [of "?f s m"] by (auto intro: order_trans simp del: min.bounded_iff)
  qed simp
  then show "s \<in> set slots \<Longrightarrow> active s \<Longrightarrow> ?thesis" by (auto simp: min_active_writer_block_def)
qed

end
