(* ===== verification/Frontier_Protocol.thy ===== *)
theory Frontier_Protocol
  imports Pending_Ring "HOL-Library.Multiset" "HOL-Library.Extended_Nat"
begin

text \<open>
  The durable-frontier protocol of hiom.hpp, one atomic access at a time: writers that claim blocks,
  publish the block they are about to write, store a record, register and enqueue it; flushers that
  apply entries to the cold tier and retire them; and the checkpoint, which reads the client slots,
  the allocation cursor and the pending ring in this order and persists the minimum. Memory order is
  total store order, as the code assumes. A block bound is an extended natural, infinity being
  \<open>kNoActiveBlock\<close>. The pending ring is the multiset that Pending_Ring shows it to be.
\<close>

section \<open>State\<close>

text \<open>Where a writer stands: \<open>get_client\<close> claims a block, reserves a slot and resets its two fields;
  \<open>put\<close> publishes, may move on to a fresh block, stores; \<open>mirror_write_with_offset\<close> notes the block
  and \<open>push_commit\<close> registers and enqueues.\<close>

datatype wpc = WFree | WClaimed | WActive | WLastReset | WIdle | WReady | WStored | WNoted | WRegistered

record writer =
  w_pc :: wpc
  w_owned :: nat
  w_active :: bool
  w_last :: enat
  w_inflight :: enat

datatype cpc = CIdle | CActive nat enat | CLast nat enat | CInflight nat enat enat | CNext enat | CRing nat enat

record fstate =
  writers :: "nat \<Rightarrow> writer"
  cursor :: nat
  pending :: "nat multiset"
  buffered :: "nat multiset"
  retiring :: "nat multiset"
  unapplied :: "nat multiset"
  ck :: cpc
  frontier :: nat

text \<open>\<open>unapplied\<close> holds the blocks of the durable records that the cold tier does not have yet.\<close>

definition set_writer :: "nat \<Rightarrow> writer \<Rightarrow> fstate \<Rightarrow> fstate" where
  "set_writer i w s = s\<lparr>writers := (writers s)(i := w)\<rparr>"

text \<open>A client that has finished \<open>get_client\<close> and published a block in its first \<open>put\<close>.\<close>

definition settled :: "writer \<Rightarrow> bool" where
  "settled w \<longleftrightarrow> w_pc w = WFree \<or> (w_pc w \<notin> {WClaimed, WActive, WLastReset} \<and> w_inflight w \<noteq> \<infinity>)"

section \<open>Steps\<close>

text \<open>The code is \<open>fstep False\<close>. With \<open>quiet\<close>, clients are created only while no checkpoint is being
  taken, and a checkpoint starts only when every client has published its first block.\<close>

inductive fstep :: "bool \<Rightarrow> fstate \<Rightarrow> fstate \<Rightarrow> bool" for quiet :: bool where
  claim: "i < kMaxClientSlots \<Longrightarrow> w_pc (writers s i) = WFree \<Longrightarrow> quiet \<longrightarrow> ck s = CIdle \<Longrightarrow>
    fstep quiet s ((set_writer i ((writers s i)\<lparr>w_pc := WClaimed, w_owned := cursor s\<rparr>) s)\<lparr>cursor := cursor s + 1\<rparr>)"
| reserve: "i < kMaxClientSlots \<Longrightarrow> w_pc (writers s i) = WClaimed \<Longrightarrow>
    fstep quiet s (set_writer i ((writers s i)\<lparr>w_pc := WActive, w_active := True\<rparr>) s)"
| reset_last: "i < kMaxClientSlots \<Longrightarrow> w_pc (writers s i) = WActive \<Longrightarrow>
    fstep quiet s (set_writer i ((writers s i)\<lparr>w_pc := WLastReset, w_last := \<infinity>\<rparr>) s)"
| reset_inflight: "i < kMaxClientSlots \<Longrightarrow> w_pc (writers s i) = WLastReset \<Longrightarrow>
    fstep quiet s (set_writer i ((writers s i)\<lparr>w_pc := WIdle, w_inflight := \<infinity>\<rparr>) s)"
| publish: "i < kMaxClientSlots \<Longrightarrow> w_pc (writers s i) = WIdle \<Longrightarrow>
    fstep quiet s (set_writer i ((writers s i)\<lparr>w_pc := WReady, w_inflight := enat (w_owned (writers s i))\<rparr>) s)"
| move: "i < kMaxClientSlots \<Longrightarrow> w_pc (writers s i) = WReady \<Longrightarrow>
    fstep quiet s ((set_writer i ((writers s i)\<lparr>w_owned := cursor s\<rparr>) s)\<lparr>cursor := cursor s + 1\<rparr>)"
| store: "i < kMaxClientSlots \<Longrightarrow> w_pc (writers s i) = WReady \<Longrightarrow>
    fstep quiet s ((set_writer i ((writers s i)\<lparr>w_pc := WStored\<rparr>) s)\<lparr>unapplied := add_mset (w_owned (writers s i)) (unapplied s)\<rparr>)"
| note_last: "i < kMaxClientSlots \<Longrightarrow> w_pc (writers s i) = WStored \<Longrightarrow>
    fstep quiet s (set_writer i ((writers s i)\<lparr>w_pc := WNoted, w_last := enat (w_owned (writers s i))\<rparr>) s)"
| register: "i < kMaxClientSlots \<Longrightarrow> w_pc (writers s i) = WNoted \<Longrightarrow>
    (\<And>c. c \<in># pending s \<Longrightarrow> c mod kWindow_ring = w_owned (writers s i) mod kWindow_ring \<Longrightarrow> c = w_owned (writers s i)) \<Longrightarrow>
    fstep quiet s ((set_writer i ((writers s i)\<lparr>w_pc := WRegistered\<rparr>) s)\<lparr>pending := add_mset (w_owned (writers s i)) (pending s)\<rparr>)"
| enqueue: "i < kMaxClientSlots \<Longrightarrow> w_pc (writers s i) = WRegistered \<Longrightarrow>
    fstep quiet s ((set_writer i ((writers s i)\<lparr>w_pc := WIdle\<rparr>) s)\<lparr>buffered := add_mset (w_owned (writers s i)) (buffered s)\<rparr>)"
| release: "i < kMaxClientSlots \<Longrightarrow> w_pc (writers s i) = WIdle \<Longrightarrow>
    fstep quiet s (set_writer i ((writers s i)\<lparr>w_pc := WFree, w_active := False\<rparr>) s)"
| apply_entry: "b \<in># buffered s \<Longrightarrow>
    fstep quiet s (s\<lparr>buffered := buffered s - {#b#}, unapplied := unapplied s - {#b#}, retiring := add_mset b (retiring s)\<rparr>)"
| retire: "b \<in># retiring s \<Longrightarrow>
    fstep quiet s (s\<lparr>retiring := retiring s - {#b#}, pending := pending s - {#b#}\<rparr>)"
| ck_start: "ck s = CIdle \<Longrightarrow> (\<And>i. quiet \<Longrightarrow> i < kMaxClientSlots \<Longrightarrow> settled (writers s i)) \<Longrightarrow>
    fstep quiet s (s\<lparr>ck := CActive 0 \<infinity>\<rparr>)"
| ck_skip: "ck s = CActive j m \<Longrightarrow> j < kMaxClientSlots \<Longrightarrow> \<not> w_active (writers s j) \<Longrightarrow>
    fstep quiet s (s\<lparr>ck := CActive (Suc j) m\<rparr>)"
| ck_active: "ck s = CActive j m \<Longrightarrow> j < kMaxClientSlots \<Longrightarrow> w_active (writers s j) \<Longrightarrow>
    fstep quiet s (s\<lparr>ck := CLast j m\<rparr>)"
| ck_last: "ck s = CLast j m \<Longrightarrow> fstep quiet s (s\<lparr>ck := CInflight j m (w_last (writers s j))\<rparr>)"
| ck_inflight: "ck s = CInflight j m lb \<Longrightarrow>
    fstep quiet s (s\<lparr>ck := CActive (Suc j) (min m (min lb (w_inflight (writers s j))))\<rparr>)"
| ck_slots: "ck s = CActive kMaxClientSlots m \<Longrightarrow> fstep quiet s (s\<lparr>ck := CNext m\<rparr>)"
| ck_next: "ck s = CNext m \<Longrightarrow> fstep quiet s (s\<lparr>ck := CRing 0 (min m (enat (cursor s)))\<rparr>)"
| ck_ring: "ck s = CRing r m \<Longrightarrow> r < kWindow_ring \<Longrightarrow> b \<in># pending s \<Longrightarrow> b mod kWindow_ring = r \<Longrightarrow>
    fstep quiet s (s\<lparr>ck := CRing (Suc r) (min m (enat b))\<rparr>)"
| ck_empty: "ck s = CRing r m \<Longrightarrow> r < kWindow_ring \<Longrightarrow> (\<And>b. b \<in># pending s \<Longrightarrow> b mod kWindow_ring \<noteq> r) \<Longrightarrow>
    fstep quiet s (s\<lparr>ck := CRing (Suc r) m\<rparr>)"
| ck_write: "ck s = CRing kWindow_ring (enat m) \<Longrightarrow> fstep quiet s (s\<lparr>ck := CIdle, frontier := m\<rparr>)"

text \<open>A store opened with its cursor at \<open>c\<close> and no checkpoint yet.\<close>

definition f_init :: "nat \<Rightarrow> fstate" where
  "f_init c = \<lparr>writers = \<lambda>_. \<lparr>w_pc = WFree, w_owned = 0, w_active = False, w_last = \<infinity>, w_inflight = \<infinity>\<rparr>,
     cursor = c, pending = {#}, buffered = {#}, retiring = {#}, unapplied = {#}, ck = CIdle, frontier = 0\<rparr>"

text \<open>Where \<open>recover_tail_into_cold\<close> starts to scan; it goes up to the cursor.\<close>

definition scan_start :: "nat \<Rightarrow> nat" where
  "scan_start f = (if 0 < f then f - 1 else 0)"

section \<open>Sums over writers\<close>

definition held :: "writer \<Rightarrow> nat multiset" where
  "held w = (if w_pc w \<in> {WStored, WNoted, WRegistered} then {#w_owned w#} else {#})"

definition registered :: "writer \<Rightarrow> nat multiset" where
  "registered w = (if w_pc w = WRegistered then {#w_owned w#} else {#})"

abbreviation total :: "(writer \<Rightarrow> nat multiset) \<Rightarrow> (nat \<Rightarrow> writer) \<Rightarrow> nat multiset" where
  "total f ws \<equiv> (\<Sum>i<kMaxClientSlots. f (ws i))"

lemma total_upd:
  assumes "i < kMaxClientSlots"
  shows "total f (ws(i := w)) + f (ws i) = total f ws + f w"
proof -
  have "total f (ws(i := w)) = f w + (\<Sum>j\<in>{..<kMaxClientSlots} - {i}. f (ws j))"
    using assms by (subst sum.remove [of _ i]) (auto intro!: sum.cong)
  moreover have "total f ws = f (ws i) + (\<Sum>j\<in>{..<kMaxClientSlots} - {i}. f (ws j))"
    using assms by (subst sum.remove [of _ i]) auto
  ultimately show ?thesis by simp
qed

lemma total_same: "i < kMaxClientSlots \<Longrightarrow> f w = f (ws i) \<Longrightarrow> total f (ws(i := w)) = total f ws"
  using total_upd [of i f ws w] by simp

lemma in_total: "b \<in># total f ws \<longleftrightarrow> (\<exists>i < kMaxClientSlots. b \<in># f (ws i))"
proof -
  have "b \<in># (\<Sum>i<n. f (ws i)) \<longleftrightarrow> (\<exists>i < n. b \<in># f (ws i))" for n
    by (induction n) (auto simp: less_Suc_eq)
  then show ?thesis .
qed

section \<open>The invariant\<close>

definition pc_ok :: "writer \<Rightarrow> bool" where
  "pc_ok w \<longleftrightarrow> (w_pc w = WFree \<longrightarrow> \<not> w_active w)
     \<and> (w_pc w \<notin> {WFree, WClaimed} \<longrightarrow> w_active w)
     \<and> (w_pc w \<in> {WReady, WStored, WNoted, WRegistered} \<or> w_pc w = WIdle \<and> w_inflight w \<noteq> \<infinity> \<longrightarrow>
          w_inflight w \<le> enat (w_owned w))"

definition writer_ok :: "fstate \<Rightarrow> writer \<Rightarrow> bool" where
  "writer_ok s w \<longleftrightarrow> pc_ok w \<and> (w_pc w \<noteq> WFree \<longrightarrow> w_owned w < cursor s \<and> frontier s \<le> w_owned w)"

text \<open>The slots below \<open>j\<close> have been read: the bound \<open>m\<close> is below everything their clients can still write.\<close>

definition covered :: "fstate \<Rightarrow> nat \<Rightarrow> enat \<Rightarrow> bool" where
  "covered s j m \<longleftrightarrow> (\<forall>i < kMaxClientSlots. i < j \<longrightarrow> w_pc (writers s i) \<noteq> WFree \<longrightarrow> m \<le> enat (w_owned (writers s i)))"

definition ck_ok :: "fstate \<Rightarrow> bool" where
  "ck_ok s = (case ck s of
      CIdle \<Rightarrow> True
    | CActive j m \<Rightarrow> covered s j m
    | CLast j m \<Rightarrow> covered s j m
    | CInflight j m lb \<Rightarrow> covered s j m
    | CNext m \<Rightarrow> covered s kMaxClientSlots m
    | CRing r m \<Rightarrow> covered s kMaxClientSlots m \<and> m \<le> enat (cursor s)
        \<and> (\<forall>b. b \<in># buffered s + total registered (writers s) \<longrightarrow> r \<le> b mod kWindow_ring \<or> m \<le> enat b))"

definition finv :: "fstate \<Rightarrow> bool" where
  "finv s \<longleftrightarrow> (\<forall>i < kMaxClientSlots. writer_ok s (writers s i))
     \<and> unapplied s = total held (writers s) + buffered s
     \<and> pending s = total registered (writers s) + buffered s + retiring s
     \<and> (\<forall>a b. a \<in># pending s \<longrightarrow> b \<in># pending s \<longrightarrow> a mod kWindow_ring = b mod kWindow_ring \<longrightarrow> a = b)
     \<and> (\<forall>b. b \<in># unapplied s \<longrightarrow> frontier s \<le> b \<and> b < cursor s) \<and> frontier s \<le> cursor s
     \<and> (ck s \<noteq> CIdle \<longrightarrow> (\<forall>i < kMaxClientSlots. settled (writers s i))) \<and> ck_ok s"

section \<open>Preservation\<close>

lemma finvD:
  assumes "finv s"
  shows "i < kMaxClientSlots \<Longrightarrow> writer_ok s (writers s i)"
    and "unapplied s = total held (writers s) + buffered s"
    and "pending s = total registered (writers s) + buffered s + retiring s"
    and "a \<in># pending s \<Longrightarrow> b \<in># pending s \<Longrightarrow> a mod kWindow_ring = b mod kWindow_ring \<Longrightarrow> a = b"
    and "b \<in># unapplied s \<Longrightarrow> frontier s \<le> b \<and> b < cursor s" and "frontier s \<le> cursor s"
    and "ck s \<noteq> CIdle \<Longrightarrow> i < kMaxClientSlots \<Longrightarrow> settled (writers s i)" and "ck_ok s"
  using assms unfolding finv_def by blast+

lemma finvI:
  assumes "\<And>i. i < kMaxClientSlots \<Longrightarrow> writer_ok s (writers s i)"
    and "unapplied s = total held (writers s) + buffered s"
    and "pending s = total registered (writers s) + buffered s + retiring s"
    and "\<And>a b. a \<in># pending s \<Longrightarrow> b \<in># pending s \<Longrightarrow> a mod kWindow_ring = b mod kWindow_ring \<Longrightarrow> a = b"
    and "\<And>b. b \<in># unapplied s \<Longrightarrow> frontier s \<le> b \<and> b < cursor s" and "frontier s \<le> cursor s"
    and "\<And>i. ck s \<noteq> CIdle \<Longrightarrow> i < kMaxClientSlots \<Longrightarrow> settled (writers s i)" and "ck_ok s"
  shows "finv s"
  unfolding finv_def using assms by blast

text \<open>A step of one writer: what it has to respect so that the invariant and a running checkpoint survive.\<close>

lemma writer_step:
  assumes inv: "finv s" and i: "i < kMaxClientSlots"
    and s': "s' = s\<lparr>writers := (writers s)(i := w), cursor := c, pending := P, buffered := B, unapplied := U\<rparr>"
    and ok: "writer_ok s' w" and c: "cursor s \<le> c"
    and U: "U = total held ((writers s)(i := w)) + B"
    and P: "P = total registered ((writers s)(i := w)) + B + retiring s"
    and res: "\<And>a b. a \<in># P \<Longrightarrow> b \<in># P \<Longrightarrow> a mod kWindow_ring = b mod kWindow_ring \<Longrightarrow> a = b"
    and low: "\<And>b. b \<in># U \<Longrightarrow> b \<in># unapplied s \<or> b = w_owned (writers s i) \<and> w_pc (writers s i) \<noteq> WFree"
    and own: "ck s \<noteq> CIdle \<Longrightarrow> w_pc w \<noteq> WFree \<Longrightarrow> w_pc (writers s i) \<noteq> WFree \<and> w_owned (writers s i) \<le> w_owned w"
    and new: "\<And>b. b \<in># B + total registered ((writers s)(i := w)) \<Longrightarrow>
      b \<in># buffered s + total registered (writers s) \<or> b = w_owned (writers s i) \<and> w_pc (writers s i) \<noteq> WFree"
    and st: "ck s \<noteq> CIdle \<Longrightarrow> settled w"
  shows "finv s'"
proof -
  have F: "frontier s' = frontier s" "ck s' = ck s" "cursor s' = c" "retiring s' = retiring s"
    "writers s' = (writers s)(i := w)" "pending s' = P" "buffered s' = B" "unapplied s' = U" by (simp_all add: s')
  have wok: "writer_ok s' (writers s' j)" if "j < kMaxClientSlots" for j
  proof (cases "j = i")
    case True then show ?thesis using ok by (simp add: F)
  next
    case False
    then have "writers s' j = writers s j" by (simp add: F)
    then show ?thesis using finvD(1) [OF inv that] c unfolding writer_ok_def F by (auto dest: less_le_trans)
  qed
  have lo: "frontier s \<le> b \<and> b < c" if "b \<in># U" for b
    using low [OF that]
  proof
    assume "b \<in># unapplied s"
    then show ?thesis using finvD(5) [OF inv, of b] c by simp
  next
    assume "b = w_owned (writers s i) \<and> w_pc (writers s i) \<noteq> WFree"
    then show ?thesis using finvD(1) [OF inv i] c unfolding writer_ok_def by auto
  qed
  have cov: "covered s' j m" if "covered s j m" "ck s \<noteq> CIdle" for j m
    unfolding covered_def F
  proof (intro allI impI)
    fix k assume k: "k < kMaxClientSlots" "k < j" "w_pc (((writers s)(i := w)) k) \<noteq> WFree"
    show "m \<le> enat (w_owned (((writers s)(i := w)) k))"
    proof (cases "k = i")
      case True
      then have "m \<le> enat (w_owned (writers s i))" "w_owned (writers s i) \<le> w_owned w"
        using that k own [OF that(2)] by (auto simp: covered_def)
      then show ?thesis using True by (simp add: order_trans [of m "enat (w_owned (writers s i))"])
    next
      case False then show ?thesis using that k by (simp add: covered_def)
    qed
  qed
  have "ck_ok s'"
  proof (cases "ck s")
    case (CRing r m)
    then have o: "covered s kMaxClientSlots m" "m \<le> enat (cursor s)"
      "\<And>b. b \<in># buffered s + total registered (writers s) \<Longrightarrow> r \<le> b mod kWindow_ring \<or> m \<le> enat b"
      using finvD(8) [OF inv] unfolding ck_ok_def by auto
    have "r \<le> b mod kWindow_ring \<or> m \<le> enat b" if "b \<in># B + total registered ((writers s)(i := w))" for b
      using new [OF that] o(1,3) i by (auto simp: covered_def)
    moreover have "m \<le> enat c" using o(2) c by (auto intro: order_trans)
    ultimately show ?thesis using CRing cov [OF o(1)] unfolding ck_ok_def F by simp
  qed (use finvD(8) [OF inv] cov in \<open>auto simp: ck_ok_def F\<close>)
  moreover have "settled (writers s' j)" if "ck s \<noteq> CIdle" "j < kMaxClientSlots" for j
    using finvD(7) [OF inv that] st [OF that(1)] by (simp add: F)
  moreover have "frontier s \<le> c" using finvD(6) [OF inv] c by simp
  ultimately show ?thesis unfolding finv_def using wok lo res U P F by simp
qed

lemma writer_same:
  assumes inv: "finv s" and i: "i < kMaxClientSlots"
    and s': "s' = s\<lparr>writers := (writers s)(i := w), cursor := c\<rparr>"
    and ok: "writer_ok s' w" and c: "cursor s \<le> c"
    and h: "held w = held (writers s i)" "registered w = registered (writers s i)"
    and own: "ck s \<noteq> CIdle \<Longrightarrow> w_pc w \<noteq> WFree \<Longrightarrow> w_pc (writers s i) \<noteq> WFree \<and> w_owned (writers s i) \<le> w_owned w"
    and st: "ck s \<noteq> CIdle \<Longrightarrow> settled w"
  shows "finv s'"
proof (rule writer_step [OF inv i _ ok c _ _ _ _ own _ st])
  show "s' = s\<lparr>writers := (writers s)(i := w), cursor := c, pending := pending s, buffered := buffered s, unapplied := unapplied s\<rparr>"
    by (simp add: s')
qed (use finvD [OF inv] total_same [of i held w "writers s", OF i h(1)] total_same [of i registered w "writers s", OF i h(2)] in auto)

lemmas pc_defs = writer_ok_def pc_ok_def settled_def held_def registered_def set_writer_def

lemma finv_store:
  assumes inv: "finv s" and i: "i < kMaxClientSlots" and pc: "w_pc (writers s i) = WReady"
  shows "finv ((set_writer i ((writers s i)\<lparr>w_pc := WStored\<rparr>) s)\<lparr>unapplied := add_mset (w_owned (writers s i)) (unapplied s)\<rparr>)"
    (is "finv ?s")
proof -
  let ?w = "(writers s i)\<lparr>w_pc := WStored\<rparr>"
  have h: "total held ((writers s)(i := ?w)) = add_mset (w_owned (writers s i)) (total held (writers s))"
    "total registered ((writers s)(i := ?w)) = total registered (writers s)"
    using total_upd [OF i, of held "writers s" ?w] total_same [OF i, of registered ?w "writers s"] pc
    by (simp_all add: held_def registered_def)
  show ?thesis
  proof (rule writer_step [OF inv i, where w = ?w and c = "cursor s" and P = "pending s" and B = "buffered s"
        and U = "add_mset (w_owned (writers s i)) (unapplied s)"])
    show "writer_ok ?s ?w" using finvD(1) [OF inv i] pc by (simp add: pc_defs)
    show "ck s \<noteq> CIdle \<Longrightarrow> settled ?w" using finvD(7) [OF inv _ i] pc by (simp add: settled_def)
    show "add_mset (w_owned (writers s i)) (unapplied s) = total held ((writers s)(i := ?w)) + buffered s"
      using finvD(2) [OF inv] h(1) by simp
    show "pending s = total registered ((writers s)(i := ?w)) + buffered s + retiring s" using finvD(3) [OF inv] h(2) by simp
  qed (use finvD(4) [OF inv] pc h in \<open>auto simp: set_writer_def\<close>)
qed

lemma residue_insert:
  assumes "\<And>a b. a \<in># P \<Longrightarrow> b \<in># P \<Longrightarrow> f a = f b \<Longrightarrow> a = b" "\<And>c. c \<in># P \<Longrightarrow> f c = f x \<Longrightarrow> c = x"
    and "a \<in># add_mset x P" "b \<in># add_mset x P" "f a = f b"
  shows "a = b"
proof (cases "a = x"; cases "b = x")
  assume "a = x" "b \<noteq> x"
  then have "b = x" using assms(4,5) by (intro assms(2)) simp_all
  then show ?thesis using \<open>a = x\<close> by simp
next
  assume "a \<noteq> x" "b = x"
  then have "a = x" using assms(3,5) by (intro assms(2)) simp_all
  then show ?thesis using \<open>b = x\<close> by simp
next
  assume "a \<noteq> x" "b \<noteq> x"
  then show ?thesis using assms(3-5) by (intro assms(1)) simp_all
qed simp

lemma finv_register:
  assumes inv: "finv s" and i: "i < kMaxClientSlots" and pc: "w_pc (writers s i) = WNoted"
    and room: "\<And>c. c \<in># pending s \<Longrightarrow> c mod kWindow_ring = w_owned (writers s i) mod kWindow_ring \<Longrightarrow> c = w_owned (writers s i)"
  shows "finv ((set_writer i ((writers s i)\<lparr>w_pc := WRegistered\<rparr>) s)\<lparr>pending := add_mset (w_owned (writers s i)) (pending s)\<rparr>)"
    (is "finv ?s")
proof -
  let ?w = "(writers s i)\<lparr>w_pc := WRegistered\<rparr>"
  have h: "total held ((writers s)(i := ?w)) = total held (writers s)"
    "total registered ((writers s)(i := ?w)) = add_mset (w_owned (writers s i)) (total registered (writers s))"
    using total_upd [OF i, of registered "writers s" ?w] total_same [OF i, of held ?w "writers s"] pc
    by (simp_all add: held_def registered_def)
  show ?thesis
  proof (rule writer_step [OF inv i, where w = ?w and c = "cursor s" and B = "buffered s" and U = "unapplied s"
        and P = "add_mset (w_owned (writers s i)) (pending s)"])
    show "writer_ok ?s ?w" using finvD(1) [OF inv i] pc by (simp add: pc_defs)
    show "ck s \<noteq> CIdle \<Longrightarrow> settled ?w" using finvD(7) [OF inv _ i] pc by (simp add: settled_def)
    show "unapplied s = total held ((writers s)(i := ?w)) + buffered s" using finvD(2) [OF inv] h(1) by simp
    show "add_mset (w_owned (writers s i)) (pending s) = total registered ((writers s)(i := ?w)) + buffered s + retiring s"
      using finvD(3) [OF inv] h(2) by simp
    show "a = b" if "a \<in># add_mset (w_owned (writers s i)) (pending s)" "b \<in># add_mset (w_owned (writers s i)) (pending s)"
      "a mod kWindow_ring = b mod kWindow_ring" for a b
      using residue_insert [where f = "\<lambda>c. c mod kWindow_ring", OF finvD(4) [OF inv] room] that by blast
  qed (use pc h in \<open>auto simp: set_writer_def\<close>)
qed

lemma finv_enqueue:
  assumes inv: "finv s" and i: "i < kMaxClientSlots" and pc: "w_pc (writers s i) = WRegistered"
  shows "finv ((set_writer i ((writers s i)\<lparr>w_pc := WIdle\<rparr>) s)\<lparr>buffered := add_mset (w_owned (writers s i)) (buffered s)\<rparr>)"
    (is "finv ?s")
proof -
  let ?w = "(writers s i)\<lparr>w_pc := WIdle\<rparr>"
  have h: "total held (writers s) = add_mset (w_owned (writers s i)) (total held ((writers s)(i := ?w)))"
    "total registered (writers s) = add_mset (w_owned (writers s i)) (total registered ((writers s)(i := ?w)))"
    using total_upd [OF i, of registered "writers s" ?w] total_upd [OF i, of held "writers s" ?w] pc
    by (simp_all add: held_def registered_def)
  show ?thesis
  proof (rule writer_step [OF inv i, where w = ?w and c = "cursor s" and P = "pending s" and U = "unapplied s"
        and B = "add_mset (w_owned (writers s i)) (buffered s)"])
    show "writer_ok ?s ?w" using finvD(1) [OF inv i] pc by (simp add: pc_defs)
    show "ck s \<noteq> CIdle \<Longrightarrow> settled ?w" using finvD(7) [OF inv _ i] pc by (simp add: settled_def)
    show "unapplied s = total held ((writers s)(i := ?w)) + add_mset (w_owned (writers s i)) (buffered s)"
      using finvD(2) [OF inv] h(1) by simp
    show "pending s = total registered ((writers s)(i := ?w)) + add_mset (w_owned (writers s i)) (buffered s) + retiring s"
      using finvD(3) [OF inv] h(2) by simp
  qed (use finvD(4) [OF inv] pc h in \<open>auto simp: set_writer_def\<close>)
qed

lemma finv_idle_step:
  assumes inv: "finv s"
  shows "b \<in># buffered s \<Longrightarrow>
      finv (s\<lparr>buffered := buffered s - {#b#}, unapplied := unapplied s - {#b#}, retiring := add_mset b (retiring s)\<rparr>)"
    and "b \<in># retiring s \<Longrightarrow> finv (s\<lparr>retiring := retiring s - {#b#}, pending := pending s - {#b#}\<rparr>)"
proof -
  note D = finvD [OF inv]
  show "finv (s\<lparr>buffered := buffered s - {#b#}, unapplied := unapplied s - {#b#}, retiring := add_mset b (retiring s)\<rparr>)" (is "finv ?s")
    if b: "b \<in># buffered s"
  proof -
    have "ck_ok ?s" using D(8) by (auto simp: ck_ok_def covered_def split: cpc.splits dest: in_diffD)
    moreover have "unapplied s - {#b#} = total held (writers s) + (buffered s - {#b#})" using D(2) b by simp
    moreover have "pending s = total registered (writers s) + (buffered s - {#b#}) + add_mset b (retiring s)" using D(3) b by simp
    moreover have "writer_ok ?s w = writer_ok s w" for w by (simp add: writer_ok_def)
    moreover have "frontier s \<le> c \<and> c < cursor s" if "c \<in># unapplied s - {#b#}" for c
      using D(5) [OF in_diffD [OF that]] .
    ultimately show ?thesis using D(1,4,6,7) by (intro finvI) simp_all
  qed
  show "finv (s\<lparr>retiring := retiring s - {#b#}, pending := pending s - {#b#}\<rparr>)" (is "finv ?s") if b: "b \<in># retiring s"
  proof -
    have "ck_ok ?s" using D(8) by (simp add: ck_ok_def covered_def split: cpc.splits)
    moreover have "pending s - {#b#} = total registered (writers s) + buffered s + (retiring s - {#b#})" using D(3) b by simp
    moreover have "writer_ok ?s w = writer_ok s w" for w by (simp add: writer_ok_def)
    moreover have "a = c" if "a \<in># pending s - {#b#}" "c \<in># pending s - {#b#}" "a mod kWindow_ring = c mod kWindow_ring" for a c
      using D(4) [OF in_diffD [OF that(1)] in_diffD [OF that(2)] that(3)] .
    ultimately show ?thesis using D(1,2,5,6,7) by (intro finvI) simp_all
  qed
qed

lemma finv_ck:
  assumes inv: "finv s" and "ck_ok (s\<lparr>ck := c\<rparr>)" "\<And>i. c \<noteq> CIdle \<Longrightarrow> i < kMaxClientSlots \<Longrightarrow> settled (writers s i)"
  shows "finv (s\<lparr>ck := c\<rparr>)"
proof -
  have "writer_ok (s\<lparr>ck := c\<rparr>) w = writer_ok s w" for w by (simp add: writer_ok_def)
  then show ?thesis using assms unfolding finv_def by simp
qed

lemma settled_inflight:
  assumes "writer_ok s w" "settled w" "w_pc w \<noteq> WFree"
  shows "w_active w" "w_inflight w \<le> enat (w_owned w)"
  using assms by (cases "w_pc w"; simp add: pc_defs)+

lemma covered_Suc:
  assumes "finv s" "ck s \<noteq> CIdle" "covered s j m" "j < kMaxClientSlots \<Longrightarrow> w_pc (writers s j) \<noteq> WFree \<Longrightarrow> m' \<le> enat (w_owned (writers s j))"
    and "m' \<le> m"
  shows "covered s (Suc j) m'"
  using assms(3-5) by (auto simp: covered_def less_Suc_eq intro: order_trans)

lemma finv_ck_steps:
  assumes inv: "finv s"
  shows "ck s = CActive j m \<Longrightarrow> j < kMaxClientSlots \<Longrightarrow> \<not> w_active (writers s j) \<Longrightarrow> finv (s\<lparr>ck := CActive (Suc j) m\<rparr>)"
    and "ck s = CInflight j m lb \<Longrightarrow> finv (s\<lparr>ck := CActive (Suc j) (min m (min lb (w_inflight (writers s j))))\<rparr>)"
    and "ck s = CNext m \<Longrightarrow> finv (s\<lparr>ck := CRing 0 (min m (enat (cursor s)))\<rparr>)"
proof -
  note D = finvD [OF inv]
  show "finv (s\<lparr>ck := CActive (Suc j) m\<rparr>)" if c: "ck s = CActive j m" and j: "j < kMaxClientSlots" "\<not> w_active (writers s j)"
  proof (rule finv_ck [OF inv])
    have free: "w_pc (writers s j) = WFree" using settled_inflight(1) [OF D(1) [OF j(1)] D(7) [OF _ j(1)]] c j(2) by auto
    have "covered s j m" using D(8) c by (simp add: ck_ok_def)
    then have "covered s (Suc j) m" by (intro covered_Suc [OF inv]) (use c free in auto)
    then show "ck_ok (s\<lparr>ck := CActive (Suc j) m\<rparr>)" by (simp add: ck_ok_def covered_def)
  qed (use D(7) c in simp)
  show "finv (s\<lparr>ck := CActive (Suc j) (min m (min lb (w_inflight (writers s j))))\<rparr>)" if c: "ck s = CInflight j m lb"
  proof (rule finv_ck [OF inv])
    have "min m (min lb (w_inflight (writers s j))) \<le> enat (w_owned (writers s j))"
      if "j < kMaxClientSlots" "w_pc (writers s j) \<noteq> WFree"
      using settled_inflight(2) [OF D(1) D(7) that(2)] that c by (auto simp: min_le_iff_disj)
    moreover have "covered s j m" using D(8) c by (simp add: ck_ok_def)
    ultimately have "covered s (Suc j) (min m (min lb (w_inflight (writers s j))))"
      by (intro covered_Suc [OF inv]) (use c in auto)
    then show "ck_ok (s\<lparr>ck := CActive (Suc j) (min m (min lb (w_inflight (writers s j))))\<rparr>)" by (simp add: ck_ok_def covered_def)
  qed (use D(7) c in simp)
  show "finv (s\<lparr>ck := CRing 0 (min m (enat (cursor s)))\<rparr>)" if c: "ck s = CNext m"
  proof (rule finv_ck [OF inv])
    have "covered s kMaxClientSlots m" using D(8) c by (simp add: ck_ok_def)
    then show "ck_ok (s\<lparr>ck := CRing 0 (min m (enat (cursor s)))\<rparr>)" by (auto simp: ck_ok_def covered_def min_le_iff_disj)
  qed (use D(7) c in simp)
qed

lemma finv_ring:
  assumes inv: "finv s" and c: "ck s = CRing r m" and m': "m' \<le> m"
    and hit: "\<And>b. b \<in># pending s \<Longrightarrow> b mod kWindow_ring = r \<Longrightarrow> m' \<le> enat b"
  shows "finv (s\<lparr>ck := CRing (Suc r) m'\<rparr>)"
proof (rule finv_ck [OF inv])
  note D = finvD [OF inv]
  have o: "covered s kMaxClientSlots m" "m \<le> enat (cursor s)"
    "\<And>b. b \<in># buffered s + total registered (writers s) \<Longrightarrow> r \<le> b mod kWindow_ring \<or> m \<le> enat b"
    using D(8) c unfolding ck_ok_def by auto
  have "Suc r \<le> b mod kWindow_ring \<or> m' \<le> enat b" if "b \<in># buffered s + total registered (writers s)" for b
  proof -
    have "b \<in># pending s" using that D(3) by auto
    then show ?thesis using o(3) [OF that] hit [of b] m' by (auto simp: not_less_eq_eq le_Suc_eq intro: order_trans)
  qed
  moreover have "covered s kMaxClientSlots m'" using o(1) m' by (auto simp: covered_def intro: order_trans)
  ultimately show "ck_ok (s\<lparr>ck := CRing (Suc r) m'\<rparr>)" using o(2) m' by (simp add: ck_ok_def covered_def)
qed (use finvD(7) [OF inv] c in simp)

lemma finv_write:
  assumes inv: "finv s" and c: "ck s = CRing kWindow_ring (enat m)"
  shows "finv (s\<lparr>ck := CIdle, frontier := m\<rparr>)" (is "finv ?s")
proof -
  note D = finvD [OF inv]
  have o: "covered s kMaxClientSlots (enat m)" "m \<le> cursor s"
    "\<And>b. b \<in># buffered s + total registered (writers s) \<Longrightarrow> kWindow_ring \<le> b mod kWindow_ring \<or> m \<le> b"
    using D(8) c unfolding ck_ok_def by auto
  have small: "\<not> kWindow_ring \<le> b mod kWindow_ring" for b :: nat
    using mod_less_divisor [of kWindow_ring b] by (simp add: kWindow_ring_def del: mod_less_divisor)
  have own: "m \<le> w_owned (writers s i)" if "i < kMaxClientSlots" "w_pc (writers s i) \<noteq> WFree" for i
    using o(1) that by (simp add: covered_def)
  have low: "m \<le> b \<and> b < cursor s" if b: "b \<in># unapplied s" for b
  proof -
    consider "b \<in># total held (writers s)" | "b \<in># buffered s" using b D(2) by auto
    then have "m \<le> b"
    proof cases
      case 1
      then obtain i where i: "i < kMaxClientSlots" "b \<in># held (writers s i)" by (auto simp: in_total)
      then have "b = w_owned (writers s i)" "w_pc (writers s i) \<noteq> WFree" by (auto simp: held_def split: if_splits)
      then show ?thesis using own i(1) by simp
    next
      case 2 then show ?thesis using o(3) [of b] small [of b] by simp
    qed
    then show ?thesis using D(5) [OF b] by simp
  qed
  have "writer_ok ?s (writers s i)" if "i < kMaxClientSlots" for i
    using D(1) [OF that] own [OF that] by (simp add: writer_ok_def)
  then show ?thesis using D(2,3,4) low o(2) by (intro finvI) (simp_all add: ck_ok_def)
qed

lemma finv_step:
  assumes "fstep True s s'" "finv s"
  shows "finv s'"
  using assms(1)
proof cases
  case (claim i)
  then show ?thesis using finvD(1,6) [OF assms(2)]
    by (intro writer_same [OF assms(2) claim(2), where c = "cursor s + 1"]) (auto simp: pc_defs)
next
  case (reserve i)
  then show ?thesis using finvD(1) [OF assms(2), of i] finvD(7) [OF assms(2), of i]
    by (intro writer_same [OF assms(2) reserve(2), where c = "cursor s"]) (auto simp: pc_defs)
next
  case (reset_last i)
  then show ?thesis using finvD(1) [OF assms(2), of i] finvD(7) [OF assms(2), of i]
    by (intro writer_same [OF assms(2) reset_last(2), where c = "cursor s"]) (auto simp: pc_defs)
next
  case (reset_inflight i)
  then show ?thesis using finvD(1) [OF assms(2), of i] finvD(7) [OF assms(2), of i]
    by (intro writer_same [OF assms(2) reset_inflight(2), where c = "cursor s"]) (auto simp: pc_defs)
next
  case (publish i)
  then show ?thesis using finvD(1) [OF assms(2), of i]
    by (intro writer_same [OF assms(2) publish(2), where c = "cursor s"]) (auto simp: pc_defs)
next
  case (move i)
  have "w_inflight (writers s i) \<le> enat (w_owned (writers s i))" "w_owned (writers s i) < cursor s"
    using finvD(1) [OF assms(2) move(2)] move(3) by (simp_all add: pc_defs)
  then have "w_inflight (writers s i) \<le> enat (cursor s)" by (meson enat_ord_simps(1) less_imp_le order_trans)
  then show ?thesis using move finvD(1,7) [OF assms(2), of i] finvD(6) [OF assms(2)]
    by (intro writer_same [OF assms(2) move(2), where c = "cursor s + 1"]) (auto simp: pc_defs)
next
  case (note_last i)
  then show ?thesis using finvD(1) [OF assms(2), of i] finvD(7) [OF assms(2), of i]
    by (intro writer_same [OF assms(2) note_last(2), where c = "cursor s"]) (auto simp: pc_defs)
next
  case (release i)
  then show ?thesis using finvD(1) [OF assms(2), of i]
    by (intro writer_same [OF assms(2) release(2), where c = "cursor s"]) (auto simp: pc_defs)
next
  case (ck_start) then show ?thesis by (auto intro!: finv_ck [OF assms(2)] simp: ck_ok_def covered_def)
next
  case (ck_active j m)
  then show ?thesis using finvD(7,8) [OF assms(2)] by (auto intro!: finv_ck [OF assms(2)] simp: ck_ok_def covered_def)
next
  case (ck_last j m)
  then show ?thesis using finvD(7,8) [OF assms(2)] by (auto intro!: finv_ck [OF assms(2)] simp: ck_ok_def covered_def)
next
  case (ck_slots m)
  then show ?thesis using finvD(7,8) [OF assms(2)] by (auto intro!: finv_ck [OF assms(2)] simp: ck_ok_def covered_def)
next
  case (ck_ring r m b)
  have "min m (enat b) \<le> enat c" if "c \<in># pending s" "c mod kWindow_ring = r" for c
    using finvD(4) [OF assms(2) that(1) ck_ring(4)] that(2) ck_ring(5) by simp
  then show ?thesis unfolding ck_ring(1) by (intro finv_ring [OF assms(2) ck_ring(2)]) simp_all
next
  case (ck_empty r m)
  then show ?thesis by (auto intro!: finv_ring [OF assms(2) ck_empty(2)])
qed (use finv_store finv_register finv_enqueue finv_idle_step finv_ck_steps finv_write assms(2) in auto)

lemma finv_init: "finv (f_init c)"
  by (rule finvI) (simp_all add: f_init_def writer_ok_def pc_ok_def held_def registered_def ck_ok_def)

text \<open>C4. The durable frontier is safe. In every state that can be reached when clients are created
  only between checkpoints and each has published its first block before the next checkpoint starts,
  every durable record that the cold tier does not have yet lies in a block at or above the persisted
  frontier and below the cursor: a crash there loses nothing, because the recovery scan starts at or
  below the frontier and ends at the cursor.\<close>

theorem frontier_safe:
  assumes "(fstep True)\<^sup>*\<^sup>* (f_init c) s" "b \<in># unapplied s"
  shows "scan_start (frontier s) \<le> frontier s \<and> frontier s \<le> b \<and> b < cursor s"
proof -
  have "finv s" using assms(1) by (induction rule: rtranclp_induct) (auto intro: finv_init finv_step)
  then show ?thesis using finvD(5) assms(2) by (simp add: scan_start_def)
qed

section \<open>Runs\<close>

abbreviation frun :: "bool \<Rightarrow> fstate \<Rightarrow> fstate \<Rightarrow> bool" where
  "frun q \<equiv> (fstep q)\<^sup>*\<^sup>*"

lemma skip_slots:
  assumes "\<And>i. j \<le> i \<Longrightarrow> i < k \<Longrightarrow> \<not> w_active (writers s i)" "j \<le> k" "k \<le> kMaxClientSlots"
  shows "frun q (s\<lparr>ck := CActive j m\<rparr>) (s\<lparr>ck := CActive k m\<rparr>)"
  using assms(2,1,3)
proof (induction k rule: dec_induct)
  case (step k)
  have "fstep q (s\<lparr>ck := CActive k m\<rparr>) (s\<lparr>ck := CActive k m, ck := CActive (Suc k) m\<rparr>)"
    using step.prems(2) step.prems(1) [of k] step.hyps by (intro fstep.ck_skip) simp_all
  moreover have "frun q (s\<lparr>ck := CActive j m\<rparr>) (s\<lparr>ck := CActive k m\<rparr>)" using step by simp
  ultimately show ?case by (simp add: rtranclp.rtrancl_into_rtrancl)
qed simp

lemma empty_ring:
  assumes "pending s = {#}" "k \<le> kWindow_ring"
  shows "frun q (s\<lparr>ck := CRing 0 m\<rparr>) (s\<lparr>ck := CRing k m\<rparr>)"
  using assms(2)
proof (induction k)
  case (Suc k)
  have "fstep q (s\<lparr>ck := CRing k m\<rparr>) (s\<lparr>ck := CRing k m, ck := CRing (Suc k) m\<rparr>)"
    using Suc.prems assms(1) by (intro fstep.ck_empty) simp_all
  then show ?case using Suc by (simp add: rtranclp.rtrancl_into_rtrancl)
qed simp

text \<open>A checkpoint that finds no active writer with a bound and nothing pending.\<close>

lemma read_unbounded_slot:
  assumes "j < kMaxClientSlots" "w_active (writers s j)" "w_last (writers s j) = \<infinity>" "w_inflight (writers s j) = \<infinity>"
  shows "frun q (s\<lparr>ck := CActive j m\<rparr>) (s\<lparr>ck := CActive (Suc j) m\<rparr>)"
proof -
  have "fstep q (s\<lparr>ck := CActive j m\<rparr>) (s\<lparr>ck := CLast j m\<rparr>)"
    using fstep.ck_active [of "s\<lparr>ck := CActive j m\<rparr>" j m q] assms by simp
  moreover have "fstep q (s\<lparr>ck := CLast j m\<rparr>) (s\<lparr>ck := CInflight j m \<infinity>\<rparr>)"
    using fstep.ck_last [of "s\<lparr>ck := CLast j m\<rparr>" j m q] assms by simp
  moreover have "fstep q (s\<lparr>ck := CInflight j m \<infinity>\<rparr>) (s\<lparr>ck := CActive (Suc j) m\<rparr>)"
    using fstep.ck_inflight [of "s\<lparr>ck := CInflight j m \<infinity>\<rparr>" j m \<infinity> q] assms by (simp add: min_def)
  ultimately show ?thesis by (meson converse_rtranclp_into_rtranclp r_into_rtranclp)
qed

lemma finish_checkpoint:
  assumes "pending s = {#}" "ck s = CActive kMaxClientSlots \<infinity>"
  shows "frun q s (s\<lparr>ck := CIdle, frontier := cursor s\<rparr>)"
proof -
  have "fstep q s (s\<lparr>ck := CNext \<infinity>\<rparr>)" by (rule fstep.ck_slots [OF assms(2)])
  moreover have "fstep q (s\<lparr>ck := CNext \<infinity>\<rparr>) (s\<lparr>ck := CRing 0 (enat (cursor s))\<rparr>)"
    using fstep.ck_next [of "s\<lparr>ck := CNext \<infinity>\<rparr>" \<infinity> q] by (simp add: min_def)
  moreover have "frun q (s\<lparr>ck := CRing 0 (enat (cursor s))\<rparr>) (s\<lparr>ck := CRing kWindow_ring (enat (cursor s))\<rparr>)"
    by (rule empty_ring [OF assms(1)]) simp
  moreover have "fstep q (s\<lparr>ck := CRing kWindow_ring (enat (cursor s))\<rparr>) (s\<lparr>ck := CIdle, frontier := cursor s\<rparr>)"
    using fstep.ck_write [of "s\<lparr>ck := CRing kWindow_ring (enat (cursor s))\<rparr>" "cursor s" q] by simp
  ultimately show ?thesis
    by (meson converse_rtranclp_into_rtranclp rtranclp.rtrancl_into_rtrancl)
qed

text \<open>\<open>get_client\<close> and a whole \<open>put\<close> by one writer.\<close>

lemma run_get_client:
  assumes "i < kMaxClientSlots" "w_pc (writers s i) = WFree" "ck s = CIdle"
  shows "frun q s (s\<lparr>writers := (writers s)(i := \<lparr>w_pc = WIdle, w_owned = cursor s, w_active = True, w_last = \<infinity>, w_inflight = \<infinity>\<rparr>),
    cursor := cursor s + 1\<rparr>)"
proof (cases s)
  case s: (fields ws c P B R U k F)
  obtain p o' a l f where w: "ws i = \<lparr>w_pc = p, w_owned = o', w_active = a, w_last = l, w_inflight = f\<rparr>" by (cases "ws i")
  let ?at = "\<lambda>w. s\<lparr>writers := (writers s)(i := w), cursor := cursor s + 1\<rparr>"
  let ?w = "\<lambda>p a l f. \<lparr>w_pc = p, w_owned = c, w_active = a, w_last = l, w_inflight = f\<rparr>"
  note sd = s w set_writer_def
  have "fstep q s (?at (?w WClaimed a l f))" using fstep.claim [of i s q] assms by (simp add: sd)
  moreover have "fstep q (?at (?w WClaimed a l f)) (?at (?w WActive True l f))"
    using fstep.reserve [of i "?at (?w WClaimed a l f)" q] assms by (simp add: sd)
  moreover have "fstep q (?at (?w WActive True l f)) (?at (?w WLastReset True \<infinity> f))"
    using fstep.reset_last [of i "?at (?w WActive True l f)" q] assms by (simp add: sd)
  moreover have "fstep q (?at (?w WLastReset True \<infinity> f)) (?at (?w WIdle True \<infinity> \<infinity>))"
    using fstep.reset_inflight [of i "?at (?w WLastReset True \<infinity> f)" q] assms by (simp add: sd)
  ultimately have "frun q s (?at (?w WIdle True \<infinity> \<infinity>))" by (meson converse_rtranclp_into_rtranclp r_into_rtranclp)
  then show ?thesis by (simp add: s)
qed

lemma run_put:
  assumes "i < kMaxClientSlots" "w_pc (writers s i) = WIdle" "pending s = {#}"
  shows "frun q s (s\<lparr>writers := (writers s)(i := (writers s i)\<lparr>w_inflight := enat (w_owned (writers s i)), w_last := enat (w_owned (writers s i))\<rparr>),
    pending := {#w_owned (writers s i)#}, buffered := add_mset (w_owned (writers s i)) (buffered s),
    unapplied := add_mset (w_owned (writers s i)) (unapplied s)\<rparr>)"
proof (cases s)
  case s: (fields ws c P B R U k F)
  obtain p b a l f where w: "ws i = \<lparr>w_pc = p, w_owned = b, w_active = a, w_last = l, w_inflight = f\<rparr>" by (cases "ws i")
  let ?at = "\<lambda>p l P B U. \<lparr>writers = ws(i := \<lparr>w_pc = p, w_owned = b, w_active = a, w_last = l, w_inflight = enat b\<rparr>),
    cursor = c, pending = P, buffered = B, retiring = R, unapplied = U, ck = k, frontier = F\<rparr>"
  note sd = s w set_writer_def
  have "fstep q s (?at WReady l {#} B U)" using fstep.publish [of i s q] assms by (simp add: sd)
  moreover have "fstep q (?at WReady l {#} B U) (?at WStored l {#} B (add_mset b U))"
    using fstep.store [of i "?at WReady l {#} B U" q] assms by (simp add: sd)
  moreover have "fstep q (?at WStored l {#} B (add_mset b U)) (?at WNoted (enat b) {#} B (add_mset b U))"
    using fstep.note_last [of i "?at WStored l {#} B (add_mset b U)" q] assms by (simp add: sd)
  moreover have "fstep q (?at WNoted (enat b) {#} B (add_mset b U)) (?at WRegistered (enat b) {#b#} B (add_mset b U))"
    using fstep.register [of i "?at WNoted (enat b) {#} B (add_mset b U)" q] assms by (simp add: sd)
  moreover have "fstep q (?at WRegistered (enat b) {#b#} B (add_mset b U)) (?at WIdle (enat b) {#b#} (add_mset b B) (add_mset b U))"
    using fstep.enqueue [of i "?at WRegistered (enat b) {#b#} B (add_mset b U)" q] assms by (simp add: sd)
  ultimately have "frun q s (?at WIdle (enat b) {#b#} (add_mset b B) (add_mset b U))"
    by (meson converse_rtranclp_into_rtranclp r_into_rtranclp)
  then show ?thesis using assms(2) by (simp add: s w)
qed

theorem frontier_safe_witness:
  "\<exists>s. frun True (f_init 3) s \<and> w_pc (writers s 0) = WIdle \<and> unapplied s = {#3#} \<and> frontier s \<le> 3 \<and> 3 < cursor s"
proof -
  let ?s1 = "(f_init 3)\<lparr>writers := (writers (f_init 3))(0 := \<lparr>w_pc = WIdle, w_owned = 3, w_active = True, w_last = \<infinity>, w_inflight = \<infinity>\<rparr>),
    cursor := 4\<rparr>"
  have "frun True (f_init 3) ?s1"
    using run_get_client [of 0 "f_init 3" True] by (simp add: f_init_def kMaxClientSlots_def)
  from rtranclp_trans [OF this run_put [of 0 ?s1 True]]
  obtain s where s: "frun True (f_init 3) s" "w_pc (writers s 0) = WIdle" "unapplied s = {#3#}"
    by (auto simp: f_init_def kMaxClientSlots_def)
  then show ?thesis using frontier_safe [OF s(1), of 3] by auto
qed

text \<open>C34. The frontier can pass a client that has not written yet. Two clients are created and own
  blocks 0 and 1 without having published them; a checkpoint sees no bound in their slots and nothing
  pending, and persists the cursor 2; then the first client puts a record into its block 0, and the
  put returns. The recovery scan starts at block 1: after a crash this acknowledged record, which only
  the volatile commit buffer refers to, is not replayed.\<close>

theorem frontier_hole:
  "\<exists>s. frun False (f_init 0) s \<and> w_pc (writers s 0) = WIdle \<and> 0 \<in># unapplied s \<and> ck s = CIdle
     \<and> scan_start (frontier s) = 1 \<and> cursor s = 2"
proof -
  let ?w = "\<lambda>b. \<lparr>w_pc = WIdle, w_owned = b, w_active = True, w_last = \<infinity>, w_inflight = \<infinity>\<rparr>"
  define s2 where "s2 = (f_init 0)\<lparr>writers := (writers (f_init 0))(0 := ?w 0, 1 := ?w 1), cursor := 2\<rparr>"
  have n: "0 < kMaxClientSlots" "1 < kMaxClientSlots" by (simp_all add: kMaxClientSlots_def)
  have "frun False (f_init 0) ((f_init 0)\<lparr>writers := (writers (f_init 0))(0 := ?w 0), cursor := 1\<rparr>)"
    using run_get_client [of 0 "f_init 0" False] n by (simp add: f_init_def)
  moreover have "frun False ((f_init 0)\<lparr>writers := (writers (f_init 0))(0 := ?w 0), cursor := 1\<rparr>) s2"
    using run_get_client [of 1 "(f_init 0)\<lparr>writers := (writers (f_init 0))(0 := ?w 0), cursor := 1\<rparr>" False] n
    by (simp add: f_init_def s2_def numeral_2_eq_2)
  moreover have "frun False s2 (s2\<lparr>ck := CActive 0 \<infinity>\<rparr>)"
    by (rule r_into_rtranclp, rule fstep.ck_start) (simp_all add: s2_def f_init_def)
  moreover have "frun False (s2\<lparr>ck := CActive 0 \<infinity>\<rparr>) (s2\<lparr>ck := CActive 1 \<infinity>\<rparr>)"
    using read_unbounded_slot [of 0 s2 False \<infinity>] n by (simp add: s2_def)
  moreover have "frun False (s2\<lparr>ck := CActive 1 \<infinity>\<rparr>) (s2\<lparr>ck := CActive 2 \<infinity>\<rparr>)"
    using read_unbounded_slot [of 1 s2 False \<infinity>] n by (simp add: s2_def numeral_2_eq_2)
  moreover have "frun False (s2\<lparr>ck := CActive 2 \<infinity>\<rparr>) (s2\<lparr>ck := CActive kMaxClientSlots \<infinity>\<rparr>)"
    by (rule skip_slots) (simp_all add: s2_def f_init_def kMaxClientSlots_def)
  moreover have "frun False (s2\<lparr>ck := CActive kMaxClientSlots \<infinity>\<rparr>) (s2\<lparr>ck := CIdle, frontier := 2\<rparr>)"
    using finish_checkpoint [of "s2\<lparr>ck := CActive kMaxClientSlots \<infinity>\<rparr>" False] by (simp add: s2_def f_init_def)
  ultimately have run: "frun False (f_init 0) (s2\<lparr>ck := CIdle, frontier := 2\<rparr>)" by (meson rtranclp_trans)
  from rtranclp_trans [OF run run_put [of 0 "s2\<lparr>ck := CIdle, frontier := 2\<rparr>" False]] n
  show ?thesis by (auto simp: s2_def f_init_def scan_start_def)
qed

end
