(* ===== verification/Hiom_Core.thy ===== *)
theory Hiom_Core
  imports Viper_Recovery Hot_Tier_Props Cold_Crash Commit_Buffer Checkpoint_AB Pending_Ring
begin

text \<open>
  The HiOM front end, first half (hiom.hpp): key hashes, the state of an instance, the offset
  resolvers it installs into Viper, and the flush path: the choice of a winner per key in a drained
  batch, the cold-tier writes, the retirement of pending blocks, the release of hot slots, the
  checkpoint, and the draining of lanes. Calls run one at a time; the interleavings that matter are
  modelled in Viper_Lock, Commit_Buffer and Frontier_Protocol. Statistics counters are left out.
\<close>

section \<open>Keys\<close>

text \<open>\<open>khash\<close> is \<open>cceh::h\<close>; \<open>kraw\<close> the bytes of a key of at most eight bytes.\<close>

record 'k HKeys =
  khash :: "'k \<Rightarrow> u64"
  kraw :: "'k \<Rightarrow> u64 option"

record KeyHash =
  kh_fp32 :: u32
  kh_fp64 :: u64
  kh_key_id :: u64

definition key_fingerprint :: "'k HKeys \<Rightarrow> 'k \<Rightarrow> u32" where
  "key_fingerprint K key = (let fp = ucast (khash K key) in if fp = 0 then 1 else fp)"

definition key_fingerprint64 :: "'k HKeys \<Rightarrow> 'k \<Rightarrow> u64" where
  "key_fingerprint64 K key = (let h = khash K key in if h = 0 then 1 else h)"

definition key_id_of :: "'k HKeys \<Rightarrow> 'k \<Rightarrow> u64" where
  "key_id_of K key = (case kraw K key of Some raw \<Rightarrow> raw | None \<Rightarrow> khash K key)"

definition make_key_hash :: "'k HKeys \<Rightarrow> 'k \<Rightarrow> KeyHash" where
  "make_key_hash K key =
    (let h = khash K key; fp = ucast h
     in \<lparr>kh_fp32 = (if fp = 0 then 1 else fp), kh_fp64 = (if h = 0 then 1 else h), kh_key_id = key_id_of K key\<rparr>)"

section \<open>State\<close>

text \<open>Configuration: the key type, the record store, the third-party queue, the flushers and the
  checkpoint cadence; \<open>bulk_sort\<close> is the order in which \<open>std::sort\<close> leaves a vector of entries.\<close>

record ('k, 'q) HConfig =
  keys :: "'k HKeys"
  vcfg :: "'k VConfig"
  q_enq :: "'q \<Rightarrow> CommitEntry \<Rightarrow> 'q"
  q_deq :: "'q \<Rightarrow> nat \<Rightarrow> CommitEntry list \<times> 'q"
  num_flushers :: nat
  cadence_entries :: nat
  bulk_sort :: "nat \<Rightarrow> BulkEntry list \<Rightarrow> BulkEntry list"

record ('k, 'v, 'q) HiOM =
  h_viper :: "('k, 'v) Viper"
  h_hot :: HotTier
  h_cold :: "ColdTier option"
  h_base :: base_map
  h_buf :: "'q CommitBuffer"
  h_slots :: "ClientSlot list"
  h_ring :: "u64 list"
  h_ckpt :: "checkpoint_pm option"
  h_flushed :: u64
  h_seq :: u64

text \<open>What stops a call: the aborts of the code, and \<open>HStuck\<close> for a call that does not return.\<close>

datatype hiom_error = HReclamation | HFlushers | HColdOverflow | HRingFatal | HNoClientSlot | HStuck

fun fold_res :: "('b \<Rightarrow> 'a \<Rightarrow> 'e + 'a) \<Rightarrow> 'b list \<Rightarrow> 'a \<Rightarrow> 'e + 'a" where
  "fold_res f [] s = Inr s"
| "fold_res f (x # xs) s = (case f x s of Inl e \<Rightarrow> Inl e | Inr s' \<Rightarrow> fold_res f xs s')"

section \<open>Resolvers\<close>

definition verified :: "('k, 'v) Viper \<Rightarrow> 'k \<Rightarrow> u64 \<Rightarrow> bool" where
  "verified V key off = (case hiom_read_at_offset V off of Some (k, v) \<Rightarrow> k = key | None \<Rightarrow> False)"

definition resolve_cold :: "'k HKeys \<Rightarrow> ColdTier \<Rightarrow> ('k, 'v) Viper \<Rightarrow> 'k \<Rightarrow> u64" where
  "resolve_cold K cold V key =
    (case cold_lookup cold (key_fingerprint64 K key) (key_id_of K key) of
       None \<Rightarrow> Tombstone
     | Some off \<Rightarrow> if verified V key off then off else Tombstone)"

definition old_offset_resolver :: "'k HKeys \<Rightarrow> base_map \<Rightarrow> HotTier \<Rightarrow> ColdTier \<Rightarrow> ('k, 'v) Viper \<Rightarrow> 'k \<Rightarrow> u64" where
  "old_offset_resolver K bm hot cold V key =
    (case fst (hot_lookup hot (key_fingerprint K key)) of
       None \<Rightarrow> resolve_cold K cold V key
     | Some packed \<Rightarrow> (let off = decode_kv bm packed
                       in if verified V key off then off else resolve_cold K cold V key))"

definition hot_only_resolver :: "'k HKeys \<Rightarrow> base_map \<Rightarrow> HotTier \<Rightarrow> ('k, 'v) Viper \<Rightarrow> 'k \<Rightarrow> u64" where
  "hot_only_resolver K bm hot V key =
    (case fst (hot_lookup hot (key_fingerprint K key)) of None \<Rightarrow> Tombstone | Some packed \<Rightarrow> decode_kv bm packed)"

section \<open>Checkpoint\<close>

definition safe_block :: "('k, 'v, 'q) HiOM \<Rightarrow> u64" where
  "safe_block H =
    (let client_min = min_active_writer_block (h_slots H);
         viper_next = of_nat (fst (current_block_page (h_viper H)));
         pending_min = earliest_pending_block (h_ring H)
     in min (min client_min viper_next) pending_min)"

definition try_write_checkpoint :: "('k, 'v, 'q) HiOM \<Rightarrow> ('k, 'v, 'q) HiOM" where
  "try_write_checkpoint H =
    (case h_ckpt H of
       None \<Rightarrow> H
     | Some ck \<Rightarrow>
         (let rec = zero_record\<lparr>seq := h_seq H + 1, flushed_count := h_flushed H,
                      vpage_frontier := KeyValueOffset (safe_block H) 0 0,
                      cold_size := (case h_cold H of Some cold \<Rightarrow> of_nat (approx_size cold) | None \<Rightarrow> 0),
                      reserved0 := kProtoDurableFrontier\<rparr>
          in H\<lparr>h_seq := h_seq H + 1, h_ckpt := Some (ckpt_write ck rec)\<rparr>))"

section \<open>Applying a batch\<close>

text \<open>The maximal runs of equal fingerprint in a sorted batch, and the key identities of a run.\<close>

function fp_runs :: "CommitEntry list \<Rightarrow> CommitEntry list list" where
  "fp_runs [] = []"
| "fp_runs (e # es) =
    (e # takeWhile (\<lambda>x. ce_fp64 x = ce_fp64 e) es) # fp_runs (dropWhile (\<lambda>x. ce_fp64 x = ce_fp64 e) es)"
  by pat_completeness auto
termination
  by (relation "measure length") (auto simp: less_Suc_eq_le length_dropWhile_le)

definition kids_in_run :: "CommitEntry list \<Rightarrow> u64 list" where
  "kids_in_run run = fold (\<lambda>e ks. if ce_key_id e \<in> set ks then ks else ks @ [ce_key_id e]) run []"

text \<open>The slot of an entry still holds the key.\<close>

definition slot_holds :: "'k HKeys \<Rightarrow> ('k, 'v) Viper \<Rightarrow> u64 \<Rightarrow> CommitEntry \<Rightarrow> bool" where
  "slot_holds K V kid e =
    (case hiom_get_slot_key V (ce_off e) of None \<Rightarrow> False | Some k \<Rightarrow> key_id_of K k = kid)"

definition hot_truth :: "'k HKeys \<Rightarrow> base_map \<Rightarrow> HotTier \<Rightarrow> ('k, 'v) Viper \<Rightarrow> CommitEntry list \<Rightarrow> u64 \<Rightarrow> CommitEntry option" where
  "hot_truth K bm hot V run kid =
    (case find (\<lambda>e. ce_key_id e = kid \<and> ce_op e = kPut \<and> valid (ce_hot_slot e)) run of
       None \<Rightarrow> None
     | Some e0 \<Rightarrow>
         (let view = hot_read_slot hot (ce_hot_slot e0)
          in if view_fp view = kEmptyFp then None
             else let canonical_off = decode_kv bm (packed_off view)
                  in find (\<lambda>e. ce_key_id e = kid \<and> ce_op e = kPut \<and> ce_off e = canonical_off \<and> slot_holds K V kid e) run))"

definition fallback_walk :: "'k HKeys \<Rightarrow> ('k, 'v) Viper \<Rightarrow> CommitEntry list \<Rightarrow> u64 \<Rightarrow> CommitEntry option" where
  "fallback_walk K V run kid =
    find (\<lambda>e. ce_key_id e = kid \<and> (ce_op e = kRemove \<or> slot_holds K V kid e)) (rev run)"

definition winner :: "'k HKeys \<Rightarrow> base_map \<Rightarrow> HotTier \<Rightarrow> ('k, 'v) Viper \<Rightarrow> CommitEntry list \<Rightarrow> u64 \<Rightarrow> CommitEntry option" where
  "winner K bm hot V run kid =
    (case hot_truth K bm hot V run kid of Some e \<Rightarrow> Some e | None \<Rightarrow> fallback_walk K V run kid)"

text \<open>One winner: a put is collected for the bulk upsert, a removal is done at once.\<close>

definition dispatch :: "CommitEntry option \<Rightarrow> BulkEntry list \<times> ColdTier \<Rightarrow> BulkEntry list \<times> ColdTier" where
  "dispatch w st =
    (case st of (puts, cold) \<Rightarrow>
       case w of
         None \<Rightarrow> (puts, cold)
       | Some e \<Rightarrow> (case ce_op e of
                     kPut \<Rightarrow> (puts @ [\<lparr>be_fp = ce_fp64 e, be_key = ce_key_id e, be_off = ce_off e\<rparr>], cold)
                   | kRemove \<Rightarrow> (puts, snd (cold_remove cold (ce_fp64 e) (ce_key_id e)))))"

definition winners :: "'k HKeys \<Rightarrow> base_map \<Rightarrow> HotTier \<Rightarrow> ('k, 'v) Viper \<Rightarrow> CommitEntry list \<Rightarrow> CommitEntry option list" where
  "winners K bm hot V batch = concat (map (\<lambda>run. map (winner K bm hot V run) (kids_in_run run)) (fp_runs batch))"

text \<open>The cold-tier writes of a batch; \<open>None\<close> when the overflow pool does not take all of them.\<close>

definition apply_cold :: "('k, 'q) HConfig \<Rightarrow> CommitEntry list \<Rightarrow> ('k, 'v, 'q) HiOM \<Rightarrow> ColdTier \<Rightarrow> ColdTier option" where
  "apply_cold cfg batch H cold =
    (case fold dispatch (winners (keys cfg) (h_base H) (h_hot H) (h_viper H) batch) ([], cold) of
       (puts, cold1) \<Rightarrow>
         if puts = [] then Some cold1
         else case bulk_upsert (bulk_sort cfg (main_buckets_per_region cold1) puts) cold1 of
                (wrote, cold2) \<Rightarrow> if wrote \<noteq> length puts then None else Some cold2)"

text \<open>An entry that was registered when it was pushed.\<close>

definition tracked :: "CommitEntry \<Rightarrow> bool" where
  "tracked e \<longleftrightarrow> ce_op e = kPut \<and> \<not> is_tombstone (ce_off e)"

fun retire_all :: "CommitEntry list \<Rightarrow> u64 list \<Rightarrow> u64 list option" where
  "retire_all [] ring = Some ring"
| "retire_all (e # es) ring =
    (if tracked e then
       case pending_retire (block_number (ce_off e)) ring of RingOk ring' \<Rightarrow> retire_all es ring' | _ \<Rightarrow> None
     else retire_all es ring)"

definition release_slot :: "CommitEntry \<Rightarrow> HotTier \<Rightarrow> HotTier" where
  "release_slot e hot =
    (case cas_slot_state hot (ce_hot_slot e) kPinned kInFlush of
       (we_own, hot1) \<Rightarrow> if we_own then snd (cas_slot_state hot1 (ce_hot_slot e) kInFlush kUnpinned) else hot1)"

text \<open>The count of flushed entries moves on, and one checkpoint is written per cadence boundary crossed.\<close>

definition count_flushed :: "('k, 'q) HConfig \<Rightarrow> nat \<Rightarrow> ('k, 'v, 'q) HiOM \<Rightarrow> ('k, 'v, 'q) HiOM" where
  "count_flushed cfg n H =
    (let prior = h_flushed H; after = prior + of_nat n; H1 = H\<lparr>h_flushed := after\<rparr>; c = cadence_entries cfg
     in if h_ckpt H = None \<or> c = 0 then H1
        else (try_write_checkpoint ^^ (unat after div c - unat prior div c)) H1)"

definition apply_batch :: "('k, 'q) HConfig \<Rightarrow> CommitEntry list \<Rightarrow> ('k, 'v, 'q) HiOM \<Rightarrow> hiom_error + ('k, 'v, 'q) HiOM" where
  "apply_batch cfg batch H =
    (if batch = [] then Inr H
     else case h_cold H of
       None \<Rightarrow> Inr H
     | Some cold \<Rightarrow>
         (case apply_cold cfg batch H cold of
            None \<Rightarrow> Inl HColdOverflow
          | Some cold' \<Rightarrow>
              (case (if h_ckpt H = None then Some (h_ring H) else retire_all batch (h_ring H)) of
                 None \<Rightarrow> Inl HRingFatal
               | Some ring \<Rightarrow>
                   Inr (count_flushed cfg (length batch)
                     (H\<lparr>h_cold := Some cold', h_ring := ring, h_hot := fold release_slot batch (h_hot H)\<rparr>)))))"

section \<open>Draining\<close>

text \<open>\<open>std::stable_sort\<close> by fingerprint, then sequence number, as two stable sorts.\<close>

definition sort_batch :: "CommitEntry list \<Rightarrow> CommitEntry list" where
  "sort_batch batch = sort_key ce_fp64 (sort_key ce_seq batch)"

text \<open>All of a lane, at most 1024 entries per call; \<open>n\<close> bounds the number of calls.\<close>

fun drain_lane :: "nat \<Rightarrow> ('q \<Rightarrow> nat \<Rightarrow> CommitEntry list \<times> 'q) \<Rightarrow> nat \<Rightarrow> CommitEntry list \<Rightarrow> 'q CommitBuffer \<Rightarrow>
    (CommitEntry list \<times> 'q CommitBuffer) option" where
  "drain_lane 0 deq lane batch buf = None"
| "drain_lane (Suc n) deq lane batch buf =
    (case try_drain_lane deq lane batch 1024 buf of
       (got, batch', buf') \<Rightarrow> if got = 0 then Some (batch', buf') else drain_lane n deq lane batch' buf')"

definition flush_lane :: "nat \<Rightarrow> ('k, 'q) HConfig \<Rightarrow> nat \<Rightarrow> nat \<times> ('k, 'v, 'q) HiOM \<Rightarrow> hiom_error + (nat \<times> ('k, 'v, 'q) HiOM)" where
  "flush_lane n cfg lane tH =
    (case tH of (drained, H) \<Rightarrow>
       case drain_lane n (q_deq cfg) lane [] (h_buf H) of
         None \<Rightarrow> Inl HStuck
       | Some (batch, buf) \<Rightarrow>
           if batch = [] then Inr (drained, H\<lparr>h_buf := buf\<rparr>)
           else case apply_batch cfg (sort_batch batch) (H\<lparr>h_buf := buf\<rparr>) of
                  Inl e \<Rightarrow> Inl e
                | Inr H' \<Rightarrow> Inr (drained + length batch, H'))"

text \<open>Rounds over the non-empty lanes of one flusher until none is left, or a round finds nothing.\<close>

fun drain_rounds :: "nat \<Rightarrow> nat \<Rightarrow> ('k, 'q) HConfig \<Rightarrow> u64 \<Rightarrow> nat \<Rightarrow> ('k, 'v, 'q) HiOM \<Rightarrow> hiom_error + (nat \<times> ('k, 'v, 'q) HiOM)" where
  "drain_rounds 0 n cfg my_lanes drained H = Inl HStuck"
| "drain_rounds (Suc m) n cfg my_lanes drained H =
    (let msk = nonempty_mask (h_buf H) AND my_lanes
     in if msk = 0 then Inr (drained, H)
        else case fold_res (flush_lane n cfg) (filter (bit msk) [0..<64]) (0, H) of
               Inl e \<Rightarrow> Inl e
             | Inr (round_drained, H') \<Rightarrow>
                 if round_drained = 0 then Inr (drained, H') else drain_rounds m n cfg my_lanes (drained + round_drained) H')"

definition drain_to_empty_and_apply_locked :: "nat \<Rightarrow> ('k, 'q) HConfig \<Rightarrow> nat \<Rightarrow> ('k, 'v, 'q) HiOM \<Rightarrow>
    hiom_error + (nat \<times> ('k, 'v, 'q) HiOM)" where
  "drain_to_empty_and_apply_locked n cfg flusher_id H =
    drain_rounds n n cfg (lanes_mask_for_flusher flusher_id (num_flushers cfg)) 0 H"

definition drain_once :: "nat \<Rightarrow> ('k, 'q) HConfig \<Rightarrow> nat \<Rightarrow> ('k, 'v, 'q) HiOM \<Rightarrow> hiom_error + (nat \<times> ('k, 'v, 'q) HiOM)" where
  "drain_once n cfg flusher_id H =
    (if h_cold H = None then Inr (0, H) else drain_to_empty_and_apply_locked n cfg flusher_id H)"

text \<open>With no other thread inside a drain the first flusher's mutex is free.\<close>

definition try_inline_flush :: "nat \<Rightarrow> ('k, 'q) HConfig \<Rightarrow> ('k, 'v, 'q) HiOM \<Rightarrow> hiom_error + (nat \<times> ('k, 'v, 'q) HiOM)" where
  "try_inline_flush n cfg H =
    (if h_cold H = None \<or> num_flushers cfg = 0 then Inr (0, H) else drain_to_empty_and_apply_locked n cfg 0 H)"

text \<open>What the flushers do once woken: each drains its lanes.\<close>

definition flushers_turn :: "nat \<Rightarrow> ('k, 'q) HConfig \<Rightarrow> ('k, 'v, 'q) HiOM \<Rightarrow> hiom_error + ('k, 'v, 'q) HiOM" where
  "flushers_turn n cfg H =
    fold_res (\<lambda>f H. case drain_once n cfg f H of Inl e \<Rightarrow> Inl e | Inr (_, H') \<Rightarrow> Inr H') [0..<num_flushers cfg] H"

fun flush_and_wait :: "nat \<Rightarrow> nat \<Rightarrow> ('k, 'q) HConfig \<Rightarrow> ('k, 'v, 'q) HiOM \<Rightarrow> hiom_error + ('k, 'v, 'q) HiOM" where
  "flush_and_wait 0 n cfg H = Inl HStuck"
| "flush_and_wait (Suc m) n cfg H =
    (case flushers_turn n cfg H of
       Inl e \<Rightarrow> Inl e
     | Inr H' \<Rightarrow> if size_hint (h_buf H') = 0 then Inr H' else flush_and_wait m n cfg H')"

end
