(* ===== verification/Hiom_Client.thy ===== *)
theory Hiom_Client
  imports Hiom_Core
begin

text \<open>
  The HiOM front end, second half (hiom.hpp): construction with the recovery of the tail, and the
  operations of a client: put, get, get_batch, remove, update, with the mirroring of a write into the
  hot tier and the commit buffer.
\<close>

section \<open>Clients\<close>

record HClient =
  hc_viper :: VClient
  hc_seq :: u64
  hc_slot :: "nat option"

definition hiom_get_client :: "('k, 'q) HConfig \<Rightarrow> nat \<Rightarrow> ('k, 'v, 'q) HiOM \<Rightarrow> hiom_error + (('k, 'v, 'q) HiOM \<times> HClient)" where
  "hiom_get_client cfg rnd H =
    (case Viper_Store.get_client (vcfg cfg) None rnd (h_viper H) of
       None \<Rightarrow> Inl HStuck
     | Some (V, C) \<Rightarrow>
         (case reserve_client_slot (h_slots H) of
            (None, slots) \<Rightarrow> if h_ckpt H \<noteq> None then Inl HNoClientSlot
                             else Inr (H\<lparr>h_viper := V, h_slots := slots\<rparr>, \<lparr>hc_viper = C, hc_seq = 0, hc_slot = None\<rparr>)
          | (Some i, slots) \<Rightarrow> Inr (H\<lparr>h_viper := V, h_slots := slots\<rparr>, \<lparr>hc_viper = C, hc_seq = 0, hc_slot = Some i\<rparr>)))"

definition hiom_end_client :: "('k, 'q) HConfig \<Rightarrow> ('k, 'v, 'q) HiOM \<Rightarrow> HClient \<Rightarrow> ('k, 'v, 'q) HiOM" where
  "hiom_end_client cfg H C =
    H\<lparr>h_slots := (case hc_slot C of Some i \<Rightarrow> release_client_slot i (h_slots H) | None \<Rightarrow> h_slots H),
      h_viper := end_client (vcfg cfg) (h_viper H) (hc_viper C)\<rparr>"

definition next_seq :: "HClient \<Rightarrow> u64 \<times> HClient" where
  "next_seq C =
    (let local = hc_seq C + 1
     in (push_bit 16 local OR ((case hc_slot C of Some i \<Rightarrow> of_nat i | None \<Rightarrow> 0xFFFFFFFFFFFFFFFF) AND 0xFFFF),
         C\<lparr>hc_seq := local\<rparr>))"

section \<open>Reading\<close>

definition kMaxRetries :: nat where "kMaxRetries = 1024"
definition kRepairAttempt :: nat where "kRepairAttempt = kMaxRetries div 4"

fun read_attempts :: "nat \<Rightarrow> nat \<Rightarrow> 'k \<Rightarrow> u64 \<Rightarrow> ('k, 'v) Viper \<Rightarrow> 'v option \<times> ('k, 'v) Viper" where
  "read_attempts 0 attempt key off V = (None, V)"
| "read_attempts (Suc n) attempt key off V =
    (case hiom_read_at_offset_status V off of
       (kOk, Some (pm_key, pm_val)) \<Rightarrow> (if pm_key = key then Some pm_val else None, V)
     | (kOk, None) \<Rightarrow> (None, V)
     | (kSlotFree, r) \<Rightarrow> (None, V)
     | (kTransient, r) \<Rightarrow>
         read_attempts n (Suc attempt) key off
           (if attempt = kRepairAttempt then hiom_repair_stale_lock_at off V else V))"

definition verify_and_read_offset :: "'k \<Rightarrow> u64 \<Rightarrow> ('k, 'v) Viper \<Rightarrow> 'v option \<times> ('k, 'v) Viper" where
  "verify_and_read_offset key off V =
    (if is_tombstone off then (None, V) else read_attempts (Suc kMaxRetries) 0 key off V)"

definition mirror_into_hot_with_offset :: "('k, 'q) HConfig \<Rightarrow> 'k \<Rightarrow> u64 \<Rightarrow> ('k, 'v, 'q) HiOM \<Rightarrow> ('k, 'v, 'q) HiOM" where
  "mirror_into_hot_with_offset cfg key off H =
    (case encode_kv (h_base H) off of
       None \<Rightarrow> H
     | Some packed \<Rightarrow> H\<lparr>h_hot := snd (hot_upsert (h_hot H) (key_fingerprint (keys cfg) key) packed)\<rparr>)"

definition resolve_slow :: "('k, 'q) HConfig \<Rightarrow> 'k \<Rightarrow> ('k, 'v, 'q) HiOM \<Rightarrow> 'v option \<times> ('k, 'v, 'q) HiOM" where
  "resolve_slow cfg key H =
    (case h_cold H of
       Some cold \<Rightarrow>
         (case cold_lookup cold (key_fingerprint64 (keys cfg) key) (key_id_of (keys cfg) key) of
            None \<Rightarrow> (None, H)
          | Some off \<Rightarrow>
              (case verify_and_read_offset key off (h_viper H) of
                 (Some v, V) \<Rightarrow> (Some v, mirror_into_hot_with_offset cfg key off (H\<lparr>h_viper := V\<rparr>))
               | (None, V) \<Rightarrow> (None, H\<lparr>h_viper := V\<rparr>)))
     | None \<Rightarrow>
         (case viper_get (vcfg cfg) key (h_viper H) of
            (None, V) \<Rightarrow> (None, H\<lparr>h_viper := V\<rparr>)
          | (Some v, V) \<Rightarrow>
              (Some v, mirror_into_hot_with_offset cfg key (hiom_peek_offset (vcfg cfg) (\<lambda>_. Tombstone) key V) (H\<lparr>h_viper := V\<rparr>))))"

definition hiom_get :: "('k, 'q) HConfig \<Rightarrow> 'k \<Rightarrow> ('k, 'v, 'q) HiOM \<Rightarrow> 'v option \<times> ('k, 'v, 'q) HiOM" where
  "hiom_get cfg key H =
    (case hot_lookup (h_hot H) (key_fingerprint (keys cfg) key) of
       (Some packed, hot) \<Rightarrow>
         (case verify_and_read_offset key (decode_kv (h_base H) packed) (h_viper H) of
            (Some v, V) \<Rightarrow> (Some v, H\<lparr>h_hot := hot, h_viper := V\<rparr>)
          | (None, V) \<Rightarrow> resolve_slow cfg key (H\<lparr>h_hot := hot, h_viper := V\<rparr>))
     | (None, hot) \<Rightarrow> resolve_slow cfg key (H\<lparr>h_hot := hot\<rparr>))"

text \<open>\<open>get_batch\<close>: all hot-tier probes first, then the reads.\<close>

fun batch_probe :: "('k, 'q) HConfig \<Rightarrow> 'k list \<Rightarrow> ('k, 'v, 'q) HiOM \<Rightarrow> u64 option list \<times> ('k, 'v, 'q) HiOM" where
  "batch_probe cfg [] H = ([], H)"
| "batch_probe cfg (k # ks) H =
    (case hot_lookup (h_hot H) (key_fingerprint (keys cfg) k) of
       (r, hot) \<Rightarrow> (case batch_probe cfg ks (H\<lparr>h_hot := hot\<rparr>) of
                      (rs, H') \<Rightarrow> (map_option (decode_kv (h_base H)) r # rs, H')))"

fun batch_read :: "('k, 'q) HConfig \<Rightarrow> ('k \<times> u64 option) list \<Rightarrow> ('k, 'v, 'q) HiOM \<Rightarrow> 'v option list \<times> ('k, 'v, 'q) HiOM" where
  "batch_read cfg [] H = ([], H)"
| "batch_read cfg ((k, hit) # ks) H =
    (case (case hit of None \<Rightarrow> (None, h_viper H) | Some off \<Rightarrow> verify_and_read_offset k off (h_viper H)) of
       (r, V) \<Rightarrow>
         (case (case r of Some v \<Rightarrow> (Some v, H\<lparr>h_viper := V\<rparr>) | None \<Rightarrow> resolve_slow cfg k (H\<lparr>h_viper := V\<rparr>)) of
            (r', H1) \<Rightarrow> (case batch_read cfg ks H1 of (rs, H2) \<Rightarrow> (r' # rs, H2))))"

definition get_batch :: "('k, 'q) HConfig \<Rightarrow> 'k list \<Rightarrow> ('k, 'v, 'q) HiOM \<Rightarrow> 'v option list \<times> ('k, 'v, 'q) HiOM" where
  "get_batch cfg ks H = (case batch_probe cfg ks H of (hits, H') \<Rightarrow> batch_read cfg (zip ks hits) H')"

section \<open>Writing\<close>

definition push_commit :: "('k, 'q) HConfig \<Rightarrow> CommitEntry \<Rightarrow> ('k, 'v, 'q) HiOM \<Rightarrow> hiom_error + ('k, 'v, 'q) HiOM" where
  "push_commit cfg e H =
    (case (if h_ckpt H \<noteq> None \<and> tracked e then pending_register (block_number (ce_off e)) (h_ring H) else RingOk (h_ring H)) of
       RingStall \<Rightarrow> Inl HStuck
     | RingFatal \<Rightarrow> Inl HRingFatal
     | RingOk ring \<Rightarrow> Inr (H\<lparr>h_ring := ring, h_buf := snd (push (q_enq cfg) (lane_of_fp64 (ce_fp64 e)) e (h_buf H))\<rparr>))"

definition kMaxBackpressureRetries :: nat where "kMaxBackpressureRetries = 32"

text \<open>Pinning with back-pressure: after a refusal some lanes are drained, by this thread or by the flushers.\<close>

fun pin_retry :: "nat \<Rightarrow> nat \<Rightarrow> ('k, 'q) HConfig \<Rightarrow> u32 \<Rightarrow> u32 \<Rightarrow> SlotRef \<Rightarrow> ('k, 'v, 'q) HiOM \<Rightarrow> hiom_error + (SlotRef \<times> ('k, 'v, 'q) HiOM)" where
  "pin_retry 0 n cfg fp32 packed ref H = Inr (ref, H)"
| "pin_retry (Suc a) n cfg fp32 packed ref H =
    (if valid ref then Inr (ref, H)
     else case try_inline_flush n cfg H of
            Inl e \<Rightarrow> Inl e
          | Inr (got, H1) \<Rightarrow>
              (case (if got = 0 then flushers_turn n cfg H1 else Inr H1) of
                 Inl e \<Rightarrow> Inl e
               | Inr H2 \<Rightarrow> (case upsert_pinned (h_hot H2) fp32 packed of
                              (ref', hot) \<Rightarrow> pin_retry a n cfg fp32 packed ref' (H2\<lparr>h_hot := hot\<rparr>))))"

text \<open>The synchronous drain after a write that could not be pinned; \<open>m\<close> bounds the rounds.\<close>

fun sync_drain :: "nat \<Rightarrow> nat \<Rightarrow> ('k, 'q) HConfig \<Rightarrow> ('k, 'v, 'q) HiOM \<Rightarrow> hiom_error + ('k, 'v, 'q) HiOM" where
  "sync_drain 0 n cfg H = Inl HStuck"
| "sync_drain (Suc m) n cfg H =
    (if size_hint (h_buf H) = 0 then Inr H
     else case try_inline_flush n cfg H of
            Inl e \<Rightarrow> Inl e
          | Inr (got, H1) \<Rightarrow>
              (case (if got = 0 then flushers_turn n cfg H1 else Inr H1) of
                 Inl e \<Rightarrow> Inl e
               | Inr H2 \<Rightarrow> sync_drain m n cfg H2))"

definition pin_offset :: "nat \<Rightarrow> ('k, 'q) HConfig \<Rightarrow> u32 \<Rightarrow> u32 option \<Rightarrow> ('k, 'v, 'q) HiOM \<Rightarrow> hiom_error + (SlotRef \<times> ('k, 'v, 'q) HiOM)" where
  "pin_offset n cfg fp32 packed H =
    (case packed of
       None \<Rightarrow> Inr (no_ref, H)
     | Some p \<Rightarrow>
         if h_cold H = None then Inr (no_ref, H\<lparr>h_hot := snd (hot_upsert (h_hot H) fp32 p)\<rparr>)
         else case upsert_pinned (h_hot H) fp32 p of
                (ref, hot) \<Rightarrow> pin_retry kMaxBackpressureRetries n cfg fp32 p ref (H\<lparr>h_hot := hot\<rparr>))"

definition mirror_write_with_offset :: "nat \<Rightarrow> ('k, 'q) HConfig \<Rightarrow> 'k \<Rightarrow> commit_op \<Rightarrow> u64 \<Rightarrow> ('k, 'v, 'q) HiOM \<Rightarrow> HClient \<Rightarrow>
    hiom_error + (('k, 'v, 'q) HiOM \<times> HClient)" where
  "mirror_write_with_offset n cfg key op off H C =
    (if is_tombstone off then Inr (H, C)
     else
       let kh = make_key_hash (keys cfg) key;
           H1 = H\<lparr>h_slots := (case hc_slot C of Some i \<Rightarrow> note_client_block i (block_number off) (h_slots H) | None \<Rightarrow> h_slots H)\<rparr>;
           packed = encode_kv (h_base H) off
       in case pin_offset n cfg (kh_fp32 kh) packed H1 of
            Inl e \<Rightarrow> Inl e
          | Inr (ref, H2) \<Rightarrow>
              if h_cold H2 = None then Inr (H2, C)
              else case next_seq C of (sq, C') \<Rightarrow>
                (case push_commit cfg \<lparr>ce_op = op, ce_fp64 = kh_fp64 kh, ce_key_id = kh_key_id kh, ce_off = off,
                                        ce_hot_slot = ref, ce_seq = sq\<rparr> H2 of
                   Inl e \<Rightarrow> Inl e
                 | Inr H3 \<Rightarrow>
                     if packed \<noteq> None \<and> \<not> valid ref
                     then (case sync_drain n n cfg H3 of Inl e \<Rightarrow> Inl e | Inr H4 \<Rightarrow> Inr (H4, C'))
                     else Inr (H3, C')))"

text \<open>The resolvers as Viper sees them, and the visited mark their hot-tier lookup leaves.\<close>

definition installed_resolver :: "('k, 'q) HConfig \<Rightarrow> ('k, 'v, 'q) HiOM \<Rightarrow> (('k, 'v) Viper \<Rightarrow> 'k \<Rightarrow> u64) option" where
  "installed_resolver cfg H =
    map_option (\<lambda>cold. old_offset_resolver (keys cfg) (h_base H) (h_hot H) cold) (h_cold H)"

definition touch :: "('k, 'q) HConfig \<Rightarrow> 'k \<Rightarrow> ('k, 'v, 'q) HiOM \<Rightarrow> ('k, 'v, 'q) HiOM" where
  "touch cfg key H = (if h_cold H = None then H else H\<lparr>h_hot := snd (hot_lookup (h_hot H) (key_fingerprint (keys cfg) key))\<rparr>)"

definition hiom_put :: "nat \<Rightarrow> ('k, 'q) HConfig \<Rightarrow> nat \<Rightarrow> 'k \<Rightarrow> 'v \<Rightarrow> bool \<Rightarrow> ('k, 'v, 'q) HiOM \<Rightarrow> HClient \<Rightarrow>
    hiom_error + (bool \<times> ('k, 'v, 'q) HiOM \<times> HClient)" where
  "hiom_put n cfg rnd key val assume_new H C =
    (let H1 = (case hc_slot C of
                 Some i \<Rightarrow> if h_ckpt H \<noteq> None then H\<lparr>h_slots := note_inflight_block i (of_nat (v_block_number (hc_viper C))) (h_slots H)\<rparr> else H
               | None \<Rightarrow> H)
     in case put 2 (vcfg cfg) (installed_resolver cfg H1) None rnd key val True assume_new (h_viper H1) (hc_viper C) of
          None \<Rightarrow> Inl HStuck
        | Some (is_new_item, V, VC) \<Rightarrow>
            (let H2 = (if assume_new then H1 else touch cfg key H1)\<lparr>h_viper := V\<rparr>
             in case mirror_write_with_offset n cfg key kPut (last_put_offset VC) H2 (C\<lparr>hc_viper := VC\<rparr>) of
                  Inl e \<Rightarrow> Inl e
                | Inr (H3, C3) \<Rightarrow> Inr (is_new_item, H3, C3)))"

definition hiom_remove :: "('k, 'q) HConfig \<Rightarrow> 'k \<Rightarrow> ('k, 'v, 'q) HiOM \<Rightarrow> HClient \<Rightarrow>
    hiom_error + (bool \<times> ('k, 'v, 'q) HiOM \<times> HClient)" where
  "hiom_remove cfg key H C =
    (case remove (vcfg cfg) (installed_resolver cfg H) key (h_viper H) (hc_viper C) of
       None \<Rightarrow> Inl HStuck
     | Some (viper_ok, V, VC) \<Rightarrow>
         (let kh = make_key_hash (keys cfg) key;
              H1 = (touch cfg key H)\<lparr>h_viper := V\<rparr>;
              H2 = H1\<lparr>h_hot := snd (hot_remove (h_hot H1) (kh_fp32 kh))\<rparr>;
              C1 = C\<lparr>hc_viper := VC\<rparr>
          in if h_cold H2 = None then Inr (viper_ok, H2, C1)
             else case next_seq C1 of (sq, C2) \<Rightarrow>
               (case push_commit cfg \<lparr>ce_op = kRemove, ce_fp64 = kh_fp64 kh, ce_key_id = kh_key_id kh, ce_off = Tombstone,
                                       ce_hot_slot = no_ref, ce_seq = sq\<rparr> H2 of
                  Inl e \<Rightarrow> Inl e
                | Inr H3 \<Rightarrow> Inr (True, H3, C2))))"

text \<open>\<open>update\<close> of a fixed-size value: in place, nothing else changes but the visited mark.\<close>

definition hiom_update :: "('k, 'q) HConfig \<Rightarrow> 'k \<Rightarrow> ('v \<Rightarrow> 'v) \<Rightarrow> ('k, 'v, 'q) HiOM \<Rightarrow> (bool \<times> ('k, 'v, 'q) HiOM) option" where
  "hiom_update cfg key fn H =
    (case h_cold H of
       Some cold \<Rightarrow>
         (case update_owned (hot_only_resolver (keys cfg) (h_base H) (h_hot H))
                 (old_offset_resolver (keys cfg) (h_base H) (h_hot H) cold) key fn (h_viper H) of
            (ok, V) \<Rightarrow> Some (ok, (touch cfg key H)\<lparr>h_viper := V\<rparr>))
     | None \<Rightarrow> map_option (\<lambda>(ok, V). (ok, H\<lparr>h_viper := V\<rparr>)) (update_mapped (vcfg cfg) None key fn (h_viper H)))"

section \<open>Recovery and construction\<close>

text \<open>The block ranges that \<open>recover_tail_into_cold\<close> gives to its workers.\<close>

definition tail_ranges :: "nat \<Rightarrow> nat \<Rightarrow> nat \<Rightarrow> (nat \<times> nat) list" where
  "tail_ranges threads start_block current_block =
    (let num_blocks = current_block - start_block;
         num_threads = min num_blocks (max 1 threads);
         per_thread = (num_blocks + num_threads - 1) div num_threads
     in filter (\<lambda>(lo, hi). lo < hi)
          (map (\<lambda>t. (start_block + t * per_thread, min (start_block + t * per_thread + per_thread) current_block)) [0..<num_threads]))"

definition frontier_block :: "checkpoint_pm option \<Rightarrow> nat" where
  "frontier_block ck =
    (case ck of
       None \<Rightarrow> 0
     | Some c \<Rightarrow> (case read_valid c of
                    None \<Rightarrow> 0
                  | Some rec \<Rightarrow> if proto_version rec = kProtoDurableFrontier then unat (block_number (vpage_frontier rec)) else 0))"

fun replay :: "'k HKeys \<Rightarrow> ('k \<times> 'v \<times> u64) list \<Rightarrow> ColdTier \<Rightarrow> ColdTier option" where
  "replay K [] cold = Some cold"
| "replay K ((k, v, off) # rs) cold =
    (case cold_upsert cold (key_fingerprint64 K k) (key_id_of K k) off of
       (ok, cold') \<Rightarrow> if ok then replay K rs cold' else None)"

definition recover_tail_into_cold :: "('k, 'q) HConfig \<Rightarrow> nat \<Rightarrow> checkpoint_pm option \<Rightarrow> ('k, 'v) Viper \<Rightarrow> ColdTier \<Rightarrow>
    hiom_error + (nat \<times> ColdTier)" where
  "recover_tail_into_cold cfg threads ck V cold =
    (let fb = frontier_block ck;
         start_block = (if fb > 0 then fb - 1 else 0);
         current_block = fst (current_block_page V)
     in if current_block \<le> start_block then Inr (0, cold)
        else let rs = concat (map (\<lambda>(lo, hi). hiom_visit_records (vcfg cfg) lo hi V) (tail_ranges threads start_block current_block))
             in case replay (keys cfg) rs cold of None \<Rightarrow> Inl HColdOverflow | Some cold' \<Rightarrow> Inr (length rs, cold'))"

definition zero_base_map :: base_map where "zero_base_map = replicate kNumRegions 0"

text \<open>The state in which the constructor leaves an instance, given the reopened parts.\<close>

definition hiom_new :: "'q \<Rightarrow> ('k, 'v) Viper \<Rightarrow> nat \<Rightarrow> ColdTier option \<Rightarrow> checkpoint_pm option \<Rightarrow> ('k, 'v, 'q) HiOM" where
  "hiom_new q0 V hot_buckets cold ck =
    \<lparr>h_viper = V, h_hot = hot_new hot_buckets, h_cold = cold, h_base = zero_base_map, h_buf = new_buffer q0,
     h_slots = replicate kMaxClientSlots empty_slot, h_ring = pending_new, h_ckpt = ck,
     h_flushed = (case ck of None \<Rightarrow> 0 | Some c \<Rightarrow> (case read_valid c of None \<Rightarrow> 0 | Some rec \<Rightarrow> flushed_count rec)),
     h_seq = (case ck of None \<Rightarrow> 0 | Some c \<Rightarrow> (case read_valid c of None \<Rightarrow> 0 | Some rec \<Rightarrow> seq rec))\<rparr>"

definition hiom_open :: "('k, 'q) HConfig \<Rightarrow> 'q \<Rightarrow> bool \<Rightarrow> bool \<Rightarrow> nat \<Rightarrow> nat \<Rightarrow> ColdTier option \<Rightarrow> checkpoint_pm option \<Rightarrow>
    ('k, 'v) Viper \<Rightarrow> hiom_error + (nat \<times> ('k, 'v, 'q) HiOM)" where
  "hiom_open cfg q0 tail_scan stale_lock_scan threads hot_buckets cold ck V =
    (case cold of
       None \<Rightarrow> Inr (0, hiom_new q0 V hot_buckets None ck)
     | Some c \<Rightarrow>
         if enable_reclamation (vcfg cfg) then Inl HReclamation
         else
           let V1 = (if tail_scan \<and> stale_lock_scan then snd (hiom_clear_all_stale_page_locks (vcfg cfg) threads V) else V)
           in case (if tail_scan then recover_tail_into_cold cfg threads ck V1 c else Inr (0, c)) of
                Inl e \<Rightarrow> Inl e
              | Inr (replayed, c') \<Rightarrow>
                  if num_flushers cfg = 0 \<or> kNumLanes mod num_flushers cfg \<noteq> 0 then Inl HFlushers
                  else Inr (replayed, hiom_new q0 (V1\<lparr>hiom_owns_index := True\<rparr>) hot_buckets (Some c') ck))"

text \<open>\<open>warm_hot_tier\<close>: the entries of the parallel load, one thread after the other, go into the hot tier;
  \<open>of_raw\<close> rebuilds a key of at most eight bytes.\<close>

definition warm_entry :: "('k, 'q) HConfig \<Rightarrow> (u64 \<Rightarrow> 'k) option \<Rightarrow> u64 \<times> u64 \<Rightarrow> nat \<times> ('k, 'v, 'q) HiOM \<Rightarrow> nat \<times> ('k, 'v, 'q) HiOM" where
  "warm_entry cfg of_raw e wH =
    (case (e, wH) of ((key_id, off), (warmed, H)) \<Rightarrow>
       if is_tombstone off then (warmed, H)
       else case (encode_kv (h_base H) off, of_raw) of
              (Some packed, Some mk) \<Rightarrow>
                (warmed + 1, H\<lparr>h_hot := snd (hot_upsert (h_hot H) (key_fingerprint (keys cfg) (mk key_id)) packed)\<rparr>)
            | _ \<Rightarrow> (warmed, H))"

definition warm_hot_tier :: "('k, 'q) HConfig \<Rightarrow> (u64 \<Rightarrow> 'k) option \<Rightarrow> nat \<Rightarrow> ('k, 'v, 'q) HiOM \<Rightarrow> nat \<times> ('k, 'v, 'q) HiOM" where
  "warm_hot_tier cfg of_raw num_threads H =
    (case h_cold H of
       None \<Rightarrow> (0, H)
     | Some cold \<Rightarrow> fold (warm_entry cfg of_raw) (concat (parallel_load cold num_threads)) (0, H))"

section \<open>Shutdown\<close>

text \<open>The destructor joins the flushers and then drains what is left, one flusher's lanes after the other.\<close>

definition hiom_close :: "nat \<Rightarrow> ('k, 'q) HConfig \<Rightarrow> ('k, 'v, 'q) HiOM \<Rightarrow> hiom_error + ('k, 'v, 'q) HiOM" where
  "hiom_close n cfg H = (if h_cold H = None then Inr H else flushers_turn n cfg H)"

definition force_checkpoint :: "('k, 'v, 'q) HiOM \<Rightarrow> ('k, 'v, 'q) HiOM" where
  "force_checkpoint H = (if h_ckpt H \<noteq> None then try_write_checkpoint H else H)"

text \<open>The test hook for a crash drops the commit buffer undrained; what survives is the persistent part.\<close>

definition simulate_crash_for_test :: "'q \<Rightarrow> ('k, 'v, 'q) HiOM \<Rightarrow> ('k, 'v, 'q) HiOM" where
  "simulate_crash_for_test q0 H = H\<lparr>h_buf := new_buffer q0\<rparr>"

end
