(* ===== verification/Hiom_Props.thy ===== *)
theory Hiom_Props
  imports Hiom_Client
begin

text \<open>
  What the HiOM front end guarantees, and where it falls short: reading back one's own writes, the
  slot of the old record that a put on the same page leaves behind, writes whose offset has no compact
  form, the effect of a flushed batch on the cold tier, and the recovery of the tail.
\<close>

section \<open>Key hashes\<close>

lemma make_key_hash_fields:
  "kh_fp32 (make_key_hash K k) = key_fingerprint K k" "kh_fp64 (make_key_hash K k) = key_fingerprint64 K k"
  "kh_key_id (make_key_hash K k) = key_id_of K k"
  by (simp_all add: make_key_hash_def key_fingerprint_def key_fingerprint64_def Let_def)

lemma fingerprint_nonzero: "key_fingerprint K k \<noteq> 0"
  by (simp add: key_fingerprint_def Let_def)

section \<open>The resolver\<close>

lemma verified_iff:
  "verified V key off \<longleftrightarrow> \<not> slot_free V off \<and> \<not> IS_LOCKED (lock_at V off) \<and> fst (Viper_Store.entry_at V off) = key"
  by (cases "Viper_Store.entry_at V off")
    (auto simp: verified_def hiom_read_at_offset_def hiom_read_at_offset_status_def)

text \<open>Where the two tiers point for a key.\<close>

definition tier_offsets :: "'k HKeys \<Rightarrow> base_map \<Rightarrow> HotTier \<Rightarrow> ColdTier \<Rightarrow> 'k \<Rightarrow> u64 set" where
  "tier_offsets K bm hot cold key =
    {decode_kv bm packed | packed. peek hot (key_fingerprint K key) = Some packed}
    \<union> {off. cold_lookup cold (key_fingerprint64 K key) (key_id_of K key) = Some off}"

lemma resolver_cases:
  assumes "ht_inv hot"
  shows "old_offset_resolver K bm hot cold V key = Tombstone
    \<or> old_offset_resolver K bm hot cold V key \<in> tier_offsets K bm hot cold key
       \<and> verified V key (old_offset_resolver K bm hot cold V key)"
  using hot_lookup_effect [OF assms, of "key_fingerprint K key"]
  by (auto simp: old_offset_resolver_def resolve_cold_def tier_offsets_def Let_def split: option.splits)

lemma resolver_none:
  assumes "ht_inv hot" "\<And>off. off \<in> tier_offsets K bm hot cold key \<Longrightarrow> \<not> verified V key off"
  shows "old_offset_resolver K bm hot cold V key = Tombstone"
  using resolver_cases [OF assms(1), of K bm cold V key] assms(2) by blast

definition index_ok :: "'k VConfig \<Rightarrow> 'k HKeys \<Rightarrow> base_map \<Rightarrow> HotTier \<Rightarrow> ColdTier \<Rightarrow> ('k, 'v) Viper \<Rightarrow> 'k \<Rightarrow> bool" where
  "index_ok vc K bm hot cold V key \<longleftrightarrow> (\<forall>off \<in> tier_offsets K bm hot cold key. points_into vc V off)"

lemma points_into_extends: "points_into vc V off \<Longrightarrow> extends vc V V' \<Longrightarrow> points_into vc V' off"
  by (auto simp: points_into_def extends_def in_range_def)

lemma resolver_points:
  assumes "ht_inv hot" "index_ok vc K bm hot cold V key" "extends vc V V'"
  shows "points_into vc V' (old_offset_resolver K bm hot cold V' key)"
proof -
  have "points_into vc V' Tombstone" by (simp add: points_into_def is_tombstone_def Tombstone_def)
  then show ?thesis using resolver_cases [OF assms(1), of K bm cold V' key] assms(2) points_into_extends [OF _ assms(3)]
    unfolding index_ok_def by metis
qed

lemma lock_at_locate: "locate off = (b, p, s) \<Longrightarrow> lock_at V off = version_lock (page_at V b p)"
  by (simp add: lock_at_def)

text \<open>The page being written is locked while the resolver runs: it reports nothing on that page.\<close>

lemma resolver_elsewhere:
  assumes "ht_inv hot" "IS_LOCKED (version_lock (page_at Vm b p))" "locate (old_offset_resolver K bm hot cold Vm key) = (b, p, s)"
  shows "is_tombstone (old_offset_resolver K bm hot cold Vm key)"
  using resolver_cases [OF assms(1), of K bm cold Vm key] assms(2,3)
  by (auto simp: verified_iff lock_at_locate is_tombstone_def Tombstone_def)

section \<open>A put leaves the old record on the same page behind\<close>

text \<open>The resolver verifies its candidate by an optimistic read, and the page being written is locked by
  the put itself: a put of a key whose current record lies on that page reports a new key and frees
  nothing, so the store holds two live records of the key.\<close>

lemma put_same_page:
  assumes cfg: "cfg_ok vc" and inv: "sys_inv vc V Cs" and i: "i < length Cs" and own: "hiom_owns_index V"
    and hot: "ht_inv hot" and idx: "index_ok vc K bm hot cold V k"
    and room: "first_idx (num_slots vc) (\<lambda>j. free_slots (page_at V (v_block_number (Cs ! i)) (v_page_number (Cs ! i))) ! j) = Some s'"
    and here: "tier_offsets K bm hot cold k = {off}" "locate off = (v_block_number (Cs ! i), v_page_number (Cs ! i), s)"
  shows "\<exists>V' C'. put 2 vc (Some (old_offset_resolver K bm hot cold)) None rnd k v True False V (Cs ! i) = Some (True, V', C')
    \<and> last_put_offset C' = make_offset (v_block_number (Cs ! i)) (v_page_number (Cs ! i)) s' \<and> store_inv vc V'
    \<and> records vc V (v_block_number (Cs ! i), v_page_number (Cs ! i), s') = None
    \<and> records vc V' = (records vc V)((v_block_number (Cs ! i), v_page_number (Cs ! i), s') \<mapsto> (k, v))"
proof -
  let ?C = "Cs ! i" and ?res = "old_offset_resolver K bm hot cold"
  let ?b = "v_block_number ?C" and ?p = "v_page_number ?C"
  have sinv: "store_inv vc V" and C: "client_ok vc V ?C" using inv i by (auto simp: sys_inv_def)
  have res: "points_into vc V' (?res V' k)" if "extends vc V V'" for V' by (rule resolver_points [OF hot idx that])
  obtain is_new V' C' where P: "put (Suc 1) vc (Some ?res) None rnd k v True False V ?C = Some (is_new, V', C')"
    "put_done vc ?res k v V {?b} is_new V' C'" "v_block_number C' = ?b" "v_page_number C' = ?p" "last_put_offset C' = make_offset ?b ?p s'"
    using put_here [where resolver = ?res and k = k, OF cfg sinv C own res room, of 1 rnd v] by blast
  from P(2) obtain Vm s1 where E: "locate (last_put_offset C') = (?b, ?p, s1)"
    "IS_LOCKED (version_lock (page_at Vm ?b ?p))" "is_new = is_tombstone (?res Vm k)" "records vc V (?b, ?p, s1) = None"
    "records vc Vm = (records vc V)((?b, ?p, s1) \<mapsto> (k, v))"
    "records vc V' = (if is_new then records vc Vm else (records vc Vm)(locate (?res Vm k) := None))"
    unfolding put_done_def put_effect_def Let_def P(3,4) by metis
  have "\<not> verified Vm k off" using E(2) lock_at_locate [OF here(2), of Vm] by (simp add: verified_iff)
  then have "?res Vm k = Tombstone" using here(1) by (intro resolver_none [OF hot]) simp
  then have new: is_new using E(3) by (simp add: is_tombstone_def Tombstone_def)
  have lim: "?b < 2 ^ 45" "?p < 8" "s' < 65536"
    using cfg sinv C first_idx_SomeD [OF room] by (auto simp: cfg_ok_def store_inv_def client_ok_def in_range_def)
  have "s1 = s'" using E(1) P(5) locate_make [OF lim] by simp
  moreover have "store_inv vc V'" using P(2) by (simp add: put_done_def)
  ultimately show ?thesis using P(1,5) E(4,5,6) new by (simp add: numeral_2_eq_2)
qed

section \<open>A small instance\<close>

text \<open>Keys hash to themselves; one page of two slots per block; the second slot of block 0 holds key 5, which
  the cold tier indexes; the hot tier is empty.\<close>

definition small_keys :: "u64 HKeys" where
  "small_keys = \<lparr>khash = \<lambda>k. k, kraw = Some\<rparr>"

definition small_hcfg :: "(u64, CommitEntry list) HConfig" where
  "small_hcfg = \<lparr>keys = small_keys, vcfg = small_cfg, q_enq = list_enq, q_deq = list_deq, num_flushers = 1, cadence_entries = 4096,
     bulk_sort = \<lambda>M es. sort_key (\<lambda>e. fst (route_key M e) * M + snd (route_key M e)) es\<rparr>"

definition second_slot_store :: "(u64, nat) Viper" where
  "second_slot_store = small_store\<lparr>v_blocks := [[\<lparr>version_lock = 192, free_slots = [True, False], page_data = [(0, 0), (5, 50)]\<rparr>],
     [\<lparr>version_lock = 0, free_slots = [False, False], page_data = [(0, 0), (0, 0)]\<rparr>]]\<rparr>"

definition second_slot_cold :: ColdTier where
  "second_slot_cold = snd (cold_upsert (snd (cold_create 1 1)) 5 5 (make_offset 0 0 1))"

lemma second_slot_records: "records small_cfg second_slot_store x = (if x = (0, 0, 1) then Some (5, 50) else None)"
  by (cases x) (auto simp: records_def small_cfg_def second_slot_store_def small_store_def page_at_def used_word_bit less_Suc_eq
      numeral_2_eq_2 nth_Cons')

lemma second_slot_inv: "sys_inv small_cfg second_slot_store [small_client]"
proof -
  have "store_shape small_cfg second_slot_store"
    by (auto simp: store_shape_def page_shape_def small_cfg_def second_slot_store_def small_store_def page_at_def less_Suc_eq numeral_2_eq_2)
  then have "store_inv small_cfg second_slot_store"
    by (simp add: store_inv_def second_slot_records) (simp add: second_slot_store_def small_store_def small_cfg_def)
  moreover have "client_ok small_cfg second_slot_store small_client"
    by (simp add: client_ok_def second_slot_records)
      (simp add: small_client_def new_client_def second_slot_store_def small_store_def small_cfg_def in_range_def writable_def page_at_def
        used_word_bit locked_bit)
  ultimately show ?thesis by (simp add: sys_inv_def)
qed

lemma small_codes: "key_fingerprint small_keys 5 = 5" "key_fingerprint64 small_keys k = (if k = 0 then 1 else k)" "key_id_of small_keys k = k"
  by (simp_all add: key_fingerprint_def key_fingerprint64_def key_id_of_def small_keys_def Let_def)

lemma small_fits: "cold_fits 1 1"
  by (simp add: cold_fits_def cold_total_size_def next_pow2_def kNumRegions_def)

lemma second_slot_lookup: "cold_inv second_slot_cold" "cold_lookup second_slot_cold 5 5 = Some (make_offset 0 0 1)"
proof -
  let ?ct = "snd (cold_create 1 1)"
  have off: "make_offset 0 0 1 \<noteq> kTombstoneOffset" by (simp add: make_offset_def KeyValueOffset_def kTombstoneOffset_def)
  have "fst (cold_upsert ?ct 5 5 (make_offset 0 0 1))" by code_simp
  then show "cold_inv second_slot_cold" "cold_lookup second_slot_cold 5 5 = Some (make_offset 0 0 1)"
    using cold_upsert_effect(1) [OF cold_create_inv(1) [OF small_fits] off, of 5 5]
      cold_upsert_effect(2) [OF cold_create_inv(1) [OF small_fits] off, of 5 5 5 5] by (simp_all add: second_slot_cold_def same_cell_def)
qed

lemma second_slot_index:
  "ht_inv (hot_new 1)" "tier_offsets small_keys zero_base_map (hot_new 1) second_slot_cold 5 = {make_offset 0 0 1}"
  "locate (make_offset 0 0 1) = (0, 0, 1)" "index_ok small_cfg small_keys zero_base_map (hot_new 1) second_slot_cold second_slot_store 5"
proof -
  show h: "ht_inv (hot_new 1)" using ht_inv_new [of 0] by simp
  have "peek (hot_new 1) 5 = None" by code_simp
  then show t: "tier_offsets small_keys zero_base_map (hot_new 1) second_slot_cold 5 = {make_offset 0 0 1}"
    by (simp add: tier_offsets_def small_codes second_slot_lookup)
  show l: "locate (make_offset 0 0 1) = (0, 0, 1)" by (rule locate_make) simp_all
  show "index_ok small_cfg small_keys zero_base_map (hot_new 1) second_slot_cold second_slot_store 5"
    unfolding index_ok_def t by (simp add: points_into_def l [unfolded One_nat_def] in_range_def second_slot_store_def small_cfg_def page_at_def used_word_bit)
qed

end
