(* ===== verification/Hiom_Reads.thy ===== *)
theory Hiom_Reads
  imports Hiom_Client
begin

text \<open>
  Reading a record at an offset from the front end: the bounded retry loop ends with the record, because
  a lock that no live client holds is repaired on the way. Clearing such locks, one page at a time or
  all of them when a store is opened, changes no record.
\<close>

section \<open>Clearing locks\<close>

text \<open>The stores agree but for locks that have been taken off.\<close>

definition lock_cleared :: "'k VConfig \<Rightarrow> ('k, 'v) Viper \<Rightarrow> ('k, 'v) Viper \<Rightarrow> bool" where
  "lock_cleared cfg V V' \<longleftrightarrow> store_shape cfg V' \<and> records cfg V' = records cfg V \<and> length (v_blocks V') = length (v_blocks V)
     \<and> current_block_page V' = current_block_page V \<and> num_used_blocks V' = num_used_blocks V \<and> hiom_owns_index V' = hiom_owns_index V
     \<and> (\<forall>b p. writable V b p \<longrightarrow> writable V' b p)
     \<and> (\<forall>b p. used_word (version_lock (page_at V' b p)) = used_word (version_lock (page_at V b p)))"

lemma lock_cleared_refl: "store_shape cfg V \<Longrightarrow> lock_cleared cfg V V"
  by (simp add: lock_cleared_def)

lemma lock_cleared_trans: "lock_cleared cfg V V1 \<Longrightarrow> lock_cleared cfg V1 V2 \<Longrightarrow> lock_cleared cfg V V2"
  by (auto simp: lock_cleared_def)

lemma lock_cleared_sys:
  assumes "sys_inv cfg V Cs" "lock_cleared cfg V V'"
  shows "sys_inv cfg V' Cs"
proof -
  have "store_inv cfg V'" using assms by (simp add: sys_inv_def store_inv_def lock_cleared_def)
  moreover have "client_ok cfg V' C" if "C \<in> set Cs" for C
    using assms that by (auto simp: sys_inv_def client_ok_def lock_cleared_def in_range_def)
  ultimately show ?thesis using assms(1) by (simp add: sys_inv_def)
qed

lemma lock_cleared_points: "points_into cfg V off \<Longrightarrow> lock_cleared cfg V V' \<Longrightarrow> points_into cfg V' off"
  by (auto simp: points_into_def lock_cleared_def in_range_def)

lemma clear_word:
  assumes "store_shape cfg V" "in_range cfg V b p"
  shows "lock_cleared cfg V (upd_lock b p (\<lambda>w. w AND UNLOCKED_BIT) V)"
proof -
  note e = lock_effect [OF assms, of "\<lambda>w. w AND UNLOCKED_BIT"]
  have "\<not> IS_LOCKED (w AND UNLOCKED_BIT)" for w by (simp add: locked_bit bit_and_iff mask_bits)
  then show ?thesis using e by (auto simp: lock_cleared_def writable_def)
qed

lemma repair_word: "snd (try_repair_stale_lock 1 (replicate kLockIntentSlots 0) w) = (if IS_LOCKED w then w AND UNLOCKED_BIT else w)"
  using nobody_registered by (simp add: try_repair_stale_lock_def cas_word_def)

lemma upd_lock_cong:
  "f (version_lock (page_at V b p)) = g (version_lock (page_at V b p)) \<Longrightarrow> store_shape cfg V \<Longrightarrow> in_range cfg V b p \<Longrightarrow>
    upd_lock b p f V = upd_lock b p g V"
  by (simp add: upd_lock_def upd_page_def page_at_def store_shape_def in_range_def)

lemma clear_page_lock_effect:
  assumes "store_shape cfg V" "in_range cfg V b p"
  shows "lock_cleared cfg V (snd (clear_page_lock b p (c, V)))"
proof (cases "used_word (version_lock (page_at V b p)) \<and> IS_LOCKED (version_lock (page_at V b p))")
  case True
  then have "snd (clear_page_lock b p (c, V)) = upd_lock b p (\<lambda>w. w AND UNLOCKED_BIT) V"
    using upd_lock_cong [OF _ assms, of "\<lambda>_. version_lock (page_at V b p) AND UNLOCKED_BIT" "\<lambda>w. w AND UNLOCKED_BIT"]
    by (simp add: clear_page_lock_def Let_def)
  then show ?thesis using clear_word [OF assms] by simp
qed (use assms in \<open>auto simp: clear_page_lock_def Let_def lock_cleared_refl\<close>)

lemma fold_clear:
  assumes "store_shape cfg V" "\<And>x cV. x \<in> set xs \<Longrightarrow> store_shape cfg (snd cV) \<Longrightarrow> length (v_blocks (snd cV)) = length (v_blocks V) \<Longrightarrow>
    lock_cleared cfg (snd cV) (snd (f x cV))"
  shows "lock_cleared cfg V (snd (fold f xs (c, V)))"
proof -
  have "lock_cleared cfg V (snd (fold f ys cV))" if "lock_cleared cfg V (snd cV)" "set ys \<subseteq> set xs" for ys cV
    using that
  proof (induction ys arbitrary: cV)
    case (Cons y ys)
    have "lock_cleared cfg (snd cV) (snd (f y cV))" using Cons.prems by (intro assms(2)) (auto simp: lock_cleared_def)
    then have "lock_cleared cfg V (snd (f y cV))" using Cons.prems(1) lock_cleared_trans by blast
    then show ?case using Cons.IH Cons.prems(2) by simp
  qed simp
  then show ?thesis using lock_cleared_refl [OF assms(1)] by simp
qed

lemma clear_range_effect:
  assumes "store_shape cfg V"
  shows "lock_cleared cfg V (snd (hiom_clear_stale_page_locks cfg lo hi V))"
  unfolding hiom_clear_stale_page_locks_def
proof (rule fold_clear [OF assms], goal_cases)
  case (1 b cV)
  obtain c W where cV: "cV = (c, W)" by (cases cV)
  have W: "store_shape cfg W" "b < length (v_blocks W)" using 1 cV by auto
  have "lock_cleared cfg W (snd (fold (clear_page_lock b) [0..<num_pages cfg] (c, W)))"
  proof (rule fold_clear [OF W(1)], goal_cases)
    case (1 p cV')
    obtain c' W' where c: "cV' = (c', W')" by (cases cV')
    have "lock_cleared cfg W' (snd (clear_page_lock b p (c', W')))"
      by (rule clear_page_lock_effect) (use 1 W c in \<open>auto simp: in_range_def\<close>)
    then show ?case by (simp add: c)
  qed
  then show ?case by (simp add: cV)
qed

lemma clear_all_effect:
  assumes "store_shape cfg V"
  shows "lock_cleared cfg V (snd (hiom_clear_all_stale_page_locks cfg threads V))"
proof (cases "fst (current_block_page V) = 0")
  case False
  have "lock_cleared cfg (snd cV) (snd ((case x of (lo, hi) \<Rightarrow> \<lambda>(c, V). case hiom_clear_stale_page_locks cfg lo hi V of (c', V') \<Rightarrow> (c + c', V')) cV))"
    if "store_shape cfg (snd cV)" for x cV
    using clear_range_effect [OF that] by (cases x; cases cV) (auto split: prod.split, metis snd_conv)
  then have "lock_cleared cfg V (snd (fold (\<lambda>(lo, hi) (c, V). case hiom_clear_stale_page_locks cfg lo hi V of (c', V') \<Rightarrow> (c + c', V'))
      (lock_shards threads (fst (current_block_page V))) (0, V)))"
    by (intro fold_clear [OF assms]) blast
  then show ?thesis using False by (simp add: hiom_clear_all_stale_page_locks_def)
qed (use assms in \<open>simp add: hiom_clear_all_stale_page_locks_def lock_cleared_refl\<close>)

section \<open>Reading with retries\<close>

lemma repair_at_effect:
  assumes "store_shape cfg V" "in_range cfg V b p" "locate off = (b, p, s)"
  shows "lock_cleared cfg V (hiom_repair_stale_lock_at off V)" "\<not> IS_LOCKED (lock_at (hiom_repair_stale_lock_at off V) off)"
    "slot_free (hiom_repair_stale_lock_at off V) off = slot_free V off"
    "Viper_Store.entry_at (hiom_repair_stale_lock_at off V) off = Viper_Store.entry_at V off"
proof -
  let ?f = "\<lambda>w. if IS_LOCKED w then w AND UNLOCKED_BIT else w"
  have r: "hiom_repair_stale_lock_at off V = upd_lock b p ?f V" using assms(3) by (simp add: hiom_repair_stale_lock_at_def repair_word)
  note e = lock_effect [OF assms(1,2), of ?f]
  have nl: "\<not> IS_LOCKED (?f w)" for w by (simp add: locked_bit bit_and_iff mask_bits)
  show "lock_cleared cfg V (hiom_repair_stale_lock_at off V)" using e nl unfolding r by (auto simp: lock_cleared_def writable_def)
  show "\<not> IS_LOCKED (lock_at (hiom_repair_stale_lock_at off V) off)" using nl assms(3) by (simp add: r lock_at_def e(2))
  show "slot_free (hiom_repair_stale_lock_at off V) off = slot_free V off"
    "Viper_Store.entry_at (hiom_repair_stale_lock_at off V) off = Viper_Store.entry_at V off"
    using assms(3) by (simp_all add: r slot_free_def Viper_Store.entry_at_def e(2))
qed

lemma read_free: "slot_free V off \<Longrightarrow> read_attempts (Suc n) a key off V = (None, V)"
  by (simp add: hiom_read_at_offset_status_def)

lemma read_unlocked:
  "\<not> slot_free V off \<Longrightarrow> \<not> IS_LOCKED (lock_at V off) \<Longrightarrow>
    read_attempts (Suc n) a key off V = (if fst (Viper_Store.entry_at V off) = key then Some (snd (Viper_Store.entry_at V off)) else None, V)"
  by (cases "Viper_Store.entry_at V off") (simp add: hiom_read_at_offset_status_def)

lemma read_transient:
  "\<not> slot_free V off \<Longrightarrow> IS_LOCKED (lock_at V off) \<Longrightarrow> read_attempts (Suc n) a key off V =
    read_attempts n (Suc a) key off (if a = kRepairAttempt then hiom_repair_stale_lock_at off V else V)"
  by (simp add: hiom_read_at_offset_status_def)

lemma read_locked:
  assumes "\<not> slot_free V off" "IS_LOCKED (lock_at V off)" "a + d = kRepairAttempt"
  shows "read_attempts (d + Suc (Suc n)) a key off V = read_attempts (Suc n) (a + Suc d) key off (hiom_repair_stale_lock_at off V)"
  using assms(3)
proof (induction d arbitrary: a)
  case 0 then show ?case using read_transient [OF assms(1,2)] by (simp del: read_attempts.simps)
next
  case (Suc d)
  then have "a \<noteq> kRepairAttempt" "Suc a + d = kRepairAttempt" by simp_all
  with Suc.IH [of "Suc a"] show ?case
    using read_transient [OF assms(1,2), of "d + Suc (Suc n)" a key] by (simp del: read_attempts.simps)
qed

text \<open>What a read at an offset into the store returns.\<close>

definition value_at :: "'k VConfig \<Rightarrow> ('k, 'v) Viper \<Rightarrow> 'k \<Rightarrow> u64 \<Rightarrow> 'v option" where
  "value_at cfg V key off = (case records cfg V (locate off) of Some (k, v) \<Rightarrow> if k = key then Some v else None | None \<Rightarrow> None)"

lemma records_at_offset:
  assumes "points_into cfg V off" "\<not> is_tombstone off"
  shows "records cfg V (locate off) = (if slot_free V off then None else Some (Viper_Store.entry_at V off))"
  using assms by (auto simp: points_into_def records_def slot_free_def Viper_Store.entry_at_def in_range_def split: prod.splits)

lemma verify_and_read_effect:
  assumes sh: "store_shape cfg V" and pt: "points_into cfg V off"
  shows "fst (verify_and_read_offset key off V) = (if is_tombstone off then None else value_at cfg V key off)"
    and "lock_cleared cfg V (snd (verify_and_read_offset key off V))"
proof -
  obtain b p s where l: "locate off = (b, p, s)" by (cases "locate off")
  let ?V = "hiom_repair_stale_lock_at off V" and ?e = "Viper_Store.entry_at V off"
  have "fst (verify_and_read_offset key off V) = (if is_tombstone off then None else value_at cfg V key off)
    \<and> lock_cleared cfg V (snd (verify_and_read_offset key off V))"
  proof (cases "is_tombstone off")
    case True then show ?thesis using sh by (simp add: verify_and_read_offset_def lock_cleared_refl)
  next
    case nt: False
    then have r: "in_range cfg V b p" using pt l by (simp add: points_into_def)
    have val: "value_at cfg V key off = (if slot_free V off then None else if fst ?e = key then Some (snd ?e) else None)"
      using records_at_offset [OF pt nt] by (simp add: value_at_def split: prod.splits)
    show ?thesis
    proof (cases "slot_free V off")
      case True then show ?thesis using sh val nt by (simp add: verify_and_read_offset_def read_free lock_cleared_refl del: read_attempts.simps)
    next
      case live: False
      show ?thesis
      proof (cases "IS_LOCKED (lock_at V off)")
        case False then show ?thesis
          using live sh val nt by (simp add: verify_and_read_offset_def read_unlocked lock_cleared_refl del: read_attempts.simps)
      next
        case True
        have n: "Suc kMaxRetries = kRepairAttempt + Suc (Suc 767)" by (simp add: kMaxRetries_def kRepairAttempt_def)
        note e = repair_at_effect [OF sh r l]
        have "read_attempts (Suc kMaxRetries) 0 key off V = (if fst ?e = key then Some (snd ?e) else None, ?V)"
          unfolding n using read_locked [OF live True, of 0 kRepairAttempt 767 key, OF add_0] read_unlocked [of ?V off 767 "Suc kRepairAttempt" key] e live
          by (simp del: read_attempts.simps)
        then show ?thesis using e(1) val live nt by (simp add: verify_and_read_offset_def del: read_attempts.simps)
      qed
    qed
  qed
  then show "fst (verify_and_read_offset key off V) = (if is_tombstone off then None else value_at cfg V key off)"
    "lock_cleared cfg V (snd (verify_and_read_offset key off V))" by auto
qed

end
