(* ===== verification/Hiom_Recovery.thy ===== *)
theory Hiom_Recovery
  imports Hiom_Props Hiom_Reads
begin

text \<open>
  Reopening after a crash: the tail scan replays the live records of the blocks above the frontier into
  the cold tier, in the order of the scan.
\<close>

lemma visit_empty: "hi \<le> lo \<Longrightarrow> hiom_visit_records cfg lo hi V = []"
  by (simp add: hiom_visit_records_def)

lemma concat_filter_empty: "(\<And>x. x \<in> set xs \<Longrightarrow> \<not> P x \<Longrightarrow> f x = []) \<Longrightarrow> concat (map f (filter P xs)) = concat (map f xs)"
  by (induction xs) auto

text \<open>The workers of the tail scan together visit the whole tail, in order.\<close>

lemma tail_visits:
  assumes "s < c"
  shows "concat (map (\<lambda>(lo, hi). hiom_visit_records cfg lo hi V) (tail_ranges threads s c)) = hiom_visit_records cfg s c V"
proof -
  define n where "n = min (c - s) (max 1 threads)"
  define per where "per = (c - s + n - 1) div n"
  let ?f = "\<lambda>(lo, hi). hiom_visit_records cfg lo hi V" and ?g = "\<lambda>t. (s + t * per, min (s + t * per + per) c)"
  have n: "0 < n" using assms by (simp add: n_def)
  have "(c - s + n - 1) = n * per + (c - s + n - 1) mod n" by (simp add: per_def)
  moreover have "(c - s + n - 1) mod n < n" using n by (rule mod_less_divisor)
  ultimately have "c \<le> s + n * per" by linarith
  note tiles = visit_tiles [OF this, of cfg V]
  have "tail_ranges threads s c = filter (\<lambda>(lo, hi). lo < hi) (map ?g [0..<n])"
    by (simp add: tail_ranges_def n_def per_def Let_def)
  moreover have "concat (map ?f (filter (\<lambda>(lo, hi). lo < hi) (map ?g [0..<n]))) = concat (map ?f (map ?g [0..<n]))"
    by (rule concat_filter_empty) (auto simp: visit_empty)
  ultimately show ?thesis using tiles by (simp only: map_map comp_def prod.case)
qed

section \<open>Replay\<close>

lemma replay_effect:
  assumes "cold_inv cold" "replay K rs cold = Some cold'" "\<forall>(k, v, off) \<in> set rs. off \<noteq> kTombstoneOffset"
  shows "cold_inv cold' \<and> cold_lookup cold' fp kid =
    fold (\<lambda>(k, v, off) r. if same_cell cold (key_fingerprint64 K k) (key_id_of K k) fp kid then Some off else r) rs (cold_lookup cold fp kid)"
  using assms
proof (induction rs arbitrary: cold)
  case (Cons x rs)
  obtain k v off where x: "x = (k, v, off)" by (cases x)
  obtain ok c1 where u: "cold_upsert cold (key_fingerprint64 K k) (key_id_of K k) off = (ok, c1)" by force
  have off: "off \<noteq> kTombstoneOffset" using Cons.prems(3) x by simp
  have ok: ok and rest: "replay K rs c1 = Some cold'" using Cons.prems(2) x u by (auto split: if_splits)
  note e = cold_upsert_effect [OF Cons.prems(1) off, of "key_fingerprint64 K k" "key_id_of K k", unfolded u]
  have "main_buckets_per_region c1 = main_buckets_per_region cold"
    using u by (auto simp: cold_upsert_def Let_def split: prod.splits)
  then have sc: "same_cell c1 = same_cell cold" by (intro ext) (simp add: same_cell_def)
  have "cold_lookup c1 fp kid = (if same_cell cold (key_fingerprint64 K k) (key_id_of K k) fp kid then Some off else cold_lookup cold fp kid)"
    using e(2) ok by simp
  with Cons.IH [OF _ rest] e(1) Cons.prems(3) show ?case by (simp add: x sc)
qed simp

text \<open>The last record of a key in the order of the scan.\<close>

definition last_of :: "'k \<Rightarrow> ('k \<times> 'v \<times> u64) list \<Rightarrow> u64 option" where
  "last_of key rs = fold (\<lambda>(k, v, off) r. if k = key then Some off else r) rs None"

lemma last_of_snoc [simp]:
  "last_of key [] = None" "last_of key (rs @ [(k, v, off)]) = (if k = key then Some off else last_of key rs)"
  by (simp_all add: last_of_def)

lemma last_of_append: "last_of k (xs @ ys) = (case last_of k ys of Some off \<Rightarrow> Some off | None \<Rightarrow> last_of k xs)"
proof (induction ys rule: rev_induct)
  case (snoc y ys)
  then show ?case by (cases y) (simp add: append_assoc [symmetric] del: append_assoc)
qed simp

lemma last_of_None: "last_of k rs = None \<longleftrightarrow> (\<forall>(k', v, off) \<in> set rs. k' \<noteq> k)"
  by (induction rs rule: rev_induct) (auto split: if_splits)

lemma last_of_SomeD: "last_of k rs = Some off \<Longrightarrow> \<exists>v. (k, v, off) \<in> set rs"
  by (induction rs rule: rev_induct) (auto split: if_splits)

lemma replay_last:
  assumes "cold_inv cold" "replay K rs cold = Some cold'" "\<forall>(k, v, off) \<in> set rs. off \<noteq> kTombstoneOffset"
    and inj: "inj_on (key_id_of K) (insert key (fst ` set rs))"
  shows "cold_lookup cold' (key_fingerprint64 K key) (key_id_of K key) =
    (case last_of key rs of Some off \<Rightarrow> Some off | None \<Rightarrow> cold_lookup cold (key_fingerprint64 K key) (key_id_of K key))"
proof -
  let ?f = "\<lambda>(k, v, off) r. if same_cell cold (key_fingerprint64 K k) (key_id_of K k) (key_fingerprint64 K key) (key_id_of K key) then Some off else r"
  have "fold ?f rs r = (case last_of key rs of Some off \<Rightarrow> Some off | None \<Rightarrow> r)" for r
    using inj
  proof (induction rs rule: rev_induct)
    case (snoc x rs)
    obtain k v off where x: "x = (k, v, off)" by (cases x)
    have "same_cell cold (key_fingerprint64 K k) (key_id_of K k) (key_fingerprint64 K key) (key_id_of K key) \<longleftrightarrow> k = key"
      using snoc.prems x by (auto simp: same_cell_def inj_on_def)
    with snoc.IH snoc.prems x show ?case by (simp add: inj_on_def)
  qed simp
  then show ?thesis using replay_effect [OF assms(1-3)] by simp
qed

text \<open>The state right after reopening: the index answers with the last record of the key in the tail, or
  with what the cold tier had.\<close>

definition tail_start :: "checkpoint_pm option \<Rightarrow> nat" where
  "tail_start ck = (if frontier_block ck > 0 then frontier_block ck - 1 else 0)"

lemma make_offset_valid:
  assumes "cfg_ok vc" "store_inv vc V" "records vc V (b, p, s) = Some kv"
  shows "locate (make_offset b p s) = (b, p, s)" "make_offset b p s \<noteq> kTombstoneOffset" "\<not> is_tombstone (make_offset b p s)"
    "points_into vc V (make_offset b p s)"
proof -
  have r: "b < length (v_blocks V)" "p < num_pages vc" "s < num_slots vc" "used_word (version_lock (page_at V b p))"
    using assms(3) by (auto simp: records_def split: if_splits)
  have lim: "length (v_blocks V) < 2 ^ 45" "num_pages vc \<le> 6" "num_slots vc < 65536" using assms(1,2) by (auto simp: cfg_ok_def store_inv_def)
  show l: "locate (make_offset b p s) = (b, p, s)" by (rule locate_make) (use r lim in linarith)+
  show nt: "\<not> is_tombstone (make_offset b p s)"
  proof
    assume "is_tombstone (make_offset b p s)"
    then have "make_offset b p s = Tombstone" by (simp add: is_tombstone_def Tombstone_def)
    then have "locate Tombstone = (b, p, s)" using l by simp
    moreover have "snd (snd (locate Tombstone)) = 65535" by (simp add: locate_def get_offsets_def Tombstone_def INVALID_OFFSET_def kv_fields)
    ultimately show False using r lim by simp
  qed
  then show "make_offset b p s \<noteq> kTombstoneOffset" by (simp add: is_tombstone_def kTombstoneOffset_def INVALID_OFFSET_def)
  show "points_into vc V (make_offset b p s)" using r by (simp add: points_into_def l in_range_def)
qed

lemma recover_tail_effect:
  assumes cfg: "cfg_ok (vcfg cfg)" and inv: "store_inv (vcfg cfg) V" and cold: "cold_inv c"
    and run: "recover_tail_into_cold cfg threads ck V c = Inr (n, c')"
    and inj: "inj_on (key_id_of (keys cfg)) (insert key {k. \<exists>x v. records (vcfg cfg) V x = Some (k, v)})"
  shows "cold_inv c' \<and> cold_lookup c' (key_fingerprint64 (keys cfg) key) (key_id_of (keys cfg) key) =
    (case last_of key (hiom_visit_records (vcfg cfg) (tail_start ck) (fst (current_block_page V)) V) of
       Some off \<Rightarrow> Some off | None \<Rightarrow> cold_lookup c (key_fingerprint64 (keys cfg) key) (key_id_of (keys cfg) key))"
proof -
  let ?rs = "hiom_visit_records (vcfg cfg) (tail_start ck) (fst (current_block_page V)) V"
  show ?thesis
  proof (cases "fst (current_block_page V) \<le> tail_start ck")
    case True
    then have "c' = c" using run by (simp add: recover_tail_into_cold_def tail_start_def Let_def)
    then show ?thesis using cold visit_empty [OF True, of "vcfg cfg" V] by simp
  next
    case False
    then have vis: "concat (map (\<lambda>(lo, hi). hiom_visit_records (vcfg cfg) lo hi V) (tail_ranges threads (tail_start ck) (fst (current_block_page V)))) = ?rs"
      by (intro tail_visits) simp
    have rep: "replay (keys cfg) ?rs c = Some c'"
      using run False unfolding recover_tail_into_cold_def Let_def tail_start_def [symmetric] vis by (auto split: option.splits)
    have live: "\<exists>b p s. off = make_offset b p s \<and> records (vcfg cfg) V (b, p, s) = Some (k, v)" if "(k, v, off) \<in> set ?rs" for k v off
      using that visit_records_exact [of "(k, v, off)"] by blast
    then have offs: "\<forall>(k, v, off) \<in> set ?rs. off \<noteq> kTombstoneOffset"
      using make_offset_valid(2) [OF cfg inv] by (auto dest!: live)
    have sub: "fst ` set ?rs \<subseteq> {k. \<exists>x v. records (vcfg cfg) V x = Some (k, v)}"
      using live by force
    have "inj_on (key_id_of (keys cfg)) (insert key (fst ` set ?rs))" by (rule inj_on_subset [OF inj]) (use sub in blast)
    from replay_last [OF cold rep offs this] replay_effect [OF cold rep offs] show ?thesis by blast
  qed
qed

section \<open>Reopening\<close>

lemma peek_new: "fp \<noteq> 0 \<Longrightarrow> k \<le> 63 \<Longrightarrow> peek (hot_new (2 ^ k)) fp = None"
  using bucket_index_less [OF ht_inv_new [of k], of fp]
  by (auto simp: peek_bget bget_None_iff hot_new_def kSlotsPerBucket_def)

lemma get_after_open:
  assumes cfg: "cfg_ok (vcfg cfg)" and inv: "store_inv (vcfg cfg) V" and hb: "k \<le> 63" and cold: "h_cold H = Some c'" "h_hot H = hot_new (2 ^ k)"
    and V: "h_viper H = V" and pt: "\<And>off. cold_lookup c' (key_fingerprint64 (keys cfg) key) (key_id_of (keys cfg) key) = Some off \<Longrightarrow> points_into (vcfg cfg) V off"
  shows "fst (hiom_get cfg key H) =
    (case cold_lookup c' (key_fingerprint64 (keys cfg) key) (key_id_of (keys cfg) key) of
       Some off \<Rightarrow> if is_tombstone off then None else value_at (vcfg cfg) V key off | None \<Rightarrow> None)"
proof -
  let ?fp = "key_fingerprint (keys cfg) key"
  have "fst (hot_lookup (hot_new (2 ^ k)) ?fp) = None"
    using hot_lookup_effect [OF ht_inv_new [OF hb], of ?fp] peek_new [OF fingerprint_nonzero hb] by simp
  then obtain hot where h: "hot_lookup (h_hot H) ?fp = (None, hot)" using cold(2) by (cases "hot_lookup (h_hot H) ?fp") auto
  have sh: "store_shape (vcfg cfg) V" using inv by (simp add: store_inv_def)
  show ?thesis
  proof (cases "cold_lookup c' (key_fingerprint64 (keys cfg) key) (key_id_of (keys cfg) key)")
    case None then show ?thesis using h cold(1) by (simp add: hiom_get_def resolve_slow_def)
  next
    case (Some off)
    note r = verify_and_read_effect(1) [OF sh pt [OF Some], of key]
    obtain v W where w: "verify_and_read_offset key off V = (v, W)" by force
    show ?thesis using h cold(1) Some r w V by (simp add: hiom_get_def resolve_slow_def split: option.split)
  qed
qed

lemma last_of_unique:
  assumes "\<And>v off. (k, v, off) \<in> set rs \<Longrightarrow> off = u" "(k, w, u) \<in> set rs"
  shows "last_of k rs = Some u"
proof -
  have "last_of k rs \<noteq> None" unfolding last_of_None using assms(2) by auto
  then obtain off where off: "last_of k rs = Some off" by auto
  with last_of_SomeD [OF off] assms(1) show ?thesis by blast
qed

text \<open>C3. Recovery. Reopen a store whose cold tier points into it and in which the key has at most one live
  record, and suppose that the frontier is safe: a record below the scanned tail is already in the
  cold tier. Whether or not stale locks are cleared first and for any number of threads, a get on the
  reopened instance then returns exactly the value of the live record, and nothing when there is none.\<close>

theorem recovered_key_readable:
  assumes cfg: "cfg_ok (vcfg cfg)" and inv: "store_inv (vcfg cfg) V" and cold: "cold_inv c" and hb: "hb \<le> 63"
    and pt: "\<forall>off. cold_lookup c (key_fingerprint64 (keys cfg) key) (key_id_of (keys cfg) key) = Some off \<longrightarrow> points_into (vcfg cfg) V off"
    and run: "hiom_open cfg q0 True scan threads (2 ^ hb) (Some c) ck V = Inr (replayed, H)"
    and inj: "inj_on (key_id_of (keys cfg)) (insert key {k. \<exists>x v. records (vcfg cfg) V x = Some (k, v)})"
    and uniq: "\<forall>x y v w. records (vcfg cfg) V x = Some (key, v) \<and> records (vcfg cfg) V y = Some (key, w) \<longrightarrow> x = y"
    and cov: "\<forall>b p s v. records (vcfg cfg) V (b, p, s) = Some (key, v) \<and> b < tail_start ck \<longrightarrow>
      cold_lookup c (key_fingerprint64 (keys cfg) key) (key_id_of (keys cfg) key) = Some (make_offset b p s)"
  shows "fst (hiom_get cfg key H) = Some v \<longleftrightarrow> (\<exists>x. records (vcfg cfg) V x = Some (key, v))"
proof -
  let ?vc = "vcfg cfg" and ?look = "\<lambda>c. cold_lookup c (key_fingerprint64 (keys cfg) key) (key_id_of (keys cfg) key)"
  define V1 where "V1 = (if scan then snd (hiom_clear_all_stale_page_locks ?vc threads V) else V)"
  have sh: "store_shape ?vc V" using inv by (simp add: store_inv_def)
  have lc: "lock_cleared ?vc V V1" using clear_all_effect [OF sh] lock_cleared_refl [OF sh] by (simp add: V1_def)
  then have rec: "records ?vc V1 = records ?vc V" and inv1: "store_inv ?vc V1"
    using inv by (simp_all add: lock_cleared_def store_inv_def)
  obtain c' where rt: "recover_tail_into_cold cfg threads ck V1 c = Inr (replayed, c')"
    and H: "H = hiom_new q0 (V1\<lparr>hiom_owns_index := True\<rparr>) (2 ^ hb) (Some c') ck"
    using run unfolding hiom_open_def V1_def by (auto simp: Let_def split: if_splits sum.splits)
  let ?W = "V1\<lparr>hiom_owns_index := True\<rparr>" and ?rs = "hiom_visit_records ?vc (tail_start ck) (fst (current_block_page V1)) V1"
  note same = same_blocks [of ?W V1]
  have invW: "store_inv ?vc ?W" "records ?vc ?W = records ?vc V" using inv1 same rec by (simp_all add: store_inv_def)
  have look: "?look c' = (case last_of key ?rs of Some off \<Rightarrow> Some off | None \<Rightarrow> ?look c)"
    using recover_tail_effect [OF cfg inv1 cold rt] inj rec by simp
  have tail: "(key, w, off) \<in> set ?rs \<longleftrightarrow> (\<exists>b p s. off = make_offset b p s \<and> tail_start ck \<le> b \<and> records ?vc V (b, p, s) = Some (key, w))" for w off
    using visit_records_exact [of "(key, w, off)" ?vc "tail_start ck" "fst (current_block_page V1)" V1] inv1 rec
    by (auto simp: store_inv_def) (metis leI option.distinct(1))
  have pt': "points_into ?vc ?W off" if "?look c' = Some off" for off
  proof (cases "last_of key ?rs")
    case None then show ?thesis using that look pt lock_cleared_points [OF _ lc] same by (simp add: points_into_def)
  next
    case (Some o1)
    then have "o1 = off" using that look by simp
    then obtain w where "(key, w, off) \<in> set ?rs" using last_of_SomeD [OF Some] by blast
    then obtain b p s where "off = make_offset b p s" "records ?vc V (b, p, s) = Some (key, w)" using tail by blast
    then show ?thesis using make_offset_valid(4) [OF cfg invW(1)] invW(2) by simp
  qed
  have get: "fst (hiom_get cfg key H) = (case ?look c' of Some off \<Rightarrow> if is_tombstone off then None else value_at ?vc ?W key off | None \<Rightarrow> None)"
    by (rule get_after_open [OF cfg invW(1) hb]) (use H pt' in \<open>simp_all add: hiom_new_def\<close>)
  show ?thesis
  proof
    assume "fst (hiom_get cfg key H) = Some v"
    then show "\<exists>x. records ?vc V x = Some (key, v)"
      using get invW(2) by (auto simp: value_at_def simp del: split_paired_Ex split: option.splits if_splits)
  next
    assume "\<exists>x. records ?vc V x = Some (key, v)"
    then obtain b p s where x: "records ?vc V (b, p, s) = Some (key, v)" by (metis surj_pair)
    note off = make_offset_valid(1,3) [OF cfg inv x]
    have "?look c' = Some (make_offset b p s)"
    proof (cases "tail_start ck \<le> b")
      case True
      have "last_of key ?rs = Some (make_offset b p s)"
        by (rule last_of_unique [where w = v]) (use tail x True uniq in blast)+
      then show ?thesis using look by simp
    next
      case False
      then have "last_of key ?rs = None" using x uniq tail unfolding last_of_None by fastforce
      then show ?thesis using look cov x False by simp
    qed
    then show "fst (hiom_get cfg key H) = Some v" using get off x invW(2) by (simp add: value_at_def)
  qed
qed

section \<open>The order of the scan\<close>

lemma last_of_split:
  assumes "xs = ys @ z # zs" "last_of k (f z) = Some off" "\<And>x. x \<in> set zs \<Longrightarrow> last_of k (f x) = None"
  shows "last_of k (concat (map f xs)) = Some off"
proof -
  have "last_of k (concat (map f zs)) = None" using assms(3) by (induction zs) (simp_all add: last_of_append)
  then show ?thesis using assms(1,2) by (simp add: last_of_append)
qed

lemma upt_split: "lo \<le> i \<Longrightarrow> i < hi \<Longrightarrow> [lo..<hi] = [lo..<i] @ i # [Suc i..<hi]"
  using upt_add_eq_append [of lo i "hi - i"] upt_conv_Cons [of i hi] by simp

text \<open>Of several records of a key, the scan delivers the one at the greatest position last.\<close>

lemma scan_last:
  assumes x: "records vc V (b, p, s) = Some (k, v)" "lo \<le> b" "b < hi"
    and top: "\<And>b' p' s' v'. records vc V (b', p', s') = Some (k, v') \<Longrightarrow> b' < b \<or> b' = b \<and> (p' < p \<or> p' = p \<and> s' \<le> s)"
  shows "last_of k (hiom_visit_records vc lo hi V) = Some (make_offset b p s)"
proof -
  let ?pg = "page_at V b p"
  have r: "b < length (v_blocks V)" "p < num_pages vc" "s < num_slots vc" "used_word (version_lock ?pg)" "\<not> free_slots ?pg ! s"
    "page_data ?pg ! s = (k, v)" using x(1) by (auto simp: records_def split: if_splits)
  let ?g = "\<lambda>sn. if \<not> free_slots ?pg ! sn then [(fst (page_data ?pg ! sn), snd (page_data ?pg ! sn), make_offset b p sn)] else []"
  have page: "visit_page vc V b p = concat (map ?g [0..<num_slots vc])"
  proof -
    have "map f (filter P ys) = concat (map (\<lambda>y. if P y then [f y] else []) ys)" for f :: "nat \<Rightarrow> _" and P ys by (induction ys) auto
    then show ?thesis using r(4) by (simp add: visit_page_def Let_def)
  qed
  have later: "last_of k (visit_page vc V b' p') = None" if "b' < length (v_blocks V)" "p' < num_pages vc" "b < b' \<or> b' = b \<and> p < p'" for b' p'
    unfolding last_of_None using visit_page_exact [OF that(1,2)] top that(3) by fastforce
  have pg: "last_of k (visit_page vc V b p) = Some (make_offset b p s)"
    unfolding page
  proof (rule last_of_split [OF upt_split])
    show "last_of k (?g s) = Some (make_offset b p s)" using r by (simp add: last_of_def)
    fix sn assume "sn \<in> set [Suc s..<num_slots vc]"
    then have "\<forall>v'. records vc V (b, p, sn) \<noteq> Some (k, v')" using top [of b p sn] by force
    then have "free_slots ?pg ! sn \<or> fst (page_data ?pg ! sn) \<noteq> k"
      using r \<open>sn \<in> _\<close> by (cases "page_data ?pg ! sn") (auto simp: records_def split: if_splits)
    then show "last_of k (?g sn) = None" by (auto simp: last_of_def)
  qed (use r in simp_all)
  have up: "[0..<num_pages vc] = [0..<p] @ p # [Suc p..<num_pages vc]" using upt_split [of 0 p] r by simp
  have blk: "last_of k (concat (map (visit_page vc V b) [0..<num_pages vc])) = Some (make_offset b p s)"
    by (rule last_of_split [where f = "visit_page vc V b", OF up pg]) (use r later in auto)
  have ub: "[lo..<min hi (length (v_blocks V))] = [lo..<b] @ b # [Suc b..<min hi (length (v_blocks V))]" using upt_split [of lo b] x r by simp
  show ?thesis unfolding hiom_visit_records_def
  proof (rule last_of_split [where f = "\<lambda>bn. concat (map (visit_page vc V bn) [0..<num_pages vc])", OF ub blk])
    fix b' assume b': "b' \<in> set [Suc b..<min hi (length (v_blocks V))]"
    have "last_of k (concat (map (visit_page vc V b') ps)) = None" if "set ps \<subseteq> {..<num_pages vc}" for ps
      using that b' later [of b'] by (induction ps) (auto simp: last_of_append)
    from this [of "[0..<num_pages vc]"] show "last_of k (concat (map (visit_page vc V b') [0..<num_pages vc])) = None"
      by (simp add: atLeast0LessThan)
  qed
qed

text \<open>C35. A put that is acknowledged and then lost. The key's only record is on the page the client
  writes, so the put leaves it in place (the resolver cannot verify a record on the page the put has
  locked) and reports a new key. If the client stops before the commit is flushed, the replay of the
  tail visits both records in slot order and indexes the one in the higher slot: when the new record
  went to a lower slot, the old value is back.\<close>

theorem put_crash_loses_update:
  assumes cfg: "cfg_ok (vcfg cfg)" and inv: "sys_inv (vcfg cfg) V Cs" and i: "i < length Cs" and own: "hiom_owns_index V"
    and hot: "ht_inv hot" and idx: "index_ok (vcfg cfg) (keys cfg) bm hot cold V k" and cold: "cold_inv cold"
    and page: "b = v_block_number (Cs ! i)" "p = v_page_number (Cs ! i)"
    and room: "first_idx (num_slots (vcfg cfg)) (\<lambda>j. free_slots (page_at V b p) ! j) = Some new"
    and here: "tier_offsets (keys cfg) bm hot cold k = {make_offset b p old}" "locate (make_offset b p old) = (b, p, old)"
    and only: "\<forall>x w. records (vcfg cfg) V x = Some (k, w) \<longleftrightarrow> x = (b, p, old) \<and> w = v0"
    and inj: "inj_on (key_id_of (keys cfg)) (insert k {k. \<exists>x v. records (vcfg cfg) V x = Some (k, v)})"
    and tail: "tail_start ck \<le> b"
  shows "\<exists>V' C'. put 2 (vcfg cfg) (Some (old_offset_resolver (keys cfg) bm hot cold)) None rnd k v True False V (Cs ! i) = Some (True, V', C')
    \<and> last_put_offset C' = make_offset b p new \<and> store_inv (vcfg cfg) V'
    \<and> records (vcfg cfg) V' (b, p, old) = Some (k, v0) \<and> records (vcfg cfg) V' = (records (vcfg cfg) V)((b, p, new) \<mapsto> (k, v))
    \<and> (\<forall>threads n cold'. recover_tail_into_cold cfg threads ck V' cold = Inr (n, cold') \<longrightarrow>
        cold_lookup cold' (key_fingerprint64 (keys cfg) k) (key_id_of (keys cfg) k) = Some (make_offset b p (max old new)))"
proof -
  let ?vc = "vcfg cfg"
  obtain V' C' where P: "put 2 ?vc (Some (old_offset_resolver (keys cfg) bm hot cold)) None rnd k v True False V (Cs ! i) = Some (True, V', C')"
    "last_put_offset C' = make_offset b p new" "store_inv ?vc V'" "records ?vc V (b, p, new) = None"
    "records ?vc V' = (records ?vc V)((b, p, new) \<mapsto> (k, v))"
    using put_same_page [OF cfg inv i own hot idx room [unfolded page] here [unfolded page], of rnd v] unfolding page by blast
  have old: "records ?vc V (b, p, old) = Some (k, v0)" using only by blast
  have ne: "new \<noteq> old" using P(4) old by auto
  have rec: "records ?vc V' (b, p, new) = Some (k, v)" "records ?vc V' (b, p, old) = Some (k, v0)" using P(5) old ne by simp_all
  have mine: "x \<in> {(b, p, new), (b, p, old)}" if "records ?vc V' x = Some (k, w)" for x w
    using that P(5) only by (cases "x = (b, p, new)") auto
  have top: "\<exists>w. records ?vc V' (b, p, max old new) = Some (k, w)" using rec by (simp add: max_def)
  have keys: "insert k {k. \<exists>x v. records ?vc V' x = Some (k, v)} \<subseteq> insert k {k. \<exists>x v. records ?vc V x = Some (k, v)}"
    using P(5) by (auto split: if_splits)
  have look: "cold_lookup cold' (key_fingerprint64 (keys cfg) k) (key_id_of (keys cfg) k) = Some (make_offset b p (max old new))"
    if run: "recover_tail_into_cold cfg threads ck V' cold = Inr (n, cold')" for threads n cold'
  proof -
    have "b < fst (current_block_page V')" using P(3) rec(1) by (auto simp: store_inv_def) (metis leI option.distinct(1))
    moreover obtain w where w: "records ?vc V' (b, p, max old new) = Some (k, w)" using top by blast
    ultimately have "last_of k (hiom_visit_records ?vc (tail_start ck) (fst (current_block_page V')) V') = Some (make_offset b p (max old new))"
      by (intro scan_last [OF w tail]) (use mine in fastforce)+
    then show ?thesis using recover_tail_effect [OF cfg P(3) cold run inj_on_subset [OF inj keys]] by simp
  qed
  then show ?thesis using P(1,2,3,5) rec(2) by blast
qed

lemma present_accepted:
  assumes "cold_inv ct" "cold_lookup ct fp k \<noteq> None"
  shows "fst (cold_upsert ct fp k v)"
proof -
  let ?M = "main_buckets_per_region ct" and ?r = "regions ct ! region_id_of fp"
  have "region_raw ?M (bucket_id_of ?M fp) k ?r \<noteq> None" using assms(2) by (auto simp: cold_lookup_def region_lookup_raw Let_def split: option.splits)
  then obtain q i where q: "q \<in> chain_of ?M ?r (bucket_id_of ?M fp)" "holds_key ?r k q i" unfolding region_raw_None by blast
  have "i < 7 \<and> key_at ?r q i = k" using q(2) by (simp add: has_key_def)
  then show ?thesis
    using region_upsert_cases [OF cold_invD(1) [OF assms(1), of fp] cold_invD(2) [OF assms(1), of fp], of k v] q(1)
    by (auto simp: cold_upsert_def Let_def split: prod.splits)
qed

lemma replay_present:
  assumes "cold_inv c" "cold_lookup c (key_fingerprint64 K k) (key_id_of K k) \<noteq> None"
    and "\<forall>(k', v, off) \<in> set rs. k' = k \<and> off \<noteq> kTombstoneOffset"
  shows "replay K rs c \<noteq> None"
  using assms
proof (induction rs arbitrary: c)
  case (Cons x rs)
  obtain v off where x: "x = (k, v, off)" "off \<noteq> kTombstoneOffset" using Cons.prems(3) by (cases x) auto
  obtain c1 where u: "cold_upsert c (key_fingerprint64 K k) (key_id_of K k) off = (True, c1)"
    using present_accepted [OF Cons.prems(1,2), of off] by (metis prod.collapse)
  note e = cold_upsert_effect [OF Cons.prems(1) x(2), of "key_fingerprint64 K k" "key_id_of K k", unfolded u]
  have "cold_lookup c1 (key_fingerprint64 K k) (key_id_of K k) \<noteq> None" using e(2) by (simp add: same_cell_def)
  with Cons.IH [of c1] e(1) Cons.prems(3) show ?case by (simp add: x u)
qed simp

theorem put_crash_loses_update_witness:
  "\<exists>V' C' n cold'. put 2 small_cfg (Some (old_offset_resolver small_keys zero_base_map (hot_new 1) second_slot_cold)) None 0 5 51 True False
       second_slot_store small_client = Some (True, V', C')
    \<and> records small_cfg V' (0, 0, 0) = Some (5, 51) \<and> records small_cfg V' (0, 0, 1) = Some (5, 50)
    \<and> recover_tail_into_cold small_hcfg 4 None V' second_slot_cold = Inr (n, cold') \<and> cold_lookup cold' 5 5 = Some (make_offset 0 0 1)"
proof -
  have c: "vcfg small_hcfg = small_cfg" "keys small_hcfg = small_keys" by (simp_all add: small_hcfg_def)
  have h: "cfg_ok small_cfg" "hiom_owns_index second_slot_store" "0 < length [small_client]"
    by (simp_all add: cfg_ok_def small_cfg_def second_slot_store_def small_store_def)
  have at: "0 = v_block_number ([small_client] ! 0)" "0 = v_page_number ([small_client] ! 0)" by (simp_all add: small_client_def new_client_def)
  have room: "first_idx (num_slots small_cfg) (\<lambda>j. free_slots (page_at second_slot_store 0 0) ! j) = Some 0"
    by (simp add: first_idx_Some_iff small_cfg_def second_slot_store_def page_at_def)
  have inj: "inj_on (key_id_of small_keys) S" for S by (simp add: inj_on_def small_codes)
  have only: "\<forall>x w. records small_cfg second_slot_store x = Some (5, w) \<longleftrightarrow> x = (0, 0, 1) \<and> w = 50" by (auto simp: second_slot_records)
  have ts: "tail_start None \<le> 0" by (simp add: tail_start_def frontier_block_def)
  note T = put_crash_loses_update [where cfg = small_hcfg, unfolded c, OF h(1) second_slot_inv h(3,2) second_slot_index(1,4) second_slot_lookup(1)
      at room second_slot_index(2,3) only inj ts, of 0 51]
  then obtain V' C' where P: "put 2 small_cfg (Some (old_offset_resolver small_keys zero_base_map (hot_new 1) second_slot_cold)) None 0 5 51 True False
       second_slot_store small_client = Some (True, V', C')" "store_inv small_cfg V'"
    "records small_cfg V' = (records small_cfg second_slot_store)((0, 0, 0) \<mapsto> (5, 51))"
    "\<And>n cold'. recover_tail_into_cold small_hcfg 4 None V' second_slot_cold = Inr (n, cold') \<Longrightarrow> cold_lookup cold' 5 5 = Some (make_offset 0 0 1)"
    by (auto simp: small_codes)
  let ?rs = "hiom_visit_records small_cfg 0 (fst (current_block_page V')) V'"
  have rec: "records small_cfg V' (0, 0, 0) = Some (5, 51)" "records small_cfg V' (0, 0, 1) = Some (5, 50)"
    using P(3) by (simp_all add: second_slot_records)
  have pos: "0 < fst (current_block_page V')" using P(2) rec(1) by (auto simp: store_inv_def intro!: gr0I)
  have "\<forall>(k', v, off) \<in> set ?rs. k' = 5 \<and> off \<noteq> kTombstoneOffset"
    using visit_records_exact [of _ small_cfg 0 "fst (current_block_page V')" V'] make_offset_valid(2) [OF h(1) P(2)] P(3)
    by (force simp: second_slot_records split: if_splits)
  then obtain cold' where "replay small_keys ?rs second_slot_cold = Some cold'"
    using replay_present [OF second_slot_lookup(1), of small_keys 5 ?rs] second_slot_lookup(2) by (auto simp: small_codes)
  then have "recover_tail_into_cold small_hcfg 4 None V' second_slot_cold = Inr (length ?rs, cold')"
    using tail_visits [OF pos, of small_cfg V' 4] pos by (simp add: recover_tail_into_cold_def frontier_block_def c Let_def)
  then show ?thesis using P(1,4) rec by blast
qed

theorem recovered_key_readable_witness:
  "\<exists>n H. hiom_open small_hcfg [] True True 4 1 (Some second_slot_cold) None second_slot_store = Inr (n, H) \<and> fst (hiom_get small_hcfg 5 H) = Some 50"
proof -
  have c: "vcfg small_hcfg = small_cfg" "keys small_hcfg = small_keys" "num_flushers small_hcfg = 1" by (simp_all add: small_hcfg_def)
  have cfg: "cfg_ok small_cfg" by (simp add: cfg_ok_def small_cfg_def)
  have inv: "store_inv small_cfg second_slot_store" using second_slot_inv by (simp add: sys_inv_def)
  define V where "V = snd (hiom_clear_all_stale_page_locks small_cfg 4 second_slot_store)"
  have "lock_cleared small_cfg second_slot_store V"
    using clear_all_effect [of small_cfg second_slot_store 4] inv by (simp add: V_def store_inv_def)
  then have V: "store_inv small_cfg V" "records small_cfg V = records small_cfg second_slot_store" "fst (current_block_page V) = 1"
    using inv by (simp_all add: lock_cleared_def store_inv_def) (simp add: second_slot_store_def small_store_def)
  let ?rs = "hiom_visit_records small_cfg 0 1 V"
  have "\<forall>(k', v, off) \<in> set ?rs. k' = 5 \<and> off \<noteq> kTombstoneOffset"
    using visit_records_exact [of _ small_cfg 0 1 V] make_offset_valid(2) [OF cfg V(1)] V(2)
    by (force simp: second_slot_records split: if_splits)
  then obtain cold' where "replay small_keys ?rs second_slot_cold = Some cold'"
    using replay_present [OF second_slot_lookup(1), of small_keys 5 ?rs] second_slot_lookup(2) by (auto simp: small_codes)
  then have "recover_tail_into_cold small_hcfg 4 None V second_slot_cold = Inr (length ?rs, cold')"
    using tail_visits [of 0 1 small_cfg V 4] V(3) by (simp add: recover_tail_into_cold_def frontier_block_def c Let_def)
  moreover have "\<not> enable_reclamation small_cfg" by (simp add: small_cfg_def)
  ultimately obtain n H where run: "hiom_open small_hcfg [] True True 4 (2 ^ 0) (Some second_slot_cold) None second_slot_store = Inr (n, H)"
    by (simp add: hiom_open_def c V_def Let_def)
  let ?S = second_slot_store
  have pt: "\<forall>off. cold_lookup second_slot_cold (key_fingerprint64 small_keys 5) (key_id_of small_keys 5) = Some off \<longrightarrow> points_into small_cfg ?S off"
    using second_slot_lookup(2) make_offset_valid(4) [OF cfg inv, of 0 0 1 "(5, 50)"] by (simp add: second_slot_records small_codes)
  have inj: "inj_on (key_id_of small_keys) S" for S by (simp add: inj_on_def small_codes)
  have uniq: "\<forall>x y v w. records small_cfg ?S x = Some (5, v) \<and> records small_cfg ?S y = Some (5, w) \<longrightarrow> x = y"
    by (auto simp: second_slot_records split: if_splits)
  have cov: "\<forall>b p s v. records small_cfg ?S (b, p, s) = Some (5, v) \<and> b < tail_start None \<longrightarrow>
      cold_lookup second_slot_cold (key_fingerprint64 small_keys 5) (key_id_of small_keys 5) = Some (make_offset b p s)"
    by (simp add: tail_start_def frontier_block_def)
  have "fst (hiom_get small_hcfg 5 H) = Some 50 \<longleftrightarrow> (\<exists>x. records small_cfg ?S x = Some (5, 50))"
    by (rule recovered_key_readable [where cfg = small_hcfg, unfolded c, OF cfg inv second_slot_lookup(1) _ pt run inj uniq cov]) simp
  then show ?thesis using run by (auto simp: second_slot_records)
qed

end
