(* ===== verification/Cold_Capacity.thy ===== *)
theory Cold_Capacity
  imports Cold_Bulk
begin

text \<open>
  When the cold tier cannot refuse an upsert. An upsert takes an overflow bucket only for a key that the
  region does not hold, so a region with a free overflow bucket for each absent key of a set accepts
  every upsert of these keys, and stays such a region.
\<close>

section \<open>One region\<close>

lemma store_alloc [simp]: "next_overflow_alloc (store_off p i v r) = next_overflow_alloc r" "next_overflow_alloc (store_key p i v r) = next_overflow_alloc r"
  "next_overflow_alloc (or_header p h r) = next_overflow_alloc r" "next_overflow_alloc (store_header p h r) = next_overflow_alloc r"
  "next_overflow_alloc (count_entry r) = next_overflow_alloc r"
  by (simp_all add: store_off_def store_key_def or_header_def store_header_def count_entry_def set_bucket_def Let_def)

lemma region_upsert_alloc:
  assumes inv: "region_inv M ov r" and b: "b < M"
  shows "next_overflow_alloc r < ov \<Longrightarrow> fst (region_upsert M ov b k v r)"
    and "next_overflow_alloc (snd (region_upsert M ov b k v r)) \<le> Suc (next_overflow_alloc r)"
    and "region_raw M b k r \<noteq> None \<Longrightarrow> fst (region_upsert M ov b k v r) \<and> next_overflow_alloc (snd (region_upsert M ov b k v r)) = next_overflow_alloc r"
proof -
  show "fst (region_upsert M ov b k v r)" if "next_overflow_alloc r < ov" using region_upsert_cases [OF inv b, of k v] that by auto
  show "next_overflow_alloc (snd (region_upsert M ov b k v r)) \<le> Suc (next_overflow_alloc r)"
    by (simp add: region_upsert_def Let_def split: walk_result.splits option.splits)
  obtain own where links: "links M ov own r" using inv by (auto simp: region_inv_def)
  have "ends (chain_fuel r) M r b"
    by (rule main_ends [OF links region_invD(3) [OF inv] b]) (use region_invD(5,6) [OF inv] in simp)
  note ok = chain_walk_ok [OF this, of "\<lambda>_. 0" k None]
  assume "region_raw M b k r \<noteq> None"
  then obtain p i where "chain_walk (chain_fuel r) M r (\<lambda>_. 0) k b None = WMatch p i"
    using ok unfolding region_raw_None walk_ok_def chain_of_def by (cases "chain_walk (chain_fuel r) M r (\<lambda>_. 0) k b None") auto
  then show "fst (region_upsert M ov b k v r) \<and> next_overflow_alloc (snd (region_upsert M ov b k v r)) = next_overflow_alloc r"
    by (simp add: region_upsert_def)
qed

section \<open>The pool\<close>

text \<open>The cells of a key set that the pool does not hold, by region, and enough overflow buckets for them.\<close>

definition absent_cells :: "(u64 \<times> u64) set \<Rightarrow> ColdTier \<Rightarrow> nat \<Rightarrow> (u64 \<times> u64) set" where
  "absent_cells cells ct r = {c \<in> cells. region_id_of (fst c) = r \<and> cold_lookup ct (fst c) (snd c) = None}"

definition ample :: "(u64 \<times> u64) set \<Rightarrow> ColdTier \<Rightarrow> bool" where
  "ample cells ct \<longleftrightarrow> finite cells \<and> (\<forall>r < kNumRegions.
     card (absent_cells cells ct r) + next_overflow_alloc (regions ct ! r) \<le> overflow_slots_per_region ct)"

lemma upsert_alloc:
  fixes fp k v :: u64
  defines "res \<equiv> \<lambda>ct. cold_upsert ct fp k v" and "al \<equiv> \<lambda>ct r. next_overflow_alloc (regions ct ! r)"
  assumes inv: "cold_inv ct"
  shows "al ct (region_id_of fp) < overflow_slots_per_region ct \<Longrightarrow> fst (res ct)"
    and "r \<noteq> region_id_of fp \<Longrightarrow> al (snd (res ct)) r = al ct r"
    and "al (snd (res ct)) r \<le> Suc (al ct r)"
    and "cold_lookup ct fp k \<noteq> None \<Longrightarrow> fst (res ct) \<and> al (snd (res ct)) r = al ct r"
    and "overflow_slots_per_region (snd (res ct)) = overflow_slots_per_region ct"
proof -
  let ?M = "main_buckets_per_region ct" and ?ov = "overflow_slots_per_region ct" and ?rid = "region_id_of fp"
  let ?u = "region_upsert ?M ?ov (bucket_id_of ?M fp) k v (regions ct ! ?rid)"
  have res: "res ct = (fst ?u, upd_region ct ?rid (snd ?u))" by (simp add: res_def cold_upsert_def Let_def split: prod.splits)
  have rid: "?rid < length (regions ct)" by (rule cold_invD(3) [OF inv])
  note ra = region_upsert_alloc [OF cold_invD(1,2) [OF inv, of fp], of k v]
  show "fst (res ct)" if "al ct ?rid < ?ov" using ra(1) that by (simp add: res al_def)
  show "al (snd (res ct)) r = al ct r" if "r \<noteq> ?rid" using that by (simp add: res al_def)
  show "al (snd (res ct)) r \<le> Suc (al ct r)" using ra(2) rid by (cases "r = ?rid") (simp_all add: res al_def)
  show "overflow_slots_per_region (snd (res ct)) = ?ov" by (simp add: res)
  assume "cold_lookup ct fp k \<noteq> None"
  then have "region_raw ?M (bucket_id_of ?M fp) k (regions ct ! ?rid) \<noteq> None"
    by (auto simp: cold_lookup_def region_lookup_raw Let_def split: option.splits)
  then show "fst (res ct) \<and> al (snd (res ct)) r = al ct r" using ra(3) rid by (cases "r = ?rid") (simp_all add: res al_def)
qed

lemma ample_upsert:
  assumes inv: "cold_inv ct" and A: "ample cells ct" and c: "(fp, k) \<in> cells" and v: "v \<noteq> kTombstoneOffset"
  shows "fst (cold_upsert ct fp k v)" "ample cells (snd (cold_upsert ct fp k v))"
proof -
  let ?ct = "snd (cold_upsert ct fp k v)" and ?rid = "region_id_of fp" and ?ov = "overflow_slots_per_region ct"
  have fin: "finite cells" and cap: "\<And>r. r < kNumRegions \<Longrightarrow> card (absent_cells cells ct r) + next_overflow_alloc (regions ct ! r) \<le> ?ov"
    using A by (auto simp: ample_def)
  have finA: "finite (absent_cells cells ct r)" for r using fin by (simp add: absent_cells_def)
  have pos: "0 < card (absent_cells cells ct ?rid)" if "cold_lookup ct fp k = None"
    using finA c that by (auto simp: card_gt_0_iff absent_cells_def)
  have "next_overflow_alloc (regions ct ! ?rid) < ?ov" if "cold_lookup ct fp k = None"
    using pos [OF that] cap [OF region_id_less [of fp]] by linarith
  then show ok: "fst (cold_upsert ct fp k v)" using upsert_alloc(1,4) [OF inv, of fp k v] by blast
  have look: "cold_lookup ?ct fp' k' = (if same_cell ct fp k fp' k' then Some v else cold_lookup ct fp' k')" for fp' k'
    by (rule cold_upsert_effect(2) [OF inv v ok])
  have sub: "absent_cells cells ?ct r \<subseteq> absent_cells cells ct r - {(fp, k)}" for r
    by (auto simp: absent_cells_def look same_cell_def split: if_splits)
  have le: "card (absent_cells cells ?ct r) \<le> card (absent_cells cells ct r)" for r
    using card_mono [OF finA] sub by blast
  have "card (absent_cells cells ?ct r) + next_overflow_alloc (regions ?ct ! r) \<le> ?ov" if r: "r < kNumRegions" for r
  proof (cases "r = ?rid \<and> cold_lookup ct fp k = None")
    case True
    have "card (absent_cells cells ?ct r) \<le> card (absent_cells cells ct r - {(fp, k)})" by (rule card_mono) (use finA sub in auto)
    also have "\<dots> = card (absent_cells cells ct r) - 1" using True c by (intro card_Diff_singleton) (simp add: absent_cells_def)
    finally show ?thesis using pos True cap [OF r] upsert_alloc(3) [OF inv, of fp k v r] by simp
  next
    case False
    then have "next_overflow_alloc (regions ?ct ! r) = next_overflow_alloc (regions ct ! r)"
      using upsert_alloc(2,4) [OF inv] by blast
    then show ?thesis using le [of r] cap [OF r] by simp
  qed
  then show "ample cells ?ct" using fin upsert_alloc(5) [OF inv] by (simp add: ample_def)
qed

section \<open>Batches\<close>

lemma ample_fold:
  assumes "cold_inv ct" "ample cells ct" "\<forall>e \<in> set es. be_off e \<noteq> kTombstoneOffset \<and> (be_fp e, be_key e) \<in> cells"
  shows "accepted es ct \<and> ample cells (fold upsert_entry es ct)"
  using assms
proof (induction es arbitrary: ct)
  case (Cons e es)
  then have e: "be_off e \<noteq> kTombstoneOffset" "(be_fp e, be_key e) \<in> cells" by simp_all
  show ?case using Cons ample_upsert [OF Cons.prems(1,2) e(2,1)] cold_upsert_effect(1) [OF Cons.prems(1) e(1)] by (simp add: upsert_entry_def)
qed simp

lemma seq_upserts_accepts:
  assumes "\<forall>e \<in> set es. route_key M e = (rid, bid)" "M = main_buckets_per_region ct" "rid < length (regions ct)" "accepted es ct"
  shows "fst (seq_upserts M (overflow_slots_per_region ct) bid es (regions ct ! rid)) = length es"
  using assms
proof (induction es arbitrary: ct)
  case (Cons e es)
  let ?ov = "overflow_slots_per_region ct"
  obtain ok r' where u: "region_upsert M ?ov bid (be_key e) (be_off e) (regions ct ! rid) = (ok, r')"
    by (cases "region_upsert M ?ov bid (be_key e) (be_off e) (regions ct ! rid)")
  have "region_id_of (be_fp e) = rid" "bucket_id_of (main_buckets_per_region ct) (be_fp e) = bid"
    using Cons.prems(1,2) by (auto simp: route_key_def)
  from cold_upsert_region [OF this, of "be_key e" "be_off e"] have ct: "upsert_entry e ct = upd_region ct rid r'" and ok: ok
    using u Cons.prems(2,4) by (simp_all add: upsert_entry_def)
  have "fst (seq_upserts M ?ov bid es r') = length es"
    using Cons.IH [of "upd_region ct rid r'"] Cons.prems ct by simp
  then show ?case using u ok by (auto split: prod.splits)
qed simp

lemma bulk_runs_accepts:
  assumes "cold_inv ct" "M = main_buckets_per_region ct" "\<forall>e \<in> set es. be_off e \<noteq> kTombstoneOffset" "accepted es ct"
  shows "fst (bulk_runs M es ct n) = n + length es"
  using assms
proof (induction M es ct n rule: bulk_runs.induct)
  case (2 M e es ct n)
  let ?same = "\<lambda>x. route_key M x = route_key M e" and ?ov = "overflow_slots_per_region ct"
  let ?run = "e # takeWhile ?same es" and ?rest = "dropWhile ?same es"
  obtain rid bid where k: "route_key M e = (rid, bid)" by (cases "route_key M e")
  obtain w r where g: "apply_bucket_group M ?ov bid ?run (regions ct ! rid) = (w, r)"
    by (cases "apply_bucket_group M ?ov bid ?run (regions ct ! rid)")
  have unfold: "bulk_runs M (e # es) ct n = bulk_runs M ?rest (upd_region ct rid r) (n + w)"
    using g by (simp add: k Let_def)
  have split: "e # es = ?run @ ?rest" by simp
  have acc: "accepted ?run ct" "accepted ?rest (fold upsert_entry ?run ct)"
    using "2.prems"(4) accepted_append [of ?run ?rest ct] unfolding split [symmetric] by blast+
  have rb: "rid = region_id_of (be_fp e)" "bid = bucket_id_of M (be_fp e)" using k by (simp_all add: route_key_def)
  have rid: "rid < length (regions ct)" using cold_invD(3) [OF "2.prems"(1), of "be_fp e"] rb by simp
  have "region_inv M ?ov (regions ct ! rid)" "bid < M"
    using cold_invD [OF "2.prems"(1), of "be_fp e"] "2.prems"(2) rb by simp_all
  then have seq: "seq_upserts M ?ov bid ?run (regions ct ! rid) = (w, r)" using apply_bucket_group_seq g by simp
  have routes: "\<forall>x \<in> set ?run. route_key M x = (rid, bid)" using k by (auto dest: set_takeWhileD)
  have w: "w = length ?run" using seq_upserts_accepts [OF routes "2.prems"(2) rid acc(1)] seq by simp
  have ct: "upd_region ct rid r = fold upsert_entry ?run ct" using seq_upserts_fold [OF routes "2.prems"(2) rid] seq w by simp
  have offs: "\<forall>e \<in> set ?run. be_off e \<noteq> kTombstoneOffset" "\<forall>e \<in> set ?rest. be_off e \<noteq> kTombstoneOffset"
    using "2.prems"(3) by (auto dest: set_takeWhileD set_dropWhileD)
  note inv = fold_upsert_entry_inv [OF "2.prems"(1) offs(1)]
  have "fst (bulk_runs M ?rest (upd_region ct rid r) (n + w)) = n + w + length ?rest"
    using "2.IH" [OF refl refl refl k [symmetric] refl g [symmetric]] ct inv "2.prems"(2) offs(2) acc(2) by simp
  moreover have "length (e # es) = length ?run + length ?rest" by (metis split length_append)
  ultimately show ?case unfolding unfold w by simp
qed simp

lemma bulk_upsert_accepts:
  assumes "cold_inv ct" "ample cells ct" "\<forall>e \<in> set es. be_off e \<noteq> kTombstoneOffset \<and> (be_fp e, be_key e) \<in> cells"
  shows "fst (bulk_upsert es ct) = length es" "ample cells (snd (bulk_upsert es ct))"
proof -
  have off: "\<forall>e \<in> set es. be_off e \<noteq> kTombstoneOffset" using assms(3) by blast
  have f: "accepted es ct" "ample cells (fold upsert_entry es ct)" using ample_fold [OF assms] by simp_all
  show len: "fst (bulk_upsert es ct) = length es" using bulk_runs_accepts [OF assms(1) refl off f(1), of 0] by (simp add: bulk_upsert_def)
  then show "ample cells (snd (bulk_upsert es ct))" using bulk_runs_fold [OF assms(1) refl off, of 0] f(2) by (simp add: bulk_upsert_def)
qed

lemma ample_create:
  assumes "finite cells" "\<And>r. r < kNumRegions \<Longrightarrow> card {c \<in> cells. region_id_of (fst c) = r} \<le> v" "cold_fits m v"
  shows "ample cells (snd (cold_create m v))"
proof -
  have "card (absent_cells cells (snd (cold_create m v)) r) \<le> max 1 v" if "r < kNumRegions" for r
    using assms(2) [OF that] cold_create_inv(2) [OF assms(3)] by (simp add: absent_cells_def max_def)
  then show ?thesis using assms(1) by (simp add: ample_def cold_create_def Let_def kNumRegions_def)
qed

end
