(* ===== verification/Hiom_Drain.thy ===== *)
theory Hiom_Drain
  imports Hiom_Recovery Cold_Capacity
begin

text \<open>
  Draining the commit buffer from the front end: what a drained lane hands to the flusher, that the
  drain loops return, and the invariant that ties the record store, the hot tier, the cold tier and the
  commit buffer together while writes are under way.
\<close>

section \<open>Lanes\<close>

definition lane_entries :: "('q \<Rightarrow> CommitEntry multiset) \<Rightarrow> 'q CommitBuffer \<Rightarrow> nat \<Rightarrow> CommitEntry multiset" where
  "lane_entries contents cb l = contents (lane_q (lanes cb ! l))"

lemma buffer_invD:
  assumes "buffer_inv contents cb" "l < kNumLanes"
  shows "bit (nonempty_mask cb) l \<longleftrightarrow> lane_entries contents cb l \<noteq> {#}" "approx (lanes cb ! l) = size (lane_entries contents cb l)"
    "l < length (lanes cb)"
  using assms by (simp_all add: buffer_inv_def lane_entries_def)

lemma push_lane:
  assumes "queue_ok q0 enq deq contents" "buffer_inv contents cb" "lane < kNumLanes"
  shows "lane_entries contents (snd (push enq lane e cb)) l =
    (if l = lane then add_mset e (lane_entries contents cb l) else lane_entries contents cb l)"
  using assms by (auto simp: push_def Let_def lane_entries_def buffer_inv_def queue_ok_def nth_list_update)

lemma try_drain_lane_effect:
  assumes "queue_ok q0 enq deq contents" "buffer_inv contents cb" "lane < kNumLanes" "0 < mx"
    and d: "try_drain_lane deq lane out mx cb = (got, out', cb')"
  shows "\<exists>xs. out' = out @ xs \<and> got = length xs \<and> lane_entries contents cb lane = mset xs + lane_entries contents cb' lane
      \<and> (got = 0 \<longrightarrow> lane_entries contents cb' lane = {#})
      \<and> (\<forall>l. l \<noteq> lane \<longrightarrow> lane_entries contents cb' l = lane_entries contents cb l)"
proof -
  let ?l = "lanes cb ! lane" and ?cap = "min mx (approx (lanes cb ! lane) + 64)"
  obtain xs q' where dq: "deq (lane_q ?l) ?cap = (xs, q')" by (cases "deq (lane_q ?l) ?cap")
  have cap: "0 < ?cap" using assms(4) by simp
  have q: "contents (lane_q ?l) = mset xs + contents q'" "xs = [] \<Longrightarrow> contents (lane_q ?l) = {#}"
    using assms(1) dq cap unfolding queue_ok_def by blast+
  have len: "lane < length (lanes cb)" using assms(2,3) by (simp add: buffer_inv_def)
  have "got = length xs \<and> out' = out @ xs \<and> lane_q (lanes cb' ! lane) = q' \<and> (\<forall>l. l \<noteq> lane \<longrightarrow> lanes cb' ! l = lanes cb ! l)"
    using d assms(4) cap dq len by (auto simp: try_drain_lane_def Let_def split: if_splits)
  then show ?thesis using q by (auto simp: lane_entries_def)
qed

text \<open>Draining a lane returns as soon as the bound on the number of calls exceeds the length of the lane,
  and hands out exactly the entries of the lane.\<close>

lemma drain_lane_effect:
  assumes "queue_ok q0 enq deq contents" "buffer_inv contents cb" "lane < kNumLanes"
  shows "case drain_lane n deq lane out cb of
      None \<Rightarrow> n \<le> size (lane_entries contents cb lane)
    | Some (out', cb') \<Rightarrow> buffer_inv contents cb' \<and> (\<exists>xs. out' = out @ xs \<and> mset xs = lane_entries contents cb lane)
        \<and> (\<forall>l. lane_entries contents cb' l = (if l = lane then {#} else lane_entries contents cb l))"
  using assms(2)
proof (induction n arbitrary: out cb)
  case (Suc n)
  obtain got o1 c1 where d: "try_drain_lane deq lane out 1024 cb = (got, o1, c1)" by (cases "try_drain_lane deq lane out 1024 cb")
  from try_drain_lane_effect [OF assms(1) Suc.prems assms(3) _ d] obtain xs where
    xs: "o1 = out @ xs" "got = length xs" "lane_entries contents cb lane = mset xs + lane_entries contents c1 lane"
      "got = 0 \<longrightarrow> lane_entries contents c1 lane = {#}" "\<forall>l. l \<noteq> lane \<longrightarrow> lane_entries contents c1 l = lane_entries contents cb l" by auto
  have b1: "buffer_inv contents c1" using drain_correct [OF assms(1) Suc.prems assms(3) d] by blast
  show ?case
  proof (cases "got = 0")
    case True then show ?thesis using d xs b1 by auto
  next
    case False
    have size: "size (lane_entries contents cb lane) = length xs + size (lane_entries contents c1 lane)" using xs(3) by simp
    have step: "drain_lane (Suc n) deq lane out cb = drain_lane n deq lane o1 c1" using d False by simp
    note IH = Suc.IH [OF b1, of o1]
    show ?thesis
    proof (cases "drain_lane n deq lane o1 c1")
      case (Some r)
      obtain o2 c2 where r: "r = (o2, c2)" by (cases r)
      from IH Some r obtain ys where ys: "buffer_inv contents c2" "o2 = o1 @ ys" "mset ys = lane_entries contents c1 lane"
        "\<forall>l. lane_entries contents c2 l = (if l = lane then {#} else lane_entries contents c1 l)" by auto
      have "o2 = out @ (xs @ ys)" "mset (xs @ ys) = lane_entries contents cb lane" using ys xs by simp_all
      moreover have "lane_entries contents c2 l = (if l = lane then {#} else lane_entries contents cb l)" for l using ys(4) xs(5) by simp
      ultimately show ?thesis using step ys(1) Some r by auto
    qed (use IH step size False xs(2) in \<open>auto simp: Suc_le_eq intro: le_less_trans less_add_same_cancel2 [THEN iffD2]\<close>)
  qed
qed simp

section \<open>The choice of winners in a batch\<close>

lemma sort_batch_props: "set (sort_batch b) = set b" "length (sort_batch b) = length b" "sorted (map ce_fp64 (sort_batch b))"
  by (simp_all add: sort_batch_def)

lemma sorted_map_dropWhile: "sorted (map f es) \<Longrightarrow> sorted (map f (dropWhile P es))"
  by (simp add: dropWhile_eq_drop drop_map [symmetric] sorted_wrt_drop)

lemma set_split_while: "set es = set (takeWhile P es) \<union> set (dropWhile P es)"
  by (metis set_append takeWhile_dropWhile_id)

lemma fp_runs_cover: "\<Union> (set ` set (fp_runs es)) = set es"
proof (induction es rule: fp_runs.induct)
  case (2 e es)
  then show ?case using set_split_while [of es "\<lambda>x. ce_fp64 x = ce_fp64 e"] by auto
qed simp

lemma fp_runs_nonempty: "[] \<notin> set (fp_runs es)"
  by (induction es rule: fp_runs.induct) simp_all

text \<open>In a batch sorted by fingerprint a run holds all entries of its fingerprint.\<close>

lemma fp_runs_group:
  assumes "sorted (map ce_fp64 es)" "run \<in> set (fp_runs es)" "r \<in> set run"
  shows "set run = {e \<in> set es. ce_fp64 e = ce_fp64 r}"
  using assms
proof (induction es rule: fp_runs.induct)
  case (2 e es)
  let ?P = "\<lambda>x. ce_fp64 x = ce_fp64 e"
  let ?ys = "dropWhile ?P es"
  have srt: "sorted (map ce_fp64 ?ys)" using 2(2) by (simp add: sorted_map_dropWhile)
  have rest: "ce_fp64 e < ce_fp64 x" if x: "x \<in> set ?ys" for x
  proof -
    have ne: "?ys \<noteq> []" using x by (metis empty_iff empty_set)
    have "ce_fp64 (hd ?ys) \<le> ce_fp64 x" using srt x by (cases ?ys) auto
    moreover have "ce_fp64 (hd ?ys) \<noteq> ce_fp64 e" using hd_dropWhile [OF ne] .
    moreover have "hd ?ys \<in> set es" using ne by (meson hd_in_set set_dropWhileD)
    then have "ce_fp64 e \<le> ce_fp64 (hd ?ys)" using 2(2) by simp
    ultimately show ?thesis by simp
  qed
  have tw: "?P x" if "x \<in> set (takeWhile ?P es)" for x using that by (auto dest: set_takeWhileD)
  have all: "x \<in> set es \<longleftrightarrow> x \<in> set (takeWhile ?P es) \<or> x \<in> set ?ys" for x using set_split_while [of es ?P] by blast
  show ?case
  proof (cases "run = e # takeWhile ?P es")
    case True
    then have "r = e \<or> r \<in> set (takeWhile ?P es)" using 2(4) by simp
    then have r: "ce_fp64 r = ce_fp64 e" using tw by blast
    have "x \<in> set run \<longleftrightarrow> x \<in> set (e # es) \<and> ?P x" for x
      unfolding True using all [of x] tw [of x] rest [of x] by (cases "x = e") auto
    then show ?thesis unfolding r by blast
  next
    case False
    then have "run \<in> set (fp_runs ?ys)" using 2(3) by simp
    from 2(1) [OF srt this 2(4)] have f: "set run = {x \<in> set ?ys. ce_fp64 x = ce_fp64 r}" .
    then have "ce_fp64 e < ce_fp64 r" using rest 2(4) by blast
    then have "x \<in> set run \<longleftrightarrow> x \<in> set (e # es) \<and> ce_fp64 x = ce_fp64 r" for x
      unfolding f using all [of x] tw [of x] by auto
    then show ?thesis by blast
  qed
qed simp

lemma set_kids_in_run: "set (kids_in_run run) = ce_key_id ` set run"
proof -
  have "set (fold (\<lambda>e ks. if ce_key_id e \<in> set ks then ks else ks @ [ce_key_id e]) run ks) = set ks \<union> ce_key_id ` set run" for ks
    by (induction run arbitrary: ks) auto
  then show ?thesis by (simp add: kids_in_run_def)
qed

lemma find_SomeD: "find P xs = Some x \<Longrightarrow> x \<in> set xs \<and> P x"
  by (auto simp: find_Some_iff)

text \<open>A candidate that the hot tier confirms, or that is the only one, wins.\<close>

lemma winner_put:
  assumes e: "e \<in> set run" "ce_key_id e = kid" "ce_off e = off" and holds: "slot_holds K V kid e"
    and puts: "\<forall>x \<in> set run. ce_key_id x = kid \<longrightarrow> ce_op x = kPut
        \<and> (valid (ce_hot_slot x) \<longrightarrow> view_fp (hot_read_slot hot (ce_hot_slot x)) \<noteq> kEmptyFp
             \<and> decode_kv bm (packed_off (hot_read_slot hot (ce_hot_slot x))) = off)"
    and sure: "valid (ce_hot_slot e) \<or> (\<forall>x \<in> set run. ce_key_id x = kid \<longrightarrow> x = e)"
  shows "\<exists>w. winner K bm hot V run kid = Some w \<and> w \<in> set run \<and> ce_key_id w = kid \<and> ce_off w = off \<and> ce_op w = kPut"
proof (cases "find (\<lambda>x. ce_key_id x = kid \<and> ce_op x = kPut \<and> valid (ce_hot_slot x)) run")
  case None
  then have "hot_truth K bm hot V run kid = None" by (simp add: hot_truth_def)
  moreover have "\<not> valid (ce_hot_slot e)" using None e puts by (auto simp: find_None_iff)
  then have only: "\<forall>x \<in> set run. ce_key_id x = kid \<longrightarrow> x = e" using sure by blast
  have "fallback_walk K V run kid \<noteq> None" using e holds by (auto simp: fallback_walk_def find_None_iff)
  then obtain w where w: "fallback_walk K V run kid = Some w" by auto
  then have "w \<in> set run" "ce_key_id w = kid" by (auto simp: fallback_walk_def dest!: find_SomeD)
  ultimately show ?thesis using w only e puts by (auto simp: winner_def)
next
  case (Some e0)
  then have e0: "e0 \<in> set run" "ce_key_id e0 = kid" "valid (ce_hot_slot e0)" by (auto dest!: find_SomeD)
  let ?Q = "\<lambda>x. ce_key_id x = kid \<and> ce_op x = kPut \<and> ce_off x = off \<and> slot_holds K V kid x"
  have "hot_truth K bm hot V run kid = find ?Q run" using Some e0 puts by (simp add: hot_truth_def)
  moreover have "find ?Q run \<noteq> None" using e holds puts by (auto simp: find_None_iff)
  then obtain w where "find ?Q run = Some w" by auto
  ultimately show ?thesis by (auto simp: winner_def dest!: find_SomeD)
qed

text \<open>The entries of one key, and what makes the key's current offset \<open>T\<close> win in a batch.\<close>

definition same_key :: "CommitEntry \<Rightarrow> CommitEntry \<Rightarrow> bool" where
  "same_key e x \<longleftrightarrow> ce_fp64 x = ce_fp64 e \<and> ce_key_id x = ce_key_id e"

definition confirmed :: "'k HKeys \<Rightarrow> base_map \<Rightarrow> HotTier \<Rightarrow> ('k, 'v) Viper \<Rightarrow> CommitEntry list \<Rightarrow> CommitEntry \<Rightarrow> u64 \<Rightarrow> bool" where
  "confirmed K bm hot V batch e off \<longleftrightarrow>
    (\<forall>x \<in> set batch. same_key e x \<longrightarrow> ce_op x = kPut \<and> (valid (ce_hot_slot x) \<longrightarrow>
        view_fp (hot_read_slot hot (ce_hot_slot x)) \<noteq> kEmptyFp \<and> decode_kv bm (packed_off (hot_read_slot hot (ce_hot_slot x))) = off))
    \<and> (\<exists>x \<in> set batch. same_key e x \<and> ce_off x = off \<and> slot_holds K V (ce_key_id e) x
        \<and> (valid (ce_hot_slot x) \<or> (\<forall>y \<in> set batch. same_key e y \<longrightarrow> y = x)))"

lemma winners_confirmed:
  assumes srt: "sorted (map ce_fp64 batch)" and T: "\<forall>e \<in> set batch. confirmed K bm hot V batch e (T (ce_fp64 e) (ce_key_id e))"
  shows "\<forall>w \<in> set (winners K bm hot V batch). \<exists>e \<in> set batch. w = Some e \<and> ce_op e = kPut \<and> ce_off e = T (ce_fp64 e) (ce_key_id e)"
    and "\<forall>e \<in> set batch. \<exists>x. Some x \<in> set (winners K bm hot V batch) \<and> same_key e x"
proof -
  have win: "\<exists>w. winner K bm hot V run (ce_key_id e) = Some w \<and> w \<in> set batch \<and> same_key e w \<and> ce_op w = kPut
      \<and> ce_off w = T (ce_fp64 e) (ce_key_id e)" if run: "run \<in> set (fp_runs batch)" and e: "e \<in> set run" for run e
  proof -
    let ?kid = "ce_key_id e" and ?off = "T (ce_fp64 e) (ce_key_id e)"
    have r: "x \<in> set run \<longleftrightarrow> x \<in> set batch \<and> ce_fp64 x = ce_fp64 e" for x using fp_runs_group [OF srt run e] by blast
    then have same: "x \<in> set run \<and> ce_key_id x = ?kid \<longleftrightarrow> x \<in> set batch \<and> same_key e x" for x by (auto simp: same_key_def)
    have "confirmed K bm hot V batch e ?off" using T r e by blast
    then obtain x where x: "x \<in> set batch" "same_key e x" "ce_off x = ?off" "slot_holds K V ?kid x"
      "valid (ce_hot_slot x) \<or> (\<forall>y \<in> set batch. same_key e y \<longrightarrow> y = x)"
      and puts: "\<forall>y \<in> set batch. same_key e y \<longrightarrow> ce_op y = kPut \<and> (valid (ce_hot_slot y) \<longrightarrow>
        view_fp (hot_read_slot hot (ce_hot_slot y)) \<noteq> kEmptyFp \<and> decode_kv bm (packed_off (hot_read_slot hot (ce_hot_slot y))) = ?off)"
      unfolding confirmed_def by blast
    have "\<exists>w. winner K bm hot V run ?kid = Some w \<and> w \<in> set run \<and> ce_key_id w = ?kid \<and> ce_off w = ?off \<and> ce_op w = kPut"
      by (rule winner_put [of x]) (use x puts same in blast)+
    then show ?thesis using same by blast
  qed
  have W: "w \<in> set (winners K bm hot V batch) \<longleftrightarrow> (\<exists>run \<in> set (fp_runs batch). \<exists>e \<in> set run. w = winner K bm hot V run (ce_key_id e))" for w
    by (auto simp: winners_def set_kids_in_run)
  show "\<forall>w \<in> set (winners K bm hot V batch). \<exists>e \<in> set batch. w = Some e \<and> ce_op e = kPut \<and> ce_off e = T (ce_fp64 e) (ce_key_id e)"
  proof
    fix w assume "w \<in> set (winners K bm hot V batch)"
    then obtain run e where "run \<in> set (fp_runs batch)" "e \<in> set run" "w = winner K bm hot V run (ce_key_id e)" using W by blast
    with win [of run e] show "\<exists>e \<in> set batch. w = Some e \<and> ce_op e = kPut \<and> ce_off e = T (ce_fp64 e) (ce_key_id e)"
      by (auto simp: same_key_def)
  qed
  show "\<forall>e \<in> set batch. \<exists>x. Some x \<in> set (winners K bm hot V batch) \<and> same_key e x"
  proof
    fix e assume "e \<in> set batch"
    then obtain run where run: "run \<in> set (fp_runs batch)" "e \<in> set run" using fp_runs_cover [of batch] by blast
    then show "\<exists>x. Some x \<in> set (winners K bm hot V batch) \<and> same_key e x" using win [OF run] W by metis
  qed
qed

section \<open>The cold-tier writes of a batch\<close>

definition bulk_of :: "CommitEntry \<Rightarrow> BulkEntry" where
  "bulk_of e = \<lparr>be_fp = ce_fp64 e, be_key = ce_key_id e, be_off = ce_off e\<rparr>"

lemma dispatch_puts:
  "\<forall>w \<in> set ws. \<exists>e. w = Some e \<and> ce_op e = kPut \<Longrightarrow> fold dispatch ws (ps, cold) = (ps @ map (bulk_of \<circ> the) ws, cold)"
  by (induction ws arbitrary: ps) (auto simp: dispatch_def bulk_of_def)

lemma fold_some:
  assumes "\<forall>e \<in> set es. P e \<longrightarrow> f e = off"
  shows "fold (\<lambda>e v. if P e then Some (f e) else v) es u = (if \<exists>e \<in> set es. P e then Some off else u)"
  using assms by (induction es arbitrary: u) auto

lemma bulk_upsert_effect:
  assumes "cold_inv ct" "\<forall>e \<in> set xs. be_off e \<noteq> kTombstoneOffset" "fst (bulk_upsert xs ct) = length xs"
  shows "cold_inv (snd (bulk_upsert xs ct))"
    and "\<forall>e \<in> set xs. same_cell ct (be_fp e) (be_key e) fp k \<longrightarrow> be_off e = off \<Longrightarrow> cold_lookup (snd (bulk_upsert xs ct)) fp k =
      (if \<exists>e \<in> set xs. same_cell ct (be_fp e) (be_key e) fp k then Some off else cold_lookup ct fp k)"
proof -
  note b = bulk_runs_fold [OF assms(1) refl assms(2), of 0]
  have s: "snd (bulk_upsert xs ct) = fold upsert_entry xs ct" "accepted xs ct" using b assms(3) by (simp_all add: bulk_upsert_def)
  show "cold_inv (snd (bulk_upsert xs ct))" unfolding s using fold_upsert_entry_inv [OF assms(1,2)] s(2) by simp
  assume off: "\<forall>e \<in> set xs. same_cell ct (be_fp e) (be_key e) fp k \<longrightarrow> be_off e = off"
  show "cold_lookup (snd (bulk_upsert xs ct)) fp k =
      (if \<exists>e \<in> set xs. same_cell ct (be_fp e) (be_key e) fp k then Some off else cold_lookup ct fp k)"
    unfolding s using accepted_lookup [OF assms(1,2) s(2), of fp k] fold_some [OF off, of "cold_lookup ct fp k"] by simp
qed

lemma apply_cold_accepts:
  fixes H :: "('k, 'v, 'q) HiOM" and cfg :: "('k, 'q) HConfig" and batch :: "CommitEntry list"
  defines "ws \<equiv> winners (keys cfg) (h_base H) (h_hot H) (h_viper H) batch"
  assumes cold: "cold_inv cold" "ample cells cold" and srt: "\<And>M es. mset (bulk_sort cfg M es) = mset es"
    and W: "\<forall>w \<in> set ws. \<exists>e. w = Some e \<and> ce_op e = kPut \<and> ce_off e \<noteq> kTombstoneOffset \<and> (ce_fp64 e, ce_key_id e) \<in> cells"
  shows "\<exists>cold'. apply_cold cfg batch H cold = Some cold' \<and> ample cells cold'"
proof -
  let ?ps = "map (bulk_of \<circ> the) ws"
  let ?xs = "bulk_sort cfg (main_buckets_per_region cold) ?ps"
  have d: "fold dispatch ws ([], cold) = (?ps, cold)" using dispatch_puts [of ws "[]" cold] W by simp (metis (no_types, lifting))
  have eq: "set ?xs = set ?ps" "length ?xs = length ?ps" using srt [of "main_buckets_per_region cold" ?ps] by (metis set_mset_mset, metis size_mset)
  have "\<forall>b \<in> set ?xs. be_off b \<noteq> kTombstoneOffset \<and> (be_fp b, be_key b) \<in> cells" unfolding eq(1) using W by (fastforce simp: bulk_of_def)
  note acc = bulk_upsert_accepts [OF cold this]
  show ?thesis
  proof (cases "ws = []")
    case True then show ?thesis using cold(2) d by (simp add: apply_cold_def ws_def)
  next
    case False then show ?thesis using acc d eq(2) by (auto simp: apply_cold_def ws_def split: prod.splits)
  qed
qed

lemma apply_cold_effect:
  fixes H :: "('k, 'v, 'q) HiOM" and cfg :: "('k, 'q) HConfig" and batch :: "CommitEntry list"
  defines "ws \<equiv> winners (keys cfg) (h_base H) (h_hot H) (h_viper H) batch"
  assumes cold: "cold_inv cold" and srt: "\<And>M es. mset (bulk_sort cfg M es) = mset es"
    and W: "\<forall>w \<in> set ws. \<exists>e. w = Some e \<and> ce_op e = kPut \<and> ce_off e \<noteq> kTombstoneOffset"
    and run: "apply_cold cfg batch H cold = Some cold'"
  shows "cold_inv cold'"
    and "(\<And>e. Some e \<in> set ws \<Longrightarrow> same_cell cold (ce_fp64 e) (ce_key_id e) fp kid \<Longrightarrow> ce_off e = off) \<Longrightarrow>
      cold_lookup cold' fp kid = (if \<exists>e. Some e \<in> set ws \<and> same_cell cold (ce_fp64 e) (ce_key_id e) fp kid
        then Some off else cold_lookup cold fp kid)"
proof -
  let ?ps = "map (bulk_of \<circ> the) ws"
  let ?xs = "bulk_sort cfg (main_buckets_per_region cold) ?ps"
  have d: "fold dispatch ws ([], cold) = (?ps, cold)" using dispatch_puts [of ws "[]" cold] W by simp (metis (no_types, lifting))
  have eq: "set ?xs = set ?ps" "length ?xs = length ?ps" using srt [of "main_buckets_per_region cold" ?ps] by (metis set_mset_mset, metis size_mset)
  have mem: "b \<in> set ?ps \<longleftrightarrow> (\<exists>e. Some e \<in> set ws \<and> b = bulk_of e)" for b using W by force
  have nt: "\<forall>b \<in> set ?xs. be_off b \<noteq> kTombstoneOffset" unfolding eq(1) Ball_def mem using W by (auto simp: bulk_of_def)
  have some: "fst (bulk_upsert ?xs cold) = length ?xs \<and> cold' = snd (bulk_upsert ?xs cold)" if "ws \<noteq> []"
    using that run d eq(2) by (auto simp: apply_cold_def ws_def split: prod.splits if_splits)
  have none: "cold' = cold" if "ws = []" using that run d by (simp add: apply_cold_def ws_def)
  show "cold_inv cold'" using none some bulk_upsert_effect(1) [OF cold nt] cold by metis
  assume off: "\<And>e. Some e \<in> set ws \<Longrightarrow> same_cell cold (ce_fp64 e) (ce_key_id e) fp kid \<Longrightarrow> ce_off e = off"
  show "cold_lookup cold' fp kid = (if \<exists>e. Some e \<in> set ws \<and> same_cell cold (ce_fp64 e) (ce_key_id e) fp kid
      then Some off else cold_lookup cold fp kid)"
  proof (cases "ws = []")
    case False
    have o1: "\<forall>b \<in> set ?xs. same_cell cold (be_fp b) (be_key b) fp kid \<longrightarrow> be_off b = off"
      unfolding eq(1) Ball_def mem using off by (auto simp: bulk_of_def)
    have "(\<exists>b \<in> set ?xs. same_cell cold (be_fp b) (be_key b) fp kid) \<longleftrightarrow>
        (\<exists>e. Some e \<in> set ws \<and> same_cell cold (ce_fp64 e) (ce_key_id e) fp kid)"
      unfolding eq(1) Bex_def mem by (auto simp: bulk_of_def)
    then show ?thesis using bulk_upsert_effect(2) [OF cold nt _ o1] some [OF False] by simp
  qed (simp add: none)
qed

section \<open>Releasing hot slots\<close>

definition ref_pos :: "SlotRef \<Rightarrow> nat \<times> nat" where
  "ref_pos ref = (bucket_idx ref, slot_idx ref)"

lemma release_slot_effect:
  assumes "ht_inv hot" "ref_ok (num_buckets hot) (ce_hot_slot e)"
  shows "ht_inv (release_slot e hot) \<and> num_buckets (release_slot e hot) = num_buckets hot \<and> peek (release_slot e hot) fp = peek hot fp
    \<and> Hot_Tier_Props.entry_at (release_slot e hot) fp = Hot_Tier_Props.entry_at hot fp
    \<and> (snd p < 16 \<longrightarrow> \<not> (valid (ce_hot_slot e) \<and> ref_pos (ce_hot_slot e) = p) \<longrightarrow> state_at (release_slot e hot) p = state_at hot p)"
proof -
  obtain own h1 where 1: "cas_slot_state hot (ce_hot_slot e) kPinned kInFlush = (own, h1)" by fastforce
  note e1 = cas_slot_state_effect [OF assms, of kPinned kInFlush, unfolded 1 fst_conv snd_conv]
  have r1: "ref_ok (num_buckets h1) (ce_hot_slot e)" using e1 assms(2) by simp
  note e2 = cas_slot_state_effect [of h1, OF _ r1, of kInFlush kUnpinned]
  show ?thesis using e1 [of fp p] e2 [of fp p] by (auto simp: release_slot_def 1 ref_pos_def)
qed

lemma release_slots_effect:
  assumes "ht_inv hot" "\<forall>e \<in> set es. ref_ok (num_buckets hot) (ce_hot_slot e)"
  shows "ht_inv (fold release_slot es hot) \<and> num_buckets (fold release_slot es hot) = num_buckets hot
    \<and> (\<forall>fp. peek (fold release_slot es hot) fp = peek hot fp
         \<and> Hot_Tier_Props.entry_at (fold release_slot es hot) fp = Hot_Tier_Props.entry_at hot fp)
    \<and> (\<forall>p. snd p < 16 \<longrightarrow> (\<forall>e \<in> set es. valid (ce_hot_slot e) \<longrightarrow> ref_pos (ce_hot_slot e) \<noteq> p) \<longrightarrow>
         state_at (fold release_slot es hot) p = state_at hot p)"
  using assms
proof (induction es arbitrary: hot)
  case (Cons e es)
  have r: "ref_ok (num_buckets hot) (ce_hot_slot e)" using Cons.prems(2) by simp
  note e1 = release_slot_effect [OF Cons.prems(1) r]
  have "ht_inv (release_slot e hot)" "\<forall>x \<in> set es. ref_ok (num_buckets (release_slot e hot)) (ce_hot_slot x)"
    using e1 Cons.prems(2) by auto
  note IH = Cons.IH [OF this]
  then show ?case using e1 by auto
qed simp

lemma peek_entry: "peek ht fp = map_option (\<lambda>(b, i). unpack_off (buckets ht ! b ! i)) (Hot_Tier_Props.entry_at ht fp)"
  by (simp add: peek_bget bget_def Hot_Tier_Props.entry_at_def option.map_comp comp_def)

lemma hot_read_entry:
  assumes "valid ref" "Hot_Tier_Props.entry_at ht fp = Some (ref_pos ref)"
  shows "peek ht fp = Some (packed_off (hot_read_slot ht ref))" "view_fp (hot_read_slot ht ref) = fp"
  using assms by (simp add: peek_entry ref_pos_def hot_read_slot_def Let_def,
    auto simp: ref_pos_def hot_read_slot_def Let_def Hot_Tier_Props.entry_at_def dest!: slot_of_SomeD)

section \<open>The invariant of the index\<close>

text \<open>An entry of the commit buffer that belongs to a key.\<close>

definition mine :: "'k HKeys \<Rightarrow> 'k \<Rightarrow> CommitEntry \<Rightarrow> bool" where
  "mine K k e \<longleftrightarrow> ce_fp64 e = key_fingerprint64 K k \<and> ce_key_id e = key_id_of K k"

definition pending_of :: "('k, 'q) HConfig \<Rightarrow> ('q \<Rightarrow> CommitEntry multiset) \<Rightarrow> ('k, 'v, 'q) HiOM \<Rightarrow> 'k \<Rightarrow> CommitEntry set" where
  "pending_of cfg contents H k = {e. (\<exists>l < kNumLanes. e \<in># lane_entries contents (h_buf H) l) \<and> mine (keys cfg) k e}"

definition cold_of :: "('k, 'q) HConfig \<Rightarrow> ('k, 'v, 'q) HiOM \<Rightarrow> 'k \<Rightarrow> u64 option" where
  "cold_of cfg H k = cold_lookup (the (h_cold H)) (key_fingerprint64 (keys cfg) k) (key_id_of (keys cfg) k)"

definition hot_of :: "('k, 'q) HConfig \<Rightarrow> ('k, 'v, 'q) HiOM \<Rightarrow> 'k \<Rightarrow> u64 option" where
  "hot_of cfg H k = map_option (decode_kv (h_base H)) (peek (h_hot H) (key_fingerprint (keys cfg) k))"

text \<open>An entry in lane \<open>l\<close>: a put of one of the keys \<open>ks\<close>; its hot slot, if it has one, is the slot of the
  key and is pinned.\<close>

definition entry_ok :: "('k, 'q) HConfig \<Rightarrow> ('k, 'v, 'q) HiOM \<Rightarrow> 'k set \<Rightarrow> nat \<Rightarrow> CommitEntry \<Rightarrow> bool" where
  "entry_ok cfg H ks l e \<longleftrightarrow> ce_op e = kPut \<and> lane_of_fp64 (ce_fp64 e) = l
    \<and> (\<exists>k \<in> ks. mine (keys cfg) k e \<and> (valid (ce_hot_slot e) \<longrightarrow>
         Hot_Tier_Props.entry_at (h_hot H) (key_fingerprint (keys cfg) k) = Some (ref_pos (ce_hot_slot e))
         \<and> state_at (h_hot H) (ref_pos (ce_hot_slot e)) = kPinned))"

text \<open>The commit buffer has an entry for the offset that will win its batch, or the cold tier has the offset.\<close>

definition backed :: "('k, 'q) HConfig \<Rightarrow> ('q \<Rightarrow> CommitEntry multiset) \<Rightarrow> ('k, 'v, 'q) HiOM \<Rightarrow> 'k \<Rightarrow> u64 \<Rightarrow> bool" where
  "backed cfg contents H k off \<longleftrightarrow>
    (let es = pending_of cfg contents H k
     in if es = {} then cold_of cfg H k = Some off
        else \<exists>e \<in> es. ce_off e = off \<and> (valid (ce_hot_slot e) \<or> es = {e}))"

lemma backed_cong:
  "pending_of cfg contents H' k = pending_of cfg contents H k \<Longrightarrow> cold_of cfg H' k = cold_of cfg H k \<Longrightarrow>
    backed cfg contents H' k off = backed cfg contents H k off"
  by (simp only: backed_def)

text \<open>The current record of a key is live, the hot tier, when it knows the key, points to it, and so will
  the cold tier.\<close>

definition key_ok :: "('k, 'q) HConfig \<Rightarrow> ('q \<Rightarrow> CommitEntry multiset) \<Rightarrow> ('k, 'v, 'q) HiOM \<Rightarrow> 'k \<Rightarrow> u64 \<Rightarrow> bool" where
  "key_ok cfg contents H k off \<longleftrightarrow> \<not> is_tombstone off \<and> (\<exists>v. records (vcfg cfg) (h_viper H) (locate off) = Some (k, v))
    \<and> hot_of cfg H k \<in> {None, Some off} \<and> backed cfg contents H k off"

text \<open>Where the keys are in the cold tier.\<close>

definition cells_of :: "'k HKeys \<Rightarrow> 'k set \<Rightarrow> (u64 \<times> u64) set" where
  "cells_of K ks = (\<lambda>k. (key_fingerprint64 K k, key_id_of K k)) ` ks"

text \<open>\<open>g\<close> is the current offset of each key of the universe \<open>ks\<close> that has one; the keys \<open>xs\<close> are being
  written and are described by none of the tiers yet. The cold tier can take every key of the universe.\<close>

definition index_inv :: "('k, 'q) HConfig \<Rightarrow> ('q \<Rightarrow> CommitEntry multiset) \<Rightarrow> 'k set \<Rightarrow> 'k set \<Rightarrow> ('k \<rightharpoonup> u64) \<Rightarrow> ('k, 'v, 'q) HiOM \<Rightarrow> bool" where
  "index_inv cfg contents ks xs g H \<longleftrightarrow>
    h_cold H \<noteq> None \<and> cold_inv (the (h_cold H)) \<and> ht_inv (h_hot H) \<and> buffer_inv contents (h_buf H)
    \<and> dom g \<subseteq> ks - xs \<and> xs \<subseteq> ks
    \<and> (\<forall>l < kNumLanes. \<forall>e \<in># lane_entries contents (h_buf H) l. entry_ok cfg H (dom g \<union> xs) l e)
    \<and> (\<forall>k off. g k = Some off \<longrightarrow> key_ok cfg contents H k off)
    \<and> (\<forall>k \<in> ks - dom g - xs. hot_of cfg H k = None \<and> cold_of cfg H k = None)
    \<and> (\<forall>k \<in> ks. \<forall>off. cold_of cfg H k = Some off \<longrightarrow> points_into (vcfg cfg) (h_viper H) off)
    \<and> ample (cells_of (keys cfg) ks) (the (h_cold H))"

text \<open>What the configuration has to satisfy: the queue and the sort behave as documented, and no two keys of
  the universe share a 32-bit fingerprint or a key identity.\<close>

definition setting :: "('k, 'q) HConfig \<Rightarrow> 'q \<Rightarrow> ('q \<Rightarrow> CommitEntry multiset) \<Rightarrow> 'k set \<Rightarrow> bool" where
  "setting cfg q0 contents ks \<longleftrightarrow> cfg_ok (vcfg cfg) \<and> num_slots (vcfg cfg) \<le> 256
    \<and> queue_ok q0 (q_enq cfg) (q_deq cfg) contents \<and> (\<forall>M es. mset (bulk_sort cfg M es) = mset es)
    \<and> inj_on (key_fingerprint (keys cfg)) ks \<and> inj_on (key_id_of (keys cfg)) ks
    \<and> 0 < num_flushers cfg \<and> num_flushers cfg dvd kNumLanes"

lemma settingD:
  assumes "setting cfg q0 contents ks"
  shows "cfg_ok (vcfg cfg)" "num_slots (vcfg cfg) \<le> 256" "queue_ok q0 (q_enq cfg) (q_deq cfg) contents"
    "mset (bulk_sort cfg M es) = mset es" "inj_on (key_fingerprint (keys cfg)) ks" "inj_on (key_id_of (keys cfg)) ks"
    "0 < num_flushers cfg" "num_flushers cfg dvd kNumLanes"
  using assms by (simp_all add: setting_def)

lemma index_invD:
  assumes "index_inv cfg contents ks xs g H"
  shows "h_cold H \<noteq> None" "cold_inv (the (h_cold H))" "ht_inv (h_hot H)" "buffer_inv contents (h_buf H)" "dom g \<subseteq> ks" "xs \<subseteq> ks"
    and "l < kNumLanes \<Longrightarrow> e \<in># lane_entries contents (h_buf H) l \<Longrightarrow> entry_ok cfg H (dom g \<union> xs) l e"
    and "g k = Some off \<Longrightarrow> key_ok cfg contents H k off"
    and "k \<in> ks \<Longrightarrow> k \<notin> xs \<Longrightarrow> g k = None \<Longrightarrow> hot_of cfg H k = None \<and> cold_of cfg H k = None"
    and "k \<in> ks \<Longrightarrow> cold_of cfg H k = Some off \<Longrightarrow> points_into (vcfg cfg) (h_viper H) off"
    and "k \<in> xs \<Longrightarrow> g k = None" and "ample (cells_of (keys cfg) ks) (the (h_cold H))"
  using assms unfolding index_inv_def by blast+

lemma index_invI:
  assumes "h_cold H \<noteq> None" "cold_inv (the (h_cold H))" "ht_inv (h_hot H)" "buffer_inv contents (h_buf H)" "dom g \<subseteq> ks - xs" "xs \<subseteq> ks"
    and "\<And>l e. l < kNumLanes \<Longrightarrow> e \<in># lane_entries contents (h_buf H) l \<Longrightarrow> entry_ok cfg H (dom g \<union> xs) l e"
    and "\<And>k off. g k = Some off \<Longrightarrow> key_ok cfg contents H k off"
    and "\<And>k. k \<in> ks \<Longrightarrow> k \<notin> xs \<Longrightarrow> g k = None \<Longrightarrow> hot_of cfg H k = None \<and> cold_of cfg H k = None"
    and "\<And>k off. k \<in> ks \<Longrightarrow> cold_of cfg H k = Some off \<Longrightarrow> points_into (vcfg cfg) (h_viper H) off"
    and "ample (cells_of (keys cfg) ks) (the (h_cold H))"
  shows "index_inv cfg contents ks xs g H"
  unfolding index_inv_def by (intro conjI allI impI ballI assms assms(9) [THEN conjunct1] assms(9) [THEN conjunct2]) auto

lemma index_inv_dom: "index_inv cfg contents ks xs g H \<Longrightarrow> dom g \<subseteq> ks - xs"
  by (simp add: index_inv_def)

lemma records_points: "records vc V (locate off) = Some kv \<Longrightarrow> points_into vc V off"
  by (auto simp: records_def points_into_def in_range_def split: prod.splits if_splits)

lemma mine_unique: "setting cfg q0 contents ks \<Longrightarrow> mine (keys cfg) k e \<Longrightarrow> mine (keys cfg) k' e \<Longrightarrow> k \<in> ks \<Longrightarrow> k' \<in> ks \<Longrightarrow> k = k'"
  by (metis inj_onD mine_def settingD(6))

lemma entry_mine:
  assumes S: "setting cfg q0 contents ks" and I: "index_inv cfg contents ks xs g H" and k: "k \<in> ks" and e: "e \<in> pending_of cfg contents H k"
  shows "k \<in> dom g \<union> xs" "e \<in># lane_entries contents (h_buf H) (lane_of_fp64 (key_fingerprint64 (keys cfg) k))" "ce_op e = kPut"
    "valid (ce_hot_slot e) \<Longrightarrow> Hot_Tier_Props.entry_at (h_hot H) (key_fingerprint (keys cfg) k) = Some (ref_pos (ce_hot_slot e))
       \<and> state_at (h_hot H) (ref_pos (ce_hot_slot e)) = kPinned"
proof -
  obtain l where l: "l < kNumLanes" "e \<in># lane_entries contents (h_buf H) l" and m: "mine (keys cfg) k e" using e by (auto simp: pending_of_def)
  note ok = index_invD(7) [OF I l]
  then obtain k' where k': "k' \<in> dom g \<union> xs" "mine (keys cfg) k' e" "valid (ce_hot_slot e) \<longrightarrow>
      Hot_Tier_Props.entry_at (h_hot H) (key_fingerprint (keys cfg) k') = Some (ref_pos (ce_hot_slot e)) \<and> state_at (h_hot H) (ref_pos (ce_hot_slot e)) = kPinned"
    by (auto simp: entry_ok_def)
  have "k' \<in> ks" using k'(1) index_invD(5,6) [OF I] by blast
  then have kk: "k' = k" using mine_unique [OF S k'(2) m _ k] by blast
  show "k \<in> dom g \<union> xs" "ce_op e = kPut" using k'(1) kk ok by (auto simp: entry_ok_def)
  show "e \<in># lane_entries contents (h_buf H) (lane_of_fp64 (key_fingerprint64 (keys cfg) k))" using l ok m by (auto simp: entry_ok_def mine_def)
  show "Hot_Tier_Props.entry_at (h_hot H) (key_fingerprint (keys cfg) k) = Some (ref_pos (ce_hot_slot e))
       \<and> state_at (h_hot H) (ref_pos (ce_hot_slot e)) = kPinned" if "valid (ce_hot_slot e)" using k'(3) kk that by blast
qed

text \<open>The state after lanes \<open>L\<close> have been drained: the records and what the hot tier answers are as before.\<close>

definition emptied :: "('q \<Rightarrow> CommitEntry multiset) \<Rightarrow> nat set \<Rightarrow> ('k, 'v, 'q) HiOM \<Rightarrow> ('k, 'v, 'q) HiOM \<Rightarrow> bool" where
  "emptied contents L H H' \<longleftrightarrow> h_viper H' = h_viper H \<and> h_base H' = h_base H \<and> h_slots H' = h_slots H
    \<and> (h_ckpt H' = None \<longleftrightarrow> h_ckpt H = None)
    \<and> (\<forall>fp. peek (h_hot H') fp = peek (h_hot H) fp \<and> Hot_Tier_Props.entry_at (h_hot H') fp = Hot_Tier_Props.entry_at (h_hot H) fp)
    \<and> (\<forall>l. lane_entries contents (h_buf H') l = (if l \<in> L then {#} else lane_entries contents (h_buf H) l))"

lemma emptied_trans: "emptied contents L H H1 \<Longrightarrow> emptied contents L' H1 H2 \<Longrightarrow> emptied contents (L \<union> L') H H2"
  by (auto simp: emptied_def)

lemma emptied_refl: "(\<And>l. l \<in> L \<Longrightarrow> lane_entries contents (h_buf H) l = {#}) \<Longrightarrow> emptied contents L H H"
  by (simp add: emptied_def)

lemma emptied_pending: "emptied contents L H H' \<Longrightarrow> pending_of cfg contents H' k \<subseteq> pending_of cfg contents H k"
  by (auto simp: emptied_def pending_of_def split: if_splits)

lemma index_inv_emptied:
  assumes S: "setting cfg q0 contents ks" and I: "index_inv cfg contents ks xs g H" and E: "emptied contents {l} H H'"
    and cold: "h_cold H' \<noteq> None" "cold_inv (the (h_cold H'))" and ample: "ample (cells_of (keys cfg) ks) (the (h_cold H'))" and ht: "ht_inv (h_hot H')" and buf: "buffer_inv contents (h_buf H')"
    and look: "\<And>k. k \<in> ks \<Longrightarrow> cold_of cfg H' k =
      (if lane_of_fp64 (key_fingerprint64 (keys cfg) k) = l \<and> pending_of cfg contents H k \<noteq> {} then g k else cold_of cfg H k)"
    and pins: "\<And>e l'. l' \<noteq> l \<Longrightarrow> l' < kNumLanes \<Longrightarrow> e \<in># lane_entries contents (h_buf H) l' \<Longrightarrow> valid (ce_hot_slot e) \<Longrightarrow>
      state_at (h_hot H') (ref_pos (ce_hot_slot e)) = state_at (h_hot H) (ref_pos (ce_hot_slot e))"
    and xs: "\<And>k. k \<in> xs \<Longrightarrow> pending_of cfg contents H k = {}"
  shows "index_inv cfg contents ks xs g H'"
proof -
  have E': "h_viper H' = h_viper H" "h_base H' = h_base H" "\<And>fp. peek (h_hot H') fp = peek (h_hot H) fp"
    "\<And>fp. Hot_Tier_Props.entry_at (h_hot H') fp = Hot_Tier_Props.entry_at (h_hot H) fp"
    "\<And>l'. lane_entries contents (h_buf H') l' = (if l' = l then {#} else lane_entries contents (h_buf H) l')"
    using E by (auto simp: emptied_def)
  have hot: "hot_of cfg H' k = hot_of cfg H k" for k by (simp add: hot_of_def E')
  have pend: "pending_of cfg contents H' k = (if lane_of_fp64 (key_fingerprint64 (keys cfg) k) = l then {} else pending_of cfg contents H k)"
    for k
  proof -
    have "la = lane_of_fp64 (key_fingerprint64 (keys cfg) k)" if "la < kNumLanes" "e \<in># lane_entries contents (h_buf H) la" "mine (keys cfg) k e" for la e
      using index_invD(7) [OF I that(1,2)] that(3) by (simp add: entry_ok_def mine_def)
    then show ?thesis by (auto simp: pending_of_def E'(5) split: if_splits)
  qed
  show ?thesis
  proof (rule index_invI [OF cold ht buf index_inv_dom [OF I] index_invD(6) [OF I]])
  show "entry_ok cfg H' (dom g \<union> xs) l' e" if "l' < kNumLanes" "e \<in># lane_entries contents (h_buf H') l'" for l' e
  proof -
    have l': "l' \<noteq> l" "e \<in># lane_entries contents (h_buf H) l'" using that(2) E'(5) [of l'] by (auto split: if_splits)
    then show ?thesis using index_invD(7) [OF I that(1) l'(2)] pins [OF l'(1) that(1) l'(2)] by (auto simp: entry_ok_def E'(4))
  qed
  show "key_ok cfg contents H' k off" if g: "g k = Some off" for k off
  proof -
    have k: "k \<in> ks" using g index_invD(5) [OF I] by blast
    show ?thesis using index_invD(8) [OF I g] look [OF k] pend [of k] g by (auto simp: key_ok_def backed_def hot E' Let_def split: if_splits)
  qed
  show "hot_of cfg H' k = None \<and> cold_of cfg H' k = None" if k: "k \<in> ks" "k \<notin> xs" "g k = None" for k
  proof -
    have "pending_of cfg contents H k = {}" using entry_mine(1) [OF S I k(1)] k by blast
    then show ?thesis using index_invD(9) [OF I k] look [OF k(1)] hot by simp
  qed
  show "points_into (vcfg cfg) (h_viper H') off" if "k \<in> ks" "cold_of cfg H' k = Some off" for k off
    using that look [OF that(1)] index_invD(10) [OF I that(1)] index_invD(8) [OF I, of k off]
    by (auto simp: E'(1) key_ok_def split: if_splits dest: records_points)
  qed (rule ample)
qed

section \<open>Flushing one lane\<close>

definition same_index :: "('k, 'v, 'q) HiOM \<Rightarrow> ('k, 'v, 'q) HiOM \<Rightarrow> bool" where
  "same_index H H' \<longleftrightarrow> h_viper H' = h_viper H \<and> h_hot H' = h_hot H \<and> h_cold H' = h_cold H \<and> h_base H' = h_base H
    \<and> h_buf H' = h_buf H \<and> h_slots H' = h_slots H \<and> (h_ckpt H' = None \<longleftrightarrow> h_ckpt H = None)"

lemma count_flushed_frame: "same_index H (count_flushed cfg n H)"
proof -
  have one: "same_index H (try_write_checkpoint H)" for H :: "('a, 'b, 'c) HiOM"
    by (simp add: same_index_def try_write_checkpoint_def Let_def split: option.splits)
  have "same_index H ((try_write_checkpoint ^^ m) H)" for m and H :: "('a, 'b, 'c) HiOM"
  proof (induction m)
    case (Suc m) then show ?case using one [of "(try_write_checkpoint ^^ m) H"] by (simp add: same_index_def)
  qed (simp add: same_index_def)
  from this [of "H\<lparr>h_flushed := h_flushed H + of_nat n\<rparr>"] show ?thesis by (simp add: count_flushed_def Let_def same_index_def)
qed

lemma ref_in_table: "ht_inv ht \<Longrightarrow> Hot_Tier_Props.entry_at ht fp = Some (ref_pos ref) \<Longrightarrow> ref_ok (num_buckets ht) ref \<and> snd (ref_pos ref) < 16"
  using entry_at_range [of ht fp "ref_pos ref"] bucket_index_less [of ht fp]
  by (auto simp: ref_ok_def ref_pos_def Hot_Tier_Props.entry_at_def)

lemma lane_owner:
  assumes S: "setting cfg q0 contents ks" and I: "index_inv cfg contents ks xs g H" and xs: "\<And>k. k \<in> xs \<Longrightarrow> pending_of cfg contents H k = {}"
    and l: "l < kNumLanes" and e: "e \<in># lane_entries contents (h_buf H) l"
  shows "\<exists>k off. k \<in> ks \<and> g k = Some off \<and> mine (keys cfg) k e \<and> e \<in> pending_of cfg contents H k \<and> lane_of_fp64 (key_fingerprint64 (keys cfg) k) = l"
proof -
  obtain k where k: "k \<in> dom g \<union> xs" "mine (keys cfg) k e" "lane_of_fp64 (ce_fp64 e) = l" using index_invD(7) [OF I l e] by (auto simp: entry_ok_def)
  have p: "e \<in> pending_of cfg contents H k" using l e k(2) by (auto simp: pending_of_def)
  then have "k \<notin> xs" using xs by blast
  then have "k \<in> dom g" using k(1) by blast
  then show ?thesis using index_invD(5) [OF I] k(2,3) p by (auto simp: mine_def)
qed

lemma pending_in_lane:
  assumes S: "setting cfg q0 contents ks" and I: "index_inv cfg contents ks xs g H" and k: "k \<in> ks" "lane_of_fp64 (key_fingerprint64 (keys cfg) k) = l"
  shows "pending_of cfg contents H k = {e. e \<in># lane_entries contents (h_buf H) l \<and> mine (keys cfg) k e}"
  using entry_mine(2) [OF S I k(1)] k(2) lane_less [of "key_fingerprint64 (keys cfg) k"] by (auto simp: pending_of_def)

lemma lane_confirmed:
  assumes S: "setting cfg q0 contents ks" and I: "index_inv cfg contents ks xs g H"
    and k: "k \<in> ks" "g k = Some off" "lane_of_fp64 (key_fingerprint64 (keys cfg) k) = l" and e: "e \<in> set bs" "mine (keys cfg) k e"
    and bs: "set bs = set_mset (lane_entries contents (h_buf H) l)"
  shows "confirmed (keys cfg) (h_base H) (h_hot H) (h_viper H) bs e off"
proof -
  note pend = pending_in_lane [OF S I k(1,3)]
  have same: "x \<in> set bs \<and> same_key e x \<longleftrightarrow> x \<in> pending_of cfg contents H k" for x
    unfolding pend using e(2) bs by (auto simp: same_key_def mine_def)
  have ok: "key_ok cfg contents H k off" by (rule index_invD(8) [OF I k(2)])
  have ne: "pending_of cfg contents H k \<noteq> {}" using same [of e] e(1) by (auto simp: same_key_def)
  then obtain x where x: "x \<in> pending_of cfg contents H k" "ce_off x = off" "valid (ce_hot_slot x) \<or> pending_of cfg contents H k = {x}"
    using ok by (auto simp: key_ok_def backed_def Let_def)
  have holds: "slot_holds (keys cfg) (h_viper H) (ce_key_id e) x"
    using ok x(2) e(2) by (auto simp: slot_holds_def key_ok_def hiom_get_slot_key_def records_def mine_def split: prod.splits if_splits)
  have hot: "ce_op y = kPut \<and> (valid (ce_hot_slot y) \<longrightarrow> view_fp (hot_read_slot (h_hot H) (ce_hot_slot y)) \<noteq> kEmptyFp
      \<and> decode_kv (h_base H) (packed_off (hot_read_slot (h_hot H) (ce_hot_slot y))) = off)" if y: "y \<in> pending_of cfg contents H k" for y
  proof (intro conjI impI)
    show "ce_op y = kPut" by (rule entry_mine(3) [OF S I k(1) y])
    assume v: "valid (ce_hot_slot y)"
    note r = hot_read_entry [OF v conjunct1 [OF entry_mine(4) [OF S I k(1) y v]]]
    show "view_fp (hot_read_slot (h_hot H) (ce_hot_slot y)) \<noteq> kEmptyFp" using r(2) fingerprint_nonzero [of "keys cfg" k] by (simp add: kEmptyFp_def)
    show "decode_kv (h_base H) (packed_off (hot_read_slot (h_hot H) (ce_hot_slot y))) = off" using r(1) ok by (simp add: key_ok_def hot_of_def)
  qed
  show ?thesis unfolding confirmed_def using same hot x holds by blast
qed

lemma not_tombstone: "\<not> is_tombstone off \<Longrightarrow> off \<noteq> kTombstoneOffset"
  by (simp add: is_tombstone_def kTombstoneOffset_def INVALID_OFFSET_def)

text \<open>After a lane has been written to the cold tier, its keys read their current offsets there.\<close>

lemma lane_cold:
  fixes H :: "('k, 'v, 'q) HiOM"
  assumes S: "setting cfg q0 contents ks" and I: "index_inv cfg contents ks xs g H" and xs: "\<And>k. k \<in> xs \<Longrightarrow> pending_of cfg contents H k = {}"
    and l: "l < kNumLanes" and bs: "set bs = set_mset (lane_entries contents (h_buf H) l)" "sorted (map ce_fp64 bs)"
    and H1: "h_base H1 = h_base H" "h_hot H1 = h_hot H" "h_viper H1 = h_viper H" and cold: "h_cold H = Some cold"
  shows "\<exists>cold'. apply_cold cfg bs H1 cold = Some cold' \<and> cold_inv cold' \<and> ample (cells_of (keys cfg) ks) cold'
    \<and> (\<forall>k \<in> ks. cold_lookup cold' (key_fingerprint64 (keys cfg) k) (key_id_of (keys cfg) k) =
      (if lane_of_fp64 (key_fingerprint64 (keys cfg) k) = l \<and> pending_of cfg contents H k \<noteq> {} then g k else cold_of cfg H k))"
proof -
  let ?K = "keys cfg" and ?W = "winners (keys cfg) (h_base H1) (h_hot H1) (h_viper H1) bs"
  define T where "T = (\<lambda>(fp :: u64) kid. the (g (inv_into ks (key_id_of ?K) kid)))"
  have own: "\<exists>k off. k \<in> ks \<and> g k = Some off \<and> mine ?K k e \<and> e \<in> pending_of cfg contents H k
      \<and> lane_of_fp64 (key_fingerprint64 ?K k) = l \<and> T (ce_fp64 e) (ce_key_id e) = off" if e: "e \<in> set bs" for e
  proof -
    obtain k off where k: "k \<in> ks" "g k = Some off" "mine ?K k e" "e \<in> pending_of cfg contents H k" "lane_of_fp64 (key_fingerprint64 ?K k) = l"
      using lane_owner [OF S I xs l, of e] e bs(1) by blast
    then have "T (ce_fp64 e) (ce_key_id e) = off" using inv_into_f_f [OF settingD(6) [OF S] k(1)] by (simp add: T_def mine_def)
    with k show ?thesis by blast
  qed
  have "\<forall>e \<in> set bs. confirmed ?K (h_base H1) (h_hot H1) (h_viper H1) bs e (T (ce_fp64 e) (ce_key_id e))"
    using own lane_confirmed [OF S I _ _ _ _ _ bs(1)] unfolding H1 by metis
  note W = winners_confirmed [OF bs(2) this]
  have win: "e \<in> set bs \<and> ce_op e = kPut \<and> ce_off e = T (ce_fp64 e) (ce_key_id e)" if "Some e \<in> set ?W" for e using W(1) that by blast
  have put: "\<forall>w \<in> set ?W. \<exists>e. w = Some e \<and> ce_op e = kPut \<and> ce_off e \<noteq> kTombstoneOffset \<and> (ce_fp64 e, ce_key_id e) \<in> cells_of ?K ks"
  proof
    fix w assume "w \<in> set ?W"
    then obtain e where e: "w = Some e" "e \<in> set bs" "ce_op e = kPut" "ce_off e = T (ce_fp64 e) (ce_key_id e)" using W(1) by blast
    obtain k off where k: "k \<in> ks" "mine ?K k e" "g k = Some off" "T (ce_fp64 e) (ce_key_id e) = off" using own [OF e(2)] by blast
    then have "\<not> is_tombstone (ce_off e)" using index_invD(8) [OF I] e(4) by (auto simp: key_ok_def)
    moreover have "(ce_fp64 e, ce_key_id e) \<in> cells_of ?K ks" using k(1,2) by (auto simp: cells_of_def mine_def)
    ultimately show "\<exists>e. w = Some e \<and> ce_op e = kPut \<and> ce_off e \<noteq> kTombstoneOffset \<and> (ce_fp64 e, ce_key_id e) \<in> cells_of ?K ks"
      using e not_tombstone by blast
  qed
  then have nt: "\<forall>w \<in> set ?W. \<exists>e. w = Some e \<and> ce_op e = kPut \<and> ce_off e \<noteq> kTombstoneOffset" by blast
  have ci: "cold_inv cold" "ample (cells_of ?K ks) cold" using index_invD(2,12) [OF I] cold by simp_all
  obtain cold' where run: "apply_cold cfg bs H1 cold = Some cold'" "ample (cells_of ?K ks) cold'"
    using apply_cold_accepts [OF ci settingD(4) [OF S] put] by blast
  have mineK: "mine ?K k e \<and> ce_off e = the (g k) \<and> e \<in> pending_of cfg contents H k \<and> lane_of_fp64 (key_fingerprint64 ?K k) = l"
    if k: "k \<in> ks" and e: "Some e \<in> set ?W" "same_cell cold (ce_fp64 e) (ce_key_id e) (key_fingerprint64 ?K k) (key_id_of ?K k)" for k e
  proof -
    obtain k' off where k': "k' \<in> ks" "g k' = Some off" "mine ?K k' e" "e \<in> pending_of cfg contents H k'"
      "lane_of_fp64 (key_fingerprint64 ?K k') = l" "T (ce_fp64 e) (ce_key_id e) = off" using own win [OF e(1)] by blast
    have "key_id_of ?K k' = key_id_of ?K k" using e(2) k'(3) by (simp add: same_cell_def mine_def)
    then have "k' = k" using settingD(6) [OF S] k'(1) k by (simp add: inj_on_def)
    then show ?thesis using k' win [OF e(1)] by simp
  qed
  have "cold_inv cold'" by (rule apply_cold_effect(1) [OF ci(1) settingD(4) [OF S] nt run(1)])
  moreover have "cold_lookup cold' (key_fingerprint64 ?K k) (key_id_of ?K k) =
      (if lane_of_fp64 (key_fingerprint64 ?K k) = l \<and> pending_of cfg contents H k \<noteq> {} then g k else cold_of cfg H k)" if k: "k \<in> ks" for k
  proof -
    have hit: "(\<exists>e. Some e \<in> set ?W \<and> same_cell cold (ce_fp64 e) (ce_key_id e) (key_fingerprint64 ?K k) (key_id_of ?K k))
        \<longleftrightarrow> lane_of_fp64 (key_fingerprint64 ?K k) = l \<and> pending_of cfg contents H k \<noteq> {}"
    proof
      assume a: "lane_of_fp64 (key_fingerprint64 ?K k) = l \<and> pending_of cfg contents H k \<noteq> {}"
      then obtain e where e: "e \<in> set bs" "mine ?K k e" using pending_in_lane [OF S I k] bs(1) by auto
      then obtain x where "Some x \<in> set ?W" "same_key e x" using W(2) by blast
      then show "\<exists>e. Some e \<in> set ?W \<and> same_cell cold (ce_fp64 e) (ce_key_id e) (key_fingerprint64 ?K k) (key_id_of ?K k)"
        using e(2) by (auto simp: same_key_def mine_def same_cell_def)
    qed (use mineK [OF k] in blast)
    have "cold_lookup cold' (key_fingerprint64 ?K k) (key_id_of ?K k) = (if lane_of_fp64 (key_fingerprint64 ?K k) = l
        \<and> pending_of cfg contents H k \<noteq> {} then Some (the (g k)) else cold_lookup cold (key_fingerprint64 ?K k) (key_id_of ?K k))"
      unfolding hit [symmetric] by (rule apply_cold_effect(2) [OF ci(1) settingD(4) [OF S] nt run(1)]) (use mineK [OF k] in blast)
    moreover have "g k \<noteq> None" if "pending_of cfg contents H k \<noteq> {}" using that entry_mine(1) [OF S I k] xs by blast
    ultimately show ?thesis using cold by (auto simp: cold_of_def)
  qed
  ultimately show ?thesis using run by blast
qed

end
