(* ===== verification/Hiom_Flush.thy ===== *)
theory Hiom_Flush
  imports Hiom_Drain
begin

text \<open>
  The drain loops of the front end: each returns once its bound exceeds the number of buffered entries,
  keeps the invariant of the index and empties the lanes it is responsible for; it stops early only
  when the cold tier has no room or the pending ring is corrupt.
\<close>

section \<open>One lane\<close>

definition aborts :: "('k, 'v, 'q) HiOM \<Rightarrow> hiom_error \<Rightarrow> bool" where
  "aborts H e \<longleftrightarrow> e = HRingFatal \<and> h_ckpt H \<noteq> None"

lemma released_pins:
  assumes S: "setting cfg q0 contents ks" and I: "index_inv cfg contents ks xs g H" and l: "l < kNumLanes" "l' < kNumLanes" "l' \<noteq> l"
    and e: "e \<in># lane_entries contents (h_buf H) l" "valid (ce_hot_slot e)" and e': "e' \<in># lane_entries contents (h_buf H) l'" "valid (ce_hot_slot e')"
  shows "ref_pos (ce_hot_slot e) \<noteq> ref_pos (ce_hot_slot e')"
proof
  assume eq: "ref_pos (ce_hot_slot e) = ref_pos (ce_hot_slot e')"
  let ?fp = "key_fingerprint (keys cfg)"
  obtain k where k: "k \<in> ks" "mine (keys cfg) k e" "lane_of_fp64 (ce_fp64 e) = l" "Hot_Tier_Props.entry_at (h_hot H) (?fp k) = Some (ref_pos (ce_hot_slot e))"
    using index_invD(7) [OF I l(1) e(1)] index_invD(5,6) [OF I] e(2) unfolding entry_ok_def by blast
  obtain k' where k': "k' \<in> ks" "mine (keys cfg) k' e'" "lane_of_fp64 (ce_fp64 e') = l'" "Hot_Tier_Props.entry_at (h_hot H) (?fp k') = Some (ref_pos (ce_hot_slot e'))"
    using index_invD(7) [OF I l(2) e'(1)] index_invD(5,6) [OF I] e'(2) unfolding entry_ok_def by blast
  have "?fp k' = ?fp k" by (rule entry_at_functional [OF index_invD(3) [OF I] fingerprint_nonzero k(4)]) (simp add: eq k'(4))
  then have "k' = k" using settingD(5) [OF S] k(1) k'(1) by (simp add: inj_on_def)
  then show False using k(2,3) k'(2,3) l(3) by (simp add: mine_def)
qed

lemma apply_batch_effect:
  fixes H :: "('k, 'v, 'q) HiOM"
  assumes S: "setting cfg q0 contents ks" and I: "index_inv cfg contents ks xs g H" and xs: "\<And>k. k \<in> xs \<Longrightarrow> pending_of cfg contents H k = {}"
    and l: "l < kNumLanes" and bs: "set bs = set_mset (lane_entries contents (h_buf H) l)" "sorted (map ce_fp64 bs)"
    and buf: "buffer_inv contents buf" "\<forall>l'. lane_entries contents buf l' = (if l' = l then {#} else lane_entries contents (h_buf H) l')"
  shows "case apply_batch cfg bs (H\<lparr>h_buf := buf\<rparr>) of Inl e \<Rightarrow> aborts H e
    | Inr H' \<Rightarrow> index_inv cfg contents ks xs g H' \<and> emptied contents {l} H H'"
proof -
  let ?H1 = "H\<lparr>h_buf := buf\<rparr>"
  obtain cold where cold: "h_cold H = Some cold" using index_invD(1) [OF I] by auto
  show ?thesis
  proof (cases "bs = []")
    case True
    have E: "emptied contents {l} H ?H1" using True bs(1) buf(2) by (simp add: emptied_def)
    have none: "lane_entries contents (h_buf H) l = {#}" using True bs(1) by (metis empty_set set_mset_eq_empty_iff)
    have "index_inv cfg contents ks xs g ?H1"
    proof (rule index_inv_emptied [OF S I E])
      show "cold_of cfg ?H1 k = (if lane_of_fp64 (key_fingerprint64 (keys cfg) k) = l \<and> pending_of cfg contents H k \<noteq> {} then g k else cold_of cfg H k)"
        if "k \<in> ks" for k using entry_mine(2) [OF S I that] none by (auto simp: cold_of_def)
    qed (use index_invD(1-3,12) [OF I] buf xs in auto)
    then show ?thesis using True E by (simp add: apply_batch_def)
  next
    case False
    obtain cold' where lc: "apply_cold cfg bs ?H1 cold = Some cold'" "cold_inv cold'" "ample (cells_of (keys cfg) ks) cold'"
      "\<forall>k \<in> ks. cold_lookup cold' (key_fingerprint64 (keys cfg) k) (key_id_of (keys cfg) k) =
        (if lane_of_fp64 (key_fingerprint64 (keys cfg) k) = l \<and> pending_of cfg contents H k \<noteq> {} then g k else cold_of cfg H k)"
      using lane_cold [OF S I xs l bs _ _ _ cold, of ?H1] by auto
    define ring where "ring = (if h_ckpt H = None then Some (h_ring H) else retire_all bs (h_ring H))"
    show ?thesis
    proof (cases ring)
      case None then show ?thesis using cold False lc(1) by (auto simp: apply_batch_def aborts_def ring_def split: if_splits)
    next
      case r: (Some ring')
      let ?H2 = "?H1\<lparr>h_cold := Some cold', h_ring := ring', h_hot := fold release_slot bs (h_hot H)\<rparr>"
      let ?H3 = "count_flushed cfg (length bs) ?H2"
      have run: "apply_batch cfg bs ?H1 = Inr ?H3" using cold False lc(1) r by (cases "h_ckpt H = None") (auto simp: apply_batch_def ring_def)
      have f: "h_viper ?H3 = h_viper H" "h_hot ?H3 = fold release_slot bs (h_hot H)" "h_cold ?H3 = Some cold'" "h_base ?H3 = h_base H"
        "h_buf ?H3 = buf" "h_slots ?H3 = h_slots H" "h_ckpt ?H3 = None \<longleftrightarrow> h_ckpt H = None"
        using count_flushed_frame [of ?H2 cfg "length bs"] by (simp_all add: same_index_def)
      have refs: "\<forall>e \<in> set bs. ref_ok (num_buckets (h_hot H)) (ce_hot_slot e)"
      proof
        fix e assume "e \<in> set bs"
        then have "entry_ok cfg H (dom g \<union> xs) l e" using index_invD(7) [OF I l] bs(1) by blast
        then show "ref_ok (num_buckets (h_hot H)) (ce_hot_slot e)" using ref_in_table [OF index_invD(3) [OF I]] by (auto simp: entry_ok_def ref_ok_def)
      qed
      note rel = release_slots_effect [OF index_invD(3) [OF I] refs]
      have E: "emptied contents {l} H ?H3" unfolding emptied_def f using rel buf(2) by auto
      have "index_inv cfg contents ks xs g ?H3"
      proof (rule index_inv_emptied [OF S I E])
        show "cold_of cfg ?H3 k = (if lane_of_fp64 (key_fingerprint64 (keys cfg) k) = l \<and> pending_of cfg contents H k \<noteq> {} then g k else cold_of cfg H k)"
          if "k \<in> ks" for k using lc(4) that by (simp add: cold_of_def [of cfg ?H3] f)
        show "state_at (h_hot ?H3) (ref_pos (ce_hot_slot e)) = state_at (h_hot H) (ref_pos (ce_hot_slot e))"
          if a: "l' \<noteq> l" "l' < kNumLanes" "e \<in># lane_entries contents (h_buf H) l'" "valid (ce_hot_slot e)" for e l'
        proof -
          have "\<forall>x \<in> set bs. valid (ce_hot_slot x) \<longrightarrow> ref_pos (ce_hot_slot x) \<noteq> ref_pos (ce_hot_slot e)"
            using released_pins [OF S I l a(2,1) _ _ a(3,4)] bs(1) by blast
          moreover have "snd (ref_pos (ce_hot_slot e)) < 16"
            using index_invD(7) [OF I a(2,3)] ref_in_table [OF index_invD(3) [OF I]] a(4) by (auto simp: entry_ok_def)
          ultimately show ?thesis unfolding f using rel by blast
        qed
      qed (use f lc(2,3) rel buf(1) xs in auto)
      then show ?thesis using run E by simp
    qed
  qed
qed

lemma flush_lane_effect:
  assumes S: "setting cfg q0 contents ks" and I: "index_inv cfg contents ks xs g H" and xs: "\<And>k. k \<in> xs \<Longrightarrow> pending_of cfg contents H k = {}"
    and l: "l < kNumLanes"
  shows "case flush_lane n cfg l (d, H) of
      Inl e \<Rightarrow> aborts H e \<or> e = HStuck \<and> n \<le> size (lane_entries contents (h_buf H) l)
    | Inr (d', H') \<Rightarrow> d' = d + size (lane_entries contents (h_buf H) l) \<and> index_inv cfg contents ks xs g H' \<and> emptied contents {l} H H'"
proof -
  note dr = drain_lane_effect [OF settingD(3) [OF S] index_invD(4) [OF I] l, of n "[]"]
  show ?thesis
  proof (cases "drain_lane n (q_deq cfg) l [] (h_buf H)")
    case None then show ?thesis using dr by (simp add: flush_lane_def)
  next
    case (Some r)
    obtain batch buf where r: "r = (batch, buf)" by (cases r)
    have d: "buffer_inv contents buf" "mset batch = lane_entries contents (h_buf H) l"
      "\<forall>l'. lane_entries contents buf l' = (if l' = l then {#} else lane_entries contents (h_buf H) l')" using dr Some r by auto
    have bs: "set (sort_batch batch) = set_mset (lane_entries contents (h_buf H) l)"
      unfolding sort_batch_props(1) using d(2) by (metis set_mset_mset)
    note ab = apply_batch_effect [OF S I xs l bs sort_batch_props(3) d(1,3)]
    have sz: "length batch = size (lane_entries contents (h_buf H) l)" using d(2) by (metis size_mset)
    show ?thesis
    proof (cases "batch = []")
      case True
      then have "apply_batch cfg (sort_batch batch) (H\<lparr>h_buf := buf\<rparr>) = Inr (H\<lparr>h_buf := buf\<rparr>)" by (simp add: apply_batch_def sort_batch_def)
      then show ?thesis using ab Some r True sz by (simp add: flush_lane_def)
    next
      case False
      then show ?thesis using ab Some r sz by (auto simp: flush_lane_def split: sum.splits)
    qed
  qed
qed

section \<open>The drain loops\<close>

definition all_below :: "('q \<Rightarrow> CommitEntry multiset) \<Rightarrow> nat \<Rightarrow> ('k, 'v, 'q) HiOM \<Rightarrow> bool" where
  "all_below contents n H \<longleftrightarrow> (\<forall>l < kNumLanes. size (lane_entries contents (h_buf H) l) < n)"

lemma emptied_below: "emptied contents L H H' \<Longrightarrow> all_below contents n H \<Longrightarrow> all_below contents n H'"
  by (fastforce simp: emptied_def all_below_def)

lemma emptied_aborts: "emptied contents L H H' \<Longrightarrow> aborts H' e \<Longrightarrow> aborts H e"
  by (auto simp: emptied_def aborts_def)

lemma emptied_lane: "emptied contents L H H' \<Longrightarrow> lane_entries contents (h_buf H') l = (if l \<in> L then {#} else lane_entries contents (h_buf H) l)"
  by (simp add: emptied_def)

text \<open>A state from which lanes can be drained: the invariant holds, nothing is pending for the keys being
  written, and the bound \<open>n\<close> exceeds every lane.\<close>

definition drainable :: "nat \<Rightarrow> ('k, 'q) HConfig \<Rightarrow> ('q \<Rightarrow> CommitEntry multiset) \<Rightarrow> 'k set \<Rightarrow> 'k set \<Rightarrow> ('k \<rightharpoonup> u64) \<Rightarrow> ('k, 'v, 'q) HiOM \<Rightarrow> bool" where
  "drainable n cfg contents ks xs g H \<longleftrightarrow> index_inv cfg contents ks xs g H \<and> (\<forall>k \<in> xs. pending_of cfg contents H k = {}) \<and> all_below contents n H"

lemma drainable_emptied:
  "drainable n cfg contents ks xs g H \<Longrightarrow> index_inv cfg contents ks xs g H' \<Longrightarrow> emptied contents L H H' \<Longrightarrow> drainable n cfg contents ks xs g H'"
  unfolding drainable_def using emptied_below emptied_pending by fastforce

lemma flush_lanes_effect:
  assumes S: "setting cfg q0 contents ks" and D: "drainable n cfg contents ks xs g H" and ls: "\<forall>l \<in> set ls. l < kNumLanes"
  shows "case fold_res (flush_lane n cfg) ls (d, H) of
      Inl e \<Rightarrow> aborts H e
    | Inr (d', H') \<Rightarrow> d \<le> d' \<and> (d' = d \<longleftrightarrow> (\<forall>l \<in> set ls. lane_entries contents (h_buf H) l = {#}))
        \<and> drainable n cfg contents ks xs g H' \<and> emptied contents (set ls) H H'"
  using D ls
proof (induction ls arbitrary: d H)
  case Nil then show ?case by (simp add: emptied_def)
next
  case (Cons l ls)
  have l: "l < kNumLanes" using Cons.prems(2) by simp
  have "size (lane_entries contents (h_buf H) l) < n" using Cons.prems(1) l by (simp add: drainable_def all_below_def)
  note fl = flush_lane_effect [OF S _ _ l, of xs g H n d]
  show ?case
  proof (cases "flush_lane n cfg l (d, H)")
    case (Inl e)
    then show ?thesis using fl Cons.prems(1) \<open>size _ < n\<close> by (simp add: drainable_def)
  next
    case (Inr r)
    obtain d1 H1 where r: "r = (d1, H1)" by (cases r)
    have 1: "d1 = d + size (lane_entries contents (h_buf H) l)" "index_inv cfg contents ks xs g H1" "emptied contents {l} H H1"
      using fl Cons.prems(1) Inr r by (auto simp: drainable_def)
    have D1: "drainable n cfg contents ks xs g H1" by (rule drainable_emptied [OF Cons.prems(1) 1(2,3)])
    have step: "fold_res (flush_lane n cfg) (l # ls) (d, H) = fold_res (flush_lane n cfg) ls (d1, H1)" using Inr r by simp
    have IH: "case fold_res (flush_lane n cfg) ls (d1, H1) of
      Inl e \<Rightarrow> aborts H1 e
    | Inr (d', H') \<Rightarrow> d1 \<le> d' \<and> (d' = d1 \<longleftrightarrow> (\<forall>l \<in> set ls. lane_entries contents (h_buf H1) l = {#}))
        \<and> drainable n cfg contents ks xs g H' \<and> emptied contents (set ls) H1 H'" by (rule Cons.IH [OF D1]) (use Cons.prems(2) in simp)
    show ?thesis
    proof (cases "fold_res (flush_lane n cfg) ls (d1, H1)")
      case (Inl e) then show ?thesis using IH step emptied_aborts [OF 1(3)] by simp
    next
      case (Inr r2)
      obtain d2 H2 where r2: "r2 = (d2, H2)" by (cases r2)
      have 2: "d1 \<le> d2" "d2 = d1 \<longleftrightarrow> (\<forall>l \<in> set ls. lane_entries contents (h_buf H1) l = {#})" "drainable n cfg contents ks xs g H2"
        "emptied contents (set ls) H1 H2" using IH Inr r2 by auto
      have "emptied contents (set (l # ls)) H H2" using emptied_trans [OF 1(3) 2(4)] by simp
      moreover have "d \<le> d2" using 1(1) 2(1) by simp
      moreover have "d2 = d \<longleftrightarrow> (\<forall>x \<in> set (l # ls). lane_entries contents (h_buf H) x = {#})"
        using 1(1) 2(1,2) emptied_lane [OF 1(3)] by (cases "lane_entries contents (h_buf H) l = {#}") auto
      ultimately show ?thesis using step Inr r2 2(3) by simp
    qed
  qed
qed

text \<open>The lanes of a mask.\<close>

definition mask_lanes :: "u64 \<Rightarrow> nat set" where
  "mask_lanes w = {l. l < kNumLanes \<and> bit w l}"

text \<open>Two rounds are enough: the first empties the lanes of the mask, the second finds none.\<close>

lemma drain_rounds_effect:
  fixes my :: u64
  assumes S: "setting cfg q0 contents ks" and D: "drainable n cfg contents ks xs g H" and m: "2 \<le> m" and my: "\<And>l. bit my l \<Longrightarrow> l < kNumLanes"
  shows "case drain_rounds m n cfg my d H of
      Inl e \<Rightarrow> aborts H e
    | Inr (d', H') \<Rightarrow> d \<le> d' \<and> (d' = d \<longleftrightarrow> (\<forall>l \<in> mask_lanes my. lane_entries contents (h_buf H) l = {#}))
        \<and> drainable n cfg contents ks xs g H' \<and> emptied contents (mask_lanes my) H H'"
proof -
  let ?mk = "\<lambda>H. nonempty_mask (h_buf H) AND my"
  have bits: "bit (?mk H) l \<longleftrightarrow> bit my l \<and> lane_entries contents (h_buf H) l \<noteq> {#}" if "drainable n cfg contents ks xs g H" for H :: "('a, 'c, 'b) HiOM" and l
    using that my [of l] buffer_invD(1) [OF index_invD(4), of cfg contents ks xs g H l] by (auto simp: drainable_def bit_and_iff)
  have zero: "?mk H = 0 \<longleftrightarrow> (\<forall>l \<in> mask_lanes my. lane_entries contents (h_buf H) l = {#})" if "drainable n cfg contents ks xs g H" for H :: "('a, 'c, 'b) HiOM"
    using bits [OF that] my bit_imp_le_length [of my] unfolding bit_eq_iff mask_lanes_def by (auto simp: bit_0_eq)
  obtain m' where m': "m = Suc (Suc m')" using m by (metis Suc_le_D numeral_2_eq_2 Suc_le_mono)
  show ?thesis
  proof (cases "?mk H = 0")
    case True
    then show ?thesis using zero [OF D] D m' by (auto simp: Let_def intro!: emptied_refl)
  next
    case False
    let ?ls = "filter (bit (?mk H)) [0..<64]"
    have ls: "set ?ls = {l \<in> mask_lanes my. lane_entries contents (h_buf H) l \<noteq> {#}}"
      using bits [OF D] my by (auto simp: mask_lanes_def kNumLanes_def) fastforce+
    have lt: "\<forall>l \<in> set ?ls. l < kNumLanes" unfolding ls by (simp add: mask_lanes_def)
    note fl = flush_lanes_effect [OF S D lt, of 0]
    show ?thesis
    proof (cases "fold_res (flush_lane n cfg) ?ls (0, H)")
      case (Inl e)
      then show ?thesis using fl m' False by (simp add: Let_def)
    next
      case (Inr r)
      obtain r1 H1 where r: "r = (r1, H1)" by (cases r)
      have 1: "r1 = 0 \<longleftrightarrow> (\<forall>l \<in> set ?ls. lane_entries contents (h_buf H) l = {#})" "drainable n cfg contents ks xs g H1" "emptied contents (set ?ls) H H1"
        using fl Inr r by auto
      have E: "emptied contents (mask_lanes my) H H1" using 1(3) unfolding ls emptied_def by auto
      have "r1 \<noteq> 0" using 1(1) False zero [OF D] unfolding ls by auto
      moreover have "?mk H1 = 0" using zero [OF 1(2)] emptied_lane [OF E] by simp
      ultimately show ?thesis using Inr r m' False 1(2) E zero [OF D] by (auto simp: Let_def)
    qed
  qed
qed

section \<open>Flushers\<close>

definition flusher_lanes :: "('k, 'q) HConfig \<Rightarrow> nat \<Rightarrow> nat set" where
  "flusher_lanes cfg f = mask_lanes (lanes_mask_for_flusher f (num_flushers cfg))"

lemma flusher_bits:
  assumes "nf dvd kNumLanes" "f < nf" "bit (lanes_mask_for_flusher f nf) l"
  shows "l < kNumLanes"
proof -
  have "f * (kNumLanes div nf) + kNumLanes div nf = (f + 1) * (kNumLanes div nf)" by simp
  also have "\<dots> \<le> nf * (kNumLanes div nf)" using assms(2) by (intro mult_le_mono1) simp
  also have "\<dots> = kNumLanes" using assms(1) by simp
  finally show ?thesis using assms(3) by (simp add: lanes_mask_bit)
qed

lemma all_flushers:
  assumes "num_flushers cfg dvd kNumLanes" "0 < num_flushers cfg"
  shows "(\<Union>f < num_flushers cfg. flusher_lanes cfg f) = {..<kNumLanes}"
proof
  let ?nf = "num_flushers cfg"
  let ?w = "kNumLanes div ?nf"
  have w: "0 < ?w" "?nf * ?w = kNumLanes" using assms by (auto simp: kNumLanes_def dvd_imp_le div_greater_zero_iff)
  show "{..<kNumLanes} \<subseteq> (\<Union>f < ?nf. flusher_lanes cfg f)"
  proof
    fix l assume l: "l \<in> {..<kNumLanes}"
    then have "l div ?w < ?nf" using w by (metis lessThan_iff less_mult_imp_div_less)
    moreover have "l div ?w * ?w \<le> l" "l < l div ?w * ?w + ?w"
      using div_times_less_eq_dividend [of l ?w] mod_less_divisor [OF w(1), of l] div_mult_mod_eq [of l ?w] by linarith+
    ultimately show "l \<in> (\<Union>f < ?nf. flusher_lanes cfg f)"
      using l by (auto simp: flusher_lanes_def mask_lanes_def lanes_mask_bit kNumLanes_def intro!: bexI [of _ "l div ?w"])
  qed
qed (auto simp: flusher_lanes_def mask_lanes_def)

text \<open>What a drain of the lanes \<open>L\<close> amounts to, whether or not the number of entries is reported.\<close>

definition drained :: "nat \<Rightarrow> ('k, 'q) HConfig \<Rightarrow> ('q \<Rightarrow> CommitEntry multiset) \<Rightarrow> 'k set \<Rightarrow> 'k set \<Rightarrow> ('k \<rightharpoonup> u64) \<Rightarrow> nat set \<Rightarrow>
    ('k, 'v, 'q) HiOM \<Rightarrow> hiom_error + ('k, 'v, 'q) HiOM \<Rightarrow> bool" where
  "drained n cfg contents ks xs g L H r \<longleftrightarrow>
    (case r of Inl e \<Rightarrow> aborts H e | Inr H' \<Rightarrow> drainable n cfg contents ks xs g H' \<and> emptied contents L H H')"

lemma drained_Inl: "drained n cfg contents ks xs g L H (Inl e) \<longleftrightarrow> aborts H e"
  and drained_Inr: "drained n cfg contents ks xs g L H (Inr H') \<longleftrightarrow> drainable n cfg contents ks xs g H' \<and> emptied contents L H H'"
  by (simp_all add: drained_def)

lemma drained_after:
  assumes "emptied contents L H H1" "drained n cfg contents ks xs g L' H1 r"
  shows "drained n cfg contents ks xs g (L \<union> L') H r"
  using assms emptied_trans [OF assms(1)] emptied_aborts [OF assms(1)] by (auto simp: drained_def split: sum.splits)

lemma drain_flusher:
  assumes S: "setting cfg q0 contents ks" and D: "drainable n cfg contents ks xs g H" and n: "2 \<le> n" and f: "f < num_flushers cfg"
  shows "case drain_to_empty_and_apply_locked n cfg f H of
      Inl e \<Rightarrow> aborts H e
    | Inr (d, H') \<Rightarrow> (d = 0 \<longleftrightarrow> (\<forall>l \<in> flusher_lanes cfg f. lane_entries contents (h_buf H) l = {#}))
        \<and> drainable n cfg contents ks xs g H' \<and> emptied contents (flusher_lanes cfg f) H H'"
  using drain_rounds_effect [OF S D n flusher_bits [OF settingD(8) [OF S] f], where my = "lanes_mask_for_flusher f (num_flushers cfg)" and d = 0]
  by (auto simp: drain_to_empty_and_apply_locked_def flusher_lanes_def split: sum.splits)

lemma flushers_turn_effect:
  assumes S: "setting cfg q0 contents ks" and D: "drainable n cfg contents ks xs g H" and n: "2 \<le> n"
  shows "drained n cfg contents ks xs g {..<kNumLanes} H (flushers_turn n cfg H)"
proof -
  let ?F = "\<lambda>f H. case drain_once n cfg f H of Inl e \<Rightarrow> Inl e | Inr (_, H') \<Rightarrow> Inr H'"
  have one: "drained n cfg contents ks xs g (flusher_lanes cfg f) H (?F f H)"
    if "drainable n cfg contents ks xs g H" "f < num_flushers cfg" for f and H :: "('a, 'c, 'b) HiOM"
  proof -
    have "h_cold H \<noteq> None" using index_invD(1) that(1) unfolding drainable_def by blast
    then show ?thesis using drain_flusher [OF S that(1) n that(2)] by (auto simp: drained_def drain_once_def split: sum.splits)
  qed
  have "drained n cfg contents ks xs g (\<Union>f \<in> set fs. flusher_lanes cfg f) H (fold_res ?F fs H)"
    if "drainable n cfg contents ks xs g H" "set fs \<subseteq> {..<num_flushers cfg}" for fs and H :: "('a, 'c, 'b) HiOM"
    using that
  proof (induction fs arbitrary: H)
    case Nil then show ?case by (simp add: drained_def emptied_def)
  next
    case (Cons f fs)
    have f: "f < num_flushers cfg" using Cons.prems(2) by simp
    note o = one [OF Cons.prems(1) f]
    show ?case
    proof (cases "?F f H")
      case (Inl e) then show ?thesis using o by (simp add: drained_Inl)
    next
      case (Inr H1)
      then have 1: "drainable n cfg contents ks xs g H1" "emptied contents (flusher_lanes cfg f) H H1" using o by (simp_all add: drained_Inr)
      from drained_after [OF 1(2) Cons.IH [OF 1(1)]] Cons.prems(2) Inr show ?thesis by simp
    qed
  qed
  from this [OF D, of "[0..<num_flushers cfg]"] show ?thesis
    using all_flushers [OF settingD(8,7) [OF S]] by (simp add: flushers_turn_def atLeast0LessThan)
qed

lemma size_hint_zero:
  assumes "buffer_inv contents cb"
  shows "size_hint cb = 0 \<longleftrightarrow> (\<forall>l < kNumLanes. lane_entries contents cb l = {#})"
proof -
  have "size_hint cb = 0 \<longleftrightarrow> (\<forall>x \<in> set (lanes cb). approx x = 0)" by (simp add: size_hint_def)
  also have "\<dots> \<longleftrightarrow> (\<forall>l < kNumLanes. approx (lanes cb ! l) = 0)" using assms by (auto simp: buffer_inv_def all_set_conv_all_nth)
  finally show ?thesis using buffer_invD(2) [OF assms] by simp
qed

lemma emptied_hint:
  "drainable n cfg contents ks xs g H' \<Longrightarrow> emptied contents {..<kNumLanes} H H' \<Longrightarrow> size_hint (h_buf H') = 0"
  using size_hint_zero [OF index_invD(4)] by (fastforce simp: drainable_def emptied_lane)

lemma flush_and_wait_effect:
  assumes S: "setting cfg q0 contents ks" and D: "drainable n cfg contents ks xs g H" and n: "2 \<le> n" and m: "1 \<le> m"
  shows "drained n cfg contents ks xs g {..<kNumLanes} H (flush_and_wait m n cfg H)"
proof -
  obtain m' where "m = Suc m'" using m by (cases m) auto
  then show ?thesis using flushers_turn_effect [OF S D n]
    by (auto simp: drained_def dest: emptied_hint split: sum.splits)
qed

section \<open>Back-pressure\<close>

text \<open>One turn of a writer that waits: it drains the lanes of the first flusher itself, or lets the
  flushers drain theirs when there was nothing in them.\<close>

definition wait_turn :: "nat \<Rightarrow> ('k, 'q) HConfig \<Rightarrow> ('k, 'v, 'q) HiOM \<Rightarrow> hiom_error + ('k, 'v, 'q) HiOM" where
  "wait_turn n cfg H = (case try_inline_flush n cfg H of Inl e \<Rightarrow> Inl e
     | Inr (got, H1) \<Rightarrow> if got = 0 then flushers_turn n cfg H1 else Inr H1)"

lemma wait_turn_effect:
  assumes S: "setting cfg q0 contents ks" and D: "drainable n cfg contents ks xs g H" and n: "2 \<le> n"
  shows "\<exists>L. flusher_lanes cfg 0 \<subseteq> L \<and> L \<subseteq> {..<kNumLanes} \<and> drained n cfg contents ks xs g L H (wait_turn n cfg H)
    \<and> ((\<forall>l \<in> flusher_lanes cfg 0. lane_entries contents (h_buf H) l = {#}) \<longrightarrow> L = {..<kNumLanes})"
proof -
  let ?L = "flusher_lanes cfg 0"
  have nf: "0 < num_flushers cfg" by (rule settingD(7) [OF S])
  have c: "h_cold H \<noteq> None" using D index_invD(1) unfolding drainable_def by blast
  have tr: "try_inline_flush n cfg H = drain_to_empty_and_apply_locked n cfg 0 H" using c nf by (auto simp: try_inline_flush_def)
  note df = drain_flusher [OF S D n nf]
  have sub: "?L \<subseteq> {..<kNumLanes}" "?L \<union> {..<kNumLanes} = {..<kNumLanes}" by (auto simp: flusher_lanes_def mask_lanes_def)
  show ?thesis
  proof (cases "drain_to_empty_and_apply_locked n cfg 0 H")
    case (Inl e) then show ?thesis using df tr sub(1) by (auto simp: wait_turn_def drained_Inl)
  next
    case (Inr r)
    obtain d H1 where r: "r = (d, H1)" by (cases r)
    have 1: "d = 0 \<longleftrightarrow> (\<forall>l \<in> ?L. lane_entries contents (h_buf H) l = {#})" "drainable n cfg contents ks xs g H1" "emptied contents ?L H H1"
      using df Inr r by auto
    show ?thesis
    proof (cases "d = 0")
      case False then show ?thesis using 1 tr Inr r sub(1) by (intro exI [of _ ?L]) (auto simp: wait_turn_def drained_Inr)
    next
      case True
      then have "drained n cfg contents ks xs g {..<kNumLanes} H (wait_turn n cfg H)"
        using drained_after [OF 1(3) flushers_turn_effect [OF S 1(2) n]] sub(2) tr Inr r by (simp add: wait_turn_def)
      then show ?thesis using sub(1) by blast
    qed
  qed
qed

lemma sync_drain_step:
  "sync_drain (Suc m) n cfg H = (if size_hint (h_buf H) = 0 then Inr H
     else case wait_turn n cfg H of Inl e \<Rightarrow> Inl e | Inr H2 \<Rightarrow> sync_drain m n cfg H2)"
  by (auto simp: wait_turn_def split: sum.splits)

lemma sync_drain_done:
  assumes D: "drainable n cfg contents ks xs g H" and z: "size_hint (h_buf H) = 0"
  shows "drained n cfg contents ks xs g {..<kNumLanes} H (sync_drain (Suc m) n cfg H)"
proof -
  have "\<forall>l < kNumLanes. lane_entries contents (h_buf H) l = {#}" using size_hint_zero [OF index_invD(4)] D z unfolding drainable_def by blast
  then have "emptied contents {..<kNumLanes} H H" by (intro emptied_refl) simp
  then show ?thesis using D z by (simp add: drained_Inr)
qed

text \<open>At most three turns empty the buffer: a turn that finds the lanes of the first flusher empty lets
  every flusher drain its own.\<close>

lemma sync_drain_effect:
  assumes S: "setting cfg q0 contents ks" and D: "drainable n cfg contents ks xs g H" and n: "2 \<le> n" and m: "3 \<le> m"
  shows "drained n cfg contents ks xs g {..<kNumLanes} H (sync_drain m n cfg H)"
proof -
  have last: "drained n cfg contents ks xs g {..<kNumLanes} H (sync_drain (Suc (Suc m)) n cfg H)"
    if D: "drainable n cfg contents ks xs g H" and e: "\<forall>l \<in> flusher_lanes cfg 0. lane_entries contents (h_buf H) l = {#}" for H :: "('a, 'c, 'b) HiOM" and m
  proof (cases "size_hint (h_buf H) = 0")
    case False
    have w: "drained n cfg contents ks xs g {..<kNumLanes} H (wait_turn n cfg H)" using wait_turn_effect [OF S D n] e by blast
    show ?thesis
    proof (cases "wait_turn n cfg H")
      case (Inl e) then show ?thesis using w False by (simp add: sync_drain_step drained_Inl del: sync_drain.simps)
    next
      case (Inr H1)
      then have 1: "drainable n cfg contents ks xs g H1" "emptied contents {..<kNumLanes} H H1" using w by (simp_all add: drained_Inr)
      then show ?thesis using Inr False emptied_hint [OF 1] by (simp add: sync_drain_step drained_Inr del: sync_drain.simps)
    qed
  qed (rule sync_drain_done [OF D])
  obtain m' where m': "m = Suc (Suc (Suc m'))" using m by (metis Suc_le_D numeral_3_eq_3 Suc_le_mono)
  show ?thesis
  proof (cases "size_hint (h_buf H) = 0")
    case True then show ?thesis unfolding m' by (rule sync_drain_done [OF D])
  next
    case False
    obtain L where L: "flusher_lanes cfg 0 \<subseteq> L" "drained n cfg contents ks xs g L H (wait_turn n cfg H)" "L \<union> {..<kNumLanes} = {..<kNumLanes}" using wait_turn_effect [OF S D n] by blast
    show ?thesis
    proof (cases "wait_turn n cfg H")
      case (Inl e) then show ?thesis using L(2) False m' by (simp add: sync_drain_step drained_Inl del: sync_drain.simps)
    next
      case (Inr H1)
      then have 1: "drainable n cfg contents ks xs g H1" "emptied contents L H H1" using L(2) by (simp_all add: drained_Inr)
      have "\<forall>l \<in> flusher_lanes cfg 0. lane_entries contents (h_buf H1) l = {#}" using emptied_lane [OF 1(2)] L(1) by auto
      from drained_after [OF 1(2) last [OF 1(1) this, of m']] L(3) Inr False m' show ?thesis by (simp add: sync_drain_step del: sync_drain.simps)
    qed
  qed
qed

section \<open>Writing into the hot tier\<close>

text \<open>A change of the hot tier alone keeps the invariant when no current offset changes and the slots of
  buffered entries stay where they are, pinned.\<close>

lemma index_inv_hot:
  assumes I: "index_inv cfg contents ks xs g H" and ht: "ht_inv hot"
    and cur: "\<And>k off. g k = Some off \<Longrightarrow> hot_of cfg (H\<lparr>h_hot := hot\<rparr>) k \<in> {None, Some off}"
    and new: "\<And>k. k \<in> ks \<Longrightarrow> k \<notin> xs \<Longrightarrow> g k = None \<Longrightarrow> hot_of cfg (H\<lparr>h_hot := hot\<rparr>) k = None"
    and pin: "\<And>k p. k \<in> ks \<Longrightarrow> Hot_Tier_Props.entry_at (h_hot H) (key_fingerprint (keys cfg) k) = Some p \<Longrightarrow> state_at (h_hot H) p = kPinned \<Longrightarrow>
      Hot_Tier_Props.entry_at hot (key_fingerprint (keys cfg) k) = Some p \<and> state_at hot p = kPinned"
  shows "index_inv cfg contents ks xs g (H\<lparr>h_hot := hot\<rparr>)"
proof (rule index_invI)
  have c: "cold_of cfg (H\<lparr>h_hot := hot\<rparr>) k = cold_of cfg H k" "pending_of cfg contents (H\<lparr>h_hot := hot\<rparr>) k = pending_of cfg contents H k" for k
    by (simp_all add: cold_of_def pending_of_def)
  show "entry_ok cfg (H\<lparr>h_hot := hot\<rparr>) (dom g \<union> xs) l e" if "l < kNumLanes" "e \<in># lane_entries contents (h_buf (H\<lparr>h_hot := hot\<rparr>)) l" for l e
  proof -
    have "entry_ok cfg H (dom g \<union> xs) l e" using index_invD(7) [OF I] that by simp
    then obtain k where k: "ce_op e = kPut" "lane_of_fp64 (ce_fp64 e) = l" "k \<in> dom g \<union> xs" "mine (keys cfg) k e" "valid (ce_hot_slot e) \<longrightarrow>
         Hot_Tier_Props.entry_at (h_hot H) (key_fingerprint (keys cfg) k) = Some (ref_pos (ce_hot_slot e))
         \<and> state_at (h_hot H) (ref_pos (ce_hot_slot e)) = kPinned" unfolding entry_ok_def by blast
    have "k \<in> ks" using k(3) index_invD(5,6) [OF I] by blast
    then have "valid (ce_hot_slot e) \<longrightarrow> Hot_Tier_Props.entry_at hot (key_fingerprint (keys cfg) k) = Some (ref_pos (ce_hot_slot e))
         \<and> state_at hot (ref_pos (ce_hot_slot e)) = kPinned" using k(5) pin [of k "ref_pos (ce_hot_slot e)"] by blast
    then show ?thesis unfolding entry_ok_def using k(1-4) by (intro conjI bexI [of _ k]) simp_all
  qed
  show "key_ok cfg contents (H\<lparr>h_hot := hot\<rparr>) k off" if "g k = Some off" for k off
    using index_invD(8) [OF I that] cur [OF that] backed_cong [OF c(2,1), of k off]
    by (simp add: key_ok_def)
  show "hot_of cfg (H\<lparr>h_hot := hot\<rparr>) k = None \<and> cold_of cfg (H\<lparr>h_hot := hot\<rparr>) k = None" if "k \<in> ks" "k \<notin> xs" "g k = None" for k
    using index_invD(9) [OF I that] new [OF that] by (simp add: c)
  show "points_into (vcfg cfg) (h_viper (H\<lparr>h_hot := hot\<rparr>)) off" if "k \<in> ks" "cold_of cfg (H\<lparr>h_hot := hot\<rparr>) k = Some off" for k off
    using index_invD(10) [OF I that(1)] that(2) by (simp add: c)
qed (use I ht in \<open>simp_all add: index_inv_def\<close>)

lemma kept_hot_of:
  assumes "kept_or_evicted (h_hot H) hot (key_fingerprint (keys cfg) k)"
  shows "hot_of cfg (H\<lparr>h_hot := hot\<rparr>) k \<in> {None, hot_of cfg H k}"
    and "Hot_Tier_Props.entry_at (h_hot H) (key_fingerprint (keys cfg) k) = Some p \<Longrightarrow> state_at (h_hot H) p = kPinned \<Longrightarrow>
      Hot_Tier_Props.entry_at hot (key_fingerprint (keys cfg) k) = Some p"
  using assms by (auto simp: kept_or_evicted_def hot_of_def)

lemma distinct_fp:
  "setting cfg q0 contents ks \<Longrightarrow> k \<in> ks \<Longrightarrow> k' \<in> ks \<Longrightarrow> k' \<noteq> k \<Longrightarrow> key_fingerprint (keys cfg) k' \<noteq> key_fingerprint (keys cfg) k"
  by (metis inj_onD settingD(5))

text \<open>Pinning the offset of a key that is being written.\<close>

lemma pin_effect:
  assumes S: "setting cfg q0 contents ks" and I: "index_inv cfg contents ks xs g H" and k: "k \<in> xs"
    and up: "upsert_pinned (h_hot H) (key_fingerprint (keys cfg) k) p = (ref, hot)"
  shows "index_inv cfg contents ks xs g (H\<lparr>h_hot := hot\<rparr>)"
    and "valid ref \<Longrightarrow> peek hot (key_fingerprint (keys cfg) k) = Some p
      \<and> Hot_Tier_Props.entry_at hot (key_fingerprint (keys cfg) k) = Some (ref_pos ref) \<and> state_at hot (ref_pos ref) = kPinned"
    and "\<not> valid ref \<Longrightarrow> peek hot (key_fingerprint (keys cfg) k) = None"
proof -
  let ?fp = "key_fingerprint (keys cfg)"
  have kk: "k \<in> ks" using k index_invD(6) [OF I] by blast
  note ht = index_invD(3) [OF I]
  note ef = upsert_pinned_effect [OF ht fingerprint_nonzero [of "keys cfg" k], of p, unfolded up fst_conv snd_conv]
  show valid: "peek hot (?fp k) = Some p \<and> Hot_Tier_Props.entry_at hot (?fp k) = Some (ref_pos ref) \<and> state_at hot (ref_pos ref) = kPinned" if "valid ref"
    using ef that by (simp add: ref_pos_def)
  show "peek hot (?fp k) = None" if "\<not> valid ref" using ef that by simp
  have oth: "kept_or_evicted (h_hot H) hot (?fp k')" if "k' \<in> ks" "k' \<noteq> k" for k'
    using upsert_pinned_others [OF ht fingerprint_nonzero fingerprint_nonzero distinct_fp [OF S kk that], of p] up by simp
  have st: "state_at hot q = kPinned" if "state_at (h_hot H) q = kPinned" "snd q < 16" for q
    using ef that by (cases q; cases "valid ref") (auto simp: ref_pos_def)
  show "index_inv cfg contents ks xs g (H\<lparr>h_hot := hot\<rparr>)"
  proof (rule index_inv_hot [OF I])
    show "ht_inv hot" using ef by blast
    show "hot_of cfg (H\<lparr>h_hot := hot\<rparr>) k' \<in> {None, Some off}" if g: "g k' = Some off" for k' off
    proof -
      have "k' \<in> ks" "k' \<noteq> k" using g k index_invD(5,11) [OF I] by auto
      then show ?thesis using kept_hot_of(1) [OF oth [of k']] index_invD(8) [OF I g] unfolding key_ok_def by auto
    qed
    show "hot_of cfg (H\<lparr>h_hot := hot\<rparr>) k' = None" if "k' \<in> ks" "k' \<notin> xs" "g k' = None" for k'
    proof -
      have "k' \<noteq> k" using that(2) k by blast
      then show ?thesis using kept_hot_of(1) [OF oth [OF that(1)]] index_invD(9) [OF I that] by simp
    qed
    show "Hot_Tier_Props.entry_at hot (?fp k') = Some q \<and> state_at hot q = kPinned"
      if q: "k' \<in> ks" "Hot_Tier_Props.entry_at (h_hot H) (?fp k') = Some q" "state_at (h_hot H) q = kPinned" for k' q
    proof (cases "k' = k")
      case True
      then have "ref = \<lparr>bucket_idx = fst q, slot_idx = snd q, valid = True\<rparr>"
        using upsert_pinned_same_slot [OF ht fingerprint_nonzero, of "keys cfg" k "fst q" "snd q" p] q up by simp
      then show ?thesis using valid True by (simp add: ref_pos_def)
    next
      case False
      then show ?thesis using kept_hot_of(2) [OF oth [OF q(1)] q(2,3)] st [OF q(3) entry_at_range [OF q(2)]] by blast
    qed
  qed
qed

end
