(* ===== verification/Hiom_Refine.thy ===== *)
theory Hiom_Refine
  imports Hiom_Flush
begin

text \<open>
  The whole store as a map: puts by any number of clients, gets, and the drains of the flushers, in any
  order, read and write one finite map, although a current offset may live in the hot tier, in the
  commit buffer or in the cold tier, and moves between them.
\<close>

section \<open>Pinning with back-pressure\<close>

definition pins_all :: "('q \<Rightarrow> CommitEntry multiset) \<Rightarrow> ('k, 'v, 'q) HiOM \<Rightarrow> bool" where
  "pins_all contents H \<longleftrightarrow> (\<forall>l < kNumLanes. \<forall>e \<in># lane_entries contents (h_buf H) l. valid (ce_hot_slot e))"

lemma emptied_pins: "emptied contents L H H' \<Longrightarrow> pins_all contents H \<Longrightarrow> pins_all contents H'"
  by (auto simp: emptied_def pins_all_def)

text \<open>A key between the write of its record and the push of its commit entry, with the slot reference it
  has got so far.\<close>

definition pin_state :: "nat \<Rightarrow> ('k, 'q) HConfig \<Rightarrow> ('q \<Rightarrow> CommitEntry multiset) \<Rightarrow> 'k set \<Rightarrow> 'k \<Rightarrow> ('k \<rightharpoonup> u64) \<Rightarrow> u32 \<Rightarrow> SlotRef \<Rightarrow> ('k, 'v, 'q) HiOM \<Rightarrow> bool" where
  "pin_state n cfg contents ks k g p ref H \<longleftrightarrow> index_inv cfg contents ks {k} g H \<and> all_below contents n H \<and> pins_all contents H
    \<and> (if valid ref then peek (h_hot H) (key_fingerprint (keys cfg) k) = Some p
          \<and> Hot_Tier_Props.entry_at (h_hot H) (key_fingerprint (keys cfg) k) = Some (ref_pos ref) \<and> state_at (h_hot H) (ref_pos ref) = kPinned
       else peek (h_hot H) (key_fingerprint (keys cfg) k) = None)"

lemma pinned_pending:
  assumes S: "setting cfg q0 contents ks" and I: "index_inv cfg contents ks xs g H" and P: "pins_all contents H" and k: "k \<in> ks"
    and none: "peek (h_hot H) (key_fingerprint (keys cfg) k) = None"
  shows "pending_of cfg contents H k = {}"
proof (rule ccontr)
  assume "pending_of cfg contents H k \<noteq> {}"
  then obtain e where e: "e \<in> pending_of cfg contents H k" by blast
  then have "valid (ce_hot_slot e)" using P by (auto simp: pins_all_def pending_of_def)
  then show False using entry_mine(4) [OF S I k e] none by (simp add: peek_entry)
qed

lemma pin_first:
  assumes S: "setting cfg q0 contents ks" and I: "index_inv cfg contents ks {k} g H" "all_below contents n H" "pins_all contents H"
    and up: "upsert_pinned (h_hot H) (key_fingerprint (keys cfg) k) p = (ref, hot)"
  shows "pin_state n cfg contents ks k g p ref (H\<lparr>h_hot := hot\<rparr>)"
  using pin_effect [OF S I(1) _ up] I(2,3) by (simp add: pin_state_def all_below_def pins_all_def)

lemma below_mono: "all_below contents m H \<Longrightarrow> m \<le> n \<Longrightarrow> all_below contents n H"
  by (auto simp: all_below_def)

lemma pin_retry_step:
  "pin_retry (Suc a) n cfg fp32 packed ref H =
    (if valid ref then Inr (ref, H)
     else case wait_turn n cfg H of Inl e \<Rightarrow> Inl e
       | Inr H2 \<Rightarrow> (case upsert_pinned (h_hot H2) fp32 packed of (ref', hot) \<Rightarrow> pin_retry a n cfg fp32 packed ref' (H2\<lparr>h_hot := hot\<rparr>)))"
  by (auto simp: wait_turn_def split: sum.splits)

definition same_store :: "('k, 'v, 'q) HiOM \<Rightarrow> ('k, 'v, 'q) HiOM \<Rightarrow> bool" where
  "same_store H H' \<longleftrightarrow> h_viper H' = h_viper H \<and> h_base H' = h_base H \<and> (h_ckpt H' = None \<longleftrightarrow> h_ckpt H = None)"

lemma emptied_same: "emptied contents L H H' \<Longrightarrow> same_store H H'"
  by (simp add: emptied_def same_store_def)

lemma same_aborts: "same_store H H' \<Longrightarrow> aborts H' e = aborts H e"
  by (simp add: same_store_def aborts_def)

lemma pin_retry_effect:
  assumes S: "setting cfg q0 contents ks" and n: "2 \<le> n" "m \<le> n" and P: "pin_state m cfg contents ks k g p ref H"
  shows "case pin_retry a n cfg (key_fingerprint (keys cfg) k) p ref H of Inl e \<Rightarrow> aborts H e
    | Inr (ref', H') \<Rightarrow> pin_state m cfg contents ks k g p ref' H' \<and> same_store H H'"
  using P
proof (induction a arbitrary: ref H)
  case 0 then show ?case by (simp add: same_store_def)
next
  case (Suc a)
  show ?case
  proof (cases "valid ref")
    case True then show ?thesis using Suc.prems by (simp add: same_store_def)
  next
    case False
    let ?fp = "key_fingerprint (keys cfg) k"
    have I: "index_inv cfg contents ks {k} g H" "all_below contents m H" "pins_all contents H" and none: "peek (h_hot H) ?fp = None"
      using Suc.prems False by (simp_all add: pin_state_def)
    have k: "k \<in> ks" using index_invD(6) [OF I(1)] by simp
    have D: "drainable n cfg contents ks {k} g H" using I pinned_pending [OF S I(1,3) k none] below_mono [OF I(2) n(2)] by (simp add: drainable_def)
    obtain L where L: "drained n cfg contents ks {k} g L H (wait_turn n cfg H)" using wait_turn_effect [OF S D n(1)] by blast
    show ?thesis
    proof (cases "wait_turn n cfg H")
      case (Inl e) then show ?thesis using L False by (simp add: pin_retry_step drained_Inl del: pin_retry.simps)
    next
      case (Inr H2)
      then have 2: "index_inv cfg contents ks {k} g H2" "emptied contents L H H2" using L by (simp_all add: drained_Inr drainable_def)
      obtain ref' hot where up: "upsert_pinned (h_hot H2) ?fp p = (ref', hot)" by fastforce
      have P2: "pin_state m cfg contents ks k g p ref' (H2\<lparr>h_hot := hot\<rparr>)"
        by (rule pin_first [OF S 2(1) emptied_below [OF 2(2) I(2)] emptied_pins [OF 2(2) I(3)] up])
      have ss: "same_store H (H2\<lparr>h_hot := hot\<rparr>)" using emptied_same [OF 2(2)] by (simp add: same_store_def)
      have st: "pin_retry (Suc a) n cfg ?fp p ref H = pin_retry a n cfg ?fp p ref' (H2\<lparr>h_hot := hot\<rparr>)"
        using Inr up False by (simp add: pin_retry_step del: pin_retry.simps)
      show ?thesis unfolding st using Suc.IH [OF P2] same_aborts [OF ss] ss by (auto simp: same_store_def split: sum.splits)
    qed
  qed
qed

section \<open>Pushing the commit entry\<close>

lemma index_inv_same:
  "h_viper H' = h_viper H \<Longrightarrow> h_hot H' = h_hot H \<Longrightarrow> h_cold H' = h_cold H \<Longrightarrow> h_base H' = h_base H \<Longrightarrow> h_buf H' = h_buf H \<Longrightarrow>
    index_inv cfg contents ks xs g H' = index_inv cfg contents ks xs g H"
  unfolding index_inv_def entry_ok_def key_ok_def backed_def pending_of_def hot_of_def cold_of_def by simp

lemma push_effect:
  fixes H :: "('k, 'v, 'q) HiOM"
  assumes S: "setting cfg q0 contents ks" and P: "pin_state n cfg contents ks k g p ref H" and off: "\<not> is_tombstone off" "decode_kv (h_base H) p = off"
    and rec: "records (vcfg cfg) (h_viper H) (locate off) = Some (k, v)"
    and e: "e = \<lparr>ce_op = kPut, ce_fp64 = key_fingerprint64 (keys cfg) k, ce_key_id = key_id_of (keys cfg) k, ce_off = off, ce_hot_slot = ref, ce_seq = sq\<rparr>"
    and H': "H' = H\<lparr>h_ring := ring, h_buf := snd (push (q_enq cfg) (lane_of_fp64 (ce_fp64 e)) e (h_buf H))\<rparr>"
  shows "index_inv cfg contents ks {} (g(k \<mapsto> off)) H'" "all_below contents (Suc n) H'" "valid ref \<Longrightarrow> pins_all contents H'"
proof -
  let ?K = "keys cfg" and ?l = "lane_of_fp64 (key_fingerprint64 (keys cfg) k)"
  have I: "index_inv cfg contents ks {k} g H" and B: "all_below contents n H" and A: "pins_all contents H" using P by (simp_all add: pin_state_def)
  have k: "k \<in> ks" "g k = None" using index_invD(6,11) [OF I] by auto
  note buf = index_invD(4) [OF I]
  have lane: "lane_entries contents (h_buf H') l = (if l = ?l then add_mset e (lane_entries contents (h_buf H) l) else lane_entries contents (h_buf H) l)" for l
    using push_lane [OF settingD(3) [OF S] buf lane_less] by (simp add: H' e)
  have fields: "h_viper H' = h_viper H" "h_hot H' = h_hot H" "h_cold H' = h_cold H" "h_base H' = h_base H" by (simp_all add: H')
  have hc: "hot_of cfg H' x = hot_of cfg H x" "cold_of cfg H' x = cold_of cfg H x" for x by (simp_all add: hot_of_def cold_of_def fields)
  have me: "mine ?K k e" by (simp add: mine_def e)
  have pend: "pending_of cfg contents H' x = (if x = k then insert e (pending_of cfg contents H k) else pending_of cfg contents H x)" if "x \<in> ks" for x
  proof -
    have "mine ?K x e \<longleftrightarrow> x = k" using mine_unique [OF S me _ k(1) that] me by blast
    moreover have "(\<exists>l < kNumLanes. y \<in># lane_entries contents (h_buf H') l) \<longleftrightarrow> y = e \<or> (\<exists>l < kNumLanes. y \<in># lane_entries contents (h_buf H) l)" for y
    proof -
      have "y \<in># lane_entries contents (h_buf H') l \<longleftrightarrow> y \<in># lane_entries contents (h_buf H) l \<or> y = e \<and> l = ?l" for l by (auto simp: lane)
      then show ?thesis using lane_less [of "key_fingerprint64 ?K k"] by blast
    qed
    ultimately show ?thesis by (auto simp: pending_of_def)
  qed
  show "index_inv cfg contents ks {} (g(k \<mapsto> off)) H'"
  proof (rule index_invI)
    show "entry_ok cfg H' (dom (g(k \<mapsto> off)) \<union> {}) l x" if l: "l < kNumLanes" "x \<in># lane_entries contents (h_buf H') l" for l x
    proof (cases "x \<in># lane_entries contents (h_buf H) l")
      case True
      then show ?thesis using index_invD(7) [OF I l(1) True] by (auto simp: entry_ok_def fields)
    next
      case False
      then have "x = e" "l = ?l" using l(2) lane [of l] by (auto split: if_splits)
      then show ?thesis using P me by (auto simp: entry_ok_def fields pin_state_def e)
    qed
    show "key_ok cfg contents H' x o'" if g: "(g(k \<mapsto> off)) x = Some o'" for x o'
    proof (cases "x = k")
      case True
      then have o: "o' = off" using g by simp
      have none: "pending_of cfg contents H k = {}" if "\<not> valid ref" using pinned_pending [OF S I A k(1)] P that by (simp add: pin_state_def)
      have "backed cfg contents H' k off" unfolding backed_def Let_def pend [OF k(1)] using none by (auto simp: e)
      moreover have "hot_of cfg H' k \<in> {None, Some off}" using P off(2) by (auto simp: hot_of_def fields pin_state_def split: if_splits)
      ultimately show ?thesis using True o off(1) rec by (simp add: key_ok_def fields)
    next
      case False
      then have "g x = Some o'" using g by simp
      moreover have "x \<in> ks" using \<open>g x = Some o'\<close> index_invD(5) [OF I] by blast
      ultimately show ?thesis using index_invD(8) [OF I, of x o'] backed_cong [of cfg contents H' x H o'] pend [of x] False by (simp add: key_ok_def fields hc)
    qed
    show "hot_of cfg H' x = None \<and> cold_of cfg H' x = None" if "x \<in> ks" "x \<notin> {}" "(g(k \<mapsto> off)) x = None" for x
      using index_invD(9) [OF I that(1)] that(3) by (auto simp: hc split: if_splits)
    show "points_into (vcfg cfg) (h_viper H') o'" if "x \<in> ks" "cold_of cfg H' x = Some o'" for x o'
      using index_invD(10) [OF I that(1)] that(2) by (simp add: hc fields)
    show "buffer_inv contents (h_buf H')" using push_correct(1) [OF settingD(3) [OF S] buf lane_less] by (simp add: H')
    show "dom (g(k \<mapsto> off)) \<subseteq> ks - {}" using k(1) index_invD(5) [OF I] by auto
  qed (use index_invD(1-3,12) [OF I] in \<open>simp_all add: fields\<close>)
  show "all_below contents (Suc n) H'" using B by (auto simp: all_below_def lane less_Suc_eq)
  show "pins_all contents H'" if "valid ref" using A that by (auto simp: pins_all_def lane e)
qed

section \<open>Mirroring a write\<close>

definition put_aborts :: "('k, 'v, 'q) HiOM \<Rightarrow> hiom_error \<Rightarrow> bool" where
  "put_aborts H e \<longleftrightarrow> h_ckpt H \<noteq> None \<and> e \<in> {HRingFatal, HStuck}"

lemma aborts_put: "aborts H e \<Longrightarrow> put_aborts H e"
  by (auto simp: aborts_def put_aborts_def)

lemma all_empty: "emptied contents {..<kNumLanes} H H' \<Longrightarrow> pins_all contents H' \<and> (0 < n \<longrightarrow> all_below contents n H')"
  by (simp add: emptied_def pins_all_def all_below_def)

lemma next_seq_viper: "next_seq C = (sq, C') \<Longrightarrow> hc_viper C' = hc_viper C"
  by (auto simp: next_seq_def Let_def)

lemma push_drain_effect:
  fixes H :: "('k, 'v, 'q) HiOM"
  assumes S: "setting cfg q0 contents ks" and n: "3 \<le> n" "Suc m \<le> n" and P: "pin_state m cfg contents ks k g p ref H"
    and off: "\<not> is_tombstone off" "decode_kv (h_base H) p = off" and rec: "records (vcfg cfg) (h_viper H) (locate off) = Some (k, v)"
    and e: "e = \<lparr>ce_op = kPut, ce_fp64 = key_fingerprint64 (keys cfg) k, ce_key_id = key_id_of (keys cfg) k, ce_off = off, ce_hot_slot = ref, ce_seq = sq\<rparr>"
    and push: "push_commit cfg e H = Inr H3"
  shows "case (if valid ref then Inr H3 else sync_drain n n cfg H3) of Inl x \<Rightarrow> aborts H x
    | Inr H' \<Rightarrow> index_inv cfg contents ks {} (g(k \<mapsto> off)) H' \<and> all_below contents (Suc m) H' \<and> pins_all contents H' \<and> same_store H H'"
proof -
  obtain ring where H3: "H3 = H\<lparr>h_ring := ring, h_buf := snd (push (q_enq cfg) (lane_of_fp64 (ce_fp64 e)) e (h_buf H))\<rparr>"
    using push by (auto simp: push_commit_def split: ring_result.splits)
  note P3 = push_effect [OF S P off rec e H3]
  have ss3: "same_store H H3" by (simp add: H3 same_store_def)
  show ?thesis
  proof (cases "valid ref")
    case True then show ?thesis using P3 ss3 by simp
  next
    case False
    have "drainable n cfg contents ks {} (g(k \<mapsto> off)) H3" using P3(1) below_mono [OF P3(2) n(2)] by (simp add: drainable_def)
    then have sd: "drained n cfg contents ks {} (g(k \<mapsto> off)) {..<kNumLanes} H3 (sync_drain n n cfg H3)" by (rule sync_drain_effect [OF S]) (use n in simp_all)
    show ?thesis
    proof (cases "sync_drain n n cfg H3")
      case (Inl x) then show ?thesis using False sd same_aborts [OF ss3] by (simp add: drained_Inl)
    next
      case (Inr H4)
      then have 4: "index_inv cfg contents ks {} (g(k \<mapsto> off)) H4" "emptied contents {..<kNumLanes} H3 H4" using sd by (simp_all add: drained_Inr drainable_def)
      then show ?thesis using False Inr all_empty [OF 4(2), of "Suc m"] emptied_same [OF 4(2)] ss3 by (simp add: same_store_def)
    qed
  qed
qed

lemma mirror_effect:
  fixes H :: "('k, 'v, 'q) HiOM"
  assumes S: "setting cfg q0 contents ks" and n: "3 \<le> n" "Suc m \<le> n" and I: "index_inv cfg contents ks {k} g H" "all_below contents m H" "pins_all contents H"
    and off: "\<not> is_tombstone off" "encode_kv (h_base H) off = Some p" and rec: "records (vcfg cfg) (h_viper H) (locate off) = Some (k, v)"
  shows "case mirror_write_with_offset n cfg k kPut off H C of Inl e \<Rightarrow> put_aborts H e
    | Inr (H', C') \<Rightarrow> index_inv cfg contents ks {} (g(k \<mapsto> off)) H' \<and> all_below contents (Suc m) H' \<and> pins_all contents H' \<and> same_store H H' \<and> hc_viper C' = hc_viper C"
proof -
  let ?K = "keys cfg"
  define H1 where "H1 = H\<lparr>h_slots := (case hc_slot C of Some i \<Rightarrow> note_client_block i (block_number off) (h_slots H) | None \<Rightarrow> h_slots H)\<rparr>"
  have I1: "index_inv cfg contents ks {k} g H1" "all_below contents m H1" "pins_all contents H1" and ss1: "same_store H H1"
    using I index_inv_same [of H1 H cfg contents ks "{k}" g] by (simp_all add: H1_def all_below_def pins_all_def same_store_def)
  obtain r0 hot0 where up: "upsert_pinned (h_hot H1) (key_fingerprint ?K k) p = (r0, hot0)" by fastforce
  note P0 = pin_first [OF S I1 up]
  have mn: "2 \<le> n" "m \<le> n" using n by simp_all
  note pr = pin_retry_effect [OF S mn P0, of kMaxBackpressureRetries]
  have cold: "h_cold H1 \<noteq> None" using index_invD(1) [OF I1(1)] .
  have po: "pin_offset n cfg (key_fingerprint ?K k) (Some p) H1 = pin_retry kMaxBackpressureRetries n cfg (key_fingerprint ?K k) p r0 (H1\<lparr>h_hot := hot0\<rparr>)"
    using cold up by (auto simp: pin_offset_def)
  have ss0: "same_store H (H1\<lparr>h_hot := hot0\<rparr>)" using ss1 by (simp add: same_store_def)
  show ?thesis
  proof (cases "pin_offset n cfg (key_fingerprint ?K k) (Some p) H1")
    case (Inl e)
    then have "aborts H e" using pr po same_aborts [OF ss0] by simp
    then show ?thesis using Inl off aborts_put
      by (simp add: mirror_write_with_offset_def Let_def make_key_hash_fields H1_def [symmetric] )
  next
    case (Inr r)
    obtain ref H2 where r: "r = (ref, H2)" by (cases r)
    have P2: "pin_state m cfg contents ks k g p ref H2" and "same_store (H1\<lparr>h_hot := hot0\<rparr>) H2" using pr unfolding po [symmetric] Inr r by simp_all
    then have ss2: "same_store H H2" using ss0 by (simp add: same_store_def)
    have c2: "h_cold H2 \<noteq> None" using index_invD(1) P2 unfolding pin_state_def by blast
    obtain sq C2 where sq: "next_seq C = (sq, C2)" by fastforce
    define e where "e = \<lparr>ce_op = kPut, ce_fp64 = key_fingerprint64 ?K k, ce_key_id = key_id_of ?K k, ce_off = off, ce_hot_slot = ref, ce_seq = sq\<rparr>"
    have run: "mirror_write_with_offset n cfg k kPut off H C = (case push_commit cfg e H2 of Inl e \<Rightarrow> Inl e
        | Inr H3 \<Rightarrow> if \<not> valid ref then (case sync_drain n n cfg H3 of Inl e \<Rightarrow> Inl e | Inr H4 \<Rightarrow> Inr (H4, C2)) else Inr (H3, C2))"
      using Inr r off c2 sq by (auto simp: mirror_write_with_offset_def Let_def make_key_hash_fields H1_def [symmetric] e_def split: sum.split)
    show ?thesis
    proof (cases "push_commit cfg e H2")
      case (Inl x)
      then have "h_ckpt H2 \<noteq> None \<and> x \<in> {HRingFatal, HStuck}" by (auto simp: push_commit_def split: ring_result.splits if_splits)
      then show ?thesis using run Inl ss2 by (auto simp: put_aborts_def same_store_def)
    next
      case (Inr H3)
      have d: "decode_kv (h_base H2) p = off" using decode_kv_encode_kv [OF off(2)] ss2 by (simp add: same_store_def)
      have rc: "records (vcfg cfg) (h_viper H2) (locate off) = Some (k, v)" using rec ss2 by (simp add: same_store_def)
      note pd = push_drain_effect [OF S n P2 off(1) d rc e_def Inr]
      have run': "mirror_write_with_offset n cfg k kPut off H C =
          (case (if valid ref then Inr H3 else sync_drain n n cfg H3) of Inl e \<Rightarrow> Inl e | Inr H4 \<Rightarrow> Inr (H4, C2))"
        using run Inr by simp
      show ?thesis
      proof (cases "if valid ref then Inr H3 else sync_drain n n cfg H3")
        case (Inl x) then show ?thesis using pd same_aborts [OF ss2] aborts_put unfolding run' by simp
      next
        case r4: (Inr H4)
        have "same_store H H4" using pd r4 ss2 by (simp add: same_store_def)
        then show ?thesis using pd r4 next_seq_viper [OF sq] unfolding run' by simp
      qed
    qed
  qed
qed

section \<open>Storing the record\<close>

lemma encode_located:
  assumes "locate off = (b, p, s)" "b < 2 ^ 21" "p < 7" "s < 256"
  shows "encode_kv zero_base_map off \<noteq> None"
proof -
  have base: "region_base zero_base_map 0 = 0" by (simp add: region_base_def zero_base_map_def kNumRegions_def)
  have u: "unat (block_number off) = b" "unat (page_number off) = p" "unat (data_offset off) = s" using assms(1) by (simp_all add: locate_def get_offsets_def)
  have "encode (block_number off) (page_number off) (data_offset off) 0 zero_base_map
      = Some (ucast (block_number off - region_base zero_base_map 0) * 2048 + ucast (page_number off) * 256 + ucast (data_offset off))"
    by (rule encode_defined) (use u assms(2-) in \<open>simp_all add: base mask_eq_exp_minus_1 word_le_nat_alt word_less_nat_alt\<close>)
  then show ?thesis by (simp add: encode_kv_def get_offsets_def route_to_region_default_def)
qed

lemma index_inv_index_ok:
  assumes I: "index_inv cfg contents ks {} g H" and k: "k \<in> ks"
  shows "index_ok (vcfg cfg) (keys cfg) (h_base H) (h_hot H) (the (h_cold H)) (h_viper H) k"
  unfolding index_ok_def
proof
  fix off assume "off \<in> tier_offsets (keys cfg) (h_base H) (h_hot H) (the (h_cold H)) k"
  then consider "hot_of cfg H k = Some off" | "cold_of cfg H k = Some off" by (auto simp: tier_offsets_def hot_of_def cold_of_def)
  then show "points_into (vcfg cfg) (h_viper H) off"
  proof cases
    case 1
    then obtain o' where "g k = Some o'" using index_invD(9) [OF I k] by force
    then have "key_ok cfg contents H k o'" by (rule index_invD(8) [OF I])
    then show ?thesis using 1 by (auto simp: key_ok_def dest: records_points)
  next
    case 2 then show ?thesis by (rule index_invD(10) [OF I k])
  qed
qed

text \<open>The put of the record store, with the resolver of the front end: the new record is stored, and what is
  freed is a record of the same key.\<close>

lemma viper_put_effect:
  fixes H :: "('k, 'v, 'q) HiOM" and cfg :: "('k, 'q) HConfig"
  defines "vc \<equiv> vcfg cfg" and "res \<equiv> old_offset_resolver (keys cfg) (h_base H) (h_hot H) (the (h_cold H))"
  assumes cfg: "cfg_ok (vcfg cfg)" and I: "index_inv cfg contents ks {} g H" and k: "k \<in> ks" and inv: "sys_inv (vcfg cfg) (h_viper H) Cs" and i: "i < length Cs"
    and own: "hiom_owns_index (h_viper H)"
    and avail: "fst (current_block_page (h_viper H)) < length (v_blocks (h_viper H)) \<or> put 2 vc (Some res) None rnd k v True False (h_viper H) (Cs ! i) \<noteq> None"
  shows "\<exists>is_new V' C'. put 2 vc (Some res) None rnd k v True False (h_viper H) (Cs ! i) = Some (is_new, V', C')
    \<and> sys_inv vc V' (Cs[i := C']) \<and> hiom_owns_index V' \<and> length (v_blocks V') = length (v_blocks (h_viper H))
    \<and> (\<forall>off. points_into vc (h_viper H) off \<longrightarrow> points_into vc V' off)
    \<and> \<not> is_tombstone (last_put_offset C') \<and> records vc V' (locate (last_put_offset C')) = Some (k, v)
    \<and> (\<forall>x k' w. k' \<noteq> k \<longrightarrow> records vc (h_viper H) x = Some (k', w) \<longrightarrow> records vc V' x = Some (k', w))"
proof -
  let ?V = "h_viper H"
  note ht = index_invD(3) [OF I]
  note iok = index_inv_index_ok [OF I k]
  have res: "\<forall>V'. extends vc ?V V' \<longrightarrow> points_into vc V' (res V' k)" unfolding vc_def res_def using resolver_points [OF ht iok] by blast
  obtain is_new V' C' where P: "put 2 vc (Some res) None rnd k v True False ?V (Cs ! i) = Some (is_new, V', C')" "put_effect vc res k v ?V is_new V' C'"
    "sys_inv vc V' (Cs[i := C'])" "hiom_owns_index V'" "length (v_blocks V') = length (v_blocks ?V)" "\<forall>off. points_into vc ?V off \<longrightarrow> points_into vc V' off"
    using put_correct [where resolver = res and k = k, OF cfg inv i own, folded vc_def, OF res avail] by blast
  let ?new = "locate (last_put_offset C')"
  obtain Vm s where E: "?new = (v_block_number C', v_page_number C', s)" "last_put_offset C' = make_offset (v_block_number C') (v_page_number C') s"
    "extends vc ?V Vm" "IS_LOCKED (version_lock (page_at Vm (v_block_number C') (v_page_number C')))" "is_new = is_tombstone (res Vm k)"
    "records vc ?V ?new = None" "records vc Vm = (records vc ?V)(?new \<mapsto> (k, v))"
    "records vc V' = (if is_new then records vc Vm else (records vc Vm)(locate (res Vm k) := None))"
    using P(2) unfolding put_effect_def Let_def by blast
  have other: "locate (res Vm k) \<noteq> ?new" if "\<not> is_new"
    using resolver_elsewhere [OF ht E(4), of "keys cfg" "h_base H" "the (h_cold H)" k s] E(1,5) that unfolding res_def by auto
  have new: "records vc V' ?new = Some (k, v)" using E(7,8) other by (cases is_new) auto
  have mine: "\<exists>w. records vc Vm (locate (res Vm k)) = Some (k, w)" if "\<not> is_new"
  proof -
    have "\<not> is_tombstone (res Vm k)" using that E(5) by simp
    moreover have "verified Vm k (res Vm k)" using resolver_cases [OF ht, of "keys cfg" "h_base H" "the (h_cold H)" Vm k] calculation
      unfolding res_def by (auto simp: is_tombstone_def Tombstone_def)
    moreover have "points_into vc Vm (res Vm k)" using res E(3) by blast
    ultimately show ?thesis using records_at_offset [of vc Vm "res Vm k"] by (cases "Viper_Store.entry_at Vm (res Vm k)") (auto simp: verified_iff)
  qed
  have keep: "records vc V' x = Some (k', w)" if "k' \<noteq> k" "records vc ?V x = Some (k', w)" for x k' w
  proof -
    have "x \<noteq> ?new" using that(2) E(6) by auto
    then have "records vc Vm x = Some (k', w)" using that(2) E(7) by simp
    moreover have "x \<noteq> locate (res Vm k)" if "\<not> is_new" using mine [OF that] calculation \<open>k' \<noteq> k\<close> by auto
    ultimately show ?thesis using E(8) by auto
  qed
  have "store_inv vc V'" using P(3) by (simp add: sys_inv_def)
  then have "\<not> is_tombstone (last_put_offset C')" using make_offset_valid(3) [OF cfg [folded vc_def]] new E(1,2) by metis
  then show ?thesis using P(1,3-6) new keep by blast
qed

section \<open>The operations\<close>

text \<open>The invariant of an instance between calls, for the clients \<open>Cs\<close> and the current offsets \<open>g\<close>.\<close>

definition hiom_inv :: "('k, 'q) HConfig \<Rightarrow> ('q \<Rightarrow> CommitEntry multiset) \<Rightarrow> 'k set \<Rightarrow> ('k \<rightharpoonup> u64) \<Rightarrow> ('k, 'v, 'q) HiOM \<Rightarrow> HClient list \<Rightarrow> bool" where
  "hiom_inv cfg contents ks g H Cs \<longleftrightarrow> index_inv cfg contents ks {} g H \<and> pins_all contents H \<and> h_base H = zero_base_map
    \<and> sys_inv (vcfg cfg) (h_viper H) (map hc_viper Cs) \<and> hiom_owns_index (h_viper H) \<and> length (v_blocks (h_viper H)) \<le> 2 ^ 21"

lemma hiom_invD:
  assumes "hiom_inv cfg contents ks g H Cs"
  shows "index_inv cfg contents ks {} g H" "pins_all contents H" "h_base H = zero_base_map" "sys_inv (vcfg cfg) (h_viper H) (map hc_viper Cs)"
    "hiom_owns_index (h_viper H)" "length (v_blocks (h_viper H)) \<le> 2 ^ 21" "store_shape (vcfg cfg) (h_viper H)" "ht_inv (h_hot H)"
  using assms index_invD(3) by (auto simp: hiom_inv_def sys_inv_def store_inv_def)

text \<open>The value the current offset of a key leads to.\<close>

definition stored :: "('k, 'q) HConfig \<Rightarrow> ('k \<rightharpoonup> u64) \<Rightarrow> ('k, 'v, 'q) HiOM \<Rightarrow> ('k \<rightharpoonup> 'v)" where
  "stored cfg g H k = (case g k of None \<Rightarrow> None | Some off \<Rightarrow> value_at (vcfg cfg) (h_viper H) k off)"

lemma stored_viper: "records (vcfg cfg) (h_viper H') = records (vcfg cfg) (h_viper H) \<Longrightarrow> stored cfg g H' = stored cfg g H"
  by (rule ext) (simp add: stored_def value_at_def split: option.splits)

lemma touch_inv:
  assumes I: "index_inv cfg contents ks xs g H"
  shows "index_inv cfg contents ks xs g (touch cfg key H)" "same_store H (touch cfg key H)" "h_buf (touch cfg key H) = h_buf H"
proof -
  let ?hot = "snd (hot_lookup (h_hot H) (key_fingerprint (keys cfg) key))"
  note ht = index_invD(3) [OF I]
  note e = hot_lookup_effect [OF ht, of "key_fingerprint (keys cfg) key"]
  have same: "hot_of cfg (H\<lparr>h_hot := ?hot\<rparr>) k = hot_of cfg H k" for k using e by (simp add: hot_of_def)
  have "index_inv cfg contents ks xs g (H\<lparr>h_hot := ?hot\<rparr>)"
  proof (rule index_inv_hot [OF I])
    show "hot_of cfg (H\<lparr>h_hot := ?hot\<rparr>) k \<in> {None, Some off}" if "g k = Some off" for k off
      using index_invD(8) [OF I that] by (simp add: key_ok_def same)
    show "hot_of cfg (H\<lparr>h_hot := ?hot\<rparr>) k = None" if "k \<in> ks" "k \<notin> xs" "g k = None" for k
      using index_invD(9) [OF I that] by (simp add: same)
  qed (use e in auto)
  then show "index_inv cfg contents ks xs g (touch cfg key H)" using I by (simp add: touch_def)
  show "same_store H (touch cfg key H)" "h_buf (touch cfg key H) = h_buf H" by (simp_all add: touch_def same_store_def)
qed

lemma index_inv_viper:
  fixes H :: "('k, 'v, 'q) HiOM"
  assumes I: "index_inv cfg contents ks {} g H" and k: "k \<in> ks"
    and pts: "\<forall>off. points_into (vcfg cfg) (h_viper H) off \<longrightarrow> points_into (vcfg cfg) V' off"
    and keep: "\<forall>x k' w. k' \<noteq> k \<longrightarrow> records (vcfg cfg) (h_viper H) x = Some (k', w) \<longrightarrow> records (vcfg cfg) V' x = Some (k', w)"
  shows "index_inv cfg contents ks {k} (g(k := None)) (H\<lparr>h_viper := V'\<rparr>)"
proof (rule index_invI)
  let ?H = "H\<lparr>h_viper := V'\<rparr>"
  have c: "cold_of cfg ?H x = cold_of cfg H x" "pending_of cfg contents ?H x = pending_of cfg contents H x" "hot_of cfg ?H x = hot_of cfg H x" for x
    by (simp_all add: cold_of_def pending_of_def hot_of_def)
  show "dom (g(k := None)) \<subseteq> ks - {k}" using index_invD(5) [OF I] by auto
  show "entry_ok cfg ?H (dom (g(k := None)) \<union> {k}) l e" if "l < kNumLanes" "e \<in># lane_entries contents (h_buf ?H) l" for l e
    using index_invD(7) [OF I, of l e] that by (auto simp: entry_ok_def)
  show "key_ok cfg contents ?H x off" if "(g(k := None)) x = Some off" for x off
    using index_invD(8) [OF I, of x off] that keep [rule_format, of x "locate off"] backed_cong [OF c(2,1), of x off]
    by (auto simp: key_ok_def c split: if_splits)
  show "hot_of cfg ?H x = None \<and> cold_of cfg ?H x = None" if "x \<in> ks" "x \<notin> {k}" "(g(k := None)) x = None" for x
    using index_invD(9) [OF I that(1)] that(2,3) by (simp add: c)
  show "points_into (vcfg cfg) (h_viper ?H) off" if "x \<in> ks" "cold_of cfg ?H x = Some off" for x off
    using index_invD(10) [OF I that(1)] that(2) pts by (simp add: c)
qed (use index_invD(1-4,12) [OF I] k in simp_all)

lemma stored_put:
  assumes I: "index_inv cfg contents ks {} g H" and new: "records (vcfg cfg) V' (locate off) = Some (k, v)" and H': "h_viper H' = V'"
    and keep: "\<forall>x k' w. k' \<noteq> k \<longrightarrow> records (vcfg cfg) (h_viper H) x = Some (k', w) \<longrightarrow> records (vcfg cfg) V' x = Some (k', w)"
  shows "stored cfg (g(k \<mapsto> off)) H' x = ((stored cfg g H)(k \<mapsto> v)) x"
proof (cases "x = k \<or> g x = None")
  case True then show ?thesis using new H' by (auto simp: stored_def value_at_def)
next
  case False
  then obtain o' where gx: "g x = Some o'" "x \<noteq> k" by auto
  then obtain w where w: "records (vcfg cfg) (h_viper H) (locate o') = Some (x, w)" using index_invD(8) [OF I gx(1)] by (auto simp: key_ok_def)
  then have "records (vcfg cfg) V' (locate o') = Some (x, w)" using keep gx(2) by metis
  then show ?thesis using gx w H' by (simp add: stored_def value_at_def)
qed

lemma hiom_put_effect:
  fixes H :: "('k, 'v, 'q) HiOM"
  assumes S: "setting cfg q0 contents ks" and inv: "hiom_inv cfg contents ks g H Cs" and k: "k \<in> ks" and i: "i < length Cs"
    and n: "3 \<le> n" "Suc m \<le> n" "all_below contents m H"
    and avail: "fst (current_block_page (h_viper H)) < length (v_blocks (h_viper H))"
  shows "case hiom_put n cfg rnd k v False H (Cs ! i) of Inl e \<Rightarrow> put_aborts H e
    | Inr (is_new, H', C') \<Rightarrow> \<exists>off. hiom_inv cfg contents ks (g(k \<mapsto> off)) H' (Cs[i := C']) \<and> all_below contents (Suc m) H'
        \<and> (\<forall>x \<in> ks. stored cfg (g(k \<mapsto> off)) H' x = ((stored cfg g H)(k \<mapsto> v)) x)
        \<and> length (v_blocks (h_viper H')) = length (v_blocks (h_viper H)) \<and> (h_ckpt H' = None \<longleftrightarrow> h_ckpt H = None)
        \<and> fst (current_block_page (h_viper H')) \<le> fst (current_block_page (h_viper H)) + 1"
proof -
  let ?C = "Cs ! i"
  define H1 where "H1 = (case hc_slot ?C of Some j \<Rightarrow> if h_ckpt H \<noteq> None
      then H\<lparr>h_slots := note_inflight_block j (of_nat (v_block_number (hc_viper ?C))) (h_slots H)\<rparr> else H | None \<Rightarrow> H)"
  have f1: "h_viper H1 = h_viper H" "h_hot H1 = h_hot H" "h_cold H1 = h_cold H" "h_base H1 = h_base H" "h_buf H1 = h_buf H" "h_ckpt H1 = h_ckpt H"
    by (simp_all add: H1_def split: option.splits)
  note h = hiom_invD [OF inv]
  have I1: "index_inv cfg contents ks {} g H1" using h(1) index_inv_same [of H1 H] f1 by simp
  have inst: "installed_resolver cfg H1 = Some (old_offset_resolver (keys cfg) (h_base H1) (h_hot H1) (the (h_cold H1)))"
    using index_invD(1) [OF I1] by (auto simp: installed_resolver_def)
  have iC: "i < length (map hc_viper Cs)" "map hc_viper Cs ! i = hc_viper ?C" using i by simp_all
  obtain is_new V' VC where P: "put 2 (vcfg cfg) (installed_resolver cfg H1) None rnd k v True False (h_viper H1) (hc_viper ?C) = Some (is_new, V', VC)"
    "sys_inv (vcfg cfg) V' ((map hc_viper Cs)[i := VC])" "hiom_owns_index V'" "length (v_blocks V') = length (v_blocks (h_viper H1))"
    "\<forall>off. points_into (vcfg cfg) (h_viper H1) off \<longrightarrow> points_into (vcfg cfg) V' off"
    "\<not> is_tombstone (last_put_offset VC)" "records (vcfg cfg) V' (locate (last_put_offset VC)) = Some (k, v)"
    "\<forall>x k' w. k' \<noteq> k \<longrightarrow> records (vcfg cfg) (h_viper H1) x = Some (k', w) \<longrightarrow> records (vcfg cfg) V' x = Some (k', w)"
    using viper_put_effect [OF settingD(1) [OF S] I1 k h(4) [folded f1(1)] iC(1) h(5) [folded f1(1)], unfolded iC(2), of rnd v] avail f1(1) unfolding inst by auto
  let ?off = "last_put_offset VC" and ?H2 = "(touch cfg k H1)\<lparr>h_viper := V'\<rparr>"
  note t = touch_inv [OF I1, of k]
  have t1: "h_viper (touch cfg k H1) = h_viper H1" "h_base (touch cfg k H1) = h_base H" using t(2) f1 by (simp_all add: same_store_def)
  have I2: "index_inv cfg contents ks {k} (g(k := None)) ?H2"
    by (rule index_inv_viper [OF t(1) k]) (use P(5,8) t1 in simp_all)
  have B2: "all_below contents m ?H2" "pins_all contents ?H2" using n(3) h(2) t(3) f1 by (simp_all add: all_below_def pins_all_def)
  obtain b p s where l: "locate ?off = (b, p, s)" by (cases "locate ?off")
  have "b < length (v_blocks V')" "p < num_pages (vcfg cfg)" "s < num_slots (vcfg cfg)" using P(7) l by (auto simp: records_def split: if_splits)
  then have "encode_kv zero_base_map ?off \<noteq> None"
    using encode_located [OF l] settingD(1,2) [OF S] h(6) P(4) f1 by (auto simp: cfg_ok_def)
  then obtain q where q: "encode_kv (h_base ?H2) ?off = Some q" using h(3) t1 by auto
  have rec: "records (vcfg cfg) (h_viper ?H2) (locate ?off) = Some (k, v)" using P(7) by simp
  note mi = mirror_effect [OF S n(1,2) I2 B2 P(6) q rec, of "?C\<lparr>hc_viper := VC\<rparr>"]
  have run: "hiom_put n cfg rnd k v False H ?C = (case mirror_write_with_offset n cfg k kPut ?off ?H2 (?C\<lparr>hc_viper := VC\<rparr>) of
      Inl e \<Rightarrow> Inl e | Inr (H3, C3) \<Rightarrow> Inr (is_new, H3, C3))"
    using P(1) by (simp add: hiom_put_def H1_def [symmetric] Let_def)
  show ?thesis
  proof (cases "mirror_write_with_offset n cfg k kPut ?off ?H2 (?C\<lparr>hc_viper := VC\<rparr>)")
    case (Inl e) then show ?thesis using run mi t(2) f1 by (auto simp: put_aborts_def same_store_def)
  next
    case (Inr r)
    obtain H3 C3 where r: "r = (H3, C3)" by (cases r)
    have M: "index_inv cfg contents ks {} (g(k \<mapsto> ?off)) H3" "all_below contents (Suc m) H3" "pins_all contents H3" "same_store ?H2 H3" "hc_viper C3 = VC"
      using mi Inr r by auto
    have V3: "h_viper H3 = V'" "h_base H3 = zero_base_map" "h_ckpt H3 = None \<longleftrightarrow> h_ckpt H = None" using M(4) h(3) t1 t(2) f1 by (simp_all add: same_store_def)
    have "hiom_inv cfg contents ks (g(k \<mapsto> ?off)) H3 (Cs[i := C3])"
      using M P h(6) f1 V3 by (simp add: hiom_inv_def map_update)
    moreover have "stored cfg (g(k \<mapsto> ?off)) H3 x = ((stored cfg g H)(k \<mapsto> v)) x" for x
      using stored_put [OF h(1) P(7) V3(1)] P(8) f1 by simp
    moreover have "fst (current_block_page V') \<le> fst (current_block_page (h_viper H)) + 1"
      using put_block_cost [of 1] P(1) f1 by (metis Suc_1)
    ultimately show ?thesis using run Inr r M(2) V3 P(4) f1 by auto
  qed
qed

lemma index_inv_records:
  fixes H :: "('k, 'v, 'q) HiOM"
  assumes I: "index_inv cfg contents ks xs g H" and pts: "\<And>off. points_into (vcfg cfg) (h_viper H) off \<Longrightarrow> points_into (vcfg cfg) V' off"
    and keep: "\<And>x k w. records (vcfg cfg) (h_viper H) x = Some (k, w) \<Longrightarrow> \<exists>w'. records (vcfg cfg) V' x = Some (k, w')"
  shows "index_inv cfg contents ks xs g (H\<lparr>h_viper := V'\<rparr>)"
proof (rule index_invI)
  let ?H = "H\<lparr>h_viper := V'\<rparr>"
  have c: "cold_of cfg ?H x = cold_of cfg H x" "pending_of cfg contents ?H x = pending_of cfg contents H x" "hot_of cfg ?H x = hot_of cfg H x" for x
    by (simp_all add: cold_of_def pending_of_def hot_of_def)
  show "entry_ok cfg ?H (dom g \<union> xs) l e" if "l < kNumLanes" "e \<in># lane_entries contents (h_buf ?H) l" for l e
    using index_invD(7) [OF I, of l e] that by (simp add: entry_ok_def)
  show "key_ok cfg contents ?H x off" if g: "g x = Some off" for x off
  proof -
    have ok: "key_ok cfg contents H x off" by (rule index_invD(8) [OF I g])
    then obtain w where "records (vcfg cfg) (h_viper H) (locate off) = Some (x, w)" by (auto simp: key_ok_def)
    then have "\<exists>w. records (vcfg cfg) V' (locate off) = Some (x, w)" by (rule keep)
    then show ?thesis using ok backed_cong [OF c(2,1), of x off] by (simp add: key_ok_def c)
  qed
  show "hot_of cfg ?H x = None \<and> cold_of cfg ?H x = None" if "x \<in> ks" "x \<notin> xs" "g x = None" for x
    using index_invD(9) [OF I that] by (simp add: c)
  show "points_into (vcfg cfg) (h_viper ?H) off" if "x \<in> ks" "cold_of cfg ?H x = Some off" for x off
    using index_invD(10) [OF I that(1)] that(2) pts by (simp add: c)
qed (use index_invD(1-4,6,12) [OF I] index_inv_dom [OF I] in simp_all)

lemma hiom_inv_locks:
  assumes inv: "hiom_inv cfg contents ks g H Cs" and lc: "lock_cleared (vcfg cfg) (h_viper H) V'"
  shows "hiom_inv cfg contents ks g (H\<lparr>h_viper := V'\<rparr>) Cs" "stored cfg g (H\<lparr>h_viper := V'\<rparr>) = stored cfg g H"
proof -
  have r: "records (vcfg cfg) V' = records (vcfg cfg) (h_viper H)" using lc by (simp add: lock_cleared_def)
  have "index_inv cfg contents ks {} g (H\<lparr>h_viper := V'\<rparr>)"
    by (rule index_inv_records [OF hiom_invD(1) [OF inv]]) (use r lock_cleared_points [OF _ lc] in auto)
  then show "hiom_inv cfg contents ks g (H\<lparr>h_viper := V'\<rparr>) Cs"
    using hiom_invD [OF inv] lock_cleared_sys [OF _ lc] lc by (simp add: hiom_inv_def pins_all_def lock_cleared_def)
  show "stored cfg g (H\<lparr>h_viper := V'\<rparr>) = stored cfg g H" by (rule stored_viper) (simp add: r)
qed

lemma hiom_inv_hot:
  assumes inv: "hiom_inv cfg contents ks g H Cs" and I: "index_inv cfg contents ks {} g (H\<lparr>h_hot := hot\<rparr>)"
  shows "hiom_inv cfg contents ks g (H\<lparr>h_hot := hot\<rparr>) Cs"
  using hiom_invD [OF inv] I by (simp add: hiom_inv_def pins_all_def)

lemma cache_effect:
  assumes S: "setting cfg q0 contents ks" and inv: "hiom_inv cfg contents ks g H Cs" and g: "g k = Some off"
    and none: "peek (h_hot H) (key_fingerprint (keys cfg) k) = None"
  shows "hiom_inv cfg contents ks g (mirror_into_hot_with_offset cfg k off H) Cs"
proof (cases "encode_kv (h_base H) off")
  case None then show ?thesis using inv by (simp add: mirror_into_hot_with_offset_def)
next
  case (Some p)
  let ?fp = "key_fingerprint (keys cfg)"
  let ?hot = "snd (hot_upsert (h_hot H) (?fp k) p)"
  note I = hiom_invD(1) [OF inv] and ht = hiom_invD(8) [OF inv]
  have k: "k \<in> ks" using g index_invD(5) [OF I] by blast
  note ef = hot_upsert_effect [OF ht fingerprint_nonzero [of "keys cfg" k], of p]
  have oth: "kept_or_evicted (h_hot H) ?hot (?fp x)" if "x \<in> ks" "x \<noteq> k" for x
    using hot_upsert_others [OF ht fingerprint_nonzero fingerprint_nonzero distinct_fp [OF S k that]] by simp
  have "index_inv cfg contents ks {} g (H\<lparr>h_hot := ?hot\<rparr>)"
  proof (rule index_inv_hot [OF I])
    show "ht_inv ?hot" using ef by blast
    show "hot_of cfg (H\<lparr>h_hot := ?hot\<rparr>) x \<in> {None, Some o'}" if gx: "g x = Some o'" for x o'
    proof (cases "x = k")
      case True
      then show ?thesis using ef g gx decode_kv_encode_kv [OF Some] by (simp add: hot_of_def)
    next
      case False
      have "x \<in> ks" using gx index_invD(5) [OF I] by blast
      then show ?thesis using kept_hot_of(1) [OF oth [OF _ False]] index_invD(8) [OF I gx] unfolding key_ok_def by auto
    qed
    show "hot_of cfg (H\<lparr>h_hot := ?hot\<rparr>) x = None" if "x \<in> ks" "x \<notin> {}" "g x = None" for x
    proof -
      have "x \<noteq> k" using that(3) g by auto
      then show ?thesis using kept_hot_of(1) [OF oth [OF that(1)]] index_invD(9) [OF I that] by simp
    qed
    show "Hot_Tier_Props.entry_at ?hot (?fp x) = Some q \<and> state_at ?hot q = kPinned"
      if q: "x \<in> ks" "Hot_Tier_Props.entry_at (h_hot H) (?fp x) = Some q" "state_at (h_hot H) q = kPinned" for x q
    proof -
      have "x \<noteq> k" using q(2) none by (auto simp: peek_entry)
      then show ?thesis using kept_hot_of(2) [OF oth [OF q(1)] q(2,3)] ef q(3) by simp
    qed
  qed
  from hiom_inv_hot [OF inv this] show ?thesis by (simp add: mirror_into_hot_with_offset_def Some)
qed

text \<open>What a read leaves as it was.\<close>

definition read_only :: "('k, 'v, 'q) HiOM \<Rightarrow> ('k, 'v, 'q) HiOM \<Rightarrow> bool" where
  "read_only H H' \<longleftrightarrow> h_buf H' = h_buf H \<and> length (v_blocks (h_viper H')) = length (v_blocks (h_viper H))
    \<and> current_block_page (h_viper H') = current_block_page (h_viper H) \<and> h_ckpt H' = h_ckpt H"

lemma lookup_touch:
  assumes "h_cold H \<noteq> None"
  shows "hot_lookup (h_hot H) (key_fingerprint (keys cfg) k) = (peek (h_hot H) (key_fingerprint (keys cfg) k), h_hot (touch cfg k H)) \<or> \<not> ht_inv (h_hot H)"
    and "H\<lparr>h_hot := h_hot (touch cfg k H)\<rparr> = touch cfg k H"
  using assms hot_lookup_effect [of "h_hot H" "key_fingerprint (keys cfg) k"]
  by (auto simp: touch_def prod_eq_iff)

lemma hiom_get_effect:
  fixes H :: "('k, 'v, 'q) HiOM"
  assumes S: "setting cfg q0 contents ks" and inv: "hiom_inv cfg contents ks g H Cs" and k: "k \<in> ks" and get: "hiom_get cfg k H = (r, H')"
  shows "r = stored cfg g H k \<and> hiom_inv cfg contents ks g H' Cs \<and> stored cfg g H' = stored cfg g H \<and> read_only H H'"
proof -
  let ?fp = "key_fingerprint (keys cfg) k" and ?vc = "vcfg cfg"
  define T where "T = touch cfg k H"
  note I = hiom_invD(1) [OF inv]
  note t = touch_inv [OF I, of k, folded T_def]
  have cn: "h_cold H \<noteq> None" by (rule index_invD(1) [OF I])
  have lk: "hot_lookup (h_hot H) ?fp = (peek (h_hot H) ?fp, h_hot T)" and T': "H\<lparr>h_hot := h_hot T\<rparr> = T"
    using lookup_touch [OF cn, of cfg k] hiom_invD(8) [OF inv] by (simp_all add: T_def)
  have fT: "h_viper T = h_viper H" "h_base T = h_base H" "h_cold T = h_cold H" "h_ckpt T = h_ckpt H" "h_buf T = h_buf H" by (simp_all add: T_def touch_def)
  have invT: "hiom_inv cfg contents ks g T Cs" using hiom_invD [OF inv] t(1) by (simp add: hiom_inv_def fT pins_all_def)
  have pT: "peek (h_hot T) fp' = peek (h_hot H) fp'" for fp'
    using hot_lookup_effect [OF hiom_invD(8) [OF inv], of ?fp fp'] lk by simp
  have sT: "stored cfg g T = stored cfg g H" by (rule stored_viper) (simp add: fT)
  have read: "\<exists>v V. verify_and_read_offset k off (h_viper H) = (Some v, V) \<and> stored cfg g H k = Some v
      \<and> hiom_inv cfg contents ks g (T\<lparr>h_viper := V\<rparr>) Cs \<and> stored cfg g (T\<lparr>h_viper := V\<rparr>) = stored cfg g H \<and> lock_cleared ?vc (h_viper H) V"
    if g: "g k = Some off" for off
  proof -
    obtain v where ok: "\<not> is_tombstone off" "records ?vc (h_viper H) (locate off) = Some (k, v)" using index_invD(8) [OF I g] by (auto simp: key_ok_def)
    obtain r V where w: "verify_and_read_offset k off (h_viper H) = (r, V)" by fastforce
    note ve = verify_and_read_effect [OF hiom_invD(7) [OF inv] records_points [OF ok(2)], of k, unfolded w]
    have "r = Some v" using ve(1) ok by (simp add: value_at_def)
    moreover have lc: "lock_cleared ?vc (h_viper T) V" using ve(2) fT by simp
    ultimately show ?thesis using w hiom_inv_locks [OF invT lc] sT g ok fT by (auto simp: stored_def value_at_def)
  qed
  show ?thesis
  proof (cases "peek (h_hot H) ?fp")
    case (Some packed)
    then have h: "hot_of cfg H k = Some (decode_kv (h_base H) packed)" by (simp add: hot_of_def)
    then obtain off where g: "g k = Some off" using index_invD(9) [OF I k] by fastforce
    then have d: "decode_kv (h_base H) packed = off" using index_invD(8) [OF I g] h by (simp add: key_ok_def)
    obtain v V where R: "verify_and_read_offset k off (h_viper H) = (Some v, V)" "stored cfg g H k = Some v"
      "hiom_inv cfg contents ks g (T\<lparr>h_viper := V\<rparr>) Cs" "stored cfg g (T\<lparr>h_viper := V\<rparr>) = stored cfg g H" "lock_cleared ?vc (h_viper H) V" using read [OF g] by blast
    have "r = Some v" "H' = T\<lparr>h_viper := V\<rparr>" using get lk Some d R(1) T' by (auto simp: hiom_get_def)
    then show ?thesis using R fT by (simp add: read_only_def lock_cleared_def)
  next
    case None
    then have slow: "resolve_slow cfg k T = (r, H')" using get lk T' by (simp add: hiom_get_def)
    obtain cold where c: "h_cold T = Some cold" using cn fT by auto
    have cl: "cold_lookup cold (key_fingerprint64 (keys cfg) k) (key_id_of (keys cfg) k) = cold_of cfg H k" using c fT by (simp add: cold_of_def)
    show ?thesis
    proof (cases "g k")
      case g: None
      then have "cold_of cfg H k = None" using index_invD(9) [OF I k] by simp
      then have "r = None" "H' = T" using slow c cl by (simp_all add: resolve_slow_def)
      then show ?thesis using g invT sT fT by (simp add: stored_def read_only_def)
    next
      case g: (Some off)
      obtain v V where R: "verify_and_read_offset k off (h_viper H) = (Some v, V)" "stored cfg g H k = Some v"
        "hiom_inv cfg contents ks g (T\<lparr>h_viper := V\<rparr>) Cs" "stored cfg g (T\<lparr>h_viper := V\<rparr>) = stored cfg g H" "lock_cleared ?vc (h_viper H) V" using read [OF g] by blast
      have "pending_of cfg contents H k = {}" by (rule pinned_pending [OF S I hiom_invD(2) [OF inv] k None])
      then have "cold_of cfg H k = Some off" using index_invD(8) [OF I g] by (simp add: key_ok_def backed_def)
      then have out: "r = Some v" "H' = mirror_into_hot_with_offset cfg k off (T\<lparr>h_viper := V\<rparr>)"
        using slow c cl R(1) fT by (simp_all add: resolve_slow_def)
      have pn: "peek (h_hot (T\<lparr>h_viper := V\<rparr>)) ?fp = None" using None pT by simp
      note ca = cache_effect [OF S R(3) g pn]
      have f: "h_viper H' = V" "h_buf H' = h_buf H" "h_ckpt H' = h_ckpt H" using fT by (simp_all add: out(2) mirror_into_hot_with_offset_def split: option.splits)
      have "stored cfg g H' = stored cfg g H" using stored_viper [of cfg H' H g] f R(5) by (simp add: lock_cleared_def)
      then show ?thesis using out R f ca by (simp add: read_only_def lock_cleared_def)
    qed
  qed
qed

lemma update_outcome:
  fixes H :: "('k, 'v, 'q) HiOM"
  assumes S: "setting cfg q0 contents ks" and inv: "hiom_inv cfg contents ks g H Cs" and k: "k \<in> ks" and c: "h_cold H = Some cold"
    and V0: "V0 = (h_viper H)\<lparr>hiom_map_skipped := hiom_map_skipped (h_viper H) + 1\<rparr>"
    and u: "update_owned (hot_only_resolver (keys cfg) (h_base H) (h_hot H)) (old_offset_resolver (keys cfg) (h_base H) (h_hot H) cold) k f (h_viper H) = (ok, V')"
  shows "(\<exists>off. g k = Some off \<and> ok \<and> update_effect (vcfg cfg) k f (locate off) V0 kApplied V') \<or> \<not> ok \<and> V' = V0"
proof -
  let ?vc = "vcfg cfg" and ?V = "h_viper H"
  let ?hot = "hot_only_resolver (keys cfg) (h_base H) (h_hot H)" and ?res = "old_offset_resolver (keys cfg) (h_base H) (h_hot H) cold"
  note I = hiom_invD(1) [OF inv] and ht = hiom_invD(8) [OF inv]
  have b0: "v_blocks V0 = v_blocks ?V" by (simp add: V0)
  note B = same_blocks [OF b0]
  have sh0: "store_shape ?vc V0" using hiom_invD(7) [OF inv] B by simp
  have hotoff: "?hot V0 k = (case hot_of cfg H k of None \<Rightarrow> Tombstone | Some off \<Rightarrow> off)"
    using hot_lookup_effect [OF ht, of "key_fingerprint (keys cfg) k"] by (auto simp: hot_only_resolver_def hot_of_def split: option.splits)
  have tomb: "is_tombstone Tombstone" by (simp add: is_tombstone_def Tombstone_def)
  have tried: "\<exists>V1. try_until k f off V0 = (kApplied, V1) \<and> update_effect ?vc k f (locate off) V0 kApplied V1"
    if g: "g k = Some off" for off
  proof -
    obtain v where ok: "\<not> is_tombstone off" "records ?vc V0 (locate off) = Some (k, v)" using index_invD(8) [OF I g] B(2) by (auto simp: key_ok_def)
    obtain r V1 where t: "try_until k f off V0 = (r, V1)" by fastforce
    note e = try_until_effect [OF sh0 records_points [OF ok(2)] ok(1) t]
    have "r = kApplied" using e(2,3) ok(2) by (cases r) auto
    then show ?thesis using t e(1) by blast
  qed
  show ?thesis
  proof (cases "hot_of cfg H k")
    case (Some o')
    then obtain off where g: "g k = Some off" using index_invD(9) [OF I k] by fastforce
    then have o: "o' = off" "\<not> is_tombstone off" using index_invD(8) [OF I g] Some by (auto simp: key_ok_def)
    obtain V1 where V1: "try_until k f off V0 = (kApplied, V1)" "update_effect ?vc k f (locate off) V0 kApplied V1" using tried [OF g] by blast
    have "update_owned ?hot ?res k f ?V = (True, V1)"
      using update_owned_hot [where hot = ?hot and resolver = ?res and k = k and f = f, OF V0, of kApplied V1] V1(1) Some o hotoff by simp
    then show ?thesis using u g V1(2) by auto
  next
    case None
    have U: "update_owned ?hot ?res k f ?V = (if is_tombstone (?res V0 k) then (False, V0) else case try_until k f (?res V0 k) V0 of (r', V2) \<Rightarrow> (r' = kApplied, V2))"
      using update_owned_hot [where hot = ?hot and resolver = ?res and k = k and f = f, OF V0, of kKeyMismatch V0] None hotoff tomb by simp
    show ?thesis
    proof (cases "is_tombstone (?res V0 k)")
      case True then show ?thesis using U u by simp
    next
      case False
      then have "?res V0 k \<in> tier_offsets (keys cfg) (h_base H) (h_hot H) cold k"
        using resolver_cases [OF ht, of "keys cfg" "h_base H" cold V0 k] tomb by auto
      moreover have pn: "peek (h_hot H) (key_fingerprint (keys cfg) k) = None" using None by (simp add: hot_of_def)
      ultimately have cl: "cold_of cfg H k = Some (?res V0 k)" using c by (auto simp: tier_offsets_def cold_of_def)
      then obtain off where g: "g k = Some off" using index_invD(9) [OF I k] by fastforce
      have "pending_of cfg contents H k = {}" by (rule pinned_pending [OF S I hiom_invD(2) [OF inv] k pn])
      then have off: "?res V0 k = off" using index_invD(8) [OF I g] cl by (simp add: key_ok_def backed_def)
      obtain V1 where V1: "try_until k f off V0 = (kApplied, V1)" "update_effect ?vc k f (locate off) V0 kApplied V1" using tried [OF g] by blast
      have "update_owned ?hot ?res k f ?V = (True, V1)" using U False V1(1) by (simp add: off)
      then show ?thesis using u g V1(2) by auto
    qed
  qed
qed

lemma applied_inv:
  fixes H :: "('k, 'v, 'q) HiOM"
  assumes I: "index_inv cfg contents ks {} g H" and g: "g k = Some off" and rv: "records (vcfg cfg) (h_viper H) (locate off) = Some (k, v)"
    and r': "records (vcfg cfg) V' = (records (vcfg cfg) (h_viper H))(locate off \<mapsto> (k, f v))"
    and pts: "\<And>o'. points_into (vcfg cfg) (h_viper H) o' \<Longrightarrow> points_into (vcfg cfg) V' o'"
  shows "index_inv cfg contents ks {} g (H\<lparr>h_viper := V'\<rparr>)" and "stored cfg g (H\<lparr>h_viper := V'\<rparr>) x = ((stored cfg g H)(k \<mapsto> f v)) x"
proof -
  show "index_inv cfg contents ks {} g (H\<lparr>h_viper := V'\<rparr>)"
    by (rule index_inv_records [OF I pts]) (use rv r' in \<open>auto split: if_splits\<close>)
  show "stored cfg g (H\<lparr>h_viper := V'\<rparr>) x = ((stored cfg g H)(k \<mapsto> f v)) x"
  proof (cases "x = k \<or> g x = None")
    case True then show ?thesis using g r' by (auto simp: stored_def value_at_def)
  next
    case False
    then obtain o' where gx: "g x = Some o'" "x \<noteq> k" by auto
    then obtain w where w: "records (vcfg cfg) (h_viper H) (locate o') = Some (x, w)" using index_invD(8) [OF I gx(1)] by (auto simp: key_ok_def)
    then have "locate o' \<noteq> locate off" using rv gx(2) by auto
    then show ?thesis using gx w r' by (simp add: stored_def value_at_def)
  qed
qed

lemma hiom_update_effect:
  fixes H :: "('k, 'v, 'q) HiOM"
  assumes S: "setting cfg q0 contents ks" and inv: "hiom_inv cfg contents ks g H Cs" and k: "k \<in> ks" and up: "hiom_update cfg k f H = Some (ok, H')"
  shows "hiom_inv cfg contents ks g H' Cs \<and> read_only H H' \<and>
    (if ok then \<exists>v. stored cfg g H k = Some v \<and> (\<forall>x. stored cfg g H' x = ((stored cfg g H)(k \<mapsto> f v)) x)
     else stored cfg g H' = stored cfg g H)"
proof -
  let ?vc = "vcfg cfg" and ?V = "h_viper H" and ?T = "touch cfg k H"
  note I = hiom_invD(1) [OF inv]
  obtain cold where c: "h_cold H = Some cold" using index_invD(1) [OF I] by auto
  let ?hot = "hot_only_resolver (keys cfg) (h_base H) (h_hot H)" and ?res = "old_offset_resolver (keys cfg) (h_base H) (h_hot H) cold"
  obtain V' where u: "update_owned ?hot ?res k f ?V = (ok, V')" and H': "H' = ?T\<lparr>h_viper := V'\<rparr>"
    using up c by (auto simp: hiom_update_def split: prod.splits)
  define V0 where "V0 = ?V\<lparr>hiom_map_skipped := hiom_map_skipped ?V + 1\<rparr>"
  have b0: "v_blocks V0 = v_blocks ?V" by (simp add: V0_def)
  note B = same_blocks [OF b0]
  have inv0: "sys_inv ?vc V0 (map hc_viper Cs)" using hiom_invD(4) [OF inv] B b0 by (simp add: sys_inv_def store_inv_def client_ok_def V0_def)
  note t = touch_inv [OF I, of k]
  have fT: "h_viper ?T = ?V" "h_base ?T = h_base H" "h_buf ?T = h_buf H" "h_ckpt ?T = h_ckpt H" by (simp_all add: touch_def)
  from update_outcome [OF S inv k c V0_def u] show ?thesis
  proof (elim disjE exE conjE)
    fix off assume g: "g k = Some off" and ok: ok and E: "update_effect ?vc k f (locate off) V0 kApplied V'"
    obtain v where rv: "records ?vc ?V (locate off) = Some (k, v)" and r': "records ?vc V' = (records ?vc ?V)(locate off \<mapsto> (k, f v))"
      using E B(2) by (auto simp: update_effect_def)
    have f': "length (v_blocks V') = length (v_blocks ?V)" "current_block_page V' = current_block_page ?V" "hiom_owns_index V'"
      using E b0 hiom_invD(5) [OF inv] by (auto simp: update_effect_def V0_def)
    have "points_into ?vc V' o'" if "points_into ?vc ?V o'" for o'
      using that E b0 B(1) by (auto simp: points_into_def update_effect_def in_range_def)
    note A = applied_inv [OF t(1) g, of v V' f, unfolded fT, OF rv r' this, folded H']
    note A(1)
    moreover have "sys_inv ?vc V' (map hc_viper Cs)" by (rule update_effect_inv [OF inv0 E])
    ultimately have "hiom_inv cfg contents ks g H' Cs" using hiom_invD(2,3,6) [OF inv] f' fT by (simp add: hiom_inv_def H' pins_all_def)
    moreover have "stored cfg g H' x = ((stored cfg g H)(k \<mapsto> f v)) x" for x using A(2) stored_viper [of cfg ?T H g] fT by simp
    moreover have "stored cfg g H k = Some v" using g rv by (simp add: stored_def value_at_def)
    ultimately show ?thesis using ok f' fT by (auto simp: read_only_def H')
  next
    assume a: "\<not> ok" "V' = V0"
    have I0: "index_inv cfg contents ks {} g H'" unfolding H' a(2)
      by (rule index_inv_records [OF t(1)]) (use B b0 fT in \<open>auto simp: points_into_def\<close>)
    have "hiom_inv cfg contents ks g H' Cs"
      using hiom_invD(2,3,5,6) [OF inv] inv0 I0 fT by (simp add: hiom_inv_def H' a(2) pins_all_def V0_def)
    moreover have "stored cfg g H' = stored cfg g H" by (rule stored_viper) (simp add: H' a(2) B(2))
    ultimately show ?thesis using a fT by (simp add: read_only_def H' V0_def)
  qed
qed

end
