(* ===== verification/Hiom_Map.thy ===== *)
theory Hiom_Map
  imports Hiom_Refine
begin

text \<open>
  The specification of HiOM as a finite map, runs of client operations interleaved with drains, and the
  simulation: every run reads and writes the map. The small instance of Hiom_Props serves as the
  example. Removals are left out of the runs: between a removal and the next flush a read may find an
  older record of the key (Hiom_Remove).
\<close>

section \<open>Operations and their specification\<close>

datatype ('k, 'v) hiom_op = OpPut nat nat 'k 'v | OpGet 'k | OpUpdate 'k "'v \<Rightarrow> 'v" | OpDrain nat | OpFlush

datatype 'v hiom_out = OutDone | OutVal "'v option" | OutOk bool

text \<open>The map after an operation that reported \<open>out\<close>; \<open>None\<close> when it may not report that. An update may
  fail, and then changes nothing.\<close>

fun spec_step :: "('k, 'v) hiom_op \<Rightarrow> 'v hiom_out \<Rightarrow> ('k \<rightharpoonup> 'v) \<Rightarrow> ('k \<rightharpoonup> 'v) option" where
  "spec_step (OpPut i rnd k v) out m = (case out of OutDone \<Rightarrow> Some (m(k \<mapsto> v)) | _ \<Rightarrow> None)"
| "spec_step (OpGet k) out m = (case out of OutVal r \<Rightarrow> if r = m k then Some m else None | _ \<Rightarrow> None)"
| "spec_step (OpUpdate k f) out m =
    (case out of OutOk ok \<Rightarrow> if ok then map_option (\<lambda>v. m(k \<mapsto> f v)) (m k) else Some m | _ \<Rightarrow> None)"
| "spec_step (OpDrain f) out m = (case out of OutDone \<Rightarrow> Some m | _ \<Rightarrow> None)"
| "spec_step OpFlush out m = (case out of OutDone \<Rightarrow> Some m | _ \<Rightarrow> None)"

fun spec_run :: "('k, 'v) hiom_op list \<Rightarrow> 'v hiom_out list \<Rightarrow> ('k \<rightharpoonup> 'v) \<Rightarrow> ('k \<rightharpoonup> 'v) option" where
  "spec_run [] [] m = Some m"
| "spec_run (x # xs) (out # outs) m = (case spec_step x out m of None \<Rightarrow> None | Some m' \<Rightarrow> spec_run xs outs m')"
| "spec_run _ _ m = None"

lemma spec_run_length: "spec_run xs outs m = Some m' \<Longrightarrow> length outs = length xs"
  by (induction xs outs m rule: spec_run.induct) (auto split: option.splits)

fun hiom_step :: "nat \<Rightarrow> ('k, 'q) HConfig \<Rightarrow> ('k, 'v) hiom_op \<Rightarrow> ('k, 'v, 'q) HiOM \<times> HClient list \<Rightarrow>
    hiom_error + ('v hiom_out \<times> ('k, 'v, 'q) HiOM \<times> HClient list)" where
  "hiom_step n cfg (OpPut i rnd k v) (H, Cs) =
    (case hiom_put n cfg rnd k v False H (Cs ! i) of Inl e \<Rightarrow> Inl e | Inr (_, H', C') \<Rightarrow> Inr (OutDone, H', Cs[i := C']))"
| "hiom_step n cfg (OpGet k) (H, Cs) = (case hiom_get cfg k H of (r, H') \<Rightarrow> Inr (OutVal r, H', Cs))"
| "hiom_step n cfg (OpUpdate k f) (H, Cs) =
    (case hiom_update cfg k f H of None \<Rightarrow> Inl HStuck | Some (ok, H') \<Rightarrow> Inr (OutOk ok, H', Cs))"
| "hiom_step n cfg (OpDrain f) (H, Cs) = (case drain_once n cfg f H of Inl e \<Rightarrow> Inl e | Inr (_, H') \<Rightarrow> Inr (OutDone, H', Cs))"
| "hiom_step n cfg OpFlush (H, Cs) = (case flush_and_wait n n cfg H of Inl e \<Rightarrow> Inl e | Inr H' \<Rightarrow> Inr (OutDone, H', Cs))"

fun hiom_run :: "nat \<Rightarrow> ('k, 'q) HConfig \<Rightarrow> ('k, 'v) hiom_op list \<Rightarrow> ('k, 'v, 'q) HiOM \<times> HClient list \<Rightarrow>
    hiom_error + ('v hiom_out list \<times> ('k, 'v, 'q) HiOM \<times> HClient list)" where
  "hiom_run n cfg [] s = Inr ([], s)"
| "hiom_run n cfg (x # xs) s =
    (case hiom_step n cfg x s of Inl e \<Rightarrow> Inl e
     | Inr (out, s') \<Rightarrow> (case hiom_run n cfg xs s' of Inl e \<Rightarrow> Inl e | Inr (outs, s'') \<Rightarrow> Inr (out # outs, s'')))"

definition op_ok :: "('k, 'q) HConfig \<Rightarrow> 'k set \<Rightarrow> nat \<Rightarrow> ('k, 'v) hiom_op \<Rightarrow> bool" where
  "op_ok cfg ks clients x \<longleftrightarrow>
    (case x of OpPut i rnd k v \<Rightarrow> i < clients \<and> k \<in> ks | OpGet k \<Rightarrow> k \<in> ks | OpUpdate k f \<Rightarrow> k \<in> ks
     | OpDrain f \<Rightarrow> f < num_flushers cfg | OpFlush \<Rightarrow> True)"

section \<open>The simulation\<close>

text \<open>The state holds the map \<open>m\<close> on the keys \<open>ks\<close>.\<close>

definition represents :: "('k, 'q) HConfig \<Rightarrow> ('q \<Rightarrow> CommitEntry multiset) \<Rightarrow> 'k set \<Rightarrow> ('k \<rightharpoonup> 'v) \<Rightarrow> ('k, 'v, 'q) HiOM \<times> HClient list \<Rightarrow> bool" where
  "represents cfg contents ks m s \<longleftrightarrow> (\<exists>g. hiom_inv cfg contents ks g (fst s) (snd s) \<and> (\<forall>k \<in> ks. m k = stored cfg g (fst s) k))"

text \<open>Room for \<open>r\<close> more operations, \<open>p\<close> of them puts: as many blocks, and a bound that exceeds every lane.\<close>

definition put_cost :: "('k, 'v) hiom_op \<Rightarrow> nat" where
  "put_cost x = (case x of OpPut i rnd k v \<Rightarrow> 1 | _ \<Rightarrow> 0)"

definition room :: "nat \<Rightarrow> ('q \<Rightarrow> CommitEntry multiset) \<Rightarrow> nat \<Rightarrow> nat \<Rightarrow> ('k, 'v, 'q) HiOM \<Rightarrow> bool" where
  "room n contents r p H \<longleftrightarrow> fst (current_block_page (h_viper H)) + p \<le> length (v_blocks (h_viper H)) \<and> (\<exists>j. j + r \<le> n \<and> all_below contents j H)"

lemma hiom_inv_emptied:
  assumes "hiom_inv cfg contents ks g H Cs" "emptied contents L H H'" "index_inv cfg contents ks {} g H'"
  shows "hiom_inv cfg contents ks g H' Cs" "stored cfg g H' = stored cfg g H"
proof -
  have v: "h_viper H' = h_viper H" "h_base H' = h_base H" using assms(2) by (simp_all add: emptied_def)
  show "hiom_inv cfg contents ks g H' Cs"
    using hiom_invD [OF assms(1)] emptied_pins [OF assms(2)] assms(3) v by (simp add: hiom_inv_def)
  show "stored cfg g H' = stored cfg g H" by (rule stored_viper) (simp add: v)
qed

lemma room_less:
  assumes "room n contents (Suc r) p H" "current_block_page (h_viper H') = current_block_page (h_viper H)"
    "length (v_blocks (h_viper H')) = length (v_blocks (h_viper H))" "\<And>j. all_below contents j H \<Longrightarrow> all_below contents j H'"
  shows "room n contents r p H'"
proof -
  obtain j where "j + Suc r \<le> n" "all_below contents j H" using assms(1) by (auto simp: room_def)
  then have "j + r \<le> n" "all_below contents j H'" using assms(4) by simp_all
  then show ?thesis using assms(1-3) unfolding room_def by auto
qed

lemma room_emptied: "room n contents (Suc r) p H \<Longrightarrow> emptied contents L H H' \<Longrightarrow> room n contents r p H'"
  by (erule room_less) (simp_all add: emptied_below, simp_all add: emptied_def)

lemma room_read: "room n contents (Suc r) p H \<Longrightarrow> read_only H H' \<Longrightarrow> room n contents r p H'"
  by (erule room_less) (simp_all add: read_only_def all_below_def)

lemma drainable_room:
  assumes "hiom_inv cfg contents ks g H Cs" "room n contents r p H"
  shows "drainable n cfg contents ks {} g H"
proof -
  obtain j where j: "j + r \<le> n" "all_below contents j H" using assms(2) by (auto simp: room_def)
  then have "all_below contents n H" by (intro below_mono [OF j(2)]) simp
  then show ?thesis using hiom_invD(1) [OF assms(1)] by (simp add: drainable_def)
qed

lemma drain_represents:
  assumes inv: "hiom_inv cfg contents ks g H Cs" and m: "\<forall>k \<in> ks. m k = stored cfg g H k" and R: "room n contents (Suc r) p H"
    and dr: "drained n cfg contents ks {} g L H res"
  shows "case res of Inl e \<Rightarrow> put_aborts H e
    | Inr H' \<Rightarrow> represents cfg contents ks m (H', Cs) \<and> room n contents r p H' \<and> (h_ckpt H' = None \<longleftrightarrow> h_ckpt H = None)"
proof (cases res)
  case (Inl e) then show ?thesis using dr aborts_put by (simp add: drained_Inl)
next
  case (Inr H')
  then have d: "index_inv cfg contents ks {} g H'" "emptied contents L H H'" using dr by (simp_all add: drained_Inr drainable_def)
  then show ?thesis using Inr hiom_inv_emptied [OF inv d(2,1)] room_emptied [OF R d(2)] m by (auto simp: represents_def emptied_def)
qed

lemma drain_once_drained:
  assumes S: "setting cfg q0 contents ks" and D: "drainable n cfg contents ks xs g H" and n: "2 \<le> n" and f: "f < num_flushers cfg"
  shows "drained n cfg contents ks xs g (flusher_lanes cfg f) H (case drain_once n cfg f H of Inl e \<Rightarrow> Inl e | Inr (_, H') \<Rightarrow> Inr H')"
proof -
  have "h_cold H \<noteq> None" using index_invD(1) D unfolding drainable_def by blast
  then show ?thesis using drain_flusher [OF S D n f] by (auto simp: drained_def drain_once_def split: sum.splits)
qed

lemma step_simulation:
  fixes H :: "('k, 'v, 'q) HiOM"
  assumes S: "setting cfg q0 contents ks" and n: "3 \<le> n" and rep: "represents cfg contents ks m (H, Cs)" and R: "room n contents (Suc r) (put_cost x + p) H"
    and x: "op_ok cfg ks (length Cs) x"
  shows "case hiom_step n cfg x (H, Cs) of Inl e \<Rightarrow> put_aborts H e
    | Inr (out, H', Cs') \<Rightarrow> (\<exists>m'. spec_step x out m = Some m' \<and> represents cfg contents ks m' (H', Cs')) \<and> room n contents r p H'
        \<and> (h_ckpt H' = None \<longleftrightarrow> h_ckpt H = None) \<and> length Cs' = length Cs"
proof -
  obtain g where inv: "hiom_inv cfg contents ks g H Cs" and m: "\<forall>k \<in> ks. m k = stored cfg g H k" using rep by (auto simp: represents_def)
  have D: "drainable n cfg contents ks {} g H" by (rule drainable_room [OF inv R])
  have n2: "2 \<le> n" "1 \<le> n" using n by simp_all
  show ?thesis
  proof (cases x)
    case (OpPut i rnd k v)
    have ik: "i < length Cs" "k \<in> ks" using x OpPut by (simp_all add: op_ok_def)
    obtain j where j: "j + Suc r \<le> n" "all_below contents j H" and av: "fst (current_block_page (h_viper H)) < length (v_blocks (h_viper H))"
      "fst (current_block_page (h_viper H)) + Suc p \<le> length (v_blocks (h_viper H))" using R OpPut by (auto simp: room_def put_cost_def)
    have jn: "Suc j \<le> n" using j by simp
    note pe = hiom_put_effect [OF S inv ik(2,1) n jn j(2) av(1), where rnd = rnd and v = v]
    show ?thesis
    proof (cases "hiom_put n cfg rnd k v False H (Cs ! i)")
      case (Inl e) then show ?thesis using pe OpPut by simp
    next
      case (Inr res)
      obtain b H' C' where res: "res = (b, H', C')" by (cases res)
      obtain off where P: "hiom_inv cfg contents ks (g(k \<mapsto> off)) H' (Cs[i := C'])" "all_below contents (Suc j) H'"
        "\<forall>x \<in> ks. stored cfg (g(k \<mapsto> off)) H' x = ((stored cfg g H)(k \<mapsto> v)) x" "length (v_blocks (h_viper H')) = length (v_blocks (h_viper H))"
        "h_ckpt H' = None \<longleftrightarrow> h_ckpt H = None" "fst (current_block_page (h_viper H')) \<le> fst (current_block_page (h_viper H)) + 1"
        using pe Inr res by auto
      have "represents cfg contents ks (m(k \<mapsto> v)) (H', Cs[i := C'])" unfolding represents_def using P(1,3) m by auto
      moreover have "room n contents r p H'" unfolding room_def using P(2,4,6) av(2) j(1) by (intro conjI exI [of _ "Suc j"]) simp_all
      ultimately show ?thesis using OpPut Inr res P(5) by simp
    qed
  next
    case (OpGet k)
    have k: "k \<in> ks" and R: "room n contents (Suc r) p H" using x R OpGet by (simp_all add: op_ok_def put_cost_def)
    obtain res H' where get: "hiom_get cfg k H = (res, H')" by fastforce
    note ge = hiom_get_effect [OF S inv k get]
    then have "represents cfg contents ks m (H', Cs)" using m by (auto simp: represents_def)
    then show ?thesis using ge OpGet get m k room_read [OF R] by (simp add: read_only_def)
  next
    case (OpUpdate k f)
    have k: "k \<in> ks" and R: "room n contents (Suc r) p H" using x R OpUpdate by (simp_all add: op_ok_def put_cost_def)
    have "hiom_update cfg k f H \<noteq> None" using index_invD(1) [OF hiom_invD(1) [OF inv]] by (auto simp: hiom_update_def split: prod.splits)
    then obtain ok H' where up: "hiom_update cfg k f H = Some (ok, H')" by auto
    note ue = hiom_update_effect [OF S inv k up]
    have ro: "read_only H H'" using ue by blast
    show ?thesis
    proof (cases ok)
      case True
      then obtain v where v: "stored cfg g H k = Some v" "\<forall>x. stored cfg g H' x = ((stored cfg g H)(k \<mapsto> f v)) x" using ue by auto
      then have "represents cfg contents ks (m(k \<mapsto> f v)) (H', Cs)" using ue m by (auto simp: represents_def)
      then show ?thesis using OpUpdate up True v(1) m k room_read [OF R ro] ro by (simp add: read_only_def)
    next
      case False
      then have "represents cfg contents ks m (H', Cs)" using ue m by (auto simp: represents_def)
      then show ?thesis using OpUpdate up False room_read [OF R ro] ro by (simp add: read_only_def)
    qed
  next
    case (OpDrain f)
    have f: "f < num_flushers cfg" and R: "room n contents (Suc r) p H" using x R OpDrain by (simp_all add: op_ok_def put_cost_def)
    show ?thesis using drain_represents [OF inv m R drain_once_drained [OF S D n2(1) f]] OpDrain by (auto split: sum.splits)
  next
    case OpFlush
    then have R: "room n contents (Suc r) p H" using R by (simp add: put_cost_def)
    show ?thesis using drain_represents [OF inv m R flush_and_wait_effect [OF S D n2]] OpFlush by (auto split: sum.splits)
  qed
qed

lemma run_simulation:
  fixes H :: "('k, 'v, 'q) HiOM"
  assumes S: "setting cfg q0 contents ks" and n: "3 \<le> n" and rep: "represents cfg contents ks m (H, Cs)" and R: "room n contents (length xs) (sum_list (map put_cost xs)) H"
    and x: "\<forall>x \<in> set xs. op_ok cfg ks (length Cs) x"
  shows "case hiom_run n cfg xs (H, Cs) of Inl e \<Rightarrow> put_aborts H e
    | Inr (outs, s') \<Rightarrow> \<exists>m'. spec_run xs outs m = Some m' \<and> represents cfg contents ks m' s'"
  using rep R x
proof (induction xs arbitrary: H Cs m)
  case (Cons x xs)
  have R: "room n contents (Suc (length xs)) (put_cost x + sum_list (map put_cost xs)) H" and x: "op_ok cfg ks (length Cs) x" using Cons.prems(2,3) by simp_all
  note st = step_simulation [OF S n Cons.prems(1) R x]
  show ?case
  proof (cases "hiom_step n cfg x (H, Cs)")
    case (Inl e) then show ?thesis using st by simp
  next
    case (Inr res)
    obtain out H1 Cs1 where res: "res = (out, H1, Cs1)" by (cases res)
    obtain m1 where 1: "spec_step x out m = Some m1" "represents cfg contents ks m1 (H1, Cs1)" "room n contents (length xs) (sum_list (map put_cost xs)) H1"
      "h_ckpt H1 = None \<longleftrightarrow> h_ckpt H = None" "length Cs1 = length Cs" using st Inr res by auto
    have IH: "case hiom_run n cfg xs (H1, Cs1) of Inl e \<Rightarrow> put_aborts H1 e
      | Inr (outs, s') \<Rightarrow> \<exists>m'. spec_run xs outs m1 = Some m' \<and> represents cfg contents ks m' s'"
      by (rule Cons.IH [OF 1(2,3)]) (use Cons.prems(3) 1(5) in simp)
    then show ?thesis using Inr res 1(1,4) by (auto simp: put_aborts_def split: sum.splits)
  qed
qed (simp add: represents_def)

section \<open>A fresh instance\<close>

text \<open>An instance on a cold tier that points to live records of its keys holds the map these records form;
  this is the state in which recovery leaves the store.\<close>

definition indexed :: "('k, 'q) HConfig \<Rightarrow> ColdTier \<Rightarrow> ('k, 'v) Viper \<Rightarrow> ('k \<rightharpoonup> 'v)" where
  "indexed cfg c V k = (case cold_lookup c (key_fingerprint64 (keys cfg) k) (key_id_of (keys cfg) k) of
     None \<Rightarrow> None | Some off \<Rightarrow> value_at (vcfg cfg) V k off)"

lemma new_represents:
  assumes q: "queue_ok q0 (q_enq cfg) (q_deq cfg) contents" and c: "cold_inv c" and V: "sys_inv (vcfg cfg) V (map hc_viper Cs)" "hiom_owns_index V"
      "length (v_blocks V) \<le> 2 ^ 21" and hb: "hb \<le> 63" and ample: "ample (cells_of (keys cfg) ks) c"
    and live: "\<And>k off. k \<in> ks \<Longrightarrow> cold_lookup c (key_fingerprint64 (keys cfg) k) (key_id_of (keys cfg) k) = Some off \<Longrightarrow>
      \<not> is_tombstone off \<and> (\<exists>v. records (vcfg cfg) V (locate off) = Some (k, v))"
  shows "represents cfg contents ks (indexed cfg c V) (hiom_new q0 V (2 ^ hb) (Some c) ck, Cs)"
proof -
  let ?H = "hiom_new q0 V (2 ^ hb) (Some c) ck"
  define g where "g = (\<lambda>k. if k \<in> ks then cold_lookup c (key_fingerprint64 (keys cfg) k) (key_id_of (keys cfg) k) else None)"
  have f: "h_viper ?H = V" "h_hot ?H = hot_new (2 ^ hb)" "h_cold ?H = Some c" "h_buf ?H = new_buffer q0" "h_base ?H = zero_base_map" by (simp_all add: hiom_new_def)
  have q0: "contents q0 = {#}" using q by (simp add: queue_ok_def)
  have lane: "lane_entries contents (h_buf ?H) l = {#}" if "l < kNumLanes" for l using that q0 by (simp add: f new_buffer_def lane_entries_def)
  have pend: "pending_of cfg contents ?H k = {}" for k using lane by (auto simp: pending_of_def)
  have hot: "hot_of cfg ?H k = None" for k using peek_new [OF fingerprint_nonzero hb] by (simp add: hot_of_def f)
  have cold: "cold_of cfg ?H k = g k" if "k \<in> ks" for k using that by (simp add: cold_of_def f g_def)
  have gk: "k \<in> ks \<and> \<not> is_tombstone off \<and> (\<exists>v. records (vcfg cfg) V (locate off) = Some (k, v))" if "g k = Some off" for k off
    using that live [of k off] by (auto simp: g_def split: if_splits)
  have "index_inv cfg contents ks {} g ?H"
  proof (rule index_invI)
    show "dom g \<subseteq> ks - {}" using gk by (auto simp: dom_def)
    show "ht_inv (h_hot ?H)" using ht_inv_new [OF hb] by (simp add: f)
    show "buffer_inv contents (h_buf ?H)" using new_buffer_inv(1) [OF q] by (simp add: f)
    show "entry_ok cfg ?H (dom g \<union> {}) l e" if "l < kNumLanes" "e \<in># lane_entries contents (h_buf ?H) l" for l e using that lane by simp
    show "key_ok cfg contents ?H k off" if "g k = Some off" for k off
      using gk [OF that] that cold hot pend by (simp add: key_ok_def backed_def f)
    show "hot_of cfg ?H k = None \<and> cold_of cfg ?H k = None" if "k \<in> ks" "k \<notin> {}" "g k = None" for k using that hot cold by simp
    show "points_into (vcfg cfg) (h_viper ?H) off" if "k \<in> ks" "cold_of cfg ?H k = Some off" for k off
      using gk [of k off] cold that records_points by (fastforce simp: f)
  qed (use c ample in \<open>simp_all add: f\<close>)
  then have "hiom_inv cfg contents ks g ?H Cs" using V lane by (simp add: hiom_inv_def f pins_all_def)
  moreover have "\<forall>k \<in> ks. indexed cfg c V k = stored cfg g ?H k" by (auto simp: indexed_def stored_def f g_def split: option.split)
  ultimately show ?thesis unfolding represents_def by auto
qed

lemma hint_bounds:
  assumes "buffer_inv contents (h_buf H)"
  shows "all_below contents (Suc (size_hint (h_buf H))) H"
  unfolding all_below_def
proof (intro allI impI)
  fix l assume l: "l < kNumLanes"
  have "approx (lanes (h_buf H) ! l) \<le> size_hint (h_buf H)" unfolding size_hint_def
    by (rule member_le_sum_list) (use buffer_invD(3) [OF assms l] l in auto)
  then show "size (lane_entries contents (h_buf H) l) < Suc (size_hint (h_buf H))" using buffer_invD(2) [OF assms l] by simp
qed

section \<open>Results\<close>

text \<open>C1. HiOM is a map. Take an instance that holds the map \<open>m\<close> on a set of keys without fingerprint
  collisions, with an overflow bucket in the cold tier for each key it does not hold there, and run any
  sequence of puts by its clients, gets, updates and drains of its flushers. With a block for each put and
  a bound that exceeds the number of entries that can be buffered, the run completes (with checkpoints it
  may instead stop at the ring of pending blocks, which reports corruption or keeps a client waiting).
  Every get has then returned the value of the last preceding put or successful update of its key, and
  the instance holds the final map.\<close>

theorem hiom_is_map:
  assumes "setting cfg q0 contents ks" "represents cfg contents ks m (H, Cs)" "\<forall>x \<in> set xs. op_ok cfg ks (length Cs) x"
    and "3 \<le> n" "size_hint (h_buf H) + length xs < n"
    and "fst (current_block_page (h_viper H)) + sum_list (map put_cost xs) \<le> length (v_blocks (h_viper H))"
  shows "case hiom_run n cfg xs (H, Cs) of
      Inl e \<Rightarrow> h_ckpt H \<noteq> None \<and> e \<in> {HRingFatal, HStuck}
    | Inr (outs, s') \<Rightarrow> \<exists>m'. spec_run xs outs m = Some m' \<and> represents cfg contents ks m' s'"
proof -
  obtain g where "hiom_inv cfg contents ks g H Cs" using assms(2) by (auto simp: represents_def)
  then have "all_below contents (Suc (size_hint (h_buf H))) H" using hint_bounds index_invD(4) hiom_invD(1) by blast
  then have "room n contents (length xs) (sum_list (map put_cost xs)) H"
    using assms(5,6) unfolding room_def by (intro conjI exI [of _ "Suc (size_hint (h_buf H))"]) simp_all
  from run_simulation [OF assms(1,4,2) this assms(3)] show ?thesis
    unfolding put_aborts_def by (auto split: sum.splits)
qed

text \<open>C2. Flushing returns. On an instance that holds the map \<open>m\<close>, with a bound that exceeds the number of
  buffered entries, \<open>flush_and_wait\<close> returns after its first turn (with checkpoints it may instead report
  a corrupt ring of pending blocks). The buffer is then empty, the instance holds the same map, and for
  every key the cold tier alone leads to its value.\<close>

theorem flush_returns:
  fixes H :: "('k, 'v, 'q) HiOM"
  assumes "setting cfg q0 contents ks" "represents cfg contents ks m (H, Cs)" "2 \<le> n" "size_hint (h_buf H) < n"
  shows "case flush_and_wait (Suc turns) n cfg H of
      Inl e \<Rightarrow> e = HRingFatal \<and> h_ckpt H \<noteq> None
    | Inr H' \<Rightarrow> size_hint (h_buf H') = 0 \<and> represents cfg contents ks m (H', Cs) \<and> h_viper H' = h_viper H
        \<and> (\<forall>k \<in> ks. m k = indexed cfg (the (h_cold H')) (h_viper H') k)"
proof -
  obtain g where inv: "hiom_inv cfg contents ks g H Cs" and m: "\<forall>k \<in> ks. m k = stored cfg g H k" using assms(2) by (auto simp: represents_def)
  have "all_below contents n H" using hint_bounds [OF index_invD(4) [OF hiom_invD(1) [OF inv]]] by (rule below_mono) (use assms(4) in simp)
  then have D: "drainable n cfg contents ks {} g H" using hiom_invD(1) [OF inv] by (simp add: drainable_def)
  note fl = flush_and_wait_effect [OF assms(1) D assms(3), of "Suc turns"]
  show ?thesis
  proof (cases "flush_and_wait (Suc turns) n cfg H")
    case (Inl e) then show ?thesis using fl by (auto simp: drained_Inl aborts_def)
  next
    case (Inr H')
    then have d: "drainable n cfg contents ks {} g H'" "emptied contents {..<kNumLanes} H H'" using fl by (simp_all add: drained_Inr)
    then have I: "index_inv cfg contents ks {} g H'" by (simp add: drainable_def)
    note h = hiom_inv_emptied [OF inv d(2) I]
    have pend: "pending_of cfg contents H' k = {}" for k using emptied_lane [OF d(2)] by (auto simp: pending_of_def)
    have "m k = indexed cfg (the (h_cold H')) (h_viper H') k" if k: "k \<in> ks" for k
    proof (cases "g k")
      case None then show ?thesis using index_invD(9) [OF I k] m k by (simp add: indexed_def stored_def cold_of_def)
    next
      case (Some off)
      then have "cold_of cfg H' k = Some off" using index_invD(8) [OF I Some] pend by (simp add: key_ok_def backed_def)
      then show ?thesis using Some m k h(2) by (simp add: indexed_def cold_of_def) (metis (mono_tags) option.simps(5) stored_def)
    qed
    moreover have "represents cfg contents ks m (H', Cs)" unfolding represents_def using h m by auto
    ultimately show ?thesis using Inr emptied_hint [OF d] d(2) by (auto simp: emptied_def)
  qed
qed

section \<open>The small instance\<close>

definition small_hiom :: "(u64, nat, CommitEntry list) HiOM" where
  "small_hiom = hiom_new [] second_slot_store (2 ^ 0) (Some second_slot_cold) None"

definition small_hclient :: HClient where
  "small_hclient = \<lparr>hc_viper = small_client, hc_seq = 0, hc_slot = None\<rparr>"

lemma small_setting: "setting small_hcfg [] mset {5, 6}"
proof -
  have f: "vcfg small_hcfg = small_cfg" "keys small_hcfg = small_keys" "q_enq small_hcfg = list_enq" "q_deq small_hcfg = list_deq"
    "num_flushers small_hcfg = 1" "mset (bulk_sort small_hcfg M es) = mset es" for M es by (simp_all add: small_hcfg_def)
  have "key_fingerprint small_keys 6 = 6" by (simp add: key_fingerprint_def small_keys_def Let_def)
  then show ?thesis using list_queue_ok unfolding setting_def f by (simp add: cfg_ok_def small_codes) (simp add: small_cfg_def)
qed

lemma small_represents: "represents small_hcfg mset {5, 6} [5 \<mapsto> 50] (small_hiom, [small_hclient])"
proof -
  have f: "vcfg small_hcfg = small_cfg" "keys small_hcfg = small_keys" "q_enq small_hcfg = list_enq" "q_deq small_hcfg = list_deq" by (simp_all add: small_hcfg_def)
  have off: "make_offset 0 0 1 \<noteq> kTombstoneOffset" by (simp add: make_offset_def KeyValueOffset_def kTombstoneOffset_def)
  let ?ct = "snd (cold_create 1 1)"
  note ci = cold_create_inv [OF small_fits]
  have l6: "cold_lookup second_slot_cold 6 6 = None"
    using cold_upsert_effect(2,3) [OF ci(1) off, of 5 5] ci(2) unfolding second_slot_cold_def
    by (cases "fst (cold_upsert ?ct 5 5 (make_offset 0 0 1))") (simp_all add: same_cell_def del: One_nat_def)
  have al: "\<forall>r < 32. next_overflow_alloc (regions second_slot_cold ! r) = 0" by code_simp
  have "card (absent_cells {(5, 5), (6, 6)} second_slot_cold r) \<le> card {(6 :: u64, 6 :: u64)}" for r
    by (rule card_mono) (use second_slot_lookup(2) in \<open>auto simp: absent_cells_def\<close>)
  then have "ample {(5, 5), (6, 6)} second_slot_cold" using al unfolding ample_def kNumRegions_def
    by (simp add: second_slot_cold_def cold_upsert_def cold_create_def Let_def split: prod.splits)
  then have ample: "ample (cells_of small_keys {5, 6}) second_slot_cold" by (simp add: cells_of_def small_codes)
  have rec: "records small_cfg second_slot_store (locate (make_offset 0 0 1)) = Some (5, 50)"
    using second_slot_index(3) by (simp add: second_slot_records)
  have live: "\<not> is_tombstone off \<and> (\<exists>v. records small_cfg second_slot_store (locate off) = Some (k, v))"
    if "k \<in> {5, 6}" "cold_lookup second_slot_cold (key_fingerprint64 small_keys k) (key_id_of small_keys k) = Some off" for k off
    using that second_slot_lookup(2) l6 rec by (auto simp: small_codes is_tombstone_def make_offset_def KeyValueOffset_def INVALID_OFFSET_def)
  have sys: "sys_inv small_cfg second_slot_store (map hc_viper [small_hclient])" using second_slot_inv by (simp add: small_hclient_def)
  have R: "represents small_hcfg mset {5, 6} (indexed small_hcfg second_slot_cold second_slot_store) (small_hiom, [small_hclient])"
    unfolding small_hiom_def
    by (rule new_represents [where cfg = small_hcfg, unfolded f, OF list_queue_ok second_slot_lookup(1) sys _ _ _ ample live])
      (simp_all add: second_slot_store_def small_store_def)
  have "indexed small_hcfg second_slot_cold second_slot_store k = [5 \<mapsto> 50] k" if "k \<in> {5, 6}" for k
    using that second_slot_lookup(2) l6 rec by (auto simp: indexed_def f small_codes value_at_def)
  then show ?thesis using R unfolding represents_def by auto
qed

theorem hiom_is_map_witness:
  "\<exists>s'. hiom_run 10 small_hcfg [OpPut 0 0 6 60, OpGet 6, OpFlush, OpGet 5] (small_hiom, [small_hclient])
      = Inr ([OutDone, OutVal (Some 60), OutDone, OutVal (Some 50)], s') \<and> represents small_hcfg mset {5, 6} [5 \<mapsto> 50, 6 \<mapsto> 60] s'"
proof -
  let ?xs = "[OpPut 0 0 6 60, OpGet 6, OpFlush, OpGet 5] :: (u64, nat) hiom_op list"
  have f: "h_ckpt small_hiom = None" "size_hint (h_buf small_hiom) = 0" "h_viper small_hiom = second_slot_store"
    by (simp_all add: small_hiom_def hiom_new_def size_hint_def new_buffer_def sum_list_replicate)
  have ok: "\<forall>x \<in> set ?xs. op_ok small_hcfg {5, 6} (length [small_hclient]) x" by (simp add: op_ok_def)
  have "fst (current_block_page (h_viper small_hiom)) + sum_list (map put_cost ?xs) \<le> length (v_blocks (h_viper small_hiom))"
    by (simp add: f put_cost_def) (simp add: second_slot_store_def small_store_def)
  from hiom_is_map [OF small_setting small_represents ok _ _ this, of 10] obtain outs s' m' where
    run: "hiom_run 10 small_hcfg ?xs (small_hiom, [small_hclient]) = Inr (outs, s')" and spec: "spec_run ?xs outs [5 \<mapsto> 50] = Some m'"
    and rep: "represents small_hcfg mset {5, 6} m' s'"
    by (auto simp: f simp del: hiom_run.simps spec_run.simps split: sum.splits)
  obtain a b c d where outs: "outs = [a, b, c, d]" using spec_run_length [OF spec] by (auto simp: length_Suc_conv)
  have "outs = [OutDone, OutVal (Some 60), OutDone, OutVal (Some 50)] \<and> m' = [5 \<mapsto> 50, 6 \<mapsto> 60]"
    using spec unfolding outs by (auto split: option.splits hiom_out.splits if_splits)
  then show ?thesis using run rep by blast
qed

theorem flush_returns_witness:
  "\<exists>H'. flush_and_wait 1 2 small_hcfg small_hiom = Inr H' \<and> size_hint (h_buf H') = 0"
proof -
  have f: "h_ckpt small_hiom = None" "size_hint (h_buf small_hiom) = 0"
    by (simp_all add: small_hiom_def hiom_new_def size_hint_def new_buffer_def sum_list_replicate)
  show ?thesis using flush_returns [OF small_setting small_represents, of 2 0] by (auto simp: f simp del: flush_and_wait.simps split: sum.splits)
qed

end
