(* ===== verification/Hiom_Remove.thy ===== *)
theory Hiom_Remove
  imports Hiom_Drain
begin

text \<open>
  Removing a key through HiOM, and what a read finds before the removal has been flushed: the hot tier
  and the newest record are gone at once, the cold tier still has the offset of the last flush.
\<close>

lemma verified_blocks: "v_blocks V' = v_blocks V \<Longrightarrow> verified V' k off = verified V k off"
  by (simp add: verified_iff slot_free_def lock_at_def Viper_Store.entry_at_def page_at_def)

lemma resolver_hot:
  assumes "ht_inv (h_hot H)" "hot_of cfg H k = Some off" "verified V k off"
  shows "old_offset_resolver (keys cfg) (h_base H) (h_hot H) cold V k = off"
  using hot_lookup_effect [OF assms(1), of "key_fingerprint (keys cfg) k"] assms(2,3)
  by (auto simp: old_offset_resolver_def hot_of_def Let_def split: option.splits)

text \<open>A read of a key that the hot tier does not hold follows the cold tier.\<close>

lemma get_cold:
  assumes ht: "ht_inv (h_hot H)" and miss: "peek (h_hot H) (key_fingerprint (keys cfg) k) = None" and cold: "h_cold H \<noteq> None"
    and sh: "store_shape (vcfg cfg) (h_viper H)" and pt: "\<And>off. cold_of cfg H k = Some off \<Longrightarrow> points_into (vcfg cfg) (h_viper H) off"
  shows "fst (hiom_get cfg k H) = (case cold_of cfg H k of None \<Rightarrow> None
    | Some off \<Rightarrow> if is_tombstone off then None else value_at (vcfg cfg) (h_viper H) k off)"
proof -
  obtain hot where "hot_lookup (h_hot H) (key_fingerprint (keys cfg) k) = (None, hot)"
    using hot_lookup_effect [OF ht, of "key_fingerprint (keys cfg) k"] miss by (metis prod.collapse)
  then have get: "hiom_get cfg k H = resolve_slow cfg k (H\<lparr>h_hot := hot\<rparr>)" by (simp add: hiom_get_def)
  show ?thesis
  proof (cases "cold_of cfg H k")
    case None then show ?thesis using cold by (auto simp: get resolve_slow_def cold_of_def)
  next
    case (Some off)
    then show ?thesis using cold verify_and_read_effect(1) [OF sh pt [OF Some], of k]
      by (auto simp: get resolve_slow_def cold_of_def split: prod.splits option.splits)
  qed
qed

text \<open>C40. Removing a key and reading it back before the next flush. When the hot tier leads to a readable
  record of the key, a remove succeeds and frees exactly that record. A read then finds what the cold
  tier last learned: nothing, if it does not have the key or has the freed offset. If it has an older
  offset whose record is still live (a put leaves the previous record in place when both lie on the page
  it writes), the read returns the older value of the removed key.\<close>

theorem remove_then_get:
  fixes H :: "('k, 'v, 'q) HiOM"
  assumes inv: "sys_inv (vcfg cfg) (h_viper H) (map hc_viper Cs)" and i: "i < length Cs" and own: "hiom_owns_index (h_viper H)"
    and ht: "ht_inv (h_hot H)" and cold: "h_cold H = Some c" and idx: "index_ok (vcfg cfg) (keys cfg) (h_base H) (h_hot H) c (h_viper H) k"
    and hot: "hot_of cfg H k = Some off" "\<not> is_tombstone off" "verified (h_viper H) k off"
  shows "\<exists>H' C'. hiom_remove cfg k H (Cs ! i) = Inr (True, H', C')
    \<and> records (vcfg cfg) (h_viper H') = (records (vcfg cfg) (h_viper H))(locate off := None)
    \<and> fst (hiom_get cfg k H') = (case cold_of cfg H k of None \<Rightarrow> None
        | Some old \<Rightarrow> if is_tombstone old \<or> locate old = locate off then None else value_at (vcfg cfg) (h_viper H) k old)"
proof -
  let ?vc = "vcfg cfg" and ?V = "h_viper H" and ?fp = "key_fingerprint (keys cfg) k"
  let ?res = "old_offset_resolver (keys cfg) (h_base H) (h_hot H) c" and ?V1 = "(h_viper H)\<lparr>hiom_map_skipped := hiom_map_skipped (h_viper H) + 1\<rparr>"
  have res: "?res ?V1 k = off" by (rule resolver_hot [OF ht hot(1)]) (subst verified_blocks [of _ ?V], simp_all add: hot(3))
  have "\<forall>V'. extends ?vc ?V V' \<longrightarrow> points_into ?vc V' (?res V' k)" using resolver_points [OF ht idx] by blast
  then obtain V' C' where R: "remove ?vc (Some ?res) k ?V (map hc_viper Cs ! i) = Some (True, V', C')"
    "records ?vc V' = (records ?vc ?V)(locate off := None)" "sys_inv ?vc V' ((map hc_viper Cs)[i := C'])"
    "length (v_blocks V') = length (v_blocks ?V)" "\<forall>b p. used_word (version_lock (page_at ?V b p)) \<longrightarrow> used_word (version_lock (page_at V' b p))"
    using remove_effect [OF inv _ own, of i ?res k] i hot(2) unfolding res Let_def by auto
  let ?T = "touch cfg k H"
  let ?hot = "snd (hot_remove (h_hot ?T) ?fp)"
  have htT: "ht_inv (h_hot ?T)" using hot_lookup_effect [OF ht, of ?fp] cold by (simp add: touch_def)
  have hr: "ht_inv ?hot" "peek ?hot ?fp = None" using hot_remove_effect [OF htT fingerprint_nonzero, of "keys cfg" k] by simp_all
  obtain H' C2 where run: "hiom_remove cfg k H (Cs ! i) = Inr (True, H', C2)"
    and f: "h_viper H' = V'" "h_hot H' = ?hot" "h_cold H' = Some c"
    using R(1) i cold by (auto simp: hiom_remove_def installed_resolver_def push_commit_def tracked_def next_seq_def make_key_hash_fields touch_def Let_def)
  have cf: "cold_of cfg H' k = cold_of cfg H k" by (simp add: cold_of_def f cold)
  have sh: "store_shape ?vc V'" using R(3) by (simp add: sys_inv_def store_inv_def)
  have pt: "points_into ?vc V' old" if "cold_of cfg H k = Some old" for old
  proof -
    have "points_into ?vc ?V old" using idx that cold by (simp add: index_ok_def tier_offsets_def cold_of_def)
    then show ?thesis using R(4,5) by (auto simp: points_into_def in_range_def)
  qed
  have "fst (hiom_get cfg k H') = (case cold_of cfg H k of None \<Rightarrow> None
      | Some old \<Rightarrow> if is_tombstone old then None else value_at ?vc V' k old)"
    using get_cold [of H' cfg k] hr sh pt unfolding f cf by simp
  then show ?thesis using run R(2) by (auto simp: f value_at_def split: option.splits)
qed

section \<open>The older record on the same page\<close>

text \<open>Block 0 of the small store with two live records of key 5: the older one is in the cold tier, the hot tier
  leads to the newer one.\<close>

definition two_records_store :: "(u64, nat) Viper" where
  "two_records_store = small_store\<lparr>v_blocks := [[\<lparr>version_lock = 192, free_slots = [False, False], page_data = [(5, 51), (5, 50)]\<rparr>],
     [\<lparr>version_lock = 0, free_slots = [False, False], page_data = [(0, 0), (0, 0)]\<rparr>]]\<rparr>"

definition two_records_hiom :: "(u64, nat, CommitEntry list) HiOM" where
  "two_records_hiom = (hiom_new [] two_records_store 1 (Some second_slot_cold) None)
     \<lparr>h_hot := snd (hot_upsert (hot_new 1) 5 (the (encode_kv zero_base_map (make_offset 0 0 0))))\<rparr>"

lemma two_records: "records small_cfg two_records_store x = (if x = (0, 0, 0) then Some (5, 51) else if x = (0, 0, 1) then Some (5, 50) else None)"
  by (cases x) (auto simp: records_def small_cfg_def two_records_store_def small_store_def page_at_def used_word_bit less_Suc_eq
      numeral_2_eq_2 nth_Cons')

lemma two_records_inv: "sys_inv small_cfg two_records_store [small_client]"
proof -
  have "store_shape small_cfg two_records_store"
    by (auto simp: store_shape_def page_shape_def small_cfg_def two_records_store_def small_store_def page_at_def less_Suc_eq numeral_2_eq_2)
  then have "store_inv small_cfg two_records_store"
    by (simp add: store_inv_def two_records) (simp add: two_records_store_def small_store_def small_cfg_def)
  moreover have "client_ok small_cfg two_records_store small_client"
    by (simp add: client_ok_def two_records)
      (simp add: small_client_def new_client_def two_records_store_def small_store_def small_cfg_def in_range_def writable_def page_at_def
        used_word_bit locked_bit)
  ultimately show ?thesis by (simp add: sys_inv_def)
qed

lemma two_records_hot: "ht_inv (h_hot two_records_hiom)" "hot_of small_hcfg two_records_hiom 5 = Some (make_offset 0 0 0)"
proof -
  show "ht_inv (h_hot two_records_hiom)" using hot_upsert_effect [OF second_slot_index(1), of 5] by (simp add: two_records_hiom_def)
  have "map_option (decode_kv zero_base_map) (peek (snd (hot_upsert (hot_new 1) 5 (the (encode_kv zero_base_map (make_offset 0 0 0))))) 5) = Some (make_offset 0 0 0)"
    by code_simp
  then show "hot_of small_hcfg two_records_hiom 5 = Some (make_offset 0 0 0)"
    by (simp add: hot_of_def two_records_hiom_def hiom_new_def small_hcfg_def small_codes)
qed

theorem remove_then_get_witness:
  "\<exists>H' C'. hiom_remove small_hcfg 5 two_records_hiom \<lparr>hc_viper = small_client, hc_seq = 0, hc_slot = None\<rparr> = Inr (True, H', C')
    \<and> fst (hiom_get small_hcfg 5 H') = Some 50"
proof -
  let ?C = "\<lparr>hc_viper = small_client, hc_seq = 0, hc_slot = None\<rparr>" and ?H = two_records_hiom and ?new = "make_offset 0 0 0" and ?old = "make_offset 0 0 1"
  have c: "vcfg small_hcfg = small_cfg" "keys small_hcfg = small_keys" by (simp_all add: small_hcfg_def)
  have f: "h_viper ?H = two_records_store" "h_cold ?H = Some second_slot_cold" "h_base ?H = zero_base_map" by (simp_all add: two_records_hiom_def hiom_new_def)
  have l: "locate ?new = (0, 0, 0)" "locate ?old = (0, 0, 1)" by (rule locate_make; simp)+
  have nt: "\<not> is_tombstone ?new" "\<not> is_tombstone ?old" by (simp_all add: make_offset_def is_tombstone_def KeyValueOffset_def INVALID_OFFSET_def)
  have cold: "cold_of small_hcfg ?H 5 = Some ?old" using second_slot_lookup(2) by (simp add: cold_of_def f c small_codes)
  have "tier_offsets small_keys zero_base_map (h_hot ?H) second_slot_cold 5 \<subseteq> {?new, ?old}"
    using two_records_hot(2) cold by (auto simp: tier_offsets_def hot_of_def cold_of_def f c small_codes)
  then have idx: "index_ok small_cfg small_keys zero_base_map (h_hot ?H) second_slot_cold two_records_store 5"
    using records_points [of small_cfg two_records_store ?new] records_points [of small_cfg two_records_store ?old] l
    unfolding index_ok_def by (auto simp: two_records)
  have ver: "verified two_records_store 5 ?new"
    by (simp add: verified_iff slot_free_def lock_at_locate [OF l(1)] Viper_Store.entry_at_def l two_records_store_def page_at_def locked_bit)
  have own: "hiom_owns_index two_records_store" by (simp add: two_records_store_def small_store_def)
  have val: "value_at small_cfg two_records_store 5 ?old = Some 50" by (simp add: value_at_def l two_records del: One_nat_def)
  show ?thesis
    using remove_then_get [where cfg = small_hcfg and H = ?H and Cs = "[?C]" and i = 0 and k = 5, unfolded c f, OF _ _ own two_records_hot(1) refl idx two_records_hot(2) nt(1) ver]
      two_records_inv cold nt(2) val l by (auto simp del: One_nat_def)
qed

end
