(* ===== verification/Spec2Isabelle.thy ===== *)
theory Spec2Isabelle
  imports Offset_Codec Checkpoint_AB Hot_Tier_Props Cold_Crash Commit_Buffer Pmem Viper_Lock Cceh_Props Viper_Recovery Viper_Pool Viper_Strings_Props Frontier_Protocol Hiom_Map Hiom_Remove
begin

text \<open>
  A verification of HiOM, a hybrid index for the Viper persistent-memory key-value store (the header-only
  C++ library under src/include/viper).

  \<^bold>\<open>The program.\<close> Viper (viper.hpp) stores records of fixed size (or strings) in pages of persistent memory. A client owns a
  block of pages, locks its page, writes a record into a free slot and frees the slot of the record it
  replaces. Plain Viper finds records through an extendible hash map in DRAM (cceh.hpp). HiOM
  (hiom/hiom.hpp) replaces that map by a hot tier in DRAM (hiom/hot_tier.hpp), which caches 32-bit compact
  offsets (hiom/offset_codec.hpp) by 32-bit fingerprint, and a cold tier in persistent memory
  (hiom/cold_tier.hpp), the authoritative index by 64-bit fingerprint and key identity. A write goes into the
  hot tier as a pinned entry and into a commit buffer of eight lanes (hiom/commit_buffer.hpp); flushers drain
  the lanes into the cold tier, release the pins, retire the blocks from a ring of pending blocks and write
  an A/B checkpoint (hiom/checkpoint.hpp) of a durable frontier. After a crash the records above the frontier
  are replayed into the cold tier. Viper asks HiOM for the old offset of a key through a resolver callback.

  \<^bold>\<open>Theories, models and results.\<close> Operations are functions on explicit state, named after the code.

  \<^item> Hiom_Prelude: word types, scans over indices, shared lemmas. Map_Interfaces: two contracts as locales,
    \<open>cache_map\<close> (a probe returns nothing or the last value written; interpreted by both ways of writing the
    hot tier) and \<open>durable_map\<close> (an exact finite map; interpreted by the cold tier).
  \<^item> Offset_Codec (offset_codec.hpp; KeyValueOffset of cceh.hpp): bit fields, \<open>encode\<close> with all its rejections,
    \<open>decode\<close>. Round trip and coverage.
  \<^item> Checkpoint_AB (checkpoint.hpp): file image, \<open>ckpt_write\<close>, \<open>read_valid\<close>, the FNV hash. Crash atomicity,
    histories, detection of a corrupted byte.
  \<^item> Hot_Tier, Hot_Tier_Props (hot_tier.hpp): buckets of sixteen packed words, SIEVE eviction, both upserts,
    scalar and vector lookup, slot states. Coherence over operation sequences; pinned entries survive;
    outcomes of a pinned upsert; the flush hand-shake; the vector scan equals the scalar one.
  \<^item> Cold_Tier, Cold_Tier_Props, Cold_Bulk, Cold_Capacity, Cold_Persist, Cold_Crash (cold_tier.hpp): regions, buckets, overflow chains,
    upsert, lookup, remove, bulk upsert by bucket groups, scans. Refinement of a finite map, equivalence of
    the bulk path with single upserts, exact failure condition, how many overflow buckets rule it out. Cold_Persist has an
    upsert as its sequence of stores and persists at the addresses of the file, and the images that a power failure between any
    two of them can leave: each cache line as it was at some moment since it was last flushed. Cold_Crash compares lookups
    in these images with those before: other keys are safe, the written key may read the residue of a slot that straddles two
    lines, and the unpersisted allocation cursor can cost an acknowledged key. Bulk upserts have no crash theorem.
  \<^item> Commit_Buffer (commit_buffer.hpp; lane ownership of hiom.hpp): whole calls, and one lane at the granularity
    of its atomic accesses. Conservation of entries, ownership of lanes, soundness of a zero size hint, and
    the lost wake-up of the non-empty mask. The queue of a lane is third-party; its two operations are
    parameters and \<open>queue_ok\<close> states what is used of them; a list satisfies it.
  \<^item> Pmem (persist primitives of viper.hpp): memory as cached and durable bytes, \<open>clwb\<close> and \<open>sfence\<close>. Exactly
    which ranges \<open>pmem_persist\<close> makes durable, and two callers whose range is not.
  \<^item> Viper_Lock (viper.hpp): the one-byte version lock, the lock-intent registry, stale-lock repair and
    optimistic reads, interleaved access by access. Safety of repair with one repairer, failure with two;
    reads are not torn within 32 lock cycles, and can be at 32.
  \<^item> Cceh, Cceh_Props (cceh.hpp): segments, claim values, splits, directory doubling. Inserts return, the key reads
    its offset and the other keys read theirs, through splits, as long as no pair has wrapped around the end of a
    segment; two ways in which an entry is lost.
  \<^item> Viper_Store, Viper_Store_Props, Viper_Recovery (viper.hpp): pages, blocks, clients, allocation, put, get,
    update, remove, scans, recovery, compaction and reclamation. Put, remove and update change exactly the
    records they should and keep the invariant \<open>sys_inv\<close> of the store and of all clients; recovery visits
    exactly the live records.
  \<^item> Viper_Pool (viper.hpp): layout, creation, opening and extension of DRAM, DAX and file pools with their
    errors, blocks in mappings, prefaulting. Block numbers denote the same bytes after a reopen; prefaulting
    touches only what it may.
  \<^item> Viper_Strings, Viper_Strings_Props (the \<open>std::string\<close> specialisations of viper.hpp): byte pages, entry
    headers, put with split records, get, remove, compaction, reclamation. Read after write and preservation
    of all other records, with the exact size limits that the code does not check.
  \<^item> Pending_Ring, Frontier_Protocol (hiom.hpp): the tagged ring as an exact multiset (locale \<open>pending_bag\<close>),
    client slots, and the durable-frontier protocol as a step relation of writers, flushers and the
    checkpoint. The frontier is safe when clients are created between checkpoints and publish a block before
    the next one; without that discipline a record can end up below it.
  \<^item> Hiom_Core, Hiom_Client (hiom.hpp): the front end, from the resolvers, winner selection, batch application
    and draining to the operations of a client, construction with tail recovery, warming and shutdown.
  \<^item> Hiom_Reads, Hiom_Props, Hiom_Recovery: the bounded read loop returns the record because a stale lock is
    repaired on the way; what the resolver can report; a reopened instance reads exactly the live records when
    the frontier is safe and each key has one record; and the put whose old record on the same page stays
    behind, so that a crash can bring the old value back.
  \<^item> Hiom_Drain, Hiom_Flush, Hiom_Refine, Hiom_Map: the front end as a whole. The invariant \<open>index_inv\<close> ties hot
    tier, commit buffer, cold tier and records together: a function from keys to current offsets such that
    the record there is live, the hot tier has nothing or the current offset, and the offset is in the cold
    tier or carried by a buffered entry that wins its batch; buffered entries keep their hot slots pinned.
    A batch keeps it and empties its lane, so the drain loops end; a put, with back-pressure and the
    synchronous drain of an unpinned write, moves the function at one key; gets and updates read through it.
    Every run of these operations is a run of a finite map, and a flush leaves the whole map in the cold
    tier. Hiom_Remove: what a read finds after a removal that has not been flushed, an older value included.

  \<^bold>\<open>Bounds and fuel.\<close> Loops that the code bounds keep the bound of the code (sixteen upsert retries, two SIEVE
  rounds, 1024 read retries, 32 back-pressure retries). Chain walks in the cold tier carry fuel one more than
  the number of allocated overflow buckets, which the invariant shows to be enough. The retry loop of an insert into the extendible hash map carries fuel; each round that does not return makes the
  segment of the key one bit deeper, and 64 rounds are enough when fewer than eight of its pairs share the full hash of the
  key (sixteen pairs with one hash fill the window at any depth). A put visits at most two
  pages, which is enough because a fresh page has room. The drain loops take their bound as an argument and
  report \<open>HStuck\<close> when it is used up; more calls than buffered entries for a lane, two rounds for a flusher,
  three for the synchronous drain and one turn for \<open>flush_and_wait\<close> are shown to be enough. Words keep the width of the code; counters that the code keeps in
  64 bits and that count operations are natural numbers where a wrap is out of reach.

  \<^bold>\<open>Assumptions.\<close> Front-end calls run one at a time, except where a theory interleaves them (Viper_Lock,
  Commit_Buffer, Frontier_Protocol); a wait for flushers is a turn of the flushers. The crash theorems of
  the checkpoint assume that a persist flushes its whole argument; Pmem says when it does, and Cold_Persist follows the lines that it flushes. Memory
  order is total store order, as the code assumes. Hash functions are parameters; the runs of Hiom_Map use keys without a
  fingerprint collision, a cold tier with an overflow bucket for each key it lacks, and no removals.

  \<^bold>\<open>Not modelled.\<close> The operating-system calls themselves (their answers are parameters); statistics,
  profiling and timing (no operation depends on them); benchmarks, evaluation scripts, tests and the example
  program (they only call the library).
\<close>

end
